(* ===== verification/Prelude.thy ===== *)
theory Prelude
  imports Main "HOL-Library.Word"
begin

text \<open>
  Shared material of the development: machine-integer types and constants of the
  64-bit ABI the sources are written for, alignment macros of
  \<^verbatim>\<open>common/include/api.h\<close>, and list lemmas that several components use.
\<close>

unbundle bit_operations_syntax

named_theorems vma_simps

section \<open>Machine integers, alignment and error numbers\<close>

text \<open>
  Addresses, lengths and offsets (\<^verbatim>\<open>uintptr_t\<close>, \<^verbatim>\<open>size_t\<close>, \<^verbatim>\<open>uint64_t\<close>) are naturals; where an
  operation of the source can wrap, the reduction modulo \<open>2 ^ 64\<close> is written out with \<open>u64\<close>.
  Bit masks (\<^verbatim>\<open>int\<close> flags) are 32-bit words. A function that returns a negative error number
  in C returns an integer.
\<close>

type_synonym addr = nat
type_synonym flags = "32 word"
type_synonym tid = "32 word"

definition u64 :: "nat \<Rightarrow> nat" where
  "u64 n = n mod 2 ^ 64"

definition ALLOC_ALIGNMENT :: nat where
  "ALLOC_ALIGNMENT = 4096"

definition IS_ALLOC_ALIGNED :: "nat \<Rightarrow> bool" where
  "IS_ALLOC_ALIGNED n \<longleftrightarrow> n mod ALLOC_ALIGNMENT = 0"

definition ALLOC_ALIGN_DOWN :: "nat \<Rightarrow> nat" where
  "ALLOC_ALIGN_DOWN n = n - n mod ALLOC_ALIGNMENT"

definition ALLOC_ALIGN_UP :: "nat \<Rightarrow> nat" where
  "ALLOC_ALIGN_UP n = ALLOC_ALIGN_DOWN (u64 (n + ALLOC_ALIGNMENT - 1))"

abbreviation has_flag :: "flags \<Rightarrow> flags \<Rightarrow> bool" where
  "has_flag f m \<equiv> f AND m \<noteq> 0"

definition EPERM :: int where "EPERM = 1"
definition ENOENT :: int where "ENOENT = 2"
definition EINTR :: int where "EINTR = 4"
definition EBADF :: int where "EBADF = 9"
definition EAGAIN :: int where "EAGAIN = 11"
definition ENOMEM :: int where "ENOMEM = 12"
definition EACCES :: int where "EACCES = 13"
definition EFAULT :: int where "EFAULT = 14"
definition EEXIST :: int where "EEXIST = 17"
definition ENODEV :: int where "ENODEV = 19"
definition EINVAL :: int where "EINVAL = 22"
definition EMFILE :: int where "EMFILE = 24"
definition ENOSPC :: int where "ENOSPC = 28"
definition ERANGE :: int where "ERANGE = 34"
definition ENOSYS :: int where "ENOSYS = 38"
definition EOVERFLOW :: int where "EOVERFLOW = 75"
definition EOPNOTSUPP :: int where "EOPNOTSUPP = 95"

lemmas errno_defs = EPERM_def ENOENT_def EINTR_def EBADF_def EAGAIN_def ENOMEM_def EACCES_def
  EFAULT_def EEXIST_def ENODEV_def EINVAL_def EMFILE_def ENOSPC_def ERANGE_def ENOSYS_def
  EOVERFLOW_def EOPNOTSUPP_def

lemma errno_pos [simp]:
  "0 < EPERM" "0 < ENOENT" "0 < EINTR" "0 < EBADF" "0 < EAGAIN" "0 < ENOMEM" "0 < EACCES"
  "0 < EFAULT" "0 < EEXIST" "0 < ENODEV" "0 < EINVAL" "0 < EMFILE" "0 < ENOSPC" "0 < ERANGE"
  "0 < ENOSYS" "0 < EOVERFLOW" "0 < EOPNOTSUPP"
  by (simp_all add: errno_defs)

lemma errno_ge [simp]:
  "0 \<le> EPERM" "0 \<le> ENOENT" "0 \<le> EINTR" "0 \<le> EBADF" "0 \<le> EAGAIN" "0 \<le> ENOMEM" "0 \<le> EACCES"
  "0 \<le> EFAULT" "0 \<le> EEXIST" "0 \<le> ENODEV" "0 \<le> EINVAL" "0 \<le> EMFILE" "0 \<le> ENOSPC" "0 \<le> ERANGE"
  "0 \<le> ENOSYS" "0 \<le> EOVERFLOW" "0 \<le> EOPNOTSUPP"
  by (simp_all add: errno_defs)

lemma errno_nz [simp]:
  "EPERM \<noteq> 0" "ENOENT \<noteq> 0" "EINTR \<noteq> 0" "EBADF \<noteq> 0" "EAGAIN \<noteq> 0" "ENOMEM \<noteq> 0" "EACCES \<noteq> 0"
  "EFAULT \<noteq> 0" "EEXIST \<noteq> 0" "ENODEV \<noteq> 0" "EINVAL \<noteq> 0" "EMFILE \<noteq> 0" "ENOSPC \<noteq> 0" "ERANGE \<noteq> 0"
  "ENOSYS \<noteq> 0" "EOVERFLOW \<noteq> 0" "EOPNOTSUPP \<noteq> 0"
  by (simp_all add: errno_defs)

lemma u64_less [simp]: "u64 n < 2 ^ 64"
  by (simp add: u64_def)

lemma u64_id [simp]: "n < 2 ^ 64 \<Longrightarrow> u64 n = n"
  by (simp add: u64_def)

lemma aligned_add:
  "IS_ALLOC_ALIGNED a \<Longrightarrow> IS_ALLOC_ALIGNED b \<Longrightarrow> IS_ALLOC_ALIGNED (a + b)"
  by (metis IS_ALLOC_ALIGNED_def add_0 mod_add_eq mod_mod_trivial)

lemma aligned_diff:
  "IS_ALLOC_ALIGNED a \<Longrightarrow> IS_ALLOC_ALIGNED b \<Longrightarrow> IS_ALLOC_ALIGNED (a - b)"
  by (auto simp: IS_ALLOC_ALIGNED_def mod_eq_0_iff_dvd intro: dvd_diff_nat)

lemma aligned_max [simp]:
  "IS_ALLOC_ALIGNED a \<Longrightarrow> IS_ALLOC_ALIGNED b \<Longrightarrow> IS_ALLOC_ALIGNED (max a b)"
  by (simp add: max_def)

lemma aligned_min [simp]:
  "IS_ALLOC_ALIGNED a \<Longrightarrow> IS_ALLOC_ALIGNED b \<Longrightarrow> IS_ALLOC_ALIGNED (min a b)"
  by (simp add: min_def)

lemma aligned_u64: "IS_ALLOC_ALIGNED a \<Longrightarrow> IS_ALLOC_ALIGNED (u64 a)"
proof -
  have "(4096::nat) dvd 2 ^ 64" by (simp add: dvd_def exI [of _ "2 ^ 52"])
  then show "IS_ALLOC_ALIGNED a \<Longrightarrow> IS_ALLOC_ALIGNED (u64 a)"
    by (auto simp: IS_ALLOC_ALIGNED_def ALLOC_ALIGNMENT_def u64_def mod_eq_0_iff_dvd dvd_mod)
qed

lemma aligned_down [simp]: "IS_ALLOC_ALIGNED (ALLOC_ALIGN_DOWN n)"
  by (simp add: IS_ALLOC_ALIGNED_def ALLOC_ALIGN_DOWN_def minus_mod_eq_mult_div)

section \<open>Splitting an ordered list at a monotone predicate\<close>

text \<open>
  A predicate is monotone along a list when it stays true once it is true. A sorted container
  is searched with such predicates: they cut the list into a prefix where the predicate is
  false and a suffix where it is true.
\<close>

definition mono_along :: "('a \<Rightarrow> bool) \<Rightarrow> 'a list \<Rightarrow> bool" where
  "mono_along P xs = sorted_wrt (\<lambda>a b. P a \<longrightarrow> P b) xs"

lemma mono_along_append [simp]:
  "mono_along P (xs @ ys) \<longleftrightarrow>
     mono_along P xs \<and> mono_along P ys \<and> (\<forall>x\<in>set xs. \<forall>y\<in>set ys. P x \<longrightarrow> P y)"
  by (auto simp: mono_along_def sorted_wrt_append)

lemma mono_along_Cons [simp]:
  "mono_along P (x # xs) \<longleftrightarrow> (P x \<longrightarrow> (\<forall>y\<in>set xs. P y)) \<and> mono_along P xs"
  by (auto simp: mono_along_def)

lemma mono_along_Nil [simp]: "mono_along P []"
  by (simp add: mono_along_def)

lemma mono_alongI:
  assumes "sorted_wrt R xs" "\<And>a b. R a b \<Longrightarrow> P a \<Longrightarrow> P b"
  shows "mono_along P xs"
  using assms unfolding mono_along_def by (auto elim: sorted_wrt_mono_rel [rotated])

lemma takeWhile_hit [simp]:
  "P y \<Longrightarrow> takeWhile (\<lambda>z. \<not> P z) (xs @ y # ys) = takeWhile (\<lambda>z. \<not> P z) xs"
  by (induction xs) auto

lemma dropWhile_hit [simp]:
  "P y \<Longrightarrow> dropWhile (\<lambda>z. \<not> P z) (xs @ y # ys) = dropWhile (\<lambda>z. \<not> P z) xs @ y # ys"
  by (induction xs) auto

lemma mono_along_dropWhile:
  "mono_along P xs \<Longrightarrow> x \<in> set (dropWhile (\<lambda>z. \<not> P z) xs) \<Longrightarrow> P x"
  by (induction xs) (auto split: if_splits)

lemma mono_along_filter:
  assumes "mono_along P xs"
  shows "takeWhile (\<lambda>z. \<not> P z) xs = filter (\<lambda>z. \<not> P z) xs"
    and "dropWhile (\<lambda>z. \<not> P z) xs = filter P xs"
proof -
  have "takeWhile (\<lambda>z. \<not> P z) xs = filter (\<lambda>z. \<not> P z) xs \<and>
        dropWhile (\<lambda>z. \<not> P z) xs = filter P xs"
    using assms by (induction xs) (auto simp: filter_empty_conv)
  then show "takeWhile (\<lambda>z. \<not> P z) xs = filter (\<lambda>z. \<not> P z) xs"
    and "dropWhile (\<lambda>z. \<not> P z) xs = filter P xs" by auto
qed

lemma find_append:
  "List.find P (xs @ ys) = (case List.find P xs of None \<Rightarrow> List.find P ys | Some z \<Rightarrow> Some z)"
  by (induction xs) auto

lemma find_dropWhile:
  "List.find P xs = (case dropWhile (\<lambda>z. \<not> P z) xs of [] \<Rightarrow> None | z # zs \<Rightarrow> Some z)"
  by (induction xs) auto

section \<open>Threads\<close>

text \<open>How the number of threads at places of a kind changes when one thread moves.\<close>

lemma card_fun_upd:
  fixes p :: "tid \<Rightarrow> 'a"
  shows "card {u. P ((p(t := x)) u)} + (if P (p t) then 1 else 0) = card {u. P (p u)} + (if P x then 1 else 0)"
proof -
  define A where "A = {u. u \<noteq> t \<and> P (p u)}"
  have "{u. P ((p(t := x)) u)} = (if P x then insert t A else A)" "{u. P (p u)} = (if P (p t) then insert t A else A)"
    by (auto simp: A_def)
  moreover have "card (insert t A) = Suc (card A)" by (simp add: A_def)
  ultimately show ?thesis by simp
qed

end
