(* ===== verification/Memmgr.thy ===== *)
theory Memmgr
  imports Prelude
begin

text \<open>
  The object manager of \<^verbatim>\<open>common/include/memmgr.h\<close>, from which the LibOS takes its region objects,
  handles and dentries: areas of equally sized objects, handed out in order, and a list of objects
  given back.

  An area is a number and its object count; areas are listed newest first (\<^verbatim>\<open>LISTP_ADD\<close> puts a
  new area at the head). An object is an area number and an index. The memory that
  \<^verbatim>\<open>system_malloc\<close> returns is the caller's: whether it succeeds is an argument.
\<close>

section \<open>Sizes\<close>

text \<open>\<open>o_sz\<close> is \<^verbatim>\<open>sizeof(MEM_OBJ_TYPE)\<close>; the manager and area headers have 48 and 24 bytes.\<close>

definition MEM_MGR_SZ :: nat where "MEM_MGR_SZ = 48"
definition MEM_AREA_SZ :: nat where "MEM_AREA_SZ = 24"

definition max_mem_size :: "nat \<Rightarrow> nat \<Rightarrow> nat" where
  "max_mem_size o_sz n = MEM_MGR_SZ + MEM_AREA_SZ + o_sz * n"

definition size_align_up :: "nat \<Rightarrow> nat \<Rightarrow> nat" where
  "size_align_up o_sz n =
     (let s = max_mem_size o_sz n - MEM_MGR_SZ;
          p = ALLOC_ALIGN_UP s - s
      in n + p div o_sz)"

definition init_align_up :: "nat \<Rightarrow> nat \<Rightarrow> nat" where
  "init_align_up o_sz n =
     (let s = max_mem_size o_sz n;
          p = ALLOC_ALIGN_UP s - s
      in n + p div o_sz)"

definition size_align_down :: "nat \<Rightarrow> nat \<Rightarrow> nat" where
  "size_align_down o_sz n =
     (let s = max_mem_size o_sz n - MEM_MGR_SZ;
          p = s - ALLOC_ALIGN_DOWN s
      in n - p div o_sz - (if p mod o_sz \<noteq> 0 then 1 else 0))"

definition init_align_down :: "nat \<Rightarrow> nat \<Rightarrow> nat" where
  "init_align_down o_sz n =
     (let s = max_mem_size o_sz n;
          p = s - ALLOC_ALIGN_DOWN s
      in n - p div o_sz - (if p mod o_sz \<noteq> 0 then 1 else 0))"

section \<open>The manager\<close>

type_synonym mem_obj = "nat \<times> nat"

record mem_mgr =
  area_list :: "(nat \<times> nat) list"
  free_list :: "mem_obj list"
  mgr_size :: nat
  obj :: nat
  obj_top :: nat
  active_area :: nat

definition set_free_mem_area :: "nat \<times> nat \<Rightarrow> mem_mgr \<Rightarrow> mem_mgr" where
  "set_free_mem_area area mgr =
     mgr\<lparr>mgr_size := mgr_size mgr + snd area, obj := 0, obj_top := snd area,
         active_area := fst area\<rparr>"

definition create_mem_mgr_in_place :: "nat \<Rightarrow> mem_mgr" where
  "create_mem_mgr_in_place n =
     set_free_mem_area (0, n)
       \<lparr>area_list = [(0, n)], free_list = [], mgr_size = 0, obj = 0, obj_top = 0, active_area = 0\<rparr>"

definition create_mem_mgr :: "bool \<Rightarrow> nat \<Rightarrow> mem_mgr option" where
  "create_mem_mgr malloc_ok n = (if malloc_ok then Some (create_mem_mgr_in_place n) else None)"

text \<open>A new area gets the next number; its memory is distinct from every other area's.\<close>

definition add_area :: "nat \<Rightarrow> mem_mgr \<Rightarrow> mem_mgr" where
  "add_area n mgr = mgr\<lparr>area_list := (length (area_list mgr), n) # area_list mgr\<rparr>"

definition enlarge_mem_mgr :: "bool \<Rightarrow> nat \<Rightarrow> mem_mgr \<Rightarrow> mem_mgr option" where
  "enlarge_mem_mgr malloc_ok n mgr = (if malloc_ok then Some (add_area n mgr) else None)"

text \<open>\<^verbatim>\<open>LISTP_PREV_ENTRY(mgr->active_area)\<close>: the entry just before the active one, if any.\<close>

fun prev_area :: "nat \<Rightarrow> (nat \<times> nat) list \<Rightarrow> (nat \<times> nat) option" where
  "prev_area a (x # y # zs) = (if fst y = a then Some x else prev_area a (y # zs))"
| "prev_area a _ = None"

definition take_obj :: "mem_mgr \<Rightarrow> mem_obj \<times> mem_mgr" where
  "take_obj mgr =
     (case free_list mgr of
        f # fs \<Rightarrow> (f, mgr\<lparr>free_list := fs\<rparr>)
      | [] \<Rightarrow> ((active_area mgr, obj mgr), mgr\<lparr>obj := obj mgr + 1\<rparr>))"

definition get_mem_obj_from_mgr_enlarge ::
  "bool \<Rightarrow> nat \<Rightarrow> mem_mgr \<Rightarrow> mem_obj option \<times> mem_mgr" where
  "get_mem_obj_from_mgr_enlarge malloc_ok n mgr =
     (if obj mgr = obj_top mgr \<and> free_list mgr = []
      then (case prev_area (active_area mgr) (area_list mgr) of
              Some area \<Rightarrow> map_prod Some id (take_obj (set_free_mem_area area mgr))
            | None \<Rightarrow>
                if n = 0 \<or> \<not> malloc_ok then (None, mgr)
                else (let mgr = add_area n mgr
                      in map_prod Some id (take_obj (set_free_mem_area (hd (area_list mgr)) mgr))))
      else map_prod Some id (take_obj mgr))"

definition get_mem_obj_from_mgr :: "mem_mgr \<Rightarrow> mem_obj option \<times> mem_mgr" where
  "get_mem_obj_from_mgr mgr = get_mem_obj_from_mgr_enlarge False 0 mgr"

text \<open>\<open>migrated\<close> says whether the object lies in memory restored from a checkpoint.\<close>

definition free_mem_obj_to_mgr :: "bool \<Rightarrow> mem_obj \<Rightarrow> mem_mgr \<Rightarrow> mem_mgr" where
  "free_mem_obj_to_mgr migrated x mgr =
     (if migrated then mgr else mgr\<lparr>free_list := free_list mgr @ [x]\<rparr>)"

text \<open>The areas \<^verbatim>\<open>destroy_mem_mgr\<close> gives back: each but the oldest, then manager and oldest.\<close>

definition destroy_mem_mgr :: "nat \<Rightarrow> mem_mgr \<Rightarrow> nat list" where
  "destroy_mem_mgr o_sz mgr =
     map (\<lambda>a. MEM_AREA_SZ + o_sz * snd a) (butlast (area_list mgr)) @
     [max_mem_size o_sz (snd (last (area_list mgr)))]"

section \<open>Invariant\<close>

definition area_size :: "mem_mgr \<Rightarrow> nat \<Rightarrow> nat" where
  "area_size mgr a = (case map_of (area_list mgr) a of Some n \<Rightarrow> n | None \<Rightarrow> 0)"

text \<open>
  The objects handed out at some time: all of the areas older than the active one and the first
  \<^verbatim>\<open>obj\<close> of the active one.
\<close>

definition issued :: "mem_mgr \<Rightarrow> mem_obj set" where
  "issued mgr = {(a, i). a < active_area mgr \<and> i < area_size mgr a} \<union>
     {(a, i). a = active_area mgr \<and> i < obj mgr}"

definition areas_ok :: "(nat \<times> nat) list \<Rightarrow> bool" where
  "areas_ok as \<longleftrightarrow> map fst as = rev [0..<length as] \<and> (\<forall>a\<in>set as. 0 < snd a)"

text \<open>\<open>live\<close> are the objects in use: each object handed out is either in use or on the free list.\<close>

definition mgr_ok :: "mem_obj set \<Rightarrow> mem_mgr \<Rightarrow> bool" where
  "mgr_ok live mgr \<longleftrightarrow> areas_ok (area_list mgr) \<and> active_area mgr < length (area_list mgr) \<and>
     obj_top mgr = area_size mgr (active_area mgr) \<and> obj mgr \<le> obj_top mgr \<and>
     distinct (free_list mgr) \<and> set (free_list mgr) \<inter> live = {} \<and>
     set (free_list mgr) \<union> live = issued mgr"

text \<open>The number of objects that can be handed out before new memory is needed.\<close>

definition avail :: "mem_mgr \<Rightarrow> nat" where
  "avail mgr = length (free_list mgr) + (obj_top mgr - obj mgr) +
     sum_list (map snd (filter (\<lambda>a. active_area mgr < fst a) (area_list mgr)))"

lemma areas_ok_Cons:
  "areas_ok (x # as) \<longleftrightarrow> fst x = length as \<and> 0 < snd x \<and> areas_ok as"
  by (auto simp: areas_ok_def)

lemma areas_ok_fst: "areas_ok as \<Longrightarrow> a \<in> set as \<Longrightarrow> fst a < length as"
  by (induction as) (auto simp: areas_ok_Cons)

lemma prev_area_absent: "\<forall>y\<in>set as. fst y \<noteq> a \<Longrightarrow> prev_area a as = None"
  by (induction a as rule: prev_area.induct) auto

lemma prev_area_next:
  "areas_ok as \<Longrightarrow> a < length as \<Longrightarrow>
     prev_area a as = (if Suc a < length as then Some (Suc a, the (map_of as (Suc a))) else None)"
proof (induction as)
  case (Cons x as)
  show ?case
  proof (cases as)
    case Nil
    with Cons.prems show ?thesis by simp
  next
    case (Cons y ys)
    with Cons.prems have x: "fst x = length as" "fst y = length ys" "areas_ok as"
      by (auto simp: areas_ok_Cons)
    show ?thesis
    proof (cases "fst y = a")
      case True
      with x Cons show ?thesis by (cases x) simp
    next
      case False
      have "prev_area a as = None" if "a = length as"
        using x(3) that by (intro prev_area_absent) (auto dest: areas_ok_fst)
      with False x Cons Cons.prems Cons.IH show ?thesis by (cases x) (auto simp: less_Suc_eq)
    qed
  qed
qed simp

lemma area_size_pos:
  assumes "areas_ok as" "a < length as"
  shows "\<exists>n. map_of as a = Some n \<and> 0 < n"
  using assms by (induction as) (auto simp: areas_ok_Cons less_Suc_eq)

lemma newer_areas_split:
  assumes "areas_ok as" "Suc a < length as"
  shows "sum_list (map snd (filter (\<lambda>x. a < fst x) as)) =
    the (map_of as (Suc a)) + sum_list (map snd (filter (\<lambda>x. Suc a < fst x) as))"
  using assms
proof (induction as)
  case (Cons x as)
  show ?case
  proof (cases "Suc a < length as")
    case True
    with Cons show ?thesis by (auto simp: areas_ok_Cons)
  next
    case False
    with Cons.prems have "length as = Suc a" by simp
    moreover from this have "filter (\<lambda>y. a < fst y) as = []" "filter (\<lambda>y. Suc a < fst y) as = []"
      using Cons.prems by (auto simp: filter_empty_conv areas_ok_Cons dest: areas_ok_fst)
    ultimately show ?thesis using Cons.prems by (cases x) (simp add: areas_ok_Cons)
  qed
qed simp

text \<open>Activating the next area neither issues nor loses objects.\<close>

lemma set_free_mem_area_ok:
  assumes ok: "mgr_ok live mgr" and full: "obj mgr = obj_top mgr"
    and prev: "prev_area (active_area mgr) (area_list mgr) = Some area"
  shows "mgr_ok live (set_free_mem_area area mgr)" "avail (set_free_mem_area area mgr) = avail mgr"
    and "obj (set_free_mem_area area mgr) < obj_top (set_free_mem_area area mgr)"
proof -
  have as: "areas_ok (area_list mgr)" "active_area mgr < length (area_list mgr)"
    using ok by (auto simp: mgr_ok_def)
  with prev have len: "Suc (active_area mgr) < length (area_list mgr)"
    and area: "area = (Suc (active_area mgr), area_size mgr (Suc (active_area mgr)))"
    using area_size_pos [OF as(1), of "Suc (active_area mgr)"]
    by (auto simp: prev_area_next area_size_def split: if_splits)
  obtain n where n: "map_of (area_list mgr) (Suc (active_area mgr)) = Some n" "0 < n"
    using area_size_pos [OF as(1) len] by auto
  have "issued (set_free_mem_area area mgr) = issued mgr"
    using ok full area
    by (auto simp: issued_def set_free_mem_area_def mgr_ok_def area_size_def less_Suc_eq)
  then show "mgr_ok live (set_free_mem_area area mgr)"
    using ok area len by (simp add: mgr_ok_def set_free_mem_area_def area_size_def)
  show "avail (set_free_mem_area area mgr) = avail mgr"
    using full area n newer_areas_split [OF as(1) len]
    by (simp add: avail_def set_free_mem_area_def area_size_def)
  show "obj (set_free_mem_area area mgr) < obj_top (set_free_mem_area area mgr)"
    using area n by (simp add: set_free_mem_area_def area_size_def)
qed

lemma issued_next:
  "issued (mgr\<lparr>obj := Suc (obj mgr)\<rparr>) = insert (active_area mgr, obj mgr) (issued mgr)"
  by (auto simp: issued_def area_size_def less_Suc_eq)

lemma next_not_issued: "(active_area mgr, obj mgr) \<notin> issued mgr"
  by (simp add: issued_def)

lemma issued_free_list [simp]: "issued (mgr\<lparr>free_list := fs\<rparr>) = issued mgr"
  by (simp add: issued_def area_size_def)

lemma take_obj_ok:
  assumes ok: "mgr_ok live mgr" and some: "obj mgr < obj_top mgr \<or> free_list mgr \<noteq> []"
    and t: "take_obj mgr = (x, mgr')"
  shows "x \<notin> live" "mgr_ok (insert x live) mgr'" "avail mgr = Suc (avail mgr')"
proof -
  have "x \<notin> live \<and> mgr_ok (insert x live) mgr' \<and> avail mgr = Suc (avail mgr')"
  proof (cases "free_list mgr")
    case Nil
    with t have "x = (active_area mgr, obj mgr)" "mgr' = mgr\<lparr>obj := Suc (obj mgr)\<rparr>"
      by (auto simp: take_obj_def)
    with Nil ok some show ?thesis
      by (simp add: mgr_ok_def issued_next next_not_issued avail_def area_size_def)
  next
    case (Cons f fs)
    with t have "x = f" "mgr' = mgr\<lparr>free_list := fs\<rparr>" by (auto simp: take_obj_def)
    with Cons ok show ?thesis by (auto simp: mgr_ok_def avail_def area_size_def)
  qed
  then show "x \<notin> live" "mgr_ok (insert x live) mgr'" "avail mgr = Suc (avail mgr')" by auto
qed

lemma add_area_ok:
  assumes "mgr_ok live mgr" "0 < n"
  shows "mgr_ok live (add_area n mgr)" "avail (add_area n mgr) = avail mgr + n"
proof -
  have old: "area_size (add_area n mgr) a = area_size mgr a" if "a < length (area_list mgr)" for a
    using that by (simp add: area_size_def add_area_def)
  have "active_area mgr < length (area_list mgr)" using assms(1) by (simp add: mgr_ok_def)
  with old have "issued (add_area n mgr) = issued mgr"
    by (auto simp: issued_def add_area_def)
  with assms old [of "active_area mgr"] show "mgr_ok live (add_area n mgr)"
    by (auto simp: mgr_ok_def add_area_def areas_ok_Cons)
  show "avail (add_area n mgr) = avail mgr + n"
    using assms(1) by (simp add: avail_def add_area_def mgr_ok_def)
qed

lemma enlarge_ok:
  assumes "mgr_ok live mgr" "0 < n" "enlarge_mem_mgr m n mgr = Some mgr'"
  shows "mgr_ok live mgr' \<and> avail mgr' = avail mgr + n"
  using assms add_area_ok by (auto simp: enlarge_mem_mgr_def split: if_splits)

lemma free_obj_ok:
  assumes "mgr_ok live mgr" "x \<in> live"
  shows "mgr_ok (live - {x}) (free_mem_obj_to_mgr False x mgr)"
    and "avail (free_mem_obj_to_mgr False x mgr) = Suc (avail mgr)"
  using assms by (auto simp: free_mem_obj_to_mgr_def mgr_ok_def avail_def area_size_def)

lemma get_obj_Some:
  assumes ok: "mgr_ok live mgr" and get: "get_mem_obj_from_mgr mgr = (Some x, mgr')"
  shows "x \<notin> live \<and> mgr_ok (insert x live) mgr' \<and> avail mgr = Suc (avail mgr')"
proof (cases "obj mgr = obj_top mgr \<and> free_list mgr = []")
  case True
  with get obtain area where prev: "prev_area (active_area mgr) (area_list mgr) = Some area"
      and t: "take_obj (set_free_mem_area area mgr) = (x, mgr')"
    by (auto simp: get_mem_obj_from_mgr_def get_mem_obj_from_mgr_enlarge_def map_prod_def
        split: option.splits prod.splits)
  note new = set_free_mem_area_ok [OF ok conjunct1 [OF True] prev]
  from take_obj_ok [OF new(1) disjI1 [OF new(3)] t] new(2) show ?thesis by simp
next
  case False
  with get have t: "take_obj mgr = (x, mgr')"
    by (auto simp: get_mem_obj_from_mgr_def get_mem_obj_from_mgr_enlarge_def map_prod_def
        split: prod.splits)
  from False ok have "obj mgr < obj_top mgr \<or> free_list mgr \<noteq> []" by (auto simp: mgr_ok_def)
  from take_obj_ok [OF ok this t] show ?thesis by simp
qed

lemma get_obj_None:
  assumes ok: "mgr_ok live mgr" and get: "get_mem_obj_from_mgr mgr = (None, mgr')"
  shows "mgr' = mgr \<and> avail mgr = 0"
proof -
  have full: "obj mgr = obj_top mgr" "free_list mgr = []"
      "prev_area (active_area mgr) (area_list mgr) = None" "mgr' = mgr"
    using get by (auto simp: get_mem_obj_from_mgr_def get_mem_obj_from_mgr_enlarge_def map_prod_def
        split: if_splits option.splits prod.splits)
  have as: "areas_ok (area_list mgr)" "active_area mgr < length (area_list mgr)"
    using ok by (auto simp: mgr_ok_def)
  with full(3) have "length (area_list mgr) = Suc (active_area mgr)"
    by (auto simp: prev_area_next split: if_splits)
  then have "filter (\<lambda>a. active_area mgr < fst a) (area_list mgr) = []"
    using areas_ok_fst [OF as(1)] by (fastforce simp: filter_empty_conv)
  with full show ?thesis by (simp add: avail_def)
qed

section \<open>The interface of an object pool\<close>

text \<open>
  What the users of the manager rely on: an object handed out is not in use, objects given back
  can be handed out again, and the pool refuses only when it is empty.
\<close>

fun draw :: "('m \<Rightarrow> 'o option \<times> 'm) \<Rightarrow> nat \<Rightarrow> 'm \<Rightarrow> 'o list \<times> 'm" where
  "draw get 0 m = ([], m)"
| "draw get (Suc n) m =
     (case get m of
        (None, m) \<Rightarrow> ([], m)
      | (Some x, m) \<Rightarrow> (case draw get n m of (xs, m) \<Rightarrow> (x # xs, m)))"

locale object_pool =
  fixes pool_ok :: "'o set \<Rightarrow> 'm \<Rightarrow> bool"
    and count :: "'m \<Rightarrow> nat"
    and get :: "'m \<Rightarrow> 'o option \<times> 'm"
    and put :: "'o \<Rightarrow> 'm \<Rightarrow> 'm"
  assumes get_Some: "pool_ok live m \<Longrightarrow> get m = (Some x, m') \<Longrightarrow>
        x \<notin> live \<and> pool_ok (insert x live) m' \<and> count m = Suc (count m')"
    and get_None: "pool_ok live m \<Longrightarrow> get m = (None, m') \<Longrightarrow> m' = m \<and> count m = 0"
    and put_ok: "pool_ok live m \<Longrightarrow> x \<in> live \<Longrightarrow>
        pool_ok (live - {x}) (put x m) \<and> count (put x m) = Suc (count m)"
begin

lemma draw_distinct:
  "pool_ok live m \<Longrightarrow> draw get n m = (xs, m') \<Longrightarrow>
     distinct xs \<and> set xs \<inter> live = {} \<and> length xs = min n (count m) \<and>
     pool_ok (live \<union> set xs) m' \<and> count m' = count m - length xs"
proof (induction n arbitrary: live m xs)
  case (Suc n)
  show ?case
  proof (cases "get m")
    case (Pair x m1)
    show ?thesis
    proof (cases x)
      case None
      with Pair Suc.prems get_None show ?thesis by fastforce
    next
      case (Some y)
      with Pair Suc.prems obtain ys where ys: "draw get n m1 = (ys, m')" "xs = y # ys"
        by (auto split: prod.splits)
      have y: "y \<notin> live" "pool_ok (insert y live) m1" "count m = Suc (count m1)"
        using get_Some [OF Suc.prems(1)] Pair Some by auto
      from Suc.IH [OF y(2) ys(1)] y ys(2) show ?thesis by auto
    qed
  qed
qed simp

lemma put_get_reuse:
  assumes "pool_ok live m" "x \<in> live"
  shows "fst (get (put x m)) \<noteq> None"
proof
  assume "fst (get (put x m)) = None"
  then obtain m' where "get (put x m) = (None, m')" by (cases "get (put x m)") auto
  with get_None [of "live - {x}" "put x m" m'] put_ok [OF assms] show False by simp
qed

end

interpretation mgr_pool: object_pool mgr_ok avail get_mem_obj_from_mgr "free_mem_obj_to_mgr False"
  by unfold_locales (use get_obj_Some get_obj_None free_obj_ok in blast)+

text \<open>Drawing objects from the manager of \<^verbatim>\<open>memmgr.h\<close> yields pairwise distinct objects none
  of which is in use, as many as asked for until the available ones run out; the count of
  available objects drops accordingly and the invariant (every object ever handed out is in use
  or on the free list, never both) is kept across area switches.\<close>

theorem memmgr_draw_distinct:
  assumes "mgr_ok live mgr" "draw get_mem_obj_from_mgr n mgr = (xs, mgr')"
  shows "distinct xs \<and> set xs \<inter> live = {} \<and> length xs = min n (avail mgr) \<and>
    mgr_ok (live \<union> set xs) mgr' \<and> avail mgr' = avail mgr - length xs"
  using assms by (rule mgr_pool.draw_distinct)

lemma create_ok: "0 < n \<Longrightarrow> mgr_ok {} (create_mem_mgr_in_place n)"
  by (simp add: create_mem_mgr_in_place_def set_free_mem_area_def mgr_ok_def areas_ok_def
      issued_def area_size_def)

theorem memmgr_draw_distinct_witness:
  "distinct (fst (draw get_mem_obj_from_mgr 5 (add_area 3 (create_mem_mgr_in_place 2)))) \<and>
   length (fst (draw get_mem_obj_from_mgr 6 (add_area 3 (create_mem_mgr_in_place 2)))) = 5"
proof -
  have ok: "mgr_ok {} (add_area 3 (create_mem_mgr_in_place 2))"
    by (intro add_area_ok create_ok) simp_all
  have "avail (add_area 3 (create_mem_mgr_in_place 2)) = 5"
    by (simp add: avail_def add_area_def create_mem_mgr_in_place_def set_free_mem_area_def)
  then show ?thesis
    using memmgr_draw_distinct [OF ok prod.collapse [symmetric]] by simp
qed

end
