(* ===== verification/Avl_Tree.thy ===== *)
theory Avl_Tree
  imports Prelude
begin

text \<open>
  The intrusive AVL tree of \<^verbatim>\<open>common/src/avl_tree.c\<close>, used by the VMA
  bookkeeping and by the other ordered containers of the LibOS.

  A node of the C tree has a left child, a right child, a parent and a balance factor. The
  children are the subtrees of \<open>avl\<close>; the chain of parents that \<^verbatim>\<open>avl_tree_balance\<close>,
  \<^verbatim>\<open>avl_tree_next\<close> and \<^verbatim>\<open>avl_tree_prev\<close> climb is a list of frames, innermost first, and a
  pointer to a node is the node together with that list. The interface at the end of the
  theory (locale \<open>ordered_store\<close>) is what the clients rely on.
\<close>

section \<open>Data\<close>

datatype 'a avl = Tip | Nd "'a avl" 'a int "'a avl"

text \<open>
  One parent link: \<open>InLeft x b r\<close> says that the current node is the left child of a node
  holding \<open>x\<close> with balance \<open>b\<close> and right child \<open>r\<close>.
\<close>

datatype 'a frame = InLeft 'a int "'a avl" | InRight "'a avl" 'a int

type_synonym 'a path = "'a frame list"

text \<open>The whole tree seen from a subtree: following all parent links up to the root.\<close>

fun zip_up :: "'a path \<Rightarrow> 'a avl \<Rightarrow> 'a avl" where
  "zip_up [] t = t"
| "zip_up (InLeft x b r # p) t = zip_up p (Nd t x b r)"
| "zip_up (InRight l x b # p) t = zip_up p (Nd l x b t)"

fun inorder :: "'a avl \<Rightarrow> 'a list" where
  "inorder Tip = []"
| "inorder (Nd l x b r) = inorder l @ x # inorder r"

fun height :: "'a avl \<Rightarrow> int" where
  "height Tip = 0"
| "height (Nd l x b r) = 1 + max (height l) (height r)"

section \<open>Rotations and rebalancing\<close>

text \<open>
  The rotations take the subtree at \<open>p\<close>. Where the C function asserts the shape of its
  arguments, the last equation returns the subtree unchanged.
\<close>

fun rot1L :: "'a avl \<Rightarrow> 'a avl" where
  "rot1L (Nd a p pb (Nd b q qb c)) =
     (if qb = 1 then Nd (Nd a p 0 b) q 0 c else Nd (Nd a p 1 b) q (-1) c)"
| "rot1L t = t"

fun rot1R :: "'a avl \<Rightarrow> 'a avl" where
  "rot1R (Nd (Nd a q qb b) p pb c) =
     (if qb = -1 then Nd a q 0 (Nd b p 0 c) else Nd a q 1 (Nd b p (-1) c))"
| "rot1R t = t"

fun rot2RL :: "'a avl \<Rightarrow> 'a avl" where
  "rot2RL (Nd a p pb (Nd (Nd b r rb c) q qb d)) =
     (if rb = -1 then Nd (Nd a p 0 b) r 0 (Nd c q 1 d)
      else if rb = 0 then Nd (Nd a p 0 b) r 0 (Nd c q 0 d)
      else Nd (Nd a p (-1) b) r 0 (Nd c q 0 d))"
| "rot2RL t = t"

fun rot2LR :: "'a avl \<Rightarrow> 'a avl" where
  "rot2LR (Nd (Nd a q qb (Nd b r rb c)) p pb d) =
     (if rb = -1 then Nd (Nd a q 0 b) r 0 (Nd c p 1 d)
      else if rb = 0 then Nd (Nd a q 0 b) r 0 (Nd c p 0 d)
      else Nd (Nd a q (-1) b) r 0 (Nd c p 0 d))"
| "rot2LR t = t"

text \<open>Returns whether the height might have changed, and the rotated subtree.\<close>

fun avl_tree_do_balance :: "'a avl \<Rightarrow> bool \<times> 'a avl" where
  "avl_tree_do_balance Tip = (False, Tip)"
| "avl_tree_do_balance (Nd l x b r) =
     (if b < 0
      then (case l of
              Tip \<Rightarrow> (False, Nd l x b r)
            | Nd ll y lb lr \<Rightarrow>
                if lb = 1 then (True, rot2LR (Nd l x b r))
                else (lb \<noteq> 0, rot1R (Nd l x b r)))
      else (case r of
              Tip \<Rightarrow> (False, Nd l x b r)
            | Nd rl y rb rr \<Rightarrow>
                if rb \<ge> 0 then (rb \<noteq> 0, rot1L (Nd l x b r))
                else (True, rot2RL (Nd l x b r))))"

text \<open>
  One iteration of the loop of \<^verbatim>\<open>avl_tree_balance\<close> at the parent described by a frame,
  whose child is now \<open>t\<close>: the new subtree and whether its height changed.
\<close>

fun avl_balance_step :: "bool \<Rightarrow> 'a avl \<Rightarrow> 'a frame \<Rightarrow> bool \<times> 'a avl" where
  "avl_balance_step height_increased t (InLeft x b r) =
     (let height_changed = (if height_increased then b \<le> 0 else b < 0);
          b' = (if height_increased then b - 1 else b + 1);
          node = Nd t x b' r
      in if b' = -2 \<or> b' = 2
         then (let (hc, node') = avl_tree_do_balance node
               in (if height_increased then False else hc, node'))
         else (height_changed, node))"
| "avl_balance_step height_increased t (InRight l x b) =
     (let height_changed = (if height_increased then b \<ge> 0 else b > 0);
          b' = (if height_increased then b + 1 else b - 1);
          node = Nd l x b' t
      in if b' = -2 \<or> b' = 2
         then (let (hc, node') = avl_tree_do_balance node
               in (if height_increased then False else hc, node'))
         else (height_changed, node))"

fun avl_tree_balance :: "bool \<Rightarrow> 'a avl \<Rightarrow> 'a path \<Rightarrow> 'a avl" where
  "avl_tree_balance height_increased t [] = t"
| "avl_tree_balance height_increased t (f # p) =
     (let (height_changed, node) = avl_balance_step height_increased t f
      in if height_changed then avl_tree_balance height_increased node p
         else zip_up p node)"

section \<open>Insertion, deletion, replacement\<close>

text \<open>The descent of \<^verbatim>\<open>avl_tree_insert_unbalanced\<close>: the parents of the new leaf.\<close>

fun avl_tree_insert_unbalanced ::
  "('a \<Rightarrow> 'a \<Rightarrow> bool) \<Rightarrow> 'a \<Rightarrow> 'a avl \<Rightarrow> 'a path \<Rightarrow> 'a path" where
  "avl_tree_insert_unbalanced cmp x Tip p = p"
| "avl_tree_insert_unbalanced cmp x (Nd l y b r) p =
     (if cmp x y then avl_tree_insert_unbalanced cmp x l (InLeft y b r # p)
      else avl_tree_insert_unbalanced cmp x r (InRight l y b # p))"

definition avl_tree_insert :: "('a \<Rightarrow> 'a \<Rightarrow> bool) \<Rightarrow> 'a \<Rightarrow> 'a avl \<Rightarrow> 'a avl" where
  "avl_tree_insert cmp x t =
     (if t = Tip then Nd Tip x 0 Tip
      else avl_tree_balance True (Nd Tip x 0 Tip) (avl_tree_insert_unbalanced cmp x t []))"

text \<open>
  A node pointer, as the model has it: the subtree at the node and its parents. \<open>locate\<close>
  resolves the pointer to the node that holds the element \<open>x\<close> (no comparison is made: a C
  pointer already is the location).
\<close>

fun locate :: "'a \<Rightarrow> 'a avl \<Rightarrow> 'a path \<Rightarrow> ('a avl \<times> 'a path) option" where
  "locate x Tip p = None"
| "locate x (Nd l y b r) p =
     (if x = y then Some (Nd l y b r, p)
      else case locate x l (InLeft y b r # p) of
             Some loc \<Rightarrow> Some loc
           | None \<Rightarrow> locate x r (InRight l y b # p))"

text \<open>
  \<^verbatim>\<open>avl_tree_first\<close> and \<^verbatim>\<open>avl_tree_last\<close> walk down one side.
\<close>

fun avl_tree_first :: "'a avl \<Rightarrow> 'a option" where
  "avl_tree_first Tip = None"
| "avl_tree_first (Nd l x b r) = (if l = Tip then Some x else avl_tree_first l)"

fun avl_tree_last :: "'a avl \<Rightarrow> 'a option" where
  "avl_tree_last Tip = None"
| "avl_tree_last (Nd l x b r) = (if r = Tip then Some x else avl_tree_last r)"

text \<open>
  The successor of a node with two children sits at the end of the left spine of its right
  subtree: \<open>detach_first\<close> walks there and yields what remains in its place (its right child)
  and the parents of that place.
\<close>

fun detach_first :: "'a avl \<Rightarrow> 'a path \<Rightarrow> 'a avl \<times> 'a path" where
  "detach_first Tip p = (Tip, p)"
| "detach_first (Nd l x b r) p =
     (if l = Tip then (r, p) else detach_first l (InLeft x b r # p))"

text \<open>
  Deletion of the node at a location. With two children the node is first exchanged with its
  successor \<open>next\<close>, which takes over its place and its balance; the node then has at most one
  child, which replaces it, and the parents are rebalanced.
\<close>

fun avl_delete_at :: "'a avl \<Rightarrow> 'a path \<Rightarrow> 'a avl" where
  "avl_delete_at Tip p = zip_up p Tip"
| "avl_delete_at (Nd l x b r) p =
     (if l \<noteq> Tip \<and> r \<noteq> Tip
      then (case avl_tree_first r of
              None \<Rightarrow> zip_up p (Nd l x b r)
            | Some next \<Rightarrow>
                (let (child, q) = detach_first r (InRight l next b # p)
                 in avl_tree_balance False child q))
      else (let child = (if l \<noteq> Tip then l else r)
            in avl_tree_balance False child p))"

definition avl_tree_delete :: "'a \<Rightarrow> 'a avl \<Rightarrow> 'a avl" where
  "avl_tree_delete x t =
     (case locate x t [] of None \<Rightarrow> t | Some (n, p) \<Rightarrow> avl_delete_at n p)"

fun replace_node :: "'a \<Rightarrow> 'a avl \<Rightarrow> 'a avl" where
  "replace_node y Tip = Tip"
| "replace_node y (Nd l x b r) = Nd l y b r"

definition avl_tree_swap_node :: "'a \<Rightarrow> 'a \<Rightarrow> 'a avl \<Rightarrow> 'a avl" where
  "avl_tree_swap_node old new t =
     (case locate old t [] of None \<Rightarrow> t | Some (n, p) \<Rightarrow> zip_up p (replace_node new n))"

section \<open>Navigation and search\<close>

fun climb_next :: "'a path \<Rightarrow> 'a option" where
  "climb_next [] = None"
| "climb_next (InLeft x b r # p) = Some x"
| "climb_next (InRight l x b # p) = climb_next p"

fun climb_prev :: "'a path \<Rightarrow> 'a option" where
  "climb_prev [] = None"
| "climb_prev (InRight l x b # p) = Some x"
| "climb_prev (InLeft x b r # p) = climb_prev p"

definition avl_tree_next :: "'a \<Rightarrow> 'a avl \<Rightarrow> 'a option" where
  "avl_tree_next x t =
     (case locate x t [] of
        Some (Nd l y b r, p) \<Rightarrow> (if r \<noteq> Tip then avl_tree_first r else climb_next p)
      | _ \<Rightarrow> None)"

definition avl_tree_prev :: "'a \<Rightarrow> 'a avl \<Rightarrow> 'a option" where
  "avl_tree_prev x t =
     (case locate x t [] of
        Some (Nd l y b r, p) \<Rightarrow> (if l \<noteq> Tip then avl_tree_last l else climb_prev p)
      | _ \<Rightarrow> None)"

fun avl_tree_find_fn_to :: "('a \<Rightarrow> 'a \<Rightarrow> bool) \<Rightarrow> 'a \<Rightarrow> 'a avl \<Rightarrow> 'a option" where
  "avl_tree_find_fn_to cmp a Tip = None"
| "avl_tree_find_fn_to cmp a (Nd l x b r) =
     (if cmp a x then (if cmp x a then Some x else avl_tree_find_fn_to cmp a l)
      else avl_tree_find_fn_to cmp a r)"

definition avl_tree_find :: "('a \<Rightarrow> 'a \<Rightarrow> bool) \<Rightarrow> 'a \<Rightarrow> 'a avl \<Rightarrow> 'a option" where
  "avl_tree_find cmp a t = avl_tree_find_fn_to cmp a t"

text \<open>The loop of \<^verbatim>\<open>avl_tree_lower_bound_fn\<close>; \<open>ret\<close> is the C variable of that name.\<close>

fun lower_bound_loop :: "('a \<Rightarrow> bool) \<Rightarrow> 'a avl \<Rightarrow> 'a option \<Rightarrow> 'a option" where
  "lower_bound_loop cmp Tip ret = ret"
| "lower_bound_loop cmp (Nd l x b r) ret =
     (if cmp x then lower_bound_loop cmp l (Some x) else lower_bound_loop cmp r ret)"

definition avl_tree_lower_bound_fn :: "('b \<Rightarrow> 'a \<Rightarrow> bool) \<Rightarrow> 'b \<Rightarrow> 'a avl \<Rightarrow> 'a option" where
  "avl_tree_lower_bound_fn cmp a t = lower_bound_loop (cmp a) t None"

definition avl_tree_lower_bound :: "('a \<Rightarrow> 'a \<Rightarrow> bool) \<Rightarrow> 'a \<Rightarrow> 'a avl \<Rightarrow> 'a option" where
  "avl_tree_lower_bound cmp a t = avl_tree_lower_bound_fn cmp a t"

fun avl_tree_is_balanced_size :: "'a avl \<Rightarrow> bool \<times> nat" where
  "avl_tree_is_balanced_size Tip = (True, 0)"
| "avl_tree_is_balanced_size (Nd l x bal r) =
     (let (ra, a) = avl_tree_is_balanced_size l;
          (rb, b) = avl_tree_is_balanced_size r;
          ret = (ra \<and> rb)
      in if a < b then (ret \<and> b - a = 1 \<and> bal = 1, b + 1)
         else if a = b then (ret \<and> bal = 0, a + 1)
         else (ret \<and> a - b = 1 \<and> bal = -1, a + 1))"

definition debug_avl_tree_is_balanced :: "'a avl \<Rightarrow> bool" where
  "debug_avl_tree_is_balanced t = fst (avl_tree_is_balanced_size t)"

section \<open>The balance invariant\<close>

text \<open>
  \<open>avl_ok\<close> is the invariant of the C tree: every balance field is the height difference and
  is one of -1, 0, 1. \<open>path_ok h\<close> says the same of the parents, for a subtree of height \<open>h\<close>.
\<close>

fun avl_ok :: "'a avl \<Rightarrow> bool" where
  "avl_ok Tip = True"
| "avl_ok (Nd l x b r) =
     (b = height r - height l \<and> -1 \<le> b \<and> b \<le> 1 \<and> avl_ok l \<and> avl_ok r)"

fun frame_height :: "int \<Rightarrow> 'a frame \<Rightarrow> int" where
  "frame_height h (InLeft x b r) = 1 + max h (height r)"
| "frame_height h (InRight l x b) = 1 + max (height l) h"

fun frame_ok :: "int \<Rightarrow> 'a frame \<Rightarrow> bool" where
  "frame_ok h (InLeft x b r) = (b = height r - h \<and> -1 \<le> b \<and> b \<le> 1 \<and> avl_ok r)"
| "frame_ok h (InRight l x b) = (b = h - height l \<and> -1 \<le> b \<and> b \<le> 1 \<and> avl_ok l)"

fun path_ok :: "int \<Rightarrow> 'a path \<Rightarrow> bool" where
  "path_ok h [] = True"
| "path_ok h (f # p) = (frame_ok h f \<and> path_ok (frame_height h f) p)"

fun root_balance :: "'a avl \<Rightarrow> int" where
  "root_balance Tip = 0"
| "root_balance (Nd l x b r) = b"

text \<open>The elements to the left and to the right of a location.\<close>

fun before :: "'a path \<Rightarrow> 'a list" where
  "before [] = []"
| "before (InLeft x b r # p) = before p"
| "before (InRight l x b # p) = before p @ inorder l @ [x]"

fun after :: "'a path \<Rightarrow> 'a list" where
  "after [] = []"
| "after (InLeft x b r # p) = x # inorder r @ after p"
| "after (InRight l x b # p) = after p"

lemma height_nonneg [simp]: "0 \<le> height t"
  by (induction t) auto

lemma height_0_iff: "height t = 0 \<longleftrightarrow> t = Tip"
  by (cases t) (auto simp: add_nonneg_eq_0_iff max_def)

lemma height_pos: "t \<noteq> Tip \<Longrightarrow> 1 \<le> height t"
  using height_nonneg [of t] height_0_iff [of t] by linarith

lemma inorder_Nil_iff [simp]: "inorder t = [] \<longleftrightarrow> t = Tip"
  by (cases t) auto

lemma inorder_zip_up: "inorder (zip_up p t) = before p @ inorder t @ after p"
  by (induction p t rule: zip_up.induct) auto

lemma avl_ok_zip_up: "avl_ok (zip_up p t) \<longleftrightarrow> avl_ok t \<and> path_ok (height t) p"
  by (induction p t rule: zip_up.induct) auto

lemmas zip_simps = inorder_zip_up avl_ok_zip_up

text \<open>
  The rotation step: an imbalance of two is repaired, the order of the elements is kept and
  the returned flag says exactly whether the subtree lost one level.
\<close>

lemma inorder_rot1L [simp]: "inorder (rot1L t) = inorder t"
  by (cases t rule: rot1L.cases) auto

lemma inorder_rot1R [simp]: "inorder (rot1R t) = inorder t"
  by (cases t rule: rot1R.cases) auto

lemma inorder_rot2RL [simp]: "inorder (rot2RL t) = inorder t"
  by (cases t rule: rot2RL.cases) auto

lemma inorder_rot2LR [simp]: "inorder (rot2LR t) = inorder t"
  by (cases t rule: rot2LR.cases) auto

lemma inorder_do_balance [simp]: "inorder (snd (avl_tree_do_balance t)) = inorder t"
  by (cases t) (auto split: avl.splits)

lemma inorder_balance_step:
  "inorder (snd (avl_balance_step hi t f)) = before [f] @ inorder t @ after [f]"
  by (cases f) (auto simp: Let_def case_prod_beta simp del: avl_tree_do_balance.simps)

lemma inorder_balance: "inorder (avl_tree_balance hi t p) = before p @ inorder t @ after p"
proof (induction p arbitrary: t)
  case (Cons f p)
  show ?case
    by (cases f) (auto simp: case_prod_beta inorder_zip_up inorder_balance_step Cons.IH
        simp del: avl_balance_step.simps)
qed simp

lemma do_balance_left:
  assumes "avl_ok l" "avl_ok r" "height l = height r + 2"
  shows "avl_ok (snd (avl_tree_do_balance (Nd l x (-2) r)))"
    and "height (snd (avl_tree_do_balance (Nd l x (-2) r))) =
           height l + (if fst (avl_tree_do_balance (Nd l x (-2) r)) then 0 else 1)"
    and "fst (avl_tree_do_balance (Nd l x (-2) r)) = (root_balance l \<noteq> 0)"
proof -
  from assms(3) obtain ll y lb lr where l: "l = Nd ll y lb lr"
    using height_nonneg [of r] by (cases l) auto
  consider "lb = 1" | "lb = 0" | "lb = -1"
    using assms(1) l by (auto simp: le_less)
  then have "avl_ok (snd (avl_tree_do_balance (Nd l x (-2) r))) \<and>
     height (snd (avl_tree_do_balance (Nd l x (-2) r))) =
       height l + (if fst (avl_tree_do_balance (Nd l x (-2) r)) then 0 else 1) \<and>
     fst (avl_tree_do_balance (Nd l x (-2) r)) = (root_balance l \<noteq> 0)"
  proof cases
    case 1
    then obtain m z mb n where lr: "lr = Nd m z mb n"
      using assms(1) l height_nonneg [of ll] by (cases lr) auto
    with 1 l assms show ?thesis by (auto simp: max_def split: if_splits)
  qed (use l assms in \<open>auto simp: max_def\<close>)
  then show "avl_ok (snd (avl_tree_do_balance (Nd l x (-2) r)))"
    and "height (snd (avl_tree_do_balance (Nd l x (-2) r))) =
           height l + (if fst (avl_tree_do_balance (Nd l x (-2) r)) then 0 else 1)"
    and "fst (avl_tree_do_balance (Nd l x (-2) r)) = (root_balance l \<noteq> 0)"
    by auto
qed

lemma do_balance_right:
  assumes "avl_ok l" "avl_ok r" "height r = height l + 2"
  shows "avl_ok (snd (avl_tree_do_balance (Nd l x 2 r)))"
    and "height (snd (avl_tree_do_balance (Nd l x 2 r))) =
           height r + (if fst (avl_tree_do_balance (Nd l x 2 r)) then 0 else 1)"
    and "fst (avl_tree_do_balance (Nd l x 2 r)) = (root_balance r \<noteq> 0)"
proof -
  from assms(3) obtain rl y rb rr where r: "r = Nd rl y rb rr"
    using height_nonneg [of l] by (cases r) auto
  consider "rb = -1" | "rb = 0" | "rb = 1"
    using assms(2) r by (auto simp: le_less)
  then have "avl_ok (snd (avl_tree_do_balance (Nd l x 2 r))) \<and>
     height (snd (avl_tree_do_balance (Nd l x 2 r))) =
       height r + (if fst (avl_tree_do_balance (Nd l x 2 r)) then 0 else 1) \<and>
     fst (avl_tree_do_balance (Nd l x 2 r)) = (root_balance r \<noteq> 0)"
  proof cases
    case 1
    then obtain m z mb n where rl: "rl = Nd m z mb n"
      using assms(2) r height_nonneg [of rr] by (cases rl) auto
    with 1 r assms show ?thesis by (auto simp: max_def split: if_splits)
  qed (use r assms in \<open>auto simp: max_def\<close>)
  then show "avl_ok (snd (avl_tree_do_balance (Nd l x 2 r)))"
    and "height (snd (avl_tree_do_balance (Nd l x 2 r))) =
           height r + (if fst (avl_tree_do_balance (Nd l x 2 r)) then 0 else 1)"
    and "fst (avl_tree_do_balance (Nd l x 2 r)) = (root_balance r \<noteq> 0)"
    by auto
qed

lemmas do_balance_facts = do_balance_left do_balance_right

text \<open>
  One loop iteration after the subtree grew: it is again balanced, and either the growth was
  absorbed or the parent grew by one and leans to a side (so that a later rotation absorbs it).
\<close>

lemma balance_step_grow:
  assumes "avl_ok t" "height t = h + 1" "frame_ok h f" "root_balance t \<noteq> 0 \<or> h = 0"
    and "avl_balance_step True t f = (hc, n)"
  shows "avl_ok n" and "height n = frame_height h f + (if hc then 1 else 0)"
    and "hc \<Longrightarrow> root_balance n \<noteq> 0"
proof -
  have "avl_ok n \<and> height n = frame_height h f + (if hc then 1 else 0) \<and>
    (hc \<longrightarrow> root_balance n \<noteq> 0)"
  proof (cases f)
    case (InLeft x b r)
    show ?thesis
    proof (cases "b = -1")
      case True
      then have f: "f = InLeft x (-1) r" and r: "avl_ok r" "height r = h - 1"
        using assms(3) InLeft by auto
      with assms do_balance_left [of t r x] height_nonneg [of r] show ?thesis
        by (auto simp: case_prod_beta simp del: avl_tree_do_balance.simps)
    next
      case False
      with assms InLeft height_nonneg [of r] show ?thesis by (auto split: if_splits)
    qed
  next
    case (InRight l x b)
    show ?thesis
    proof (cases "b = 1")
      case True
      then have f: "f = InRight l x 1" and l: "avl_ok l" "height l = h - 1"
        using assms(3) InRight by auto
      with assms do_balance_right [of l t x] height_nonneg [of l] show ?thesis
        by (auto simp: case_prod_beta simp del: avl_tree_do_balance.simps)
    next
      case False
      with assms InRight height_nonneg [of l] show ?thesis by (auto split: if_splits)
    qed
  qed
  then show "avl_ok n" and "height n = frame_height h f + (if hc then 1 else 0)"
    and "hc \<Longrightarrow> root_balance n \<noteq> 0" by auto
qed

text \<open>One loop iteration after the subtree lost a level.\<close>

lemma balance_step_shrink:
  assumes "avl_ok t" "height t = h - 1" "frame_ok h f"
    and "avl_balance_step False t f = (hc, n)"
  shows "avl_ok n" and "height n = frame_height h f - (if hc then 1 else 0)"
proof -
  have "avl_ok n \<and> height n = frame_height h f - (if hc then 1 else 0)"
  proof (cases f)
    case (InLeft x b r)
    show ?thesis
    proof (cases "b = 1")
      case True
      then have f: "f = InLeft x 1 r" and r: "avl_ok r" "height r = h + 1"
        using assms(3) InLeft by auto
      with assms do_balance_right [of t r x] show ?thesis
        by (auto simp: case_prod_beta simp del: avl_tree_do_balance.simps)
    next
      case False
      with assms InLeft height_nonneg [of r] show ?thesis by (auto split: if_splits)
    qed
  next
    case (InRight l x b)
    show ?thesis
    proof (cases "b = -1")
      case True
      then have f: "f = InRight l x (-1)" and l: "avl_ok l" "height l = h + 1"
        using assms(3) InRight by auto
      with assms do_balance_left [of l t x] show ?thesis
        by (auto simp: case_prod_beta simp del: avl_tree_do_balance.simps)
    next
      case False
      with assms InRight height_nonneg [of l] show ?thesis by (auto split: if_splits)
    qed
  qed
  then show "avl_ok n" and "height n = frame_height h f - (if hc then 1 else 0)" by auto
qed

lemma avl_ok_balance_grow:
  assumes "avl_ok t" "height t = h + 1" "path_ok h p" "root_balance t \<noteq> 0 \<or> h = 0"
  shows "avl_ok (avl_tree_balance True t p)"
  using assms
proof (induction p arbitrary: t h)
  case (Cons f p)
  obtain hc n where step: "avl_balance_step True t f = (hc, n)" by fastforce
  with Cons.prems have n: "avl_ok n" "height n = frame_height h f + (if hc then 1 else 0)"
      "hc \<Longrightarrow> root_balance n \<noteq> 0"
    using balance_step_grow [of t h f hc n] by auto
  from step n Cons show ?case
    by (auto simp: avl_ok_zip_up simp del: avl_balance_step.simps)
qed simp

lemma avl_ok_balance_shrink:
  assumes "avl_ok t" "height t = h - 1" "path_ok h p"
  shows "avl_ok (avl_tree_balance False t p)"
  using assms
proof (induction p arbitrary: t h)
  case (Cons f p)
  obtain hc n where step: "avl_balance_step False t f = (hc, n)" by fastforce
  with Cons.prems have n: "avl_ok n" "height n = frame_height h f - (if hc then 1 else 0)"
    using balance_step_shrink [of t h f hc n] by auto
  from step n Cons show ?case
    by (auto simp: avl_ok_zip_up simp del: avl_balance_step.simps)
qed simp

section \<open>Insertion\<close>

lemma zip_up_insert_unbalanced:
  "zip_up (avl_tree_insert_unbalanced cmp x t p) Tip = zip_up p t"
  by (induction t arbitrary: p) auto

lemma before_insert_unbalanced:
  "mono_along (cmp x) (inorder t) \<Longrightarrow> before (avl_tree_insert_unbalanced cmp x t p) =
     before p @ takeWhile (\<lambda>y. \<not> cmp x y) (inorder t)"
proof (induction t arbitrary: p)
  case (Nd l y b r)
  then have "\<not> cmp x y \<Longrightarrow> \<forall>z\<in>set (inorder l). \<not> cmp x z" by auto
  with Nd show ?case by (cases "cmp x y") (simp_all add: takeWhile_append)
qed simp

lemma after_insert_unbalanced:
  "mono_along (cmp x) (inorder t) \<Longrightarrow> after (avl_tree_insert_unbalanced cmp x t p) =
     dropWhile (\<lambda>y. \<not> cmp x y) (inorder t) @ after p"
proof (induction t arbitrary: p)
  case (Nd l y b r)
  then have "\<not> cmp x y \<Longrightarrow> \<forall>z\<in>set (inorder l). \<not> cmp x z" by auto
  with Nd show ?case by (cases "cmp x y") simp_all
qed simp

lemma inorder_insert:
  assumes "mono_along (cmp x) (inorder t)"
  shows "inorder (avl_tree_insert cmp x t) =
     takeWhile (\<lambda>y. \<not> cmp x y) (inorder t) @ x # dropWhile (\<lambda>y. \<not> cmp x y) (inorder t)"
  using assms by (simp add: avl_tree_insert_def inorder_balance before_insert_unbalanced
      after_insert_unbalanced)

lemma avl_ok_insert:
  assumes "avl_ok t"
  shows "avl_ok (avl_tree_insert cmp x t)"
proof -
  have "avl_ok (zip_up (avl_tree_insert_unbalanced cmp x t []) Tip)"
    using assms by (simp add: zip_up_insert_unbalanced)
  then show ?thesis
    by (simp add: avl_tree_insert_def avl_ok_zip_up avl_ok_balance_grow [where h = 0])
qed

section \<open>Node pointers and deletion\<close>

lemma locate_Some:
  "locate x t p = Some (n, q) \<Longrightarrow> zip_up q n = zip_up p t \<and> (\<exists>l b r. n = Nd l x b r)"
  by (induction t arbitrary: p) (auto split: if_splits option.splits)

lemma locate_None: "locate x t p = None \<longleftrightarrow> x \<notin> set (inorder t)"
  by (induction t arbitrary: p) (simp_all split: option.split, metis option.distinct(1))

text \<open>A pointer to an element of the tree: the node, its parents, and the order around it.\<close>

lemma locateE:
  assumes "x \<in> set (inorder t)"
  obtains l b r p where "locate x t [] = Some (Nd l x b r, p)" "zip_up p (Nd l x b r) = t"
    "inorder t = before p @ inorder l @ x # inorder r @ after p"
proof -
  from assms obtain n p where loc: "locate x t [] = Some (n, p)"
    using locate_None [of x t "[]"] by (cases "locate x t []") auto
  then obtain l b r where n: "n = Nd l x b r" and z: "zip_up p n = t"
    using locate_Some [OF loc] by auto
  moreover have "inorder t = before p @ inorder l @ x # inorder r @ after p"
    using inorder_zip_up [of p n] n z by simp
  ultimately show thesis using loc that by blast
qed

lemma first_hd: "avl_tree_first t = (case inorder t of [] \<Rightarrow> None | x # xs \<Rightarrow> Some x)"
  by (induction t) (auto split: list.splits)

lemma last_last: "avl_tree_last t = (if t = Tip then None else Some (last (inorder t)))"
  by (induction t) auto

lemma detach_first_inorder:
  "t \<noteq> Tip \<Longrightarrow> detach_first t p = (c, q) \<Longrightarrow>
     before q @ inorder c @ after q = before p @ tl (inorder t) @ after p"
proof (induction t arbitrary: p)
  case (Nd l x b r)
  show ?case
  proof (cases l)
    case Tip
    with Nd.prems show ?thesis by simp
  next
    case l: (Nd ll y lb lr)
    with Nd.prems have "before q @ inorder c @ after q =
        before (InLeft x b r # p) @ tl (inorder l) @ after (InLeft x b r # p)"
      by (intro Nd.IH(1)) auto
    with l show ?thesis by (cases "inorder l") auto
  qed
qed simp

lemma detach_first_ok:
  "t \<noteq> Tip \<Longrightarrow> detach_first t p = (c, q) \<Longrightarrow> avl_ok t \<Longrightarrow> path_ok (height t) p \<Longrightarrow>
     avl_ok c \<and> path_ok (height c + 1) q"
proof (induction t arbitrary: p)
  case (Nd l x b r)
  show ?case
  proof (cases l)
    case Tip
    with Nd.prems height_nonneg [of r] show ?thesis by (auto simp: max_def add.commute)
  next
    case (Nd ll y lb lr)
    with Nd.prems Nd.IH(1) [of "InLeft x b r # p"] show ?thesis by auto
  qed
qed simp

lemma inorder_delete_at:
  "inorder (avl_delete_at (Nd l x b r) p) = before p @ inorder l @ inorder r @ after p"
proof (cases "l \<noteq> Tip \<and> r \<noteq> Tip")
  case True
  then obtain y ys where r: "inorder r = y # ys" by (cases "inorder r") auto
  obtain c q where d: "detach_first r (InRight l y b # p) = (c, q)" by fastforce
  with True detach_first_inorder [OF _ d] r show ?thesis
    by (simp add: first_hd inorder_balance)
next
  case False
  then show ?thesis by (auto simp: inorder_balance)
qed

lemma avl_ok_delete_at:
  assumes "avl_ok (Nd l x b r)" "path_ok (height (Nd l x b r)) p"
  shows "avl_ok (avl_delete_at (Nd l x b r) p)"
proof (cases "l \<noteq> Tip \<and> r \<noteq> Tip")
  case True
  then obtain y ys where r: "inorder r = y # ys" by (cases "inorder r") auto
  obtain c q where d: "detach_first r (InRight l y b # p) = (c, q)" by fastforce
  with True assms have "avl_ok c \<and> path_ok (height c + 1) q"
    by (intro detach_first_ok [OF _ d]) auto
  with True r d show ?thesis
    by (simp add: first_hd avl_ok_balance_shrink [where h = "height c + 1"])
next
  case False
  then have "avl_ok (if l \<noteq> Tip then l else r) \<and>
      path_ok (height (if l \<noteq> Tip then l else r) + 1) p"
    using assms height_pos [of l] height_nonneg [of r]
    by (auto simp: max_def add.commute split: if_splits)
  with False show ?thesis
    by (auto intro!: avl_ok_balance_shrink)
qed

lemma inorder_delete:
  assumes "distinct (inorder t)"
  shows "inorder (avl_tree_delete x t) = remove1 x (inorder t)"
proof (cases "x \<in> set (inorder t)")
  case True
  then obtain l b r p where loc: "locate x t [] = Some (Nd l x b r, p)"
      "inorder t = before p @ inorder l @ x # inorder r @ after p"
    by (elim locateE)
  with assms have "x \<notin> set (before p @ inorder l)" by auto
  with loc show ?thesis
    by (simp add: avl_tree_delete_def inorder_delete_at remove1_append del: avl_delete_at.simps)
next
  case False
  then show ?thesis by (simp add: avl_tree_delete_def locate_None [THEN iffD2] remove1_idem)
qed

lemma avl_ok_delete:
  assumes "avl_ok t"
  shows "avl_ok (avl_tree_delete x t)"
proof (cases "x \<in> set (inorder t)")
  case True
  then obtain l b r p where "locate x t [] = Some (Nd l x b r, p)" "zip_up p (Nd l x b r) = t"
    by (elim locateE)
  with assms avl_ok_zip_up [of p "Nd l x b r"] show ?thesis
    by (auto simp: avl_tree_delete_def simp del: avl_delete_at.simps intro!: avl_ok_delete_at)
next
  case False
  with assms show ?thesis by (simp add: avl_tree_delete_def locate_None [THEN iffD2])
qed

lemma inorder_swap_node:
  assumes "distinct (inorder t)"
  shows "inorder (avl_tree_swap_node old new t) =
    map (\<lambda>y. if y = old then new else y) (inorder t)"
proof (cases "old \<in> set (inorder t)")
  case True
  then obtain l b r p where loc: "locate old t [] = Some (Nd l old b r, p)"
      "inorder t = before p @ inorder l @ old # inorder r @ after p"
    by (elim locateE)
  have "map (\<lambda>y. if y = old then new else y) xs = xs" if "old \<notin> set xs" for xs
    using that by (induction xs) auto
  with loc assms show ?thesis by (simp add: avl_tree_swap_node_def inorder_zip_up)
next
  case False
  then show ?thesis
    by (auto simp: avl_tree_swap_node_def locate_None [THEN iffD2] intro!: map_idI [symmetric])
qed

lemma avl_ok_swap_node: "avl_ok (avl_tree_swap_node old new t) \<longleftrightarrow> avl_ok t"
proof (cases "old \<in> set (inorder t)")
  case True
  then obtain l b r p where "locate old t [] = Some (Nd l old b r, p)"
      "zip_up p (Nd l old b r) = t"
    by (elim locateE)
  then show ?thesis
    using avl_ok_zip_up [of p "Nd l old b r"] avl_ok_zip_up [of p "Nd l new b r"]
    by (simp add: avl_tree_swap_node_def)
qed (simp add: avl_tree_swap_node_def locate_None [THEN iffD2])

section \<open>Navigation and search\<close>

lemma climb_next_after: "climb_next p = (case after p of [] \<Rightarrow> None | x # xs \<Rightarrow> Some x)"
  by (induction p rule: climb_next.induct) auto

lemma climb_prev_before: "climb_prev p = (if before p = [] then None else Some (last (before p)))"
  by (induction p rule: climb_prev.induct) auto

lemma next_split:
  assumes "distinct (inorder t)" "inorder t = xs @ x # ys"
  shows "avl_tree_next x t = (case ys of [] \<Rightarrow> None | y # ys' \<Rightarrow> Some y)"
    and "avl_tree_prev x t = (if xs = [] then None else Some (last xs))"
proof -
  have "x \<in> set (inorder t)" using assms(2) by simp
  then obtain l b r p where loc: "locate x t [] = Some (Nd l x b r, p)"
      "inorder t = before p @ inorder l @ x # inorder r @ after p"
    by (elim locateE)
  with assms have "xs @ x # ys = (before p @ inorder l) @ x # (inorder r @ after p)"
    and "x \<notin> set xs" and "x \<notin> set ys"
    by auto
  then have xs: "xs = before p @ inorder l" and ys: "ys = inorder r @ after p"
    using append_Cons_eq_iff [of x xs ys] by blast+
  show "avl_tree_next x t = (case ys of [] \<Rightarrow> None | y # ys' \<Rightarrow> Some y)"
    using loc ys by (auto simp: avl_tree_next_def first_hd climb_next_after split: list.splits)
  show "avl_tree_prev x t = (if xs = [] then None else Some (last xs))"
    using loc xs by (auto simp: avl_tree_prev_def last_last climb_prev_before)
qed

lemma lower_bound_loop_find:
  "mono_along P (inorder t) \<Longrightarrow>
     lower_bound_loop P t ret = (case List.find P (inorder t) of None \<Rightarrow> ret | Some y \<Rightarrow> Some y)"
proof (induction t arbitrary: ret)
  case (Nd l x b r)
  then have "\<not> P x \<Longrightarrow> List.find P (inorder l) = None"
    by (auto simp: find_None_iff)
  with Nd show ?case by (cases "P x") (simp_all add: find_append split: option.split)
qed simp

lemma lower_bound_find:
  "mono_along (cmp a) (inorder t) \<Longrightarrow>
     avl_tree_lower_bound_fn cmp a t = List.find (cmp a) (inorder t)"
  by (simp add: avl_tree_lower_bound_fn_def lower_bound_loop_find split: option.split)

lemma is_balanced_size_height: "snd (avl_tree_is_balanced_size t) = nat (height t)"
  by (induction t) (auto simp: case_prod_beta Let_def nat_add_distrib max_def)

lemma is_balanced_size_ok: "fst (avl_tree_is_balanced_size t) \<longleftrightarrow> avl_ok t"
proof (induction t)
  case (Nd l x b r)
  define m n where "m = nat (height l)" and "n = nat (height r)"
  then have "height l = int m" "height r = int n" by simp_all
  with Nd show ?case
    by (simp add: case_prod_beta Let_def is_balanced_size_height) linarith
qed simp

text \<open>
  The height is logarithmic in the number of elements: a balanced tree of height \<open>h\<close> has at
  least \<open>2 ^ (h div 2) - 1\<close> of them. Every search, insertion and deletion walks one path.
\<close>

lemma height_div2_mono:
  assumes "nat (height t) \<ge> k" "2 ^ (nat (height t) div 2) \<le> length (inorder t) + 1"
  shows "(2::nat) ^ (k div 2) \<le> length (inorder t) + 1"
  using assms div_le_mono [of k "nat (height t)" 2]
  by (meson le_trans one_le_numeral power_increasing)

lemma height_size:
  "avl_ok t \<Longrightarrow> (2::nat) ^ (nat (height t) div 2) \<le> length (inorder t) + 1"
proof (induction t)
  case (Nd l x b r)
  define h where "h = nat (height (Nd l x b r))"
  have h: "h - 2 \<le> nat (height l)" "h - 2 \<le> nat (height r)"
    using Nd.prems by (auto simp: h_def)
  have "(2::nat) ^ ((h - 2) div 2) \<le> length (inorder l) + 1"
    and "(2::nat) ^ ((h - 2) div 2) \<le> length (inorder r) + 1"
    using height_div2_mono [OF h(1)] height_div2_mono [OF h(2)] Nd by auto
  moreover have "(2::nat) ^ (h div 2) \<le> 2 * 2 ^ ((h - 2) div 2)"
  proof (cases "2 \<le> h")
    case True
    then have "h div 2 = Suc ((h - 2) div 2)" by linarith
    then show ?thesis by simp
  next
    case False
    then have "h div 2 = 0" by simp
    then show ?thesis by simp
  qed
  ultimately show ?case unfolding h_def by simp
qed simp

lemma find_fn_to_Some:
  "avl_tree_find_fn_to cmp a t = Some y \<Longrightarrow> y \<in> set (inorder t) \<and> cmp a y \<and> cmp y a"
  by (induction t) (auto split: if_splits)

lemma find_fn_to_None:
  assumes "transp cmp" "sorted_wrt cmp (inorder t)" "avl_tree_find_fn_to cmp a t = None"
  shows "\<forall>y\<in>set (inorder t). \<not> (cmp a y \<and> cmp y a)"
  using assms(2,3)
proof (induction t)
  case (Nd l x b r)
  then have IH: "avl_tree_find_fn_to cmp a l = None \<Longrightarrow>
        \<forall>y\<in>set (inorder l). \<not> (cmp a y \<and> cmp y a)"
      "avl_tree_find_fn_to cmp a r = None \<Longrightarrow>
        \<forall>y\<in>set (inorder r). \<not> (cmp a y \<and> cmp y a)"
    and le: "\<And>y. y \<in> set (inorder l) \<Longrightarrow> cmp y x" "\<And>y. y \<in> set (inorder r) \<Longrightarrow> cmp x y"
    by (auto simp: sorted_wrt_append)
  show ?case
  proof (cases "cmp a x")
    case True
    then have "\<not> cmp x a" and l: "avl_tree_find_fn_to cmp a l = None"
      using Nd.prems(2) by (auto split: if_splits)
    then have "\<not> cmp y a" if "y \<in> set (inorder r)" for y
      using le(2) [OF that] transpD [OF assms(1)] by blast
    with IH(1) [OF l] \<open>\<not> cmp x a\<close> show ?thesis by auto
  next
    case False
    then have "\<not> cmp a y" if "y \<in> set (inorder l)" for y
      using le(1) [OF that] transpD [OF assms(1)] by blast
    with False IH(2) Nd.prems(2) show ?thesis by auto
  qed
qed simp

section \<open>The interface of an ordered container\<close>

text \<open>
  What the clients of the tree rely on: the sequence of its elements (\<open>elems\<close>), the internal
  invariant (\<open>wf\<close>), and how each operation acts on that sequence.
\<close>

locale ordered_store =
  fixes elems :: "'s \<Rightarrow> 'a list"
    and wf :: "'s \<Rightarrow> bool"
    and le :: "'a \<Rightarrow> 'a \<Rightarrow> bool"
    and ins :: "'a \<Rightarrow> 's \<Rightarrow> 's"
    and del :: "'a \<Rightarrow> 's \<Rightarrow> 's"
    and lower_bound :: "('a \<Rightarrow> bool) \<Rightarrow> 's \<Rightarrow> 'a option"
    and nxt :: "'a \<Rightarrow> 's \<Rightarrow> 'a option"
  assumes wf_ins: "wf s \<Longrightarrow> wf (ins x s)"
    and wf_del: "wf s \<Longrightarrow> wf (del x s)"
    and elems_ins: "mono_along (le x) (elems s) \<Longrightarrow> elems (ins x s) =
          takeWhile (\<lambda>y. \<not> le x y) (elems s) @ x # dropWhile (\<lambda>y. \<not> le x y) (elems s)"
    and elems_del: "distinct (elems s) \<Longrightarrow> elems (del x s) = remove1 x (elems s)"
    and lower_bound_law: "mono_along P (elems s) \<Longrightarrow> lower_bound P s = List.find P (elems s)"
    and nxt_law: "distinct (elems s) \<Longrightarrow> elems s = xs @ x # ys \<Longrightarrow>
          nxt x s = (case ys of [] \<Rightarrow> None | y # ys' \<Rightarrow> Some y)"
begin

text \<open>Inserting keeps the order and adds exactly the new element.\<close>

lemma sorted_ins:
  assumes "transp le" "totalp le" "reflp le" "sorted_wrt le (elems s)"
  shows "sorted_wrt le (elems (ins x s))"
proof -
  have total: "le x y \<or> le y x" for y
    using totalpD [OF assms(2), of x y] reflpD [OF assms(3), of x] by blast
  have mono: "mono_along (le x) (elems s)"
    using assms(4) by (rule mono_alongI) (rule transpD [OF assms(1)])
  have "\<forall>y\<in>set (takeWhile (\<lambda>y. \<not> le x y) (elems s)). le y x"
  proof
    fix y assume "y \<in> set (takeWhile (\<lambda>y. \<not> le x y) (elems s))"
    from set_takeWhileD [OF this] total [of y] show "le y x" by blast
  qed
  moreover have "\<forall>y\<in>set (dropWhile (\<lambda>y. \<not> le x y) (elems s)). le x y"
    by (rule ballI) (rule mono_along_dropWhile [OF mono])
  moreover have "sorted_wrt le (takeWhile (\<lambda>y. \<not> le x y) (elems s) @
      dropWhile (\<lambda>y. \<not> le x y) (elems s))"
    using assms(4) by (simp only: takeWhile_dropWhile_id)
  ultimately show ?thesis
    unfolding elems_ins [OF mono] sorted_wrt_append sorted_wrt.simps list.set
    by blast
qed

lemma set_ins:
  assumes "mono_along (le x) (elems s)"
  shows "set (elems (ins x s)) = insert x (set (elems s))"
proof -
  have "set (takeWhile (\<lambda>y. \<not> le x y) (elems s)) \<union> set (dropWhile (\<lambda>y. \<not> le x y) (elems s)) =
      set (elems s)"
    by (metis set_append takeWhile_dropWhile_id)
  then show ?thesis by (auto simp: elems_ins [OF assms])
qed

text \<open>
  The iteration pattern of the clients, a lower bound followed by repeated successor steps,
  visits the elements that satisfy the search predicate, in order, each once.
\<close>

lemma nxt_nth:
  assumes "distinct (elems s)" "i < length (elems s)"
  shows "nxt (elems s ! i) s =
    (if Suc i < length (elems s) then Some (elems s ! Suc i) else None)"
proof -
  have "nxt (elems s ! i) s =
      (case drop (Suc i) (elems s) of [] \<Rightarrow> None | y # ys' \<Rightarrow> Some y)"
    using assms by (intro nxt_law [OF _ id_take_nth_drop]) auto
  then show ?thesis
    by (cases "Suc i < length (elems s)") (simp_all add: Cons_nth_drop_Suc [of "Suc i", symmetric])
qed

lemma walk_nth:
  assumes "distinct (elems s)" "mono_along P (elems s)"
  shows "((\<lambda>cur. Option.bind cur (\<lambda>x. nxt x s)) ^^ k) (lower_bound P s) =
    (if k < length (filter P (elems s)) then Some (filter P (elems s) ! k) else None)"
proof (induction k)
  case 0
  show ?case
    using lower_bound_law [OF assms(2)] mono_along_filter(2) [OF assms(2)]
    by (auto simp: find_dropWhile split: list.splits)
next
  case (Suc k)
  define n where "n = length (takeWhile (\<lambda>z. \<not> P z) (elems s))"
  have drop: "filter P (elems s) = drop n (elems s)"
    using mono_along_filter(2) [OF assms(2)] by (simp add: n_def dropWhile_eq_drop)
  have n: "n \<le> length (elems s)" by (simp add: n_def length_takeWhile_le)
  show ?case
  proof (cases "n + k < length (elems s)")
    case True
    then have "((\<lambda>cur. Option.bind cur (\<lambda>x. nxt x s)) ^^ k) (lower_bound P s) =
        Some (elems s ! (n + k))"
      using Suc.IH n unfolding drop by simp
    then show ?thesis
      using nxt_nth [OF assms(1) True] n unfolding drop by simp arith
  next
    case False
    then have "length (filter P (elems s)) \<le> k" unfolding drop by simp
    then show ?thesis using Suc.IH by simp
  qed
qed

end

interpretation avl_store: ordered_store inorder avl_ok cmp "avl_tree_insert cmp"
  avl_tree_delete "\<lambda>P. avl_tree_lower_bound_fn (\<lambda>(u::unit) x. P x) ()" avl_tree_next
  for cmp
proof (unfold_locales, goal_cases)
  case 1 then show ?case by (rule avl_ok_insert)
next
  case 2 then show ?case by (rule avl_ok_delete)
next
  case 3 then show ?case by (rule inorder_insert)
next
  case 4 then show ?case by (rule inorder_delete)
next
  case 5 then show ?case by (simp add: lower_bound_find)
next
  case 6 then show ?case by (rule next_split)
qed

section \<open>Properties of the tree\<close>

text \<open>C6: Inserting into a balanced tree ordered by a total preorder gives a balanced ordered
  tree again (every balance field is the height difference and lies in -1..1, although only the
  parents up to the first absorbed change are touched), and its element sequence is the old one
  with the new element placed in front of the elements it compares less or equal to.\<close>

theorem avl_tree_insert_correct:
  assumes "avl_ok t" "transp cmp" "totalp cmp" "reflp cmp" "sorted_wrt cmp (inorder t)"
  shows "avl_ok (avl_tree_insert cmp x t) \<and> sorted_wrt cmp (inorder (avl_tree_insert cmp x t)) \<and>
    inorder (avl_tree_insert cmp x t) =
      takeWhile (\<lambda>y. \<not> cmp x y) (inorder t) @ x # dropWhile (\<lambda>y. \<not> cmp x y) (inorder t)"
proof -
  have mono: "mono_along (cmp x) (inorder t)"
    using assms(5) by (rule mono_alongI) (rule transpD [OF assms(2)])
  show ?thesis
    by (intro conjI avl_ok_insert assms(1) avl_store.sorted_ins [OF assms(2-5)]
        inorder_insert [of cmp x t, OF mono])
qed

definition tree_1_to_7 :: "nat avl" where
  "tree_1_to_7 = fold (avl_tree_insert (\<le>)) [1, 2, 3, 4, 5, 6, 7] Tip"

lemma tree_1_to_7_eval:
  "tree_1_to_7 = Nd (Nd (Nd Tip 1 0 Tip) 2 0 (Nd Tip 3 0 Tip)) 4 0
     (Nd (Nd Tip 5 0 Tip) 6 0 (Nd Tip 7 0 Tip))"
  by (simp add: tree_1_to_7_def avl_tree_insert_def)

lemma le_nat_order: "transp ((\<le>) :: nat \<Rightarrow> nat \<Rightarrow> bool)" "totalp ((\<le>) :: nat \<Rightarrow> nat \<Rightarrow> bool)"
    "reflp ((\<le>) :: nat \<Rightarrow> nat \<Rightarrow> bool)"
  by (auto intro: transpI totalpI reflpI)

theorem avl_tree_insert_correct_witness:
  "avl_ok (avl_tree_insert (\<le>) 8 tree_1_to_7) \<and>
   inorder (avl_tree_insert (\<le>) 8 tree_1_to_7) = [1, 2, 3, 4, 5, 6, 7, 8]"
proof -
  have "avl_ok tree_1_to_7" "sorted_wrt (\<le>) (inorder tree_1_to_7)"
    by (simp_all add: tree_1_to_7_eval)
  from avl_tree_insert_correct [OF this(1) le_nat_order this(2), of 8]
  show ?thesis by (simp add: tree_1_to_7_eval)
qed

text \<open>C7: Deleting a node of a balanced tree keeps it balanced and removes exactly that element
  from the sequence, also when the node has two children and is first exchanged with its
  successor; deleting an element that is not there changes nothing.\<close>

theorem avl_tree_delete_correct:
  assumes "avl_ok t" "distinct (inorder t)"
  shows "avl_ok (avl_tree_delete x t) \<and> inorder (avl_tree_delete x t) = remove1 x (inorder t)"
  using assms by (simp add: avl_ok_delete inorder_delete)

theorem avl_tree_delete_correct_witness:
  "avl_ok (avl_tree_delete 4 tree_1_to_7) \<and>
   inorder (avl_tree_delete 4 tree_1_to_7) = [1, 2, 3, 5, 6, 7]"
  using avl_tree_delete_correct [of tree_1_to_7 4] by (simp add: tree_1_to_7_eval)

text \<open>The iteration every client uses: \<^verbatim>\<open>avl_tree_lower_bound_fn\<close> followed by repeated
  \<^verbatim>\<open>avl_tree_next\<close> visits, in order and each once, exactly the elements that satisfy the search
  predicate, and then ends.\<close>

theorem avl_tree_walk_correct:
  assumes "distinct (inorder t)" "mono_along P (inorder t)"
  shows "((\<lambda>cur. Option.bind cur (\<lambda>x. avl_tree_next x t)) ^^ k)
      (avl_tree_lower_bound_fn (\<lambda>(u::unit) x. P x) () t) =
    (if k < length (filter P (inorder t)) then Some (filter P (inorder t) ! k) else None)"
  using assms by (rule avl_store.walk_nth)

theorem avl_tree_walk_correct_witness:
  "((\<lambda>cur. Option.bind cur (\<lambda>x. avl_tree_next x tree_1_to_7)) ^^ 2)
     (avl_tree_lower_bound_fn (\<lambda>(u::unit) x. 3 \<le> x) () tree_1_to_7) = Some 5"
  using avl_tree_walk_correct [of tree_1_to_7 "\<lambda>x. 3 \<le> x" 2]
  by (simp add: tree_1_to_7_eval numeral_2_eq_2)

text \<open>The debug check of the C code accepts exactly the balanced trees, and in a tree it
  accepts the height (the length of every search path) is logarithmic in the number of
  elements.\<close>

theorem debug_avl_tree_is_balanced_correct:
  "(debug_avl_tree_is_balanced t \<longleftrightarrow> avl_ok t) \<and>
   (debug_avl_tree_is_balanced t \<longrightarrow>
      (2::nat) ^ (nat (height t) div 2) \<le> length (inorder t) + 1)"
  using height_size by (auto simp: debug_avl_tree_is_balanced_def is_balanced_size_ok)

theorem debug_avl_tree_is_balanced_correct_witness:
  "debug_avl_tree_is_balanced tree_1_to_7 \<and>
   (2::nat) ^ (nat (height tree_1_to_7) div 2) \<le> length (inorder tree_1_to_7) + 1"
  using debug_avl_tree_is_balanced_correct [of tree_1_to_7] by (simp add: tree_1_to_7_eval)

text \<open>\<^verbatim>\<open>avl_tree_find\<close> in a tree ordered by a transitive comparison returns an element
  that compares equal both ways, and returns none only when there is no such element.\<close>

theorem avl_tree_find_correct:
  assumes "transp cmp" "sorted_wrt cmp (inorder t)"
  shows "(case avl_tree_find cmp a t of
      Some y \<Rightarrow> y \<in> set (inorder t) \<and> cmp a y \<and> cmp y a
    | None \<Rightarrow> \<forall>y. y \<in> set (inorder t) \<longrightarrow> \<not> (cmp a y \<and> cmp y a))"
  using find_fn_to_Some [of cmp a t] find_fn_to_None [OF assms, of a]
  by (simp add: avl_tree_find_def split: option.split)

theorem avl_tree_find_correct_witness:
  "avl_tree_find (\<le>) 5 tree_1_to_7 = Some 5 \<and> 5 \<in> set (inorder tree_1_to_7)"
  using avl_tree_find_correct [of "(\<le>)" tree_1_to_7 5] le_nat_order(1)
  by (simp add: tree_1_to_7_eval avl_tree_find_def)

end
