(* ===== verification/Vma.thy ===== *)
theory Vma
  imports Avl_Tree
begin

text \<open>
  The memory-region bookkeeping of the LibOS, first part of
  \<^verbatim>\<open>libos/src/bookkeep/libos_vma.c\<close>: the region record, the address-ordered tree of regions and
  the removal of an address range.

  The tree is represented by its element sequence. Section \<open>Refinement\<close> below shows that each
  primitive on the sequence is what the operation of \<^verbatim>\<open>avl_tree.c\<close> does to a tree with that
  sequence, so that the sequence and the balanced tree are interchangeable. An in-place change
  of a node is a replacement at its position. The loops of the source walk the tree with
  \<^verbatim>\<open>_get_next_vma\<close>; they are recursions over the remaining elements.
\<close>

section \<open>Constants\<close>

definition PROT_NONE :: flags where "PROT_NONE = 0"
definition PROT_READ :: flags where "PROT_READ = 1"
definition PROT_WRITE :: flags where "PROT_WRITE = 2"
definition PROT_EXEC :: flags where "PROT_EXEC = 4"
definition PROT_GROWSDOWN :: flags where "PROT_GROWSDOWN = 0x01000000"
definition PROT_GROWSUP :: flags where "PROT_GROWSUP = 0x02000000"

definition MAP_SHARED :: flags where "MAP_SHARED = 0x01"
definition MAP_PRIVATE :: flags where "MAP_PRIVATE = 0x02"
definition MAP_SHARED_VALIDATE :: flags where "MAP_SHARED_VALIDATE = 0x03"
definition MAP_TYPE :: flags where "MAP_TYPE = 0x0f"
definition MAP_FIXED :: flags where "MAP_FIXED = 0x10"
definition MAP_ANONYMOUS :: flags where "MAP_ANONYMOUS = 0x20"
definition MAP_32BIT :: flags where "MAP_32BIT = 0x40"
definition MAP_GROWSDOWN :: flags where "MAP_GROWSDOWN = 0x100"
definition MAP_STACK :: flags where "MAP_STACK = 0x20000"
definition MAP_HUGETLB :: flags where "MAP_HUGETLB = 0x40000"
definition MAP_FIXED_NOREPLACE :: flags where "MAP_FIXED_NOREPLACE = 0x100000"
definition MAP_HUGE_2MB :: flags where "MAP_HUGE_2MB = 0x54000000"
definition MAP_HUGE_1GB :: flags where "MAP_HUGE_1GB = 0x78000000"

definition VMA_UNMAPPED :: flags where "VMA_UNMAPPED = 0x10000000"
definition VMA_INTERNAL :: flags where "VMA_INTERNAL = 0x20000000"
definition VMA_TAINTED :: flags where "VMA_TAINTED = 0x40000000"

definition O_RDWR :: flags where "O_RDWR = 2"

definition VMA_COMMENT_LEN :: nat where "VMA_COMMENT_LEN = 16"
definition VMA_CACHE_SIZE :: nat where "VMA_CACHE_SIZE = 3"
definition DEFAULT_VMA_COUNT :: nat where "DEFAULT_VMA_COUNT = 64"

lemmas vma_consts = PROT_NONE_def PROT_READ_def PROT_WRITE_def PROT_EXEC_def PROT_GROWSDOWN_def
  PROT_GROWSUP_def MAP_SHARED_def MAP_PRIVATE_def MAP_SHARED_VALIDATE_def MAP_TYPE_def MAP_FIXED_def
  MAP_ANONYMOUS_def MAP_32BIT_def MAP_GROWSDOWN_def MAP_STACK_def MAP_HUGETLB_def
  MAP_FIXED_NOREPLACE_def MAP_HUGE_2MB_def MAP_HUGE_1GB_def VMA_UNMAPPED_def VMA_INTERNAL_def
  VMA_TAINTED_def O_RDWR_def VMA_COMMENT_LEN_def VMA_CACHE_SIZE_def DEFAULT_VMA_COUNT_def

definition filter_saved_flags :: "flags \<Rightarrow> flags" where
  "filter_saved_flags fl =
     fl AND (MAP_SHARED OR MAP_SHARED_VALIDATE OR MAP_PRIVATE OR MAP_ANONYMOUS OR MAP_GROWSDOWN
       OR MAP_HUGETLB OR MAP_HUGE_2MB OR MAP_HUGE_1GB OR MAP_STACK
       OR VMA_UNMAPPED OR VMA_INTERNAL OR VMA_TAINTED)"

section \<open>Regions and the bookkeeping state\<close>

text \<open>
  The fields of a file handle that the bookkeeping reads: its identity, open flags, inode (if it
  has one), access mode and which of the \<^verbatim>\<open>msync\<close> and \<^verbatim>\<open>read\<close> callbacks its file system has.
\<close>

record libos_handle =
  hdl_id :: nat
  hdl_flags :: flags
  hdl_inode :: "nat option"
  hdl_may_read :: bool
  hdl_may_write :: bool
  hdl_has_msync :: bool
  hdl_has_read :: bool

record libos_vma =
  vma_begin :: addr
  vma_end :: addr
  vma_prot :: flags
  vma_flags :: flags
  vma_file :: "libos_handle option"
  vma_offset :: nat
  vma_comment :: string

text \<open>
  The globals of the file: the tree, the two memory counters, the per-handle reference counts and
  the per-inode count of mappings that region objects hold, the length of the thread's cache of
  free region objects, the number of objects the region allocator \<^verbatim>\<open>vma_mgr\<close> can hand out
  without growing, the top address of the randomized search and whether the checkpoint of the
  parent has been received.
\<close>

record vma_state =
  vma_tree :: "libos_vma list"
  g_total_memory_size :: nat
  g_peak_total_memory_size :: nat
  hdl_refs :: "nat \<Rightarrow> nat"
  num_mmapped :: "nat \<Rightarrow> nat"
  vma_cache :: nat
  vma_mgr_avail :: nat
  g_aslr_addr_top :: addr
  g_received_user_memory :: bool

definition copy_comment :: "string \<Rightarrow> string" where
  "copy_comment c = take (VMA_COMMENT_LEN - 1) c"

definition hold_file :: "libos_handle option \<Rightarrow> vma_state \<Rightarrow> vma_state" where
  "hold_file file st =
     (case file of
        None \<Rightarrow> st
      | Some h \<Rightarrow>
          (let st = st\<lparr>hdl_refs := (hdl_refs st)(hdl_id h := hdl_refs st (hdl_id h) + 1)\<rparr>
           in case hdl_inode h of
                None \<Rightarrow> st
              | Some i \<Rightarrow> st\<lparr>num_mmapped := (num_mmapped st)(i := num_mmapped st i + 1)\<rparr>))"

definition release_file :: "libos_handle option \<Rightarrow> vma_state \<Rightarrow> vma_state" where
  "release_file file st =
     (case file of
        None \<Rightarrow> st
      | Some h \<Rightarrow>
          (let st = st\<lparr>hdl_refs := (hdl_refs st)(hdl_id h := hdl_refs st (hdl_id h) - 1)\<rparr>
           in case hdl_inode h of
                None \<Rightarrow> st
              | Some i \<Rightarrow> st\<lparr>num_mmapped := (num_mmapped st)(i := num_mmapped st i - 1)\<rparr>))"

text \<open>\<^verbatim>\<open>copy_vma\<close> copies every field and takes its own references to the file.\<close>

definition copy_vma :: "libos_vma \<Rightarrow> vma_state \<Rightarrow> libos_vma \<times> vma_state" where
  "copy_vma old_vma st =
     (old_vma\<lparr>vma_comment := copy_comment (vma_comment old_vma)\<rparr>, hold_file (vma_file old_vma) st)"

definition vma_tree_cmp :: "libos_vma \<Rightarrow> libos_vma \<Rightarrow> bool" where
  "vma_tree_cmp a b \<longleftrightarrow> vma_end a \<le> vma_end b"

definition is_addr_in_vma :: "addr \<Rightarrow> libos_vma \<Rightarrow> bool" where
  "is_addr_in_vma a vma \<longleftrightarrow> vma_begin vma \<le> a \<and> a < vma_end vma"

definition cmp_addr_to_vma :: "addr \<Rightarrow> libos_vma \<Rightarrow> bool" where
  "cmp_addr_to_vma a vma \<longleftrightarrow> a < vma_end vma"

definition total_memory_size_add :: "nat \<Rightarrow> vma_state \<Rightarrow> vma_state" where
  "total_memory_size_add len st =
     (let tot = u64 (g_total_memory_size st + len)
      in st\<lparr>g_total_memory_size := tot,
            g_peak_total_memory_size :=
              (if g_peak_total_memory_size st < tot then tot
               else g_peak_total_memory_size st)\<rparr>)"

definition total_memory_size_sub :: "nat \<Rightarrow> vma_state \<Rightarrow> vma_state" where
  "total_memory_size_sub len st = st\<lparr>g_total_memory_size := g_total_memory_size st - len\<rparr>"

section \<open>The tree as a sequence\<close>

definition tree_insert :: "libos_vma \<Rightarrow> libos_vma list \<Rightarrow> libos_vma list" where
  "tree_insert v ts =
     takeWhile (\<lambda>w. \<not> vma_tree_cmp v w) ts @ v # dropWhile (\<lambda>w. \<not> vma_tree_cmp v w) ts"

definition tree_delete :: "libos_vma \<Rightarrow> libos_vma list \<Rightarrow> libos_vma list" where
  "tree_delete v ts = remove1 v ts"

text \<open>The elements before the one \<^verbatim>\<open>_lookup_vma\<close> returns, and it with its successors.\<close>

definition lookup_prefix :: "addr \<Rightarrow> libos_vma list \<Rightarrow> libos_vma list" where
  "lookup_prefix a ts = takeWhile (\<lambda>v. \<not> cmp_addr_to_vma a v) ts"

definition lookup_suffix :: "addr \<Rightarrow> libos_vma list \<Rightarrow> libos_vma list" where
  "lookup_suffix a ts = dropWhile (\<lambda>v. \<not> cmp_addr_to_vma a v) ts"

definition u_lookup_vma :: "addr \<Rightarrow> libos_vma list \<Rightarrow> libos_vma option" where
  "u_lookup_vma a ts = List.find (cmp_addr_to_vma a) ts"

text \<open>Insertion of a region and its accounting, which the source always does together.\<close>

definition add_vma :: "libos_vma \<Rightarrow> vma_state \<Rightarrow> vma_state" where
  "add_vma v st =
     total_memory_size_add (vma_end v - vma_begin v) (st\<lparr>vma_tree := tree_insert v (vma_tree st)\<rparr>)"

section \<open>Splitting and removing\<close>

text \<open>A region that gives up its part below an address: the file offset moves with the start.\<close>

definition move_begin :: "addr \<Rightarrow> libos_vma \<Rightarrow> libos_vma" where
  "move_begin a vma = vma\<lparr>vma_begin := a,
     vma_offset := (if vma_file vma \<noteq> None then u64 (vma_offset vma + (a - vma_begin vma))
                    else vma_offset vma)\<rparr>"

text \<open>
  \<^verbatim>\<open>split_vma\<close> shortens the old region to end at the address and fills the new one with the rest;
  the pair is the old and the new region.
\<close>

definition split_vma :: "libos_vma \<Rightarrow> addr \<Rightarrow> vma_state \<Rightarrow> (libos_vma \<times> libos_vma) \<times> vma_state" where
  "split_vma old_vma a st =
     (let (new_vma, st) = copy_vma old_vma st
      in ((old_vma\<lparr>vma_end := a\<rparr>, move_begin a new_vma), st))"

fun check_internal :: "addr \<Rightarrow> bool \<Rightarrow> libos_vma list \<Rightarrow> bool" where
  "check_internal e is_internal [] = True"
| "check_internal e is_internal (v # vs) =
     (if vma_begin v < e
      then (if has_flag (vma_flags v) VMA_INTERNAL \<noteq> is_internal then False
            else check_internal e is_internal vs)
      else True)"

text \<open>
  The deletion loop of \<^verbatim>\<open>_vma_bkeep_remove\<close> from a given region on: the regions put on the list
  to be freed, what remains of the sequence, and the total-memory counter.
\<close>

fun remove_loop :: "addr \<Rightarrow> libos_vma list \<Rightarrow> nat \<Rightarrow> libos_vma list \<times> libos_vma list \<times> nat" where
  "remove_loop e [] tot = ([], [], tot)"
| "remove_loop e (v # vs) tot =
     (if vma_end v \<le> e
      then (let (freed, rest, t) = remove_loop e vs (tot - (vma_end v - vma_begin v))
            in (v # freed, rest, t))
      else if vma_begin v < e
      then ([], move_begin e v # vs, tot - (e - vma_begin v))
      else ([], v # vs, tot))"

record remove_result =
  rm_ret :: int
  rm_used_new :: bool
  rm_to_free :: "libos_vma list"

definition u_vma_bkeep_remove ::
  "addr \<Rightarrow> addr \<Rightarrow> bool \<Rightarrow> bool \<Rightarrow> vma_state \<Rightarrow> remove_result \<times> vma_state" where
  "u_vma_bkeep_remove b e is_internal have_new st =
     (let ok = \<lparr>rm_ret = 0, rm_used_new = False, rm_to_free = []\<rparr>;
          pre = lookup_prefix b (vma_tree st);
          loop = (\<lambda>pre vs st.
            (let (freed, rest, t) = remove_loop e vs (g_total_memory_size st)
             in (ok\<lparr>rm_to_free := freed\<rparr>,
                 st\<lparr>vma_tree := pre @ rest, g_total_memory_size := t\<rparr>)))
      in case lookup_suffix b (vma_tree st) of
           [] \<Rightarrow> (ok, st)
         | v # vs \<Rightarrow>
             if \<not> check_internal e is_internal (v # vs) then (ok\<lparr>rm_ret := - EACCES\<rparr>, st)
             else if vma_begin v < b
             then (if e < vma_end v
                   then (if \<not> have_new then (ok\<lparr>rm_ret := - ENOMEM\<rparr>, st)
                         else (let ((old, new_vma), st) = split_vma v e st;
                                   old = old\<lparr>vma_end := b\<rparr>;
                                   st = st\<lparr>vma_tree := tree_insert new_vma (pre @ old # vs)\<rparr>
                               in (ok\<lparr>rm_used_new := True\<rparr>, total_memory_size_sub (e - b) st)))
                   else loop (pre @ [v\<lparr>vma_end := b\<rparr>]) vs (total_memory_size_sub (vma_end v - b) st))
             else loop pre (v # vs) st)"

section \<open>Invariant and address map\<close>

text \<open>
  A well-formed region is non-empty, page aligned and inside the 64-bit space; its comment fits
  the field. The sequence is ordered and free of overlaps.
\<close>

definition vma_ok :: "libos_vma \<Rightarrow> bool" where
  "vma_ok v \<longleftrightarrow> vma_begin v < vma_end v \<and> vma_end v < 2 ^ 64 \<and>
     IS_ALLOC_ALIGNED (vma_begin v) \<and> IS_ALLOC_ALIGNED (vma_end v) \<and>
     copy_comment (vma_comment v) = vma_comment v"

definition vmas_ok :: "libos_vma list \<Rightarrow> bool" where
  "vmas_ok ts \<longleftrightarrow> sorted_wrt (\<lambda>v w. vma_end v \<le> vma_begin w) ts \<and> (\<forall>v\<in>set ts. vma_ok v)"

definition tree_size :: "libos_vma list \<Rightarrow> nat" where
  "tree_size ts = sum_list (map (\<lambda>v. vma_end v - vma_begin v) ts)"

text \<open>How many regions hold a reference to a handle, and how many map an inode.\<close>

definition maps_handle :: "nat \<Rightarrow> libos_vma \<Rightarrow> bool" where
  "maps_handle h v \<longleftrightarrow> (\<exists>f. vma_file v = Some f \<and> hdl_id f = h)"

definition maps_inode :: "nat \<Rightarrow> libos_vma \<Rightarrow> bool" where
  "maps_inode i v \<longleftrightarrow> (\<exists>f. vma_file v = Some f \<and> hdl_inode f = Some i)"

definition handle_count :: "nat \<Rightarrow> libos_vma list \<Rightarrow> nat" where
  "handle_count h ts = length (filter (maps_handle h) ts)"

definition inode_count :: "nat \<Rightarrow> libos_vma list \<Rightarrow> nat" where
  "inode_count i ts = length (filter (maps_inode i) ts)"

text \<open>
  The bookkeeping invariant. The counters agree with the tree: the total is the size of all
  regions, and each inode's mapping count is the number of regions that map it; a handle has at
  least the references its regions hold. \<open>extra\<close> are regions outside the tree that still hold
  references (the ones on a list to be freed, or a new one not inserted yet).
\<close>

definition files_ok :: "libos_vma list \<Rightarrow> vma_state \<Rightarrow> bool" where
  "files_ok extra st \<longleftrightarrow>
     (\<forall>i. num_mmapped st i = inode_count i (vma_tree st) + inode_count i extra) \<and>
     (\<forall>h. handle_count h (vma_tree st) + handle_count h extra \<le> hdl_refs st h)"

definition mem_ok :: "vma_state \<Rightarrow> bool" where
  "mem_ok st \<longleftrightarrow> vmas_ok (vma_tree st) \<and> g_total_memory_size st = tree_size (vma_tree st) \<and>
     g_total_memory_size st \<le> g_peak_total_memory_size st"

definition vma_inv :: "vma_state \<Rightarrow> bool" where
  "vma_inv st \<longleftrightarrow> mem_ok st \<and> files_ok [] st"

text \<open>
  The abstract view: each address maps to the protection, the flags, the file with the offset
  the address shows, and the comment.
\<close>

type_synonym page = "flags \<times> flags \<times> (libos_handle \<times> nat) option \<times> string"

definition vma_page :: "libos_vma \<Rightarrow> addr \<Rightarrow> page" where
  "vma_page v a = (vma_prot v, vma_flags v,
     map_option (\<lambda>h. (h, u64 (vma_offset v + (a - vma_begin v)))) (vma_file v), vma_comment v)"

definition vma_pages :: "libos_vma \<Rightarrow> addr \<rightharpoonup> page" where
  "vma_pages v = (\<lambda>a. if is_addr_in_vma a v then Some (vma_page v a) else None)"

fun page_map :: "libos_vma list \<Rightarrow> addr \<rightharpoonup> page" where
  "page_map [] = Map.empty"
| "page_map (v # vs) = page_map vs ++ vma_pages v"

subsection \<open>Sequence lemmas\<close>

lemma vmas_ok_Nil [simp]: "vmas_ok []"
  by (simp add: vmas_ok_def)

lemma vmas_ok_Cons [simp]:
  "vmas_ok (v # vs) \<longleftrightarrow> vma_ok v \<and> vmas_ok vs \<and> (\<forall>w\<in>set vs. vma_end v \<le> vma_begin w)"
  by (auto simp: vmas_ok_def)

lemma vmas_ok_append [simp]:
  "vmas_ok (xs @ ys) \<longleftrightarrow>
     vmas_ok xs \<and> vmas_ok ys \<and> (\<forall>v\<in>set xs. \<forall>w\<in>set ys. vma_end v \<le> vma_begin w)"
  by (auto simp: vmas_ok_def sorted_wrt_append)

lemma vmas_okD:
  assumes "vmas_ok ts" "v \<in> set ts"
  shows "vma_ok v" "vma_begin v < vma_end v" "vma_end v < 2 ^ 64"
  using assms by (auto simp: vmas_ok_def vma_ok_def)

lemma tree_size_simps [simp]:
  "tree_size [] = 0" "tree_size (v # vs) = vma_end v - vma_begin v + tree_size vs"
  "tree_size (xs @ ys) = tree_size xs + tree_size ys"
  by (simp_all add: tree_size_def)

lemma handle_count_simps [simp]:
  "handle_count h [] = 0"
  "handle_count h (v # vs) = (if maps_handle h v then 1 else 0) + handle_count h vs"
  "handle_count h (xs @ ys) = handle_count h xs + handle_count h ys"
  by (simp_all add: handle_count_def)

lemma inode_count_simps [simp]:
  "inode_count i [] = 0"
  "inode_count i (v # vs) = (if maps_inode i v then 1 else 0) + inode_count i vs"
  "inode_count i (xs @ ys) = inode_count i xs + inode_count i ys"
  by (simp_all add: inode_count_def)

lemma maps_update [simp]:
  "maps_inode i (v\<lparr>vma_begin := b\<rparr>) = maps_inode i v"
  "maps_inode i (v\<lparr>vma_end := b\<rparr>) = maps_inode i v"
  "maps_inode i (v\<lparr>vma_offset := p\<rparr>) = maps_inode i v"
  "maps_inode i (v\<lparr>vma_comment := c\<rparr>) = maps_inode i v"
  "maps_inode i (v\<lparr>vma_prot := pr\<rparr>) = maps_inode i v"
  "maps_inode i (v\<lparr>vma_flags := fl\<rparr>) = maps_inode i v"
  "maps_handle h (v\<lparr>vma_begin := b\<rparr>) = maps_handle h v"
  "maps_handle h (v\<lparr>vma_end := b\<rparr>) = maps_handle h v"
  "maps_handle h (v\<lparr>vma_offset := p\<rparr>) = maps_handle h v"
  "maps_handle h (v\<lparr>vma_comment := c\<rparr>) = maps_handle h v"
  "maps_handle h (v\<lparr>vma_prot := pr\<rparr>) = maps_handle h v"
  "maps_handle h (v\<lparr>vma_flags := fl\<rparr>) = maps_handle h v"
  by (simp_all add: maps_inode_def maps_handle_def)

lemma page_map_append [simp]: "page_map (xs @ ys) = page_map ys ++ page_map xs"
  by (induction xs) simp_all

lemma page_map_NoneI: "\<forall>v\<in>set ts. \<not> is_addr_in_vma a v \<Longrightarrow> page_map ts a = None"
  by (induction ts) (auto simp: vma_pages_def map_add_def)

lemma page_map_dom: "page_map ts a \<noteq> None \<longleftrightarrow> (\<exists>v\<in>set ts. is_addr_in_vma a v)"
  by (induction ts) (simp_all add: vma_pages_def vma_page_def map_add_def split: option.split)

lemma page_map_in:
  assumes "vmas_ok ts" "v \<in> set ts" "is_addr_in_vma a v"
  shows "page_map ts a = Some (vma_page v a)"
  using assms
proof (induction ts)
  case (Cons w ts)
  show ?case
  proof (cases "v = w")
    case True
    with Cons.prems show ?thesis by (simp add: vma_pages_def map_add_def)
  next
    case False
    with Cons.prems have "\<not> is_addr_in_vma a w" by (auto simp: is_addr_in_vma_def)
    with False Cons show ?thesis by (auto simp: vma_pages_def map_add_def)
  qed
qed simp

text \<open>Two ordered sequences whose regions show the same pages have the same page map.\<close>

lemma page_map_eqI:
  assumes "vmas_ok ts" "vmas_ok us"
    and "\<And>v. v \<in> set ts \<Longrightarrow> is_addr_in_vma a v \<Longrightarrow>
          \<exists>w\<in>set us. is_addr_in_vma a w \<and> vma_page w a = vma_page v a"
    and "\<And>w. w \<in> set us \<Longrightarrow> is_addr_in_vma a w \<Longrightarrow> \<exists>v\<in>set ts. is_addr_in_vma a v"
  shows "page_map ts a = page_map us a"
proof (cases "\<exists>v\<in>set ts. is_addr_in_vma a v")
  case True
  then obtain v w where "v \<in> set ts" "is_addr_in_vma a v" "w \<in> set us" "is_addr_in_vma a w"
      "vma_page w a = vma_page v a"
    using assms(3) by blast
  then show ?thesis using page_map_in assms(1,2) by metis
next
  case False
  then show ?thesis using assms(4) by (metis page_map_dom)
qed

lemma lookup_split: "lookup_prefix a ts @ lookup_suffix a ts = ts"
  by (simp add: lookup_prefix_def lookup_suffix_def)

lemma lookup_prefix_end: "v \<in> set (lookup_prefix a ts) \<Longrightarrow> vma_end v \<le> a"
  by (auto simp: lookup_prefix_def cmp_addr_to_vma_def dest!: set_takeWhileD)

lemma vmas_mono_along: "vmas_ok ts \<Longrightarrow> mono_along (cmp_addr_to_vma a) ts"
proof (induction ts)
  case (Cons v ts)
  then have "vma_end v \<le> vma_end w" if "w \<in> set ts" for w
    using that vmas_okD [of ts w] by force
  with Cons show ?case by (auto simp: cmp_addr_to_vma_def intro: less_le_trans)
qed simp

lemma lookup_suffix_end: "vmas_ok ts \<Longrightarrow> v \<in> set (lookup_suffix a ts) \<Longrightarrow> a < vma_end v"
  using mono_along_dropWhile [OF vmas_mono_along]
  unfolding lookup_suffix_def cmp_addr_to_vma_def by blast

lemma lookup_hd:
  "u_lookup_vma a ts = (case lookup_suffix a ts of [] \<Rightarrow> None | v # vs \<Rightarrow> Some v)"
  by (simp add: u_lookup_vma_def lookup_suffix_def find_dropWhile)

lemma tree_size_bound:
  "vmas_ok ts \<Longrightarrow> \<forall>v\<in>set ts. lo \<le> vma_begin v \<Longrightarrow> lo < 2 ^ 64 \<Longrightarrow> tree_size ts + lo < 2 ^ 64"
proof (induction ts arbitrary: lo)
  case (Cons v ts)
  then have "tree_size ts + vma_end v < 2 ^ 64" by (auto simp: vma_ok_def)
  moreover have "lo \<le> vma_begin v" "vma_begin v < vma_end v"
    using Cons.prems by (auto simp: vma_ok_def)
  ultimately show ?case by simp
qed simp

lemma tree_size_less: "vmas_ok ts \<Longrightarrow> tree_size ts < 2 ^ 64"
  using tree_size_bound [of ts 0] by simp

subsection \<open>Inserting a region that overlaps none\<close>

definition vma_free :: "addr \<Rightarrow> addr \<Rightarrow> libos_vma list \<Rightarrow> bool" where
  "vma_free b e ts \<longleftrightarrow> (\<forall>w\<in>set ts. vma_end w \<le> b \<or> e \<le> vma_begin w)"

lemma tree_insert_between:
  assumes "\<forall>w\<in>set xs. vma_end w < vma_end v" "\<forall>w\<in>set ys. vma_end v \<le> vma_end w"
  shows "tree_insert v (xs @ ys) = xs @ v # ys"
proof -
  have "takeWhile (\<lambda>w. \<not> vma_tree_cmp v w) ys = []" "dropWhile (\<lambda>w. \<not> vma_tree_cmp v w) ys = ys"
    using assms(2) by (cases ys; simp add: vma_tree_cmp_def)+
  moreover have "\<forall>w\<in>set xs. \<not> vma_tree_cmp v w"
    using assms(1) by (auto simp: vma_tree_cmp_def)
  ultimately show ?thesis unfolding tree_insert_def by simp
qed

text \<open>The position of a new region: everything before it ends below it, the rest starts above.\<close>

lemma tree_insert_split:
  assumes "vmas_ok ts" "vma_ok v" "vma_free (vma_begin v) (vma_end v) ts"
  obtains xs ys where "ts = xs @ ys" "tree_insert v ts = xs @ v # ys"
    "\<forall>w\<in>set xs. vma_end w \<le> vma_begin v" "\<forall>w\<in>set ys. vma_end v \<le> vma_begin w"
proof
  define xs ys where "xs = takeWhile (\<lambda>w. \<not> vma_tree_cmp v w) ts"
    and "ys = dropWhile (\<lambda>w. \<not> vma_tree_cmp v w) ts"
  show ts: "ts = xs @ ys" by (simp add: xs_def ys_def)
  show "tree_insert v ts = xs @ v # ys" by (simp add: tree_insert_def xs_def ys_def)
  have v: "vma_begin v < vma_end v" using assms(2) by (simp add: vma_ok_def)
  show "\<forall>w\<in>set xs. vma_end w \<le> vma_begin v"
  proof
    fix w assume w: "w \<in> set xs"
    then have "vma_end w < vma_end v"
      by (auto simp: xs_def vma_tree_cmp_def dest!: set_takeWhileD)
    moreover have "vma_begin w < vma_end w" "w \<in> set ts"
      using assms(1) w ts by (auto dest: vmas_okD)
    ultimately show "vma_end w \<le> vma_begin v"
      using assms(3) unfolding vma_free_def by force
  qed
  have mono: "mono_along (vma_tree_cmp v) ts"
    using vmas_mono_along [OF assms(1), of "vma_end v - 1"] v
    unfolding mono_along_def cmp_addr_to_vma_def vma_tree_cmp_def
    by (simp add: less_eq_Suc_le Suc_diff_Suc)
  show "\<forall>w\<in>set ys. vma_end v \<le> vma_begin w"
  proof
    fix w assume w: "w \<in> set ys"
    then have "vma_end v \<le> vma_end w"
      using mono_along_dropWhile [OF mono] unfolding ys_def vma_tree_cmp_def by blast
    then show "vma_end v \<le> vma_begin w"
      using assms(3) w ts v unfolding vma_free_def by force
  qed
qed

lemma tree_insert_ok:
  assumes "vmas_ok ts" "vma_ok v" "vma_free (vma_begin v) (vma_end v) ts"
  shows "vmas_ok (tree_insert v ts)"
    and "tree_size (tree_insert v ts) = tree_size ts + (vma_end v - vma_begin v)"
    and "page_map (tree_insert v ts) = page_map ts ++ vma_pages v"
    and "handle_count h (tree_insert v ts) = handle_count h (v # ts)"
    and "inode_count i (tree_insert v ts) = inode_count i (v # ts)"
    and "set (tree_insert v ts) = insert v (set ts)"
proof -
  from assms obtain xs ys where s: "ts = xs @ ys" "tree_insert v ts = xs @ v # ys"
      "\<forall>w\<in>set xs. vma_end w \<le> vma_begin v" "\<forall>w\<in>set ys. vma_end v \<le> vma_begin w"
    by (rule tree_insert_split)
  show "vmas_ok (tree_insert v ts)" using assms s by auto
  have "page_map xs a = None" if "is_addr_in_vma a v" for a
    using s(3) that by (intro page_map_NoneI) (fastforce simp: is_addr_in_vma_def)
  then have "dom (page_map xs) \<inter> dom (vma_pages v) = {}"
    by (auto simp: vma_pages_def split: if_splits)
  then have "page_map xs ++ vma_pages v = vma_pages v ++ page_map xs" by (rule map_add_comm)
  then show "page_map (tree_insert v ts) = page_map ts ++ vma_pages v"
    unfolding s(2) unfolding s(1) by (simp flip: map_add_assoc)
  show "tree_size (tree_insert v ts) = tree_size ts + (vma_end v - vma_begin v)"
    and "handle_count h (tree_insert v ts) = handle_count h (v # ts)"
    and "inode_count i (tree_insert v ts) = inode_count i (v # ts)"
    and "set (tree_insert v ts) = insert v (set ts)"
    unfolding s(2) unfolding s(1) by auto
qed

subsection \<open>Cutting a region\<close>

lemma u64_add_u64 [simp]: "u64 (u64 m + n) = u64 (m + n)"
  by (simp add: u64_def mod_add_left_eq)

lemma move_begin_simps [simp]:
  "vma_begin (move_begin a v) = a" "vma_end (move_begin a v) = vma_end v"
  "vma_prot (move_begin a v) = vma_prot v" "vma_flags (move_begin a v) = vma_flags v"
  "vma_file (move_begin a v) = vma_file v" "vma_comment (move_begin a v) = vma_comment v"
  "maps_handle h (move_begin a v) = maps_handle h v"
  "maps_inode i (move_begin a v) = maps_inode i v"
  by (simp_all add: move_begin_def maps_handle_def maps_inode_def)

lemma vma_pages_move_begin:
  "vma_begin v \<le> b \<Longrightarrow> vma_pages (move_begin b v) = (\<lambda>a. if a < b then None else vma_pages v a)"
proof
  fix a assume b: "vma_begin v \<le> b"
  have "u64 (u64 (vma_offset v + (b - vma_begin v)) + (a - b)) = u64 (vma_offset v + (a - vma_begin v))"
    if "b \<le> a" using b that by (simp only: u64_add_u64) simp
  then show "vma_pages (move_begin b v) a = (if a < b then None else vma_pages v a)"
    using b by (cases "vma_file v")
      (auto simp: vma_pages_def vma_page_def is_addr_in_vma_def move_begin_def not_less
        simp del: u64_add_u64)
qed

lemma vma_pages_move_end:
  "b \<le> vma_end v \<Longrightarrow>
     vma_pages (v\<lparr>vma_end := b\<rparr>) = (\<lambda>a. if b \<le> a then None else vma_pages v a)"
  by (rule ext) (auto simp: vma_pages_def vma_page_def is_addr_in_vma_def)

lemma vma_ok_move_begin:
  "vma_ok v \<Longrightarrow> IS_ALLOC_ALIGNED b \<Longrightarrow> b < vma_end v \<Longrightarrow> vma_ok (move_begin b v)"
  by (simp add: vma_ok_def)

lemma vma_ok_move_end:
  "vma_ok v \<Longrightarrow> IS_ALLOC_ALIGNED b \<Longrightarrow> vma_begin v < b \<Longrightarrow> b \<le> vma_end v \<Longrightarrow>
     vma_ok (v\<lparr>vma_end := b\<rparr>)"
  by (simp add: vma_ok_def)

lemma vma_comment_ok [simp]:
  "vma_ok v \<Longrightarrow> v\<lparr>vma_comment := copy_comment (vma_comment v)\<rparr> = v"
  by (simp add: vma_ok_def)

lemma hold_file_simps [simp]:
  "vma_tree (hold_file f st) = vma_tree st"
  "g_total_memory_size (hold_file f st) = g_total_memory_size st"
  "g_peak_total_memory_size (hold_file f st) = g_peak_total_memory_size st"
  "vma_cache (hold_file f st) = vma_cache st"
  "vma_mgr_avail (hold_file f st) = vma_mgr_avail st"
  "g_aslr_addr_top (hold_file f st) = g_aslr_addr_top st"
  "g_received_user_memory (hold_file f st) = g_received_user_memory st"
  by (auto simp: hold_file_def Let_def split: option.splits)

lemma release_file_simps [simp]:
  "vma_tree (release_file f st) = vma_tree st"
  "g_total_memory_size (release_file f st) = g_total_memory_size st"
  "g_peak_total_memory_size (release_file f st) = g_peak_total_memory_size st"
  "vma_cache (release_file f st) = vma_cache st"
  "vma_mgr_avail (release_file f st) = vma_mgr_avail st"
  "g_aslr_addr_top (release_file f st) = g_aslr_addr_top st"
  "g_received_user_memory (release_file f st) = g_received_user_memory st"
  by (auto simp: release_file_def Let_def split: option.splits)

text \<open>Holding and releasing a file account for one more and one less region outside the tree.\<close>

lemma num_mmapped_hold:
  "num_mmapped (hold_file (vma_file v) st) i = num_mmapped st i + (if maps_inode i v then 1 else 0)"
  by (auto simp: hold_file_def Let_def maps_inode_def split: option.splits)

lemma hdl_refs_hold:
  "hdl_refs (hold_file (vma_file v) st) h = hdl_refs st h + (if maps_handle h v then 1 else 0)"
  by (auto simp: hold_file_def Let_def maps_handle_def split: option.splits)

lemma num_mmapped_release:
  "num_mmapped (release_file (vma_file v) st) i =
     num_mmapped st i - (if maps_inode i v then 1 else 0)"
  by (auto simp: release_file_def Let_def maps_inode_def split: option.splits)

lemma hdl_refs_release:
  "hdl_refs (release_file (vma_file v) st) h = hdl_refs st h - (if maps_handle h v then 1 else 0)"
  by (auto simp: release_file_def Let_def maps_handle_def split: option.splits)

lemmas file_count_simps = num_mmapped_hold hdl_refs_hold num_mmapped_release hdl_refs_release

text \<open>The accounting survives a step that changes counts and regions alike.\<close>

lemma files_ok_change:
  assumes "files_ok extra st"
    and "\<And>i. num_mmapped st' i + inode_count i (vma_tree st) + inode_count i extra =
        num_mmapped st i + inode_count i (vma_tree st') + inode_count i extra'"
    and "\<And>h. hdl_refs st' h + handle_count h (vma_tree st) + handle_count h extra =
        hdl_refs st h + handle_count h (vma_tree st') + handle_count h extra'"
  shows "files_ok extra' st'"
  unfolding files_ok_def
proof (intro conjI allI)
  fix i
  have "num_mmapped st i = inode_count i (vma_tree st) + inode_count i extra"
    using assms(1) unfolding files_ok_def by blast
  with assms(2) [of i] show "num_mmapped st' i = inode_count i (vma_tree st') + inode_count i extra'"
    by simp
next
  fix h
  have "handle_count h (vma_tree st) + handle_count h extra \<le> hdl_refs st h"
    using assms(1) unfolding files_ok_def by blast
  with assms(3) [of h] show "handle_count h (vma_tree st') + handle_count h extra' \<le> hdl_refs st' h"
    by simp
qed

lemma files_ok_hold: "files_ok extra st \<Longrightarrow> files_ok (v # extra) (hold_file (vma_file v) st)"
  by (rule files_ok_change) (auto simp: file_count_simps)

lemma files_ok_release:
  assumes "files_ok (v # extra) st"
  shows "files_ok extra (release_file (vma_file v) st)"
proof (rule files_ok_change [OF assms])
  fix i
  have "num_mmapped st i = inode_count i (vma_tree st) + inode_count i (v # extra)"
    using assms unfolding files_ok_def by blast
  then show "num_mmapped (release_file (vma_file v) st) i + inode_count i (vma_tree st) +
      inode_count i (v # extra) = num_mmapped st i +
      inode_count i (vma_tree (release_file (vma_file v) st)) + inode_count i extra"
    by (simp add: file_count_simps)
next
  fix h
  have "handle_count h (vma_tree st) + handle_count h (v # extra) \<le> hdl_refs st h"
    using assms unfolding files_ok_def by blast
  then show "hdl_refs (release_file (vma_file v) st) h + handle_count h (vma_tree st) +
      handle_count h (v # extra) = hdl_refs st h +
      handle_count h (vma_tree (release_file (vma_file v) st)) + handle_count h extra"
    by (auto simp: file_count_simps)
qed

subsection \<open>Removing a range\<close>

lemma remove_loop_ok:
  assumes "remove_loop e vs tot = (freed, rest, t)" "vmas_ok vs" "tree_size vs \<le> tot"
    and "IS_ALLOC_ALIGNED e"
  shows "vmas_ok rest \<and> (\<forall>w\<in>set rest. e \<le> vma_begin w) \<and>
    t + tree_size vs = tot + tree_size rest \<and> tree_size rest \<le> tree_size vs"
  using assms
proof (induction vs arbitrary: tot freed rest t)
  case (Cons v vs)
  consider "vma_end v \<le> e" | "e < vma_end v" "vma_begin v < e" | "e \<le> vma_begin v"
    using Cons.prems(2) by (force simp: vma_ok_def)
  then show ?case
  proof cases
    case 1
    with Cons.prems obtain freed' where
        "remove_loop e vs (tot - (vma_end v - vma_begin v)) = (freed', rest, t)"
      by (auto split: prod.splits)
    moreover have "vmas_ok vs" "tree_size vs \<le> tot - (vma_end v - vma_begin v)"
      using Cons.prems by auto
    ultimately show ?thesis using Cons.IH Cons.prems by fastforce
  next
    case 2
    with Cons.prems show ?thesis
      by (auto simp: vma_ok_move_begin intro: order.trans [OF less_imp_le])
  next
    case 3
    then have "e < vma_end v" using Cons.prems(2) by (auto simp: vma_ok_def)
    moreover from this have "\<forall>w\<in>set vs. e \<le> vma_begin w" using Cons.prems(2) by force
    ultimately show ?thesis using 3 Cons.prems by auto
  qed
qed simp

lemma remove_loop_pages:
  assumes "remove_loop e vs tot = (freed, rest, t)" "vmas_ok vs"
  shows "page_map rest a = (if a < e then None else page_map vs a)"
  using assms
proof (induction vs arbitrary: tot freed rest t)
  case (Cons v vs)
  have below: "page_map vs a = None" if "a < vma_end v"
    using Cons.prems that by (intro page_map_NoneI) (force simp: is_addr_in_vma_def)
  consider "vma_end v \<le> e" | "e < vma_end v" "vma_begin v < e" | "e \<le> vma_begin v"
    using Cons.prems(2) by (force simp: vma_ok_def)
  then show ?case
  proof cases
    case 1
    with Cons.prems obtain freed' where
        "remove_loop e vs (tot - (vma_end v - vma_begin v)) = (freed', rest, t)"
      by (auto split: prod.splits)
    with Cons have "page_map rest a = (if a < e then None else page_map vs a)" by fastforce
    with 1 show ?thesis by (simp add: map_add_def vma_pages_def is_addr_in_vma_def)
  next
    case 2
    with Cons.prems have rest: "rest = move_begin e v # vs" by auto
    from 2 have "vma_pages (move_begin e v) a = (if a < e then None else vma_pages v a)"
      by (simp add: vma_pages_move_begin)
    with below 2 show ?thesis
      unfolding rest page_map.simps by (auto simp: map_add_def)
  next
    case 3
    then have "\<not> vma_end v \<le> e" "\<not> vma_begin v < e" using Cons.prems(2) by (auto simp: vma_ok_def)
    with Cons.prems have rest: "rest = v # vs" by simp
    from 3 below \<open>\<not> vma_end v \<le> e\<close> show ?thesis
      unfolding rest page_map.simps by (auto simp: map_add_def vma_pages_def is_addr_in_vma_def)
  qed
qed simp

lemma remove_loop_files:
  "remove_loop e vs tot = (freed, rest, t) \<Longrightarrow>
     inode_count i freed + inode_count i rest = inode_count i vs \<and>
     handle_count h freed + handle_count h rest = handle_count h vs"
  by (induction vs arbitrary: tot freed rest t) (fastforce split: if_splits prod.splits)+

lemma check_internal_iff:
  "vmas_ok vs \<Longrightarrow> check_internal e is_internal vs \<longleftrightarrow>
     (\<forall>v\<in>set vs. vma_begin v < e \<longrightarrow> has_flag (vma_flags v) VMA_INTERNAL = is_internal)"
proof (induction vs)
  case (Cons v vs)
  have "\<not> vma_begin v < e \<Longrightarrow> \<forall>w\<in>set vs. \<not> vma_begin w < e"
    using Cons.prems by (force simp: vma_ok_def)
  with Cons show ?case by auto
qed simp

declare check_internal.simps(2) [simp del] remove_loop.simps(2) [simp del]

text \<open>
  The result of a removal: on success the pages of the range are gone and every other page is
  as before, the counters are right, and the references of the regions to be freed are still
  held; on an error nothing has changed.
\<close>

definition remove_post :: "addr \<Rightarrow> addr \<Rightarrow> vma_state \<Rightarrow> remove_result \<Rightarrow> vma_state \<Rightarrow> bool" where
  "remove_post b e st res st' \<longleftrightarrow>
     (if rm_ret res = 0
      then mem_ok st' \<and> (\<forall>w\<in>set (vma_tree st'). vma_end w \<le> b \<or> e \<le> vma_begin w) \<and>
        page_map (vma_tree st') = (\<lambda>a. if b \<le> a \<and> a < e then None else page_map (vma_tree st) a) \<and>
        (\<forall>extra. files_ok extra st \<longrightarrow> files_ok (rm_to_free res @ extra) st') \<and>
        vma_cache st' = vma_cache st \<and> vma_mgr_avail st' = vma_mgr_avail st \<and>
        g_peak_total_memory_size st' = g_peak_total_memory_size st \<and>
        g_aslr_addr_top st' = g_aslr_addr_top st \<and>
        g_received_user_memory st' = g_received_user_memory st
      else (rm_ret res = - EACCES \<or> rm_ret res = - ENOMEM) \<and> st' = st \<and> rm_to_free res = [] \<and>
        \<not> rm_used_new res)"

lemma page_map_above:
  "\<forall>w\<in>set ts. c \<le> vma_begin w \<Longrightarrow> a < c \<Longrightarrow> page_map ts a = None"
  by (rule page_map_NoneI) (auto simp: is_addr_in_vma_def)

lemma page_map_below:
  "\<forall>w\<in>set ts. vma_end w \<le> c \<Longrightarrow> c \<le> a \<Longrightarrow> page_map ts a = None"
  by (rule page_map_NoneI) (auto simp: is_addr_in_vma_def)

text \<open>The deletion loop, run behind a prefix that ends below the range.\<close>

lemma remove_loop_post:
  assumes "remove_loop e vs tot = (freed, rest, t)" "vmas_ok (pre @ vs)" "IS_ALLOC_ALIGNED e"
    and "\<forall>w\<in>set pre. vma_end w \<le> b" "b \<le> e" "tot = tree_size (pre @ vs)"
    and "\<forall>w\<in>set vs. b \<le> vma_begin w"
  shows "vmas_ok (pre @ rest)" "t = tree_size (pre @ rest)"
    and "\<forall>w\<in>set (pre @ rest). vma_end w \<le> b \<or> e \<le> vma_begin w"
    and "page_map (pre @ rest) = (\<lambda>a. if b \<le> a \<and> a < e then None else page_map (pre @ vs) a)"
proof -
  have r: "vmas_ok rest" "\<forall>w\<in>set rest. e \<le> vma_begin w" "t + tree_size vs = tot + tree_size rest"
    using remove_loop_ok [OF assms(1)] assms by auto
  then show "vmas_ok (pre @ rest)" "t = tree_size (pre @ rest)"
    using assms by (auto, meson order_trans)
  show "\<forall>w\<in>set (pre @ rest). vma_end w \<le> b \<or> e \<le> vma_begin w"
    using assms(4) r(2) by auto
  show "page_map (pre @ rest) = (\<lambda>a. if b \<le> a \<and> a < e then None else page_map (pre @ vs) a)"
  proof
    fix a
    have "page_map rest a = (if a < e then None else page_map vs a)"
      using remove_loop_pages [OF assms(1)] assms(2) by simp
    moreover have "page_map pre a = None" if "b \<le> a"
      using page_map_below [OF assms(4) that] .
    moreover have "page_map vs a = None" if "a < b"
      using page_map_above [OF assms(7) that] .
    ultimately show "page_map (pre @ rest) a =
        (if b \<le> a \<and> a < e then None else page_map (pre @ vs) a)"
      using assms(5) by (cases "a < b") (auto simp: map_add_def split: option.split)
  qed
qed

text \<open>
  The deletion loop started on an intermediate sequence \<open>pre @ vs\<close> that agrees with the tree
  outside the range.
\<close>

lemma remove_post_loop:
  assumes loop: "remove_loop e vs (tree_size (pre @ vs)) = (freed, rest, t)"
    and ok: "vmas_ok (pre @ vs)" "IS_ALLOC_ALIGNED e" "b < e"
    and cut: "\<forall>w\<in>set pre. vma_end w \<le> b" "\<forall>w\<in>set vs. b \<le> vma_begin w"
    and pages: "\<And>a. a < b \<or> e \<le> a \<Longrightarrow> page_map (pre @ vs) a = page_map (vma_tree st) a"
    and counts: "\<And>i. inode_count i (pre @ vs) = inode_count i (vma_tree st)"
      "\<And>h. handle_count h (pre @ vs) = handle_count h (vma_tree st)"
    and peak: "tree_size (pre @ vs) \<le> g_peak_total_memory_size st"
  shows "remove_post b e st \<lparr>rm_ret = 0, rm_used_new = False, rm_to_free = freed\<rparr>
    (st\<lparr>vma_tree := pre @ rest, g_total_memory_size := t\<rparr>)"
proof -
  note post = remove_loop_post [OF loop ok(1,2) cut(1) less_imp_le [OF ok(3)] refl cut(2)]
  have t: "t \<le> tree_size (pre @ vs)"
    using remove_loop_ok [OF loop] ok by auto
  have files: "files_ok (freed @ extra) (st\<lparr>vma_tree := pre @ rest, g_total_memory_size := t\<rparr>)"
    if "files_ok extra st" for extra
    using that
  proof (rule files_ok_change)
    show "num_mmapped (st\<lparr>vma_tree := pre @ rest, g_total_memory_size := t\<rparr>) i +
        inode_count i (vma_tree st) + inode_count i extra = num_mmapped st i +
        inode_count i (vma_tree (st\<lparr>vma_tree := pre @ rest, g_total_memory_size := t\<rparr>)) +
        inode_count i (freed @ extra)" for i
      using remove_loop_files [OF loop, of i 0] counts(1) [of i] by simp
    show "hdl_refs (st\<lparr>vma_tree := pre @ rest, g_total_memory_size := t\<rparr>) h +
        handle_count h (vma_tree st) + handle_count h extra = hdl_refs st h +
        handle_count h (vma_tree (st\<lparr>vma_tree := pre @ rest, g_total_memory_size := t\<rparr>)) +
        handle_count h (freed @ extra)" for h
      using remove_loop_files [OF loop, of 0 h] counts(2) [of h] by simp
  qed
  have "page_map (pre @ rest) = (\<lambda>a. if b \<le> a \<and> a < e then None else page_map (vma_tree st) a)"
    using post(4) pages by (auto simp: fun_eq_iff simp del: page_map_append)
  moreover have "mem_ok (st\<lparr>vma_tree := pre @ rest, g_total_memory_size := t\<rparr>)"
    using post(1,2) t peak by (simp add: mem_ok_def)
  ultimately show ?thesis
    using files post(3) by (simp add: remove_post_def del: page_map_append)
qed

text \<open>The removal inside one region, which leaves a part on each side.\<close>

lemma remove_post_split:
  assumes tree: "vma_tree st = pre @ v # vs" and st: "mem_ok st"
    and range: "IS_ALLOC_ALIGNED b" "IS_ALLOC_ALIGNED e" "b < e" "vma_begin v < b" "e < vma_end v"
  shows "remove_post b e st \<lparr>rm_ret = 0, rm_used_new = True, rm_to_free = []\<rparr>
    (total_memory_size_sub (e - b) ((hold_file (vma_file v) st)
      \<lparr>vma_tree := tree_insert (move_begin e v) (pre @ v\<lparr>vma_end := b\<rparr> # vs)\<rparr>))"
proof -
  have ok: "vmas_ok (pre @ v # vs)" "g_total_memory_size st = tree_size (pre @ v # vs)"
    using st by (auto simp: mem_ok_def tree)
  then have ins: "tree_insert (move_begin e v) ((pre @ [v\<lparr>vma_end := b\<rparr>]) @ vs) =
      (pre @ [v\<lparr>vma_end := b\<rparr>]) @ move_begin e v # vs"
    using range by (intro tree_insert_between) (force simp: vma_ok_def dest: vmas_okD)+
  have new: "vmas_ok (pre @ v\<lparr>vma_end := b\<rparr> # move_begin e v # vs)"
    using ok(1) range by (auto simp: vma_ok_move_begin vma_ok_move_end)
  have pre: "page_map pre a = None" if "vma_begin v \<le> a" for a
    using ok(1) by (intro page_map_below [OF _ that]) auto
  have vs: "page_map vs a = None" if "a < vma_end v" for a
    using ok(1) by (intro page_map_above [OF _ that]) auto
  have "page_map (pre @ v\<lparr>vma_end := b\<rparr> # move_begin e v # vs) =
      (\<lambda>a. if b \<le> a \<and> a < e then None else page_map (pre @ v # vs) a)"
  proof
    fix a
    show "page_map (pre @ v\<lparr>vma_end := b\<rparr> # move_begin e v # vs) a =
        (if b \<le> a \<and> a < e then None else page_map (pre @ v # vs) a)"
      using range pre [of a] vs [of a]
      by (auto simp: map_add_def vma_pages_move_begin vma_pages_move_end split: option.split)
  qed
  moreover have "\<forall>w\<in>set (pre @ v\<lparr>vma_end := b\<rparr> # move_begin e v # vs). vma_end w \<le> b \<or> e \<le> vma_begin w"
    using ok(1) range by (auto intro: order.trans [OF _ less_imp_le] order.trans [OF less_imp_le])
  moreover have "files_ok extra ((hold_file (vma_file v) st)
      \<lparr>vma_tree := pre @ v\<lparr>vma_end := b\<rparr> # move_begin e v # vs, g_total_memory_size := t\<rparr>)"
    if "files_ok extra st" for extra t
    using that by (rule files_ok_change) (auto simp: file_count_simps tree)
  moreover have "tree_size (pre @ v # vs) - (e - b) =
      tree_size (pre @ v\<lparr>vma_end := b\<rparr> # move_begin e v # vs)"
      "tree_size (pre @ v\<lparr>vma_end := b\<rparr> # move_begin e v # vs) \<le> tree_size (pre @ v # vs)"
    using range by simp_all
  ultimately show ?thesis
    using new ok(2) st ins unfolding remove_post_def tree mem_ok_def total_memory_size_sub_def
    by (simp del: page_map_append tree_size_simps)
qed

lemma remove_unfold:
  assumes "lookup_suffix b (vma_tree st) = v # vs" "lookup_prefix b (vma_tree st) = pre"
    and "check_internal e is_internal (v # vs)"
  shows "e < vma_end v \<Longrightarrow> vma_begin v < b \<Longrightarrow> vma_ok v \<Longrightarrow>
      u_vma_bkeep_remove b e is_internal True st =
        (\<lparr>rm_ret = 0, rm_used_new = True, rm_to_free = []\<rparr>,
         total_memory_size_sub (e - b) ((hold_file (vma_file v) st)
           \<lparr>vma_tree := tree_insert (move_begin e v) (pre @ v\<lparr>vma_end := b\<rparr> # vs)\<rparr>))"
    and "e < vma_end v \<Longrightarrow> vma_begin v < b \<Longrightarrow> u_vma_bkeep_remove b e is_internal False st =
        (\<lparr>rm_ret = - ENOMEM, rm_used_new = False, rm_to_free = []\<rparr>, st)"
    and "vma_end v \<le> e \<Longrightarrow> vma_begin v < b \<Longrightarrow>
      remove_loop e vs (g_total_memory_size st - (vma_end v - b)) = (freed, rest, t) \<Longrightarrow>
      u_vma_bkeep_remove b e is_internal have_new st =
        (\<lparr>rm_ret = 0, rm_used_new = False, rm_to_free = freed\<rparr>,
         st\<lparr>vma_tree := (pre @ [v\<lparr>vma_end := b\<rparr>]) @ rest, g_total_memory_size := t\<rparr>)"
    and "b \<le> vma_begin v \<Longrightarrow> remove_loop e (v # vs) (g_total_memory_size st) = (freed, rest, t) \<Longrightarrow>
      u_vma_bkeep_remove b e is_internal have_new st =
        (\<lparr>rm_ret = 0, rm_used_new = False, rm_to_free = freed\<rparr>,
         st\<lparr>vma_tree := pre @ rest, g_total_memory_size := t\<rparr>)"
  using assms by (simp_all add: u_vma_bkeep_remove_def split_vma_def copy_vma_def
      total_memory_size_sub_def Let_def)

lemma remove_correct:
  assumes "mem_ok st" "IS_ALLOC_ALIGNED b" "IS_ALLOC_ALIGNED e" "b < e"
    and "u_vma_bkeep_remove b e is_internal have_new st = (res, st')"
  shows "remove_post b e st res st'"
proof -
  define pre where "pre = lookup_prefix b (vma_tree st)"
  have ok: "vmas_ok (vma_tree st)" "g_total_memory_size st = tree_size (vma_tree st)"
      "g_total_memory_size st \<le> g_peak_total_memory_size st"
    using assms(1) by (auto simp: mem_ok_def)
  have pre: "\<forall>w\<in>set pre. vma_end w \<le> b"
    by (auto simp: pre_def lookup_prefix_end)
  show ?thesis
  proof (cases "lookup_suffix b (vma_tree st)")
    case Nil
    then have tree: "vma_tree st = pre" using lookup_split [of b "vma_tree st"] by (simp add: pre_def)
    have "res = \<lparr>rm_ret = 0, rm_used_new = False, rm_to_free = []\<rparr>" "st' = st"
      using assms(5) Nil by (auto simp: u_vma_bkeep_remove_def)
    moreover have "page_map pre a = None" if "b \<le> a" for a using page_map_below [OF pre that] .
    ultimately show ?thesis
      using assms(1) pre tree by (auto simp: remove_post_def)
  next
    case (Cons v vs)
    then have tree: "vma_tree st = pre @ v # vs"
      using lookup_split [of b "vma_tree st"] by (simp add: pre_def)
    have v: "b < vma_end v" "vma_ok v"
      using lookup_suffix_end [OF ok(1), of v b] Cons ok(1) tree by auto
    show ?thesis
    proof (cases "check_internal e is_internal (v # vs)")
      case False
      then show ?thesis
        using assms(5) Cons by (auto simp: u_vma_bkeep_remove_def remove_post_def)
    next
      case internal: True
      consider "e < vma_end v" "vma_begin v < b" | "vma_end v \<le> e" "vma_begin v < b" | "b \<le> vma_begin v"
        by linarith
      then show ?thesis
      proof cases
        case 1
        have "res = \<lparr>rm_ret = 0, rm_used_new = True, rm_to_free = []\<rparr> \<and>
              st' = total_memory_size_sub (e - b) ((hold_file (vma_file v) st)
                \<lparr>vma_tree := tree_insert (move_begin e v) (pre @ v\<lparr>vma_end := b\<rparr> # vs)\<rparr>) \<or>
            res = \<lparr>rm_ret = - ENOMEM, rm_used_new = False, rm_to_free = []\<rparr> \<and> st' = st"
          using remove_unfold(1,2) [OF Cons pre_def [symmetric] internal 1] v(2) assms(5)
          by (cases have_new) auto
        then show ?thesis using remove_post_split [OF tree assms(1-4)] 1
          by (auto simp: remove_post_def)
      next
        case 2
        let ?pre = "pre @ [v\<lparr>vma_end := b\<rparr>]"
        obtain freed rest t where loop:
            "remove_loop e vs (g_total_memory_size st - (vma_end v - b)) = (freed, rest, t)"
          by (cases "remove_loop e vs (g_total_memory_size st - (vma_end v - b))")
        have size: "g_total_memory_size st - (vma_end v - b) = tree_size (?pre @ vs)"
          using ok(2) tree 2 v by simp
        have "remove_post b e st \<lparr>rm_ret = 0, rm_used_new = False, rm_to_free = freed\<rparr>
            (st\<lparr>vma_tree := ?pre @ rest, g_total_memory_size := t\<rparr>)"
        proof (rule remove_post_loop [where pre = ?pre and vs = vs])
          show "remove_loop e vs (tree_size (?pre @ vs)) = (freed, rest, t)"
            using loop size by simp
          show "vmas_ok (?pre @ vs)"
            using ok(1) 2 v assms(2) by (auto simp: tree vma_ok_move_end)
          show "\<forall>w\<in>set ?pre. vma_end w \<le> b" "\<forall>w\<in>set vs. b \<le> vma_begin w"
            using pre ok(1) v by (auto simp: tree)
          show "page_map (?pre @ vs) a = page_map (vma_tree st) a" if "a < b \<or> e \<le> a" for a
          proof -
            have "vma_pages (v\<lparr>vma_end := b\<rparr>) a = vma_pages v a"
              using that 2 v by (auto simp: vma_pages_move_end vma_pages_def is_addr_in_vma_def vma_page_def)
            then show ?thesis by (simp add: tree map_add_def split: option.split)
          qed
          show "tree_size (?pre @ vs) \<le> g_peak_total_memory_size st"
            using ok(3) size by simp
        qed (use tree assms in auto)
        then show ?thesis
          using remove_unfold(3) [OF Cons pre_def [symmetric] internal 2 loop] assms(5) by simp
      next
        case 3
        obtain freed rest t where loop:
            "remove_loop e (v # vs) (g_total_memory_size st) = (freed, rest, t)"
          by (cases "remove_loop e (v # vs) (g_total_memory_size st)")
        have "remove_post b e st \<lparr>rm_ret = 0, rm_used_new = False, rm_to_free = freed\<rparr>
            (st\<lparr>vma_tree := pre @ rest, g_total_memory_size := t\<rparr>)"
        proof (rule remove_post_loop [where pre = pre and vs = "v # vs"])
          show "remove_loop e (v # vs) (tree_size (pre @ v # vs)) = (freed, rest, t)"
            using loop ok(2) tree by simp
          show "\<forall>w\<in>set (v # vs). b \<le> vma_begin w"
            using 3 ok(1) v by (auto simp: tree)
        qed (use ok tree pre assms in auto)
        then show ?thesis
          using remove_unfold(4) [OF Cons pre_def [symmetric] internal 3 loop] assms(5) by simp
      qed
    qed
  qed
qed

text \<open>Which of the three results a removal has.\<close>

lemma remove_ret:
  assumes "vmas_ok (vma_tree st)" "u_vma_bkeep_remove b e is_internal have_new st = (res, st')"
  shows "rm_ret res = - EACCES \<longleftrightarrow> (\<exists>v\<in>set (vma_tree st). b < vma_end v \<and> vma_begin v < e \<and>
      has_flag (vma_flags v) VMA_INTERNAL \<noteq> is_internal)"
    and "have_new \<Longrightarrow> rm_ret res \<noteq> - ENOMEM"
proof -
  have set: "set (lookup_suffix b (vma_tree st)) = {v \<in> set (vma_tree st). b < vma_end v}"
    unfolding lookup_suffix_def mono_along_filter(2) [OF vmas_mono_along [OF assms(1)]]
    by (simp add: cmp_addr_to_vma_def)
  have "vmas_ok (lookup_suffix b (vma_tree st))"
    using assms(1) lookup_split [of b "vma_tree st"] by (metis vmas_ok_append)
  note chk = check_internal_iff [OF this, of e is_internal]
  have ne: "- EACCES \<noteq> (0::int)" "- EACCES \<noteq> - ENOMEM" by (simp_all add: errno_defs)
  show "rm_ret res = - EACCES \<longleftrightarrow> (\<exists>v\<in>set (vma_tree st). b < vma_end v \<and> vma_begin v < e \<and>
      has_flag (vma_flags v) VMA_INTERNAL \<noteq> is_internal)"
  proof (cases "lookup_suffix b (vma_tree st)")
    case Nil
    then show ?thesis using set ne assms(2) by (auto simp: u_vma_bkeep_remove_def)
  next
    case (Cons v vs)
    have "rm_ret res = - EACCES \<longleftrightarrow> \<not> check_internal e is_internal (v # vs)"
      using assms(2) Cons ne
      by (auto simp: u_vma_bkeep_remove_def Let_def split: if_splits prod.splits)
    then show ?thesis using chk set Cons by auto
  qed
  show "have_new \<Longrightarrow> rm_ret res \<noteq> - ENOMEM"
    using assms(2) ne
    by (auto simp: u_vma_bkeep_remove_def Let_def split: list.splits if_splits prod.splits)
qed

section \<open>Refinement: the sequence primitives are the AVL-tree operations\<close>

lemma vmas_distinct: "vmas_ok ts \<Longrightarrow> distinct ts"
  by (induction ts) (auto simp: vma_ok_def not_le [symmetric])

lemma vmas_mono_cmp: "vmas_ok ts \<Longrightarrow> mono_along (vma_tree_cmp v) ts"
proof (induction ts)
  case (Cons w ts)
  then have "vma_end w \<le> vma_end u" if "u \<in> set ts" for u
    using that vmas_okD [of ts u] by force
  with Cons show ?case by (auto simp: vma_tree_cmp_def intro: order.trans)
qed simp

text \<open>C25: The region tree of the source is the AVL tree ordered by region end. On a balanced tree
  with a well-formed sequence of regions, \<^verbatim>\<open>avl_tree_insert\<close>, \<^verbatim>\<open>avl_tree_delete\<close>, the search of
  \<^verbatim>\<open>_lookup_vma\<close>, \<^verbatim>\<open>_get_last_vma\<close> and the in-place replacement of a node act on the sequence
  exactly as the sequence primitives of this model do, and keep the tree balanced.\<close>

theorem vma_tree_refinement:
  assumes "avl_ok t" "vmas_ok (inorder t)"
  shows "avl_ok (avl_tree_insert vma_tree_cmp v t) \<and>
    inorder (avl_tree_insert vma_tree_cmp v t) = tree_insert v (inorder t) \<and>
    avl_ok (avl_tree_delete v t) \<and> inorder (avl_tree_delete v t) = tree_delete v (inorder t) \<and>
    avl_tree_lower_bound_fn cmp_addr_to_vma a t = u_lookup_vma a (inorder t) \<and>
    avl_tree_last t = (if inorder t = [] then None else Some (last (inorder t))) \<and>
    inorder (avl_tree_swap_node v w t) = map (\<lambda>u. if u = v then w else u) (inorder t)"
proof -
  have "mono_along (vma_tree_cmp v) (inorder t)" "mono_along (cmp_addr_to_vma a) (inorder t)"
      "distinct (inorder t)"
    using assms(2) by (auto intro: vmas_mono_cmp vmas_mono_along vmas_distinct)
  then show ?thesis
    using avl_ok_insert [OF assms(1)] avl_ok_delete [OF assms(1)]
    by (simp add: tree_insert_def tree_delete_def u_lookup_vma_def inorder_insert inorder_delete
        lower_bound_find inorder_swap_node last_last)
qed

text \<open>A small address space for the examples: a shared file mapping and a region of the LibOS.\<close>

definition demo_file :: libos_handle where
  "demo_file = \<lparr>hdl_id = 7, hdl_flags = O_RDWR, hdl_inode = Some 3, hdl_may_read = True,
     hdl_may_write = True, hdl_has_msync = True, hdl_has_read = True\<rparr>"

definition demo_vma :: libos_vma where
  "demo_vma = \<lparr>vma_begin = 0x10000, vma_end = 0x14000, vma_prot = 3, vma_flags = MAP_SHARED,
     vma_file = Some demo_file, vma_offset = 0x2000, vma_comment = ''data''\<rparr>"

definition demo_libos_vma :: libos_vma where
  "demo_libos_vma = \<lparr>vma_begin = 0x20000, vma_end = 0x21000, vma_prot = 3,
     vma_flags = MAP_PRIVATE OR MAP_ANONYMOUS OR VMA_INTERNAL, vma_file = None, vma_offset = 0,
     vma_comment = ''libos''\<rparr>"

definition demo_state :: vma_state where
  "demo_state = \<lparr>vma_tree = [demo_vma, demo_libos_vma], g_total_memory_size = 0x5000,
     g_peak_total_memory_size = 0x5000, hdl_refs = (\<lambda>h. if h = 7 then 2 else 0),
     num_mmapped = (\<lambda>i. if i = 3 then 1 else 0), vma_cache = 2, vma_mgr_avail = 10,
     g_aslr_addr_top = 0x30000, g_received_user_memory = True\<rparr>"

lemmas demo_defs = demo_state_def demo_vma_def demo_libos_vma_def demo_file_def

lemma demo_vmas_ok: "vmas_ok [demo_vma, demo_libos_vma]"
  by (simp add: demo_defs vma_ok_def IS_ALLOC_ALIGNED_def ALLOC_ALIGNMENT_def copy_comment_def
      VMA_COMMENT_LEN_def)

lemma demo_inv: "vma_inv demo_state"
  using demo_vmas_ok
  by (simp add: vma_inv_def mem_ok_def files_ok_def demo_state_def)
    (simp add: demo_defs maps_inode_def maps_handle_def)

theorem vma_tree_refinement_witness:
  "inorder (avl_tree_insert vma_tree_cmp demo_libos_vma (Nd Tip demo_vma 0 Tip)) =
     [demo_vma, demo_libos_vma]"
  using vma_tree_refinement [of "Nd Tip demo_vma 0 Tip" demo_libos_vma 0 demo_vma] demo_vmas_ok
  by (simp add: tree_insert_def vma_tree_cmp_def demo_defs)

text \<open>C8: Removing a page-aligned range: if some region that meets the range is internal where a
  user range was given (or the other way round) the result is \<^verbatim>\<open>-EACCES\<close> and nothing has
  changed. Otherwise the removal succeeds, the regions stay ordered, disjoint and aligned, the
  total-memory counter is again the size of all regions, every page of the range is gone, every
  page outside it shows what it showed before (with its file offset, also behind a split), and
  the mapping counts still account for the tree and the regions handed out to be freed.\<close>

theorem vma_bkeep_remove_correct:
  assumes "vma_inv st" "IS_ALLOC_ALIGNED b" "IS_ALLOC_ALIGNED e" "b < e"
    and "u_vma_bkeep_remove b e is_internal True st = (res, st')"
  shows "if \<exists>v\<in>set (vma_tree st). b < vma_end v \<and> vma_begin v < e \<and>
        has_flag (vma_flags v) VMA_INTERNAL \<noteq> is_internal
    then rm_ret res = - EACCES \<and> st' = st
    else rm_ret res = 0 \<and> mem_ok st' \<and> files_ok (rm_to_free res) st' \<and>
      page_map (vma_tree st') = (\<lambda>a. if b \<le> a \<and> a < e then None else page_map (vma_tree st) a)"
proof -
  have "mem_ok st" "files_ok [] st" "vmas_ok (vma_tree st)"
    using assms(1) by (auto simp: vma_inv_def mem_ok_def)
  note ret = remove_ret [OF this(3) assms(5)] and post = remove_correct [OF this(1) assms(2-5)]
  show ?thesis
  proof (cases "rm_ret res = 0")
    case True
    then have "rm_ret res \<noteq> - EACCES" by simp
    with True post ret(1) \<open>files_ok [] st\<close> show ?thesis
      unfolding remove_post_def by (metis append_Nil2)
  next
    case False
    with post ret show ?thesis unfolding remove_post_def by metis
  qed
qed

theorem vma_bkeep_remove_correct_witness:
  "page_map (vma_tree (snd (u_vma_bkeep_remove 0x11000 0x12000 False True demo_state))) 0x11000 = None \<and>
   page_map (vma_tree (snd (u_vma_bkeep_remove 0x11000 0x12000 False True demo_state))) 0x12000 =
     Some (3, MAP_SHARED, Some (demo_file, 0x4000), ''data'')"
proof -
  obtain res st' where r: "u_vma_bkeep_remove 0x11000 0x12000 False True demo_state = (res, st')"
    by fastforce
  have "\<not> (\<exists>v\<in>set (vma_tree demo_state). 0x11000 < vma_end v \<and> vma_begin v < 0x12000 \<and>
        has_flag (vma_flags v) VMA_INTERNAL \<noteq> False)"
    by (simp add: demo_defs vma_consts)
  then have "page_map (vma_tree st') =
      (\<lambda>a. if 0x11000 \<le> a \<and> a < 0x12000 then None else page_map (vma_tree demo_state) a)"
    using vma_bkeep_remove_correct [OF demo_inv _ _ _ r]
    by (simp add: IS_ALLOC_ALIGNED_def ALLOC_ALIGNMENT_def)
  then show ?thesis
    unfolding r snd_conv
    by (simp add: demo_defs vma_pages_def vma_page_def is_addr_in_vma_def map_add_def)
qed

end
