(* ===== verification/Vma_Any.thy ===== *)
theory Vma_Any
  imports Vma Memmgr
begin

text \<open>
  Region objects and the search for free address space, second part of
  \<^verbatim>\<open>libos/src/bookkeep/libos_vma.c\<close>: the thread cache of free region objects, their allocation
  (which itself may have to map a range for new objects) and \<^verbatim>\<open>bkeep_mmap_any*\<close>.

  \<^verbatim>\<open>alloc_vma\<close> and the mapping functions call each other: to grow the object manager,
  \<^verbatim>\<open>alloc_vma\<close> puts one temporary region into the cache and maps a range, which takes that region
  back out of the cache. The mapping functions therefore take the allocation function as an
  argument; the inner use has the cache alone, the outer use the full \<^verbatim>\<open>alloc_vma\<close>.
\<close>

section \<open>The environment\<close>

text \<open>
  The part of \<^verbatim>\<open>g_pal_public_state\<close> that the bookkeeping reads, and the result of
  \<^verbatim>\<open>PalVirtualMemoryAlloc\<close> for an address and a size.
\<close>

record pal_initial_mem_range =
  rng_start :: addr
  rng_end :: addr
  rng_prot :: flags
  rng_user_reserved :: bool
  rng_free :: bool
  rng_comment :: string

record pal_env =
  memory_address_start :: addr
  memory_address_end :: addr
  early_libos_mem_range_start :: addr
  early_libos_mem_range_end :: addr
  initial_mem_ranges :: "pal_initial_mem_range list"
  mem_total :: nat
  disable_aslr :: bool
  pal_virtual_memory_alloc :: "addr \<Rightarrow> nat \<Rightarrow> int"

section \<open>The thread cache of region objects\<close>

text \<open>
  Only the length of the cache list matters to the bookkeeping; the pointers that chain its objects
  are not modelled.
\<close>

definition get_from_thread_vma_cache :: "vma_state \<Rightarrow> bool \<times> vma_state" where
  "get_from_thread_vma_cache st =
     (if vma_cache st = 0 then (False, st) else (True, st\<lparr>vma_cache := vma_cache st - 1\<rparr>))"

definition add_to_thread_vma_cache :: "vma_state \<Rightarrow> bool \<times> vma_state" where
  "add_to_thread_vma_cache st =
     (if VMA_CACHE_SIZE \<le> vma_cache st then (False, st)
      else (True, st\<lparr>vma_cache := vma_cache st + 1\<rparr>))"

definition free_vma :: "libos_vma \<Rightarrow> vma_state \<Rightarrow> vma_state" where
  "free_vma v st =
     (let (cached, st) = add_to_thread_vma_cache (release_file (vma_file v) st)
      in if cached then st else st\<lparr>vma_mgr_avail := vma_mgr_avail st + 1\<rparr>)"

fun free_vmas_freelist :: "libos_vma list \<Rightarrow> vma_state \<Rightarrow> vma_state" where
  "free_vmas_freelist [] st = st"
| "free_vmas_freelist (v # vs) st = free_vmas_freelist vs (free_vma v st)"

text \<open>A region object that was allocated but not used: it holds no file.\<close>

definition zero_vma :: libos_vma where
  "zero_vma = \<lparr>vma_begin = 0, vma_end = 0, vma_prot = 0, vma_flags = 0, vma_file = None,
     vma_offset = 0, vma_comment = []\<rparr>"

section \<open>Mapping anywhere in a range\<close>

text \<open>
  The loop of \<^verbatim>\<open>bkeep_mmap_any_in_range\<close> over the regions below the search top, highest first:
  the end address of the new region, if there is room.
\<close>

fun any_loop :: "addr \<Rightarrow> nat \<Rightarrow> libos_vma list \<Rightarrow> addr \<Rightarrow> addr option" where
  "any_loop bottom len [] max_addr =
     (if bottom \<le> max_addr \<and> len \<le> max_addr - bottom then Some max_addr else None)"
| "any_loop bottom len (v # vs) max_addr =
     (if bottom \<le> vma_end v
      then (if len \<le> max_addr - vma_end v then Some max_addr
            else any_loop bottom len vs (vma_begin v))
      else if bottom \<le> max_addr \<and> len \<le> max_addr - bottom then Some max_addr else None)"

definition any_search :: "addr \<Rightarrow> addr \<Rightarrow> nat \<Rightarrow> libos_vma list \<Rightarrow> addr option" where
  "any_search bottom top_addr len ts =
     (case u_lookup_vma top_addr ts of
        None \<Rightarrow> any_loop bottom len (rev ts) top_addr
      | Some v \<Rightarrow> any_loop bottom len (rev (lookup_prefix top_addr ts)) (min top_addr (vma_begin v)))"

text \<open>The arguments of a mapping request that end up in the region.\<close>

record map_req =
  req_prot :: flags
  req_flags :: flags
  req_file :: "libos_handle option"
  req_offset :: nat
  req_comment :: string

definition new_vma_of :: "map_req \<Rightarrow> libos_vma" where
  "new_vma_of r = zero_vma\<lparr>vma_prot := req_prot r,
     vma_flags := filter_saved_flags (req_flags r) OR
       (if req_file r \<noteq> None \<and> has_flag (req_prot r) PROT_WRITE then VMA_TAINTED else 0),
     vma_file := req_file r,
     vma_offset := (if req_file r \<noteq> None then req_offset r else 0),
     vma_comment := copy_comment (req_comment r)\<rparr>"

type_synonym allocator = "vma_state \<Rightarrow> bool \<times> vma_state"

text \<open>The bounds after the restriction of early internal requests and of \<^verbatim>\<open>MAP_32BIT\<close>.\<close>

definition any_bounds :: "pal_env \<Rightarrow> vma_state \<Rightarrow> flags \<Rightarrow> addr \<Rightarrow> addr \<Rightarrow> (addr \<times> addr) option" where
  "any_bounds E st fl bottom top_addr =
     (let early = (\<not> g_received_user_memory st \<and> has_flag fl VMA_INTERNAL)
      in if early \<and> (top_addr \<le> early_libos_mem_range_start E \<or>
                     early_libos_mem_range_end E \<le> bottom) then None
         else (let bottom = (if early then max bottom (early_libos_mem_range_start E) else bottom);
                   top_addr = (if early then min top_addr (early_libos_mem_range_end E) else top_addr);
                   top_addr = (if has_flag fl MAP_32BIT then min top_addr (2 ^ 31) else top_addr)
               in if has_flag fl MAP_32BIT \<and> top_addr \<le> bottom then None
                  else Some (bottom, top_addr)))"

definition bkeep_mmap_any_in_range_with ::
  "allocator \<Rightarrow> pal_env \<Rightarrow> map_req \<Rightarrow> nat \<Rightarrow> addr \<Rightarrow> addr \<Rightarrow> vma_state \<Rightarrow> (int + addr) \<times> vma_state" where
  "bkeep_mmap_any_in_range_with alloc E r len bottom top_addr st =
     (if len = 0 \<or> \<not> IS_ALLOC_ALIGNED len then (Inl (- EINVAL), st)
      else if \<not> IS_ALLOC_ALIGNED bottom \<or> \<not> IS_ALLOC_ALIGNED top_addr then (Inl (- EINVAL), st)
      else case any_bounds E st (req_flags r) bottom top_addr of
             None \<Rightarrow> (Inl (- ENOMEM), st)
           | Some (bottom, top_addr) \<Rightarrow>
               (let (ok, st) = alloc st
                in if \<not> ok then (Inl (- ENOMEM), st)
                   else (let v = new_vma_of r; st = hold_file (req_file r) st
                         in case any_search bottom top_addr len (vma_tree st) of
                              None \<Rightarrow> (Inl (- ENOMEM), free_vma v st)
                            | Some max_addr \<Rightarrow>
                                (let v = v\<lparr>vma_begin := max_addr - len, vma_end := max_addr\<rparr>
                                 in (Inr (vma_begin v), add_vma v st)))))"

text \<open>
  The walk of \<^verbatim>\<open>bkeep_mmap_any_excluding_user_reserved\<close> over the initial ranges, highest first.
\<close>

fun any_excluding ::
  "allocator \<Rightarrow> pal_env \<Rightarrow> map_req \<Rightarrow> nat \<Rightarrow> addr \<Rightarrow> pal_initial_mem_range list \<Rightarrow> addr \<Rightarrow>
     vma_state \<Rightarrow> (int + addr) \<times> vma_state" where
  "any_excluding alloc E r len bottom [] cursor st =
     bkeep_mmap_any_in_range_with alloc E r len bottom cursor st"
| "any_excluding alloc E r len bottom (rg # rgs) cursor st =
     (if \<not> rng_user_reserved rg \<or> rng_free rg \<or> rng_end rg \<le> bottom \<or> cursor \<le> rng_start rg
      then any_excluding alloc E r len bottom rgs cursor st
      else (let gap_bottom = max bottom (rng_end rg);
                (res, st) = (if gap_bottom < cursor
                             then bkeep_mmap_any_in_range_with alloc E r len gap_bottom cursor st
                             else (Inl (- ENOMEM), st))
            in case res of
                 Inr a \<Rightarrow> (Inr a, st)
               | Inl err \<Rightarrow>
                   (let cursor = min cursor (rng_start rg)
                    in if cursor \<le> bottom then (Inl (- ENOMEM), st)
                       else any_excluding alloc E r len bottom rgs cursor st)))"

definition bkeep_mmap_any_excluding_user_reserved_with ::
  "allocator \<Rightarrow> pal_env \<Rightarrow> map_req \<Rightarrow> nat \<Rightarrow> addr \<Rightarrow> addr \<Rightarrow> vma_state \<Rightarrow> (int + addr) \<times> vma_state" where
  "bkeep_mmap_any_excluding_user_reserved_with alloc E r len bottom top_addr st =
     any_excluding alloc E r len bottom (rev (initial_mem_ranges E)) top_addr st"

section \<open>Allocating region objects\<close>

text \<open>A request for memory of the LibOS itself.\<close>

definition internal_req :: "string \<Rightarrow> map_req" where
  "internal_req c = \<lparr>req_prot = PROT_READ OR PROT_WRITE,
     req_flags = MAP_PRIVATE OR MAP_ANONYMOUS OR VMA_INTERNAL, req_file = None, req_offset = 0,
     req_comment = c\<rparr>"

text \<open>
  Memory for region objects. A failed removal of the mapping just made is a \<^verbatim>\<open>BUG()\<close>; it does not occur
  (\<open>vma_malloc_undo\<close> below), so that the result has no case for it.
\<close>

definition u_vma_malloc :: "pal_env \<Rightarrow> nat \<Rightarrow> vma_state \<Rightarrow> addr option \<times> vma_state" where
  "u_vma_malloc E sz st =
     (let sz = ALLOC_ALIGN_UP sz
      in case bkeep_mmap_any_excluding_user_reserved_with get_from_thread_vma_cache E
                (internal_req ''vma'') sz (memory_address_start E) (memory_address_end E) st of
           (Inl err, st) \<Rightarrow> (None, st)
         | (Inr a, st) \<Rightarrow>
             if pal_virtual_memory_alloc E a sz < 0
             then (let (res, st) = u_vma_bkeep_remove a (u64 (a + sz)) True False st
                   in (None, free_vmas_freelist (rm_to_free res) st))
             else (Some a, st))"

text \<open>\<^verbatim>\<open>sizeof(struct libos_vma)\<close>; one enlargement maps two pages and gives 92 objects.\<close>

definition VMA_SZ :: nat where "VMA_SZ = 88"

definition alloc_vma :: "pal_env \<Rightarrow> allocator" where
  "alloc_vma E st =
     (let (ok, st) = get_from_thread_vma_cache st
      in if ok then (True, st)
         else if 0 < vma_mgr_avail st then (True, st\<lparr>vma_mgr_avail := vma_mgr_avail st - 1\<rparr>)
         else (let (_, st) = add_to_thread_vma_cache st;
                   n = size_align_up VMA_SZ DEFAULT_VMA_COUNT
               in case u_vma_malloc E (MEM_AREA_SZ + VMA_SZ * n) st of
                    (None, st) \<Rightarrow> (False, snd (get_from_thread_vma_cache st))
                  | (Some a, st) \<Rightarrow> (True, st\<lparr>vma_mgr_avail := vma_mgr_avail st + n - 2\<rparr>)))"

definition bkeep_mmap_any_in_range ::
  "pal_env \<Rightarrow> map_req \<Rightarrow> nat \<Rightarrow> addr \<Rightarrow> addr \<Rightarrow> vma_state \<Rightarrow> (int + addr) \<times> vma_state" where
  "bkeep_mmap_any_in_range E = bkeep_mmap_any_in_range_with (alloc_vma E) E"

definition bkeep_mmap_any_excluding_user_reserved ::
  "pal_env \<Rightarrow> map_req \<Rightarrow> nat \<Rightarrow> addr \<Rightarrow> addr \<Rightarrow> vma_state \<Rightarrow> (int + addr) \<times> vma_state" where
  "bkeep_mmap_any_excluding_user_reserved E =
     bkeep_mmap_any_excluding_user_reserved_with (alloc_vma E) E"

definition bkeep_mmap_any :: "pal_env \<Rightarrow> map_req \<Rightarrow> nat \<Rightarrow> vma_state \<Rightarrow> (int + addr) \<times> vma_state" where
  "bkeep_mmap_any E r len st =
     bkeep_mmap_any_excluding_user_reserved E r len (memory_address_start E)
       (memory_address_end E) st"

definition bkeep_mmap_any_aslr ::
  "pal_env \<Rightarrow> map_req \<Rightarrow> nat \<Rightarrow> vma_state \<Rightarrow> (int + addr) \<times> vma_state" where
  "bkeep_mmap_any_aslr E r len st =
     (case bkeep_mmap_any_excluding_user_reserved E r len (memory_address_start E)
             (g_aslr_addr_top st) st of
        (Inr a, st) \<Rightarrow> (Inr a, st)
      | (Inl err, st) \<Rightarrow> bkeep_mmap_any E r len st)"

definition pal_mem_bkeep_alloc :: "pal_env \<Rightarrow> nat \<Rightarrow> vma_state \<Rightarrow> (int + addr) \<times> vma_state" where
  "pal_mem_bkeep_alloc E len st = bkeep_mmap_any E (internal_req ''pal internal memory'') len st"

section \<open>The search\<close>

text \<open>
  A fit of a length below a top address: an end address such that the region of that length lies
  above the bottom and meets no region.
\<close>

definition fits :: "addr \<Rightarrow> addr \<Rightarrow> nat \<Rightarrow> libos_vma list \<Rightarrow> addr \<Rightarrow> bool" where
  "fits bottom top_addr len ts x \<longleftrightarrow> bottom + len \<le> x \<and> x \<le> top_addr \<and> vma_free (x - len) x ts"

definition descending :: "libos_vma list \<Rightarrow> bool" where
  "descending rs \<longleftrightarrow> sorted_wrt (\<lambda>v w. vma_end w \<le> vma_begin v) rs \<and>
     (\<forall>v\<in>set rs. vma_begin v < vma_end v)"

lemma vma_free_Cons [simp]:
  "vma_free b e (v # vs) \<longleftrightarrow> (vma_end v \<le> b \<or> e \<le> vma_begin v) \<and> vma_free b e vs"
  by (simp add: vma_free_def)

lemma vma_free_below: "\<forall>w\<in>set vs. vma_end w \<le> b \<Longrightarrow> vma_free b e vs"
  by (simp add: vma_free_def)

lemma any_loop_fits:
  assumes "any_loop bottom len rs max_addr = Some x" "descending rs" "\<forall>w\<in>set rs. vma_end w \<le> max_addr"
    "0 < len"
  shows "fits bottom max_addr len rs x"
  using assms
proof (induction rs arbitrary: max_addr)
  case (Cons v rs)
  have below: "\<forall>w\<in>set rs. vma_end w \<le> vma_begin v" and v: "vma_begin v < vma_end v"
    and desc: "descending rs"
    using Cons.prems(2) by (auto simp: descending_def)
  consider "bottom \<le> vma_end v" "len \<le> max_addr - vma_end v"
    | "bottom \<le> vma_end v" "\<not> len \<le> max_addr - vma_end v" | "vma_end v < bottom"
    by linarith
  then show ?case
  proof cases
    case 1
    with Cons.prems have "x = max_addr" by simp
    moreover have "vma_free (max_addr - len) max_addr (v # rs)"
      using 1 below v Cons.prems by (intro vma_free_below) (auto intro: order.trans less_imp_le)
    ultimately show ?thesis using 1 Cons.prems by (auto simp: fits_def)
  next
    case 2
    with Cons.prems have "any_loop bottom len rs (vma_begin v) = Some x" by simp
    from Cons.IH [OF this desc below Cons.prems(4)] v Cons.prems(3) show ?thesis
      by (auto simp: fits_def)
  next
    case 3
    with Cons.prems have x: "x = max_addr" "bottom + len \<le> max_addr" by (auto split: if_splits)
    moreover have "vma_free (max_addr - len) max_addr (v # rs)"
      using 3 below v x by (intro vma_free_below) force
    ultimately show ?thesis by (auto simp: fits_def)
  qed
qed (auto simp: fits_def vma_free_def split: if_splits)

lemma any_loop_highest:
  assumes "descending rs" "\<forall>w\<in>set rs. vma_end w \<le> max_addr" "0 < len"
    and "fits bottom max_addr len rs y"
  shows "\<exists>x. any_loop bottom len rs max_addr = Some x \<and> y \<le> x"
  using assms
proof (induction rs arbitrary: max_addr)
  case (Cons v rs)
  have below: "\<forall>w\<in>set rs. vma_end w \<le> vma_begin v" and desc: "descending rs"
    using Cons.prems(1) by (auto simp: descending_def)
  show ?case
  proof (cases "bottom \<le> vma_end v \<and> \<not> len \<le> max_addr - vma_end v")
    case True
    then have "\<not> vma_end v \<le> y - len"
      using Cons.prems(4) by (auto simp: fits_def)
    then have "fits bottom (vma_begin v) len rs y"
      using Cons.prems(4) by (auto simp: fits_def)
    from Cons.IH [OF desc below Cons.prems(3) this] True show ?thesis by auto
  next
    case False
    then show ?thesis using Cons.prems(4) by (auto simp: fits_def)
  qed
qed (auto simp: fits_def)

lemma any_loop_cases:
  "any_loop bottom len rs max_addr = Some x \<Longrightarrow> x = max_addr \<or> x \<in> vma_begin ` set rs"
  by (induction rs arbitrary: max_addr) (auto split: if_splits)

lemma descending_rev: "vmas_ok ts \<Longrightarrow> descending (rev ts)"
  by (auto simp: descending_def vmas_ok_def vma_ok_def sorted_wrt_rev)

text \<open>Both branches of the lookup at the top address start the loop in the same situation.\<close>

lemma any_search_loop:
  assumes "vmas_ok ts"
  obtains rs max_addr where "any_search bottom top_addr len ts = any_loop bottom len rs max_addr"
    "descending rs" "\<forall>w\<in>set rs. vma_end w \<le> max_addr" "set rs \<subseteq> set ts"
    "\<And>x. fits bottom top_addr len ts x \<Longrightarrow> 0 < len \<Longrightarrow> fits bottom max_addr len rs x"
    "\<And>x. fits bottom max_addr len rs x \<Longrightarrow> fits bottom top_addr len ts x"
    "max_addr = top_addr \<or> (\<exists>v\<in>set ts. max_addr = vma_begin v \<and> vma_begin v \<le> top_addr)"
proof (cases "lookup_suffix top_addr ts")
  case Nil
  then have pre: "lookup_prefix top_addr ts = ts" using lookup_split [of top_addr ts] by simp
  show thesis
  proof (rule that [of "rev ts" top_addr])
    show "any_search bottom top_addr len ts = any_loop bottom len (rev ts) top_addr"
      using Nil by (simp add: any_search_def lookup_hd)
    show "\<forall>w\<in>set (rev ts). vma_end w \<le> top_addr"
      using lookup_prefix_end [of _ top_addr ts] pre by auto
  qed (use assms descending_rev in \<open>auto simp: fits_def vma_free_def\<close>)
next
  case (Cons v vs)
  let ?pre = "lookup_prefix top_addr ts"
  have ts: "ts = ?pre @ v # vs" using lookup_split [of top_addr ts] Cons by simp
  then have ok: "vmas_ok (?pre @ v # vs)" using assms by simp
  have v: "top_addr < vma_end v" using lookup_suffix_end [OF assms, of v top_addr] Cons by simp
  show thesis
  proof (rule that [of "rev ?pre" "min top_addr (vma_begin v)"])
    show "any_search bottom top_addr len ts = any_loop bottom len (rev ?pre) (min top_addr (vma_begin v))"
      using Cons by (simp add: any_search_def lookup_hd)
    show "descending (rev ?pre)" using ok by (auto intro: descending_rev)
    show "\<forall>w\<in>set (rev ?pre). vma_end w \<le> min top_addr (vma_begin v)"
      using ok by (auto dest: lookup_prefix_end)
    show "set (rev ?pre) \<subseteq> set ts" by (subst (2) ts) auto
    show "min top_addr (vma_begin v) = top_addr \<or>
        (\<exists>w\<in>set ts. min top_addr (vma_begin v) = vma_begin w \<and> vma_begin w \<le> top_addr)"
    proof -
      have "v \<in> set ts" using ts by (metis in_set_conv_decomp)
      then show ?thesis by (auto simp: min_def)
    qed
    show "fits bottom (min top_addr (vma_begin v)) len (rev ?pre) x"
      if "fits bottom top_addr len ts x" "0 < len" for x
      using that v by (subst (asm) ts) (auto simp: fits_def vma_free_def)
    have "vma_begin v \<le> vma_begin w" if "w \<in> set (v # vs)" for w
      using ok that by (auto simp: vma_ok_def intro: order.trans [OF less_imp_le])
    then show "fits bottom top_addr len ts x"
      if "fits bottom (min top_addr (vma_begin v)) len (rev ?pre) x" for x
      using that by (subst ts) (fastforce simp: fits_def vma_free_def)
  qed
qed

section \<open>What an allocation of a region object may change\<close>

text \<open>
  Allocating a region object may map pages for the LibOS itself: a page either stays as it is, or
  was free and becomes an internal page.
\<close>

definition internal_page :: "page \<Rightarrow> bool" where
  "internal_page p \<longleftrightarrow> has_flag (fst (snd p)) VMA_INTERNAL"

definition grown :: "page option \<Rightarrow> page option \<Rightarrow> bool" where
  "grown p q \<longleftrightarrow> q = p \<or> (p = None \<and> (\<exists>i. q = Some i \<and> internal_page i))"

definition extends :: "vma_state \<Rightarrow> vma_state \<Rightarrow> bool" where
  "extends st st' \<longleftrightarrow> (\<forall>a. grown (page_map (vma_tree st) a) (page_map (vma_tree st') a)) \<and>
     g_aslr_addr_top st' = g_aslr_addr_top st \<and>
     g_received_user_memory st' = g_received_user_memory st"

definition ranges_ok :: "pal_initial_mem_range list \<Rightarrow> bool" where
  "ranges_ok rgs \<longleftrightarrow> sorted_wrt (\<lambda>x y. rng_end x \<le> rng_start y) rgs \<and>
     (\<forall>rg\<in>set rgs. rng_start rg \<le> rng_end rg)"

text \<open>
  The environment is well formed: the bounds are aligned addresses and the initial memory ranges
  are sorted by address, as the PAL documents them.
\<close>

definition env_ok :: "pal_env \<Rightarrow> bool" where
  "env_ok E \<longleftrightarrow> memory_address_start E < memory_address_end E \<and> memory_address_end E < 2 ^ 64 \<and>
     IS_ALLOC_ALIGNED (memory_address_start E) \<and> IS_ALLOC_ALIGNED (memory_address_end E) \<and>
     IS_ALLOC_ALIGNED (early_libos_mem_range_start E) \<and>
     IS_ALLOC_ALIGNED (early_libos_mem_range_end E) \<and> ranges_ok (initial_mem_ranges E)"

text \<open>
  The result of a mapping request: on success the new region lies in the bounds, on pages that
  were free, and shows the requested page contents; everything else is as after an allocation.
\<close>

definition mapped :: "map_req \<Rightarrow> nat \<Rightarrow> addr \<Rightarrow> vma_state \<Rightarrow> vma_state \<Rightarrow> addr \<Rightarrow> bool" where
  "mapped r len a st st' x \<longleftrightarrow>
     (if a \<le> x \<and> x < a + len
      then page_map (vma_tree st) x = None \<and> page_map (vma_tree st') x =
        Some (vma_page ((new_vma_of r)\<lparr>vma_begin := a, vma_end := a + len\<rparr>) x)
      else grown (page_map (vma_tree st) x) (page_map (vma_tree st') x))"

definition map_post ::
  "map_req \<Rightarrow> nat \<Rightarrow> addr \<Rightarrow> addr \<Rightarrow> vma_state \<Rightarrow> int + addr \<Rightarrow> vma_state \<Rightarrow> bool" where
  "map_post r len bottom top_addr st res st' \<longleftrightarrow> vma_inv st' \<and>
     g_aslr_addr_top st' = g_aslr_addr_top st \<and>
     g_received_user_memory st' = g_received_user_memory st \<and>
     (case res of
        Inl err \<Rightarrow> (err = - EINVAL \<or> err = - ENOMEM) \<and> extends st st'
      | Inr a \<Rightarrow> bottom \<le> a \<and> a + len \<le> top_addr \<and> IS_ALLOC_ALIGNED a \<and>
          (\<forall>x. mapped r len a st st' x))"

lemma grown_refl [simp]: "grown p p"
  by (simp add: grown_def)

lemma grown_trans: "grown p q \<Longrightarrow> grown q r \<Longrightarrow> grown p r"
  by (auto simp: grown_def)

lemma grown_None: "grown p q \<Longrightarrow> q = None \<Longrightarrow> p = None"
  by (auto simp: grown_def)

lemma extends_refl [simp]: "extends st st"
  by (simp add: extends_def)

lemma extends_trans: "extends st st' \<Longrightarrow> extends st' st'' \<Longrightarrow> extends st st''"
  by (auto simp: extends_def intro: grown_trans)

lemma mapped_after:
  assumes "extends st st1" "mapped r len a st1 st' x"
  shows "mapped r len a st st' x"
proof -
  have "grown (page_map (vma_tree st) x) (page_map (vma_tree st1) x)"
    using assms(1) by (simp add: extends_def)
  with assms(2) show ?thesis
    by (auto simp: mapped_def split: if_splits intro: grown_trans dest: grown_None)
qed

lemma map_post_after:
  assumes "extends st st1" "map_post r len bottom top_addr st1 res st'"
  shows "map_post r len bottom top_addr st res st'"
proof -
  have "g_aslr_addr_top st1 = g_aslr_addr_top st"
      "g_received_user_memory st1 = g_received_user_memory st"
    using assms(1) by (simp_all add: extends_def)
  with assms(2) mapped_after [OF assms(1)] extends_trans [OF assms(1)] show ?thesis
    by (cases res) (auto simp: map_post_def)
qed

lemma map_post_weaken:
  "map_post r len bottom top_addr st res st' \<Longrightarrow> bottom' \<le> bottom \<Longrightarrow> top_addr \<le> top_addr' \<Longrightarrow>
     map_post r len bottom' top_addr' st res st'"
  by (auto simp: map_post_def split: sum.splits)

subsection \<open>State changes that do not touch the tree\<close>

lemma free_vma_simps [simp]:
  "vma_tree (free_vma v st) = vma_tree st"
  "g_total_memory_size (free_vma v st) = g_total_memory_size st"
  "g_peak_total_memory_size (free_vma v st) = g_peak_total_memory_size st"
  "g_aslr_addr_top (free_vma v st) = g_aslr_addr_top st"
  "g_received_user_memory (free_vma v st) = g_received_user_memory st"
  "num_mmapped (free_vma v st) = num_mmapped (release_file (vma_file v) st)"
  "hdl_refs (free_vma v st) = hdl_refs (release_file (vma_file v) st)"
  by (simp_all add: free_vma_def add_to_thread_vma_cache_def Let_def)

lemma mem_ok_cong:
  "vma_tree st' = vma_tree st \<Longrightarrow> g_total_memory_size st' = g_total_memory_size st \<Longrightarrow>
     g_peak_total_memory_size st' = g_peak_total_memory_size st \<Longrightarrow> mem_ok st' = mem_ok st"
  by (simp add: mem_ok_def)

lemma files_ok_cong:
  "vma_tree st' = vma_tree st \<Longrightarrow> num_mmapped st' = num_mmapped st \<Longrightarrow> hdl_refs st' = hdl_refs st \<Longrightarrow>
     files_ok extra st' = files_ok extra st"
  by (simp add: files_ok_def)

lemma mem_ok_simps [simp]:
  "mem_ok (free_vma v st) = mem_ok st" "mem_ok (hold_file f st) = mem_ok st"
  "mem_ok (release_file f st) = mem_ok st" "mem_ok (st\<lparr>vma_cache := n\<rparr>) = mem_ok st"
  "mem_ok (st\<lparr>vma_mgr_avail := n\<rparr>) = mem_ok st" "mem_ok (st\<lparr>g_aslr_addr_top := t\<rparr>) = mem_ok st"
  by (intro mem_ok_cong; simp)+

lemma files_ok_simps [simp]:
  "files_ok extra (st\<lparr>vma_cache := n\<rparr>) = files_ok extra st"
  "files_ok extra (st\<lparr>vma_mgr_avail := n\<rparr>) = files_ok extra st"
  "files_ok extra (st\<lparr>g_aslr_addr_top := t\<rparr>) = files_ok extra st"
  by (intro files_ok_cong; simp)+

lemma vma_inv_simps [simp]:
  "vma_inv (st\<lparr>vma_cache := n\<rparr>) = vma_inv st" "vma_inv (st\<lparr>vma_mgr_avail := n\<rparr>) = vma_inv st"
  "vma_inv (st\<lparr>g_aslr_addr_top := t\<rparr>) = vma_inv st"
  by (simp_all add: vma_inv_def)

lemma extends_simps [simp]:
  "extends st (st'\<lparr>vma_cache := n\<rparr>) = extends st st'"
  "extends st (st'\<lparr>vma_mgr_avail := n\<rparr>) = extends st st'"
  "extends (st\<lparr>vma_cache := n\<rparr>) st' = extends st st'"
  by (simp_all add: extends_def)

lemma files_ok_free_vma:
  "files_ok (v # extra) st \<Longrightarrow> files_ok extra (free_vma v st)"
  using files_ok_release [of v extra st] by (simp add: files_ok_def)

lemma free_vmas_freelist_simps [simp]:
  "vma_tree (free_vmas_freelist vs st) = vma_tree st"
  "g_aslr_addr_top (free_vmas_freelist vs st) = g_aslr_addr_top st"
  "g_received_user_memory (free_vmas_freelist vs st) = g_received_user_memory st"
  "mem_ok (free_vmas_freelist vs st) = mem_ok st"
  by (induction vs arbitrary: st) simp_all

lemma files_ok_freelist: "files_ok (vs @ extra) st \<Longrightarrow> files_ok extra (free_vmas_freelist vs st)"
  by (induction vs arbitrary: st) (simp_all add: files_ok_free_vma)

text \<open>Inserting a new region whose references are already held.\<close>

lemma add_vma_ok:
  assumes "mem_ok st" "vma_ok v" "vma_free (vma_begin v) (vma_end v) (vma_tree st)"
    and "files_ok (v # extra) st"
  shows "mem_ok (add_vma v st)" "files_ok extra (add_vma v st)"
    and "page_map (vma_tree (add_vma v st)) = page_map (vma_tree st) ++ vma_pages v"
    and "g_aslr_addr_top (add_vma v st) = g_aslr_addr_top st"
    and "g_received_user_memory (add_vma v st) = g_received_user_memory st"
proof -
  have ok: "vmas_ok (vma_tree st)" using assms(1) by (simp add: mem_ok_def)
  note ins = tree_insert_ok [OF ok assms(2,3)]
  have "tree_size (vma_tree st) + (vma_end v - vma_begin v) < 2 ^ 64"
    using tree_size_less [OF ins(1)] ins(2) by simp
  then show "mem_ok (add_vma v st)"
    using assms(1) ins(1,2)
    by (auto simp: add_vma_def total_memory_size_add_def mem_ok_def Let_def)
  show "files_ok extra (add_vma v st)"
    using assms(4) by (rule files_ok_change)
      (simp_all add: add_vma_def total_memory_size_add_def Let_def ins(4,5))
  show "page_map (vma_tree (add_vma v st)) = page_map (vma_tree st) ++ vma_pages v"
      "g_aslr_addr_top (add_vma v st) = g_aslr_addr_top st"
      "g_received_user_memory (add_vma v st) = g_received_user_memory st"
    using ins(3) by (simp_all add: add_vma_def total_memory_size_add_def Let_def)
qed

lemma any_search_Some:
  assumes "vmas_ok ts" "any_search bottom top_addr len ts = Some x" "0 < len"
    and "IS_ALLOC_ALIGNED top_addr"
  shows "fits bottom top_addr len ts x" "IS_ALLOC_ALIGNED x"
proof -
  obtain rs max_addr where l: "any_search bottom top_addr len ts = any_loop bottom len rs max_addr"
      "descending rs" "\<forall>w\<in>set rs. vma_end w \<le> max_addr" "set rs \<subseteq> set ts"
      "\<And>x. fits bottom max_addr len rs x \<Longrightarrow> fits bottom top_addr len ts x"
      "max_addr = top_addr \<or> (\<exists>v\<in>set ts. max_addr = vma_begin v \<and> vma_begin v \<le> top_addr)"
    using any_search_loop [OF assms(1)] by metis
  from l(1-3) assms show "fits bottom top_addr len ts x"
    by (intro l(5) any_loop_fits) auto
  have "IS_ALLOC_ALIGNED (vma_begin v)" if "v \<in> set ts" for v
    using vmas_okD(1) [OF assms(1) that] by (simp add: vma_ok_def)
  then show "IS_ALLOC_ALIGNED x"
    using any_loop_cases [of bottom len rs max_addr x] l(1,4,6) assms(2,4) by auto
qed

lemma any_bounds_Some:
  assumes "any_bounds E st fl bottom top_addr = Some (b, t)"
  shows "bottom \<le> b" "t \<le> top_addr"
    and "env_ok E \<Longrightarrow> IS_ALLOC_ALIGNED top_addr \<Longrightarrow> IS_ALLOC_ALIGNED t"
proof -
  have "IS_ALLOC_ALIGNED (2 ^ 31)" by (simp add: IS_ALLOC_ALIGNED_def ALLOC_ALIGNMENT_def)
  then show "bottom \<le> b" "t \<le> top_addr" "env_ok E \<Longrightarrow> IS_ALLOC_ALIGNED top_addr \<Longrightarrow> IS_ALLOC_ALIGNED t"
    using assms
    by (auto simp: any_bounds_def env_ok_def Let_def split: if_splits)
qed

lemma new_vma_simps [simp]:
  "vma_file (new_vma_of r) = req_file r" "vma_prot (new_vma_of r) = req_prot r"
  "copy_comment (vma_comment (new_vma_of r)) = vma_comment (new_vma_of r)"
  by (simp_all add: new_vma_of_def copy_comment_def)

text \<open>A mapping avoids the initial ranges that are reserved for a user.\<close>

definition avoids_reserved :: "pal_initial_mem_range list \<Rightarrow> addr \<Rightarrow> nat \<Rightarrow> bool" where
  "avoids_reserved rgs a len \<longleftrightarrow>
     (\<forall>rg\<in>set rgs. rng_user_reserved rg \<and> \<not> rng_free rg \<longrightarrow> a + len \<le> rng_start rg \<or> rng_end rg \<le> a)"

section \<open>The mapping functions over any allocator\<close>

text \<open>
  The contract of a region-object allocator, and what the mapping functions do for every
  allocator that keeps it.
\<close>

locale vma_allocator =
  fixes alloc :: "pal_env \<Rightarrow> allocator"
  assumes alloc_ok: "env_ok E \<Longrightarrow> vma_inv st \<Longrightarrow> alloc E st = (ok, st') \<Longrightarrow>
    vma_inv st' \<and> extends st st'"
begin

lemma in_range_post:
  assumes E: "env_ok E" and inv: "vma_inv st" and top_addr: "top_addr < 2 ^ 64"
    and res: "bkeep_mmap_any_in_range_with (alloc E) E r len bottom top_addr st = (res, st')"
  shows "map_post r len bottom top_addr st res st'"
proof (cases "len = 0 \<or> \<not> IS_ALLOC_ALIGNED len \<or> \<not> IS_ALLOC_ALIGNED bottom \<or>
    \<not> IS_ALLOC_ALIGNED top_addr \<or> any_bounds E st (req_flags r) bottom top_addr = None")
  case True
  with res inv show ?thesis
    by (auto simp: bkeep_mmap_any_in_range_with_def map_post_def split: if_splits)
next
  case False
  then obtain b t where bt: "any_bounds E st (req_flags r) bottom top_addr = Some (b, t)" by auto
  obtain ok st1 where al: "alloc E st = (ok, st1)" by fastforce
  have st1: "vma_inv st1" "extends st st1" using alloc_ok [OF E inv al] by auto
  show ?thesis
  proof (cases ok)
    case no: False
    with False bt al res have "res = Inl (- ENOMEM)" "st' = st1"
      by (auto simp: bkeep_mmap_any_in_range_with_def)
    with st1 show ?thesis by (auto simp: map_post_def extends_def)
  next
    case ok: True
    define st2 where "st2 = hold_file (req_file r) st1"
    have st2: "mem_ok st2" "vma_tree st2 = vma_tree st1" "vmas_ok (vma_tree st1)"
      using st1(1) by (auto simp: st2_def vma_inv_def mem_ok_def)
    have post: "map_post r len b t st1 res st'"
    proof (cases "any_search b t len (vma_tree st1)")
      case None
      with False bt al ok res have r: "res = Inl (- ENOMEM)" "st' = free_vma (new_vma_of r) st2"
        by (auto simp: bkeep_mmap_any_in_range_with_def st2_def Let_def)
      have "files_ok [new_vma_of r] st2"
        using files_ok_hold [of "[]" st1 "new_vma_of r"] st1(1) by (simp add: st2_def vma_inv_def)
      then have "files_ok [] st'" unfolding r by (rule files_ok_free_vma)
      with st2 show ?thesis
        by (auto simp: map_post_def r vma_inv_def extends_def) (simp_all add: st2_def)
    next
      case (Some x)
      let ?v = "(new_vma_of r)\<lparr>vma_begin := x - len, vma_end := x\<rparr>"
      from Some False bt al ok res have r: "res = Inr (x - len)" "st' = add_vma ?v st2"
        by (auto simp: bkeep_mmap_any_in_range_with_def st2_def Let_def)
      have t: "IS_ALLOC_ALIGNED t" "t < 2 ^ 64"
        using any_bounds_Some [OF bt] E False top_addr by auto
      have x: "fits b t len (vma_tree st1) x" "IS_ALLOC_ALIGNED x"
        using any_search_Some [OF st2(3) Some _ t(1)] False by auto
      then have v: "vma_ok ?v"
        using t False by (auto simp: vma_ok_def fits_def intro: aligned_diff)
      have free: "vma_free (vma_begin ?v) (vma_end ?v) (vma_tree st2)"
        using x st2(2) by (simp add: fits_def)
      have files: "files_ok [?v] st2"
        using files_ok_hold [of "[]" st1 ?v] st1(1) by (simp add: st2_def vma_inv_def)
      note add = add_vma_ok [OF st2(1) v free files]
      have "page_map (vma_tree st1) y = None" if "x - len \<le> y" "y < x" for y
        using free that unfolding st2(2) vma_free_def
        by (intro page_map_NoneI) (force simp: is_addr_in_vma_def)
      moreover have "x - len + len = x" using x by (auto simp: fits_def)
      ultimately have "mapped r len (x - len) st1 st' y" for y
        unfolding mapped_def r add(3) st2(2)
        by (auto simp: vma_pages_def is_addr_in_vma_def map_add_def)
      moreover have "vma_inv st'" using add by (simp add: r vma_inv_def)
      ultimately show ?thesis
        using x False add(4,5)
        by (auto simp: map_post_def r fits_def st2_def intro: aligned_diff)
    qed
    from map_post_after [OF st1(2) map_post_weaken [OF post]] any_bounds_Some [OF bt]
    show ?thesis by blast
  qed
qed

lemma excluding_post:
  assumes "env_ok E" "vma_inv st" "cursor < 2 ^ 64" "ranges_ok (rev rgs)"
    and "any_excluding (alloc E) E r len bottom rgs cursor st = (res, st')"
  shows "map_post r len bottom cursor st res st' \<and> (\<forall>a. res = Inr a \<longrightarrow> avoids_reserved rgs a len)"
  using assms
proof (induction rgs arbitrary: cursor st)
  case Nil
  then show ?case using in_range_post [of E st cursor r len bottom res st']
    by (simp add: avoids_reserved_def)
next
  case (Cons rg rgs)
  have rgs: "ranges_ok (rev rgs)" "rng_start rg \<le> rng_end rg" "\<forall>y\<in>set rgs. rng_end y \<le> rng_start rg"
    using Cons.prems(4) by (auto simp: ranges_ok_def sorted_wrt_append)
  show ?case
  proof (cases "\<not> rng_user_reserved rg \<or> rng_free rg \<or> rng_end rg \<le> bottom \<or> cursor \<le> rng_start rg")
    case True
    with Cons.prems(5) have "any_excluding (alloc E) E r len bottom rgs cursor st = (res, st')" by simp
    from Cons.IH [OF Cons.prems(1-3) rgs(1) this] True show ?thesis
      by (auto simp: avoids_reserved_def map_post_def)
  next
    case False
    define gap where "gap = max bottom (rng_end rg)"
    obtain res1 st1 where g: "(if gap < cursor
        then bkeep_mmap_any_in_range_with (alloc E) E r len gap cursor st
        else (Inl (- ENOMEM), st)) = (res1, st1)" by fastforce
    have unf: "(case res1 of
          Inr a \<Rightarrow> (Inr a, st1)
        | Inl err \<Rightarrow> if min cursor (rng_start rg) \<le> bottom then (Inl (- ENOMEM), st1)
            else any_excluding (alloc E) E r len bottom rgs (min cursor (rng_start rg)) st1) = (res, st')"
      using Cons.prems(5) False unfolding any_excluding.simps Let_def gap_def [symmetric] g
      by (simp only: if_False prod.case)
    have post1: "map_post r len gap cursor st res1 st1"
      using g in_range_post [OF Cons.prems(1-3), of r len gap res1 st1] Cons.prems(2)
      by (auto simp: map_post_def split: if_splits)
    show ?thesis
    proof (cases res1)
      case (Inr a)
      with unf have "res = Inr a" "st' = st1" by auto
      moreover have "gap \<le> a" using post1 Inr by (simp add: map_post_def)
      ultimately show ?thesis
        using rgs map_post_weaken [OF post1, of bottom cursor] Inr
        by (auto simp: avoids_reserved_def gap_def)
    next
      case (Inl err)
      have st1: "vma_inv st1" "extends st st1" using post1 Inl by (auto simp: map_post_def)
      show ?thesis
      proof (cases "min cursor (rng_start rg) \<le> bottom")
        case True
        with Inl unf have "res = Inl (- ENOMEM)" "st' = st1" by auto
        with st1 show ?thesis by (auto simp: map_post_def extends_def)
      next
        case low: False
        with Inl unf have
            "any_excluding (alloc E) E r len bottom rgs (min cursor (rng_start rg)) st1 = (res, st')"
          by simp
        from Cons.IH [OF Cons.prems(1) st1(1) _ rgs(1) this] Cons.prems(3)
        have post: "map_post r len bottom (min cursor (rng_start rg)) st1 res st'"
          and avoid: "\<forall>a. res = Inr a \<longrightarrow> avoids_reserved rgs a len" by auto
        have "map_post r len bottom cursor st res st'"
          using map_post_after [OF st1(2) map_post_weaken [OF post, of bottom cursor]] by simp
        moreover have "a + len \<le> rng_start rg" if "res = Inr a" for a
          using post that by (simp add: map_post_def)
        ultimately show ?thesis using avoid by (auto simp: avoids_reserved_def)
      qed
    qed
  qed
qed

lemma excluding_reserved_post:
  assumes "env_ok E" "vma_inv st" "top_addr < 2 ^ 64"
    and "bkeep_mmap_any_excluding_user_reserved_with (alloc E) E r len bottom top_addr st = (res, st')"
  shows "map_post r len bottom top_addr st res st'"
    and "res = Inr a \<Longrightarrow> avoids_reserved (initial_mem_ranges E) a len"
  using excluding_post [of E st top_addr "rev (initial_mem_ranges E)" r len bottom res st'] assms
  by (auto simp: bkeep_mmap_any_excluding_user_reserved_with_def avoids_reserved_def env_ok_def)

end

interpretation cache_alloc: vma_allocator "\<lambda>E. get_from_thread_vma_cache"
  by unfold_locales (auto simp: get_from_thread_vma_cache_def split: if_splits)

lemma internal_req_flags: "has_flag (vma_flags (new_vma_of (internal_req c))) VMA_INTERNAL"
  by (simp add: new_vma_of_def internal_req_def filter_saved_flags_def vma_consts)

lemma map_post_internal:
  assumes "map_post (internal_req c) len bottom top_addr st res st'"
  shows "extends st st'"
proof (cases res)
  case (Inr a)
  have "grown (page_map (vma_tree st) x) (page_map (vma_tree st') x)" for x
  proof -
    have "mapped (internal_req c) len a st st' x" using assms Inr by (simp add: map_post_def)
    then show ?thesis
      using internal_req_flags [of c]
      by (auto simp: mapped_def grown_def internal_page_def vma_page_def split: if_splits)
  qed
  with assms show ?thesis by (simp add: map_post_def extends_def)
qed (use assms in \<open>auto simp: map_post_def\<close>)

text \<open>A removal given by address and length.\<close>

lemma remove_length_post:
  assumes "mem_ok st" "IS_ALLOC_ALIGNED a" "IS_ALLOC_ALIGNED len" "0 < len" "a + len < 2 ^ 64"
    and "u_vma_bkeep_remove a (u64 (a + len)) is_internal have_new st = (res, st')"
  shows "remove_post a (a + len) st res st'"
proof (rule remove_correct)
  show "IS_ALLOC_ALIGNED (a + len)" using assms(2,3) by (rule aligned_add)
  show "u_vma_bkeep_remove a (a + len) is_internal have_new st = (res, st')" using assms(5,6) by simp
qed (use assms in auto)

text \<open>Undoing a mapping just made leaves at most what the allocation added.\<close>

lemma undo_map_post:
  assumes post: "map_post r len bottom top_addr st (Inr a) st1" and len: "0 < len" "IS_ALLOC_ALIGNED len"
    and top_addr: "top_addr < 2 ^ 64"
    and rm: "u_vma_bkeep_remove a (u64 (a + len)) is_internal have_new st1 = (res, st2)"
    and ret: "rm_ret res = 0"
  shows "vma_inv (free_vmas_freelist (rm_to_free res) st2)"
    and "extends st (free_vmas_freelist (rm_to_free res) st2)"
proof -
  have a: "a + len \<le> top_addr" "IS_ALLOC_ALIGNED a" "vma_inv st1" "\<And>x. mapped r len a st st1 x"
    using post by (auto simp: map_post_def)
  then have "remove_post a (a + len) st1 res st2"
    using len top_addr by (intro remove_length_post [OF _ _ _ _ _ rm]) (auto simp: vma_inv_def)
  with ret have p: "mem_ok st2" "files_ok (rm_to_free res @ []) st2"
      "page_map (vma_tree st2) = (\<lambda>x. if a \<le> x \<and> x < a + len then None else page_map (vma_tree st1) x)"
      "g_aslr_addr_top st2 = g_aslr_addr_top st1" "g_received_user_memory st2 = g_received_user_memory st1"
    using a(3) unfolding remove_post_def vma_inv_def by (simp_all del: append_Nil2)
  then show "vma_inv (free_vmas_freelist (rm_to_free res) st2)"
    using files_ok_freelist [OF p(2)] by (simp add: vma_inv_def)
  have "grown (page_map (vma_tree st) x) (page_map (vma_tree st2) x)" for x
    using a(4) [of x] unfolding p(3) by (auto simp: mapped_def grown_def split: if_splits)
  then show "extends st (free_vmas_freelist (rm_to_free res) st2)"
    using p(4,5) post by (simp add: extends_def map_post_def)
qed

lemma align_up_vma: "ALLOC_ALIGN_UP (MEM_AREA_SZ + VMA_SZ * size_align_up VMA_SZ DEFAULT_VMA_COUNT) = 8192"
    "size_align_up VMA_SZ DEFAULT_VMA_COUNT = 92"
  by (simp_all add: size_align_up_def max_mem_size_def ALLOC_ALIGN_UP_def ALLOC_ALIGN_DOWN_def u64_def
      ALLOC_ALIGNMENT_def MEM_AREA_SZ_def MEM_MGR_SZ_def VMA_SZ_def DEFAULT_VMA_COUNT_def Let_def)

text \<open>The mapping just made is a region that starts at the returned address, so that undoing it splits nothing.\<close>

lemma in_range_region:
  assumes "bkeep_mmap_any_in_range_with alloc E r len bottom top_addr st = (Inr a, st')"
  shows "\<exists>v\<in>set (vma_tree st'). vma_begin v = a"
  using assms
  by (auto simp: bkeep_mmap_any_in_range_with_def add_vma_def total_memory_size_add_def tree_insert_def Let_def
      split: if_splits option.splits prod.splits)

lemma excluding_region:
  assumes "any_excluding alloc E r len bottom rgs cursor st = (Inr a, st')"
  shows "\<exists>v\<in>set (vma_tree st'). vma_begin v = a"
  using assms
proof (induction rgs arbitrary: cursor st)
  case Nil
  then show ?case by (simp add: in_range_region)
next
  case (Cons rg rgs)
  then show ?case
    by (auto simp: Let_def dest: in_range_region split: if_splits prod.splits sum.splits)
qed

lemma regions_apart:
  assumes "vmas_ok ts" "v \<in> set ts" "w \<in> set ts" "vma_begin w < vma_begin v"
  shows "vma_end w \<le> vma_begin v"
  using assms
proof (induction ts)
  case (Cons u us)
  then have "vma_begin u < vma_end u" by (simp add: vma_ok_def)
  with Cons show ?case by fastforce
qed simp

lemma vma_malloc_undo:
  assumes E: "env_ok E" and inv: "vma_inv st" and len: "0 < len" "IS_ALLOC_ALIGNED len"
    and map: "bkeep_mmap_any_excluding_user_reserved_with get_from_thread_vma_cache E
      (internal_req ''vma'') len (memory_address_start E) (memory_address_end E) st = (Inr a, st1)"
    and rm: "u_vma_bkeep_remove a (u64 (a + len)) True False st1 = (res, st2)"
  shows "rm_ret res = 0"
proof -
  have top_addr: "memory_address_end E < 2 ^ 64" using E by (simp add: env_ok_def)
  note post = cache_alloc.excluding_reserved_post(1) [OF E inv top_addr map]
  have a: "a + len \<le> memory_address_end E" "IS_ALLOC_ALIGNED a" "vma_inv st1"
      "\<And>x. mapped (internal_req ''vma'') len a st st1 x"
    using post by (auto simp: map_post_def)
  have ok: "mem_ok st1" "vmas_ok (vma_tree st1)" using a(3) by (auto simp: vma_inv_def mem_ok_def)
  have u: "u64 (a + len) = a + len" using a(1) top_addr by simp
  have "remove_post a (a + len) st1 res st2"
    using a(1,2) len top_addr ok(1) by (intro remove_length_post [OF _ _ _ _ _ rm]) auto
  then have ret: "rm_ret res = 0 \<or> rm_ret res = - EACCES \<or> rm_ret res = - ENOMEM"
    by (auto simp: remove_post_def split: if_splits)
  have "has_flag (vma_flags w) VMA_INTERNAL"
    if w: "w \<in> set (vma_tree st1)" "a < vma_end w" "vma_begin w < a + len" for w
  proof -
    define x where "x = max a (vma_begin w)"
    have x: "a \<le> x" "x < a + len" "is_addr_in_vma x w"
      using w len(1) vmas_okD(2) [OF ok(2) w(1)] by (auto simp: x_def is_addr_in_vma_def)
    have "vma_flags w = vma_flags (new_vma_of (internal_req ''vma''))"
      using a(4) [of x] x page_map_in [OF ok(2) w(1) x(3)] by (simp add: mapped_def vma_page_def)
    then show ?thesis by (simp add: internal_req_flags)
  qed
  then have "rm_ret res \<noteq> - EACCES" using remove_ret(1) [OF ok(2) rm] u by auto
  moreover have "rm_ret res \<noteq> - ENOMEM"
  proof
    assume "rm_ret res = - ENOMEM"
    then obtain w ws where w: "lookup_suffix a (vma_tree st1) = w # ws" "vma_begin w < a" "a < vma_end w"
      using rm unfolding u
      by (auto simp: u_vma_bkeep_remove_def Let_def errno_defs split: list.splits if_splits prod.splits)
    obtain v where v: "v \<in> set (vma_tree st1)" "vma_begin v = a"
      using excluding_region map unfolding bkeep_mmap_any_excluding_user_reserved_with_def by blast
    have "w \<in> set (vma_tree st1)" using w(1) lookup_split [of a "vma_tree st1"] by (metis in_set_conv_decomp)
    with regions_apart [OF ok(2) v(1), of w] v(2) w show False by simp
  qed
  ultimately show ?thesis using ret by blast
qed

lemma vma_malloc_ok:
  assumes E: "env_ok E" and inv: "vma_inv st" and sz: "0 < ALLOC_ALIGN_UP sz"
    and res: "u_vma_malloc E sz st = (p, st')"
  shows "vma_inv st' \<and> extends st st'"
proof -
  define len where "len = ALLOC_ALIGN_UP sz"
  obtain m st1 where m: "bkeep_mmap_any_excluding_user_reserved_with get_from_thread_vma_cache E
      (internal_req ''vma'') len (memory_address_start E) (memory_address_end E) st = (m, st1)"
    by fastforce
  have top_addr: "memory_address_end E < 2 ^ 64" using E by (simp add: env_ok_def)
  note post = cache_alloc.excluding_reserved_post(1) [OF E inv top_addr m]
  have st1: "vma_inv st1" "extends st st1"
    using post map_post_internal [OF post] by (auto simp: map_post_def)
  show ?thesis
  proof (cases m)
    case (Inl err)
    with res m st1 show ?thesis by (simp add: u_vma_malloc_def len_def)
  next
    case (Inr a)
    show ?thesis
    proof (cases "pal_virtual_memory_alloc E a len < 0")
      case True
      obtain r st2 where rm: "u_vma_bkeep_remove a (u64 (a + len)) True False st1 = (r, st2)"
        by fastforce
      with res m Inr True have st': "st' = free_vmas_freelist (rm_to_free r) st2"
        by (simp add: u_vma_malloc_def len_def)
      have len: "0 < len" "IS_ALLOC_ALIGNED len" using sz by (simp_all add: len_def ALLOC_ALIGN_UP_def)
      from undo_map_post [OF post [unfolded Inr] len top_addr rm vma_malloc_undo [OF E inv len m [unfolded Inr] rm]] st'
      show ?thesis by simp
    next
      case False
      with res m Inr st1 show ?thesis by (simp add: u_vma_malloc_def len_def)
    qed
  qed
qed

interpretation full_alloc: vma_allocator alloc_vma
proof
  fix E st ok st'
  assume E: "env_ok E" and inv: "vma_inv st" and al: "alloc_vma E st = (ok, st')"
  show "vma_inv st' \<and> extends st st'"
  proof (cases "vma_cache st = 0 \<and> vma_mgr_avail st = 0")
    case True
    define sz where "sz = MEM_AREA_SZ + VMA_SZ * size_align_up VMA_SZ DEFAULT_VMA_COUNT"
    obtain p st1 where m: "u_vma_malloc E sz (st\<lparr>vma_cache := 1\<rparr>) = (p, st1)" by fastforce
    have "vma_inv st1 \<and> extends (st\<lparr>vma_cache := 1\<rparr>) st1"
      using vma_malloc_ok [OF E _ _ m] inv align_up_vma(1) by (simp add: sz_def)
    moreover have "extends st st1 \<Longrightarrow> vma_inv st1 \<Longrightarrow> ?thesis"
      using al True m
      by (auto simp: alloc_vma_def get_from_thread_vma_cache_def add_to_thread_vma_cache_def
          VMA_CACHE_SIZE_def Let_def sz_def split: option.splits if_splits)
    ultimately show ?thesis by simp
  next
    case False
    with al inv show ?thesis
      by (auto simp: alloc_vma_def get_from_thread_vma_cache_def split: if_splits)
  qed
qed

section \<open>Properties of mapping anywhere\<close>

text \<open>C10: The search of \<^verbatim>\<open>bkeep_mmap_any_in_range\<close> is a complete highest-fit search: if it finds
  an end address, the region of the requested length below it lies in the bounds and overlaps no
  region, and no other fitting place ends higher; if it finds none, there is no free place of
  that length in the bounds.\<close>

theorem any_search_highest_fit:
  assumes "vmas_ok ts" "0 < len" "IS_ALLOC_ALIGNED top_addr"
  shows "case any_search bottom top_addr len ts of
      Some x \<Rightarrow> fits bottom top_addr len ts x \<and> (\<forall>y. fits bottom top_addr len ts y \<longrightarrow> y \<le> x)
    | None \<Rightarrow> \<forall>y. \<not> fits bottom top_addr len ts y"
proof -
  obtain rs max_addr where l: "any_search bottom top_addr len ts = any_loop bottom len rs max_addr"
      "descending rs" "\<forall>w\<in>set rs. vma_end w \<le> max_addr"
      "\<And>x. fits bottom top_addr len ts x \<Longrightarrow> 0 < len \<Longrightarrow> fits bottom max_addr len rs x"
    using any_search_loop [OF assms(1)] by metis
  have high: "\<exists>x. any_search bottom top_addr len ts = Some x \<and> y \<le> x"
    if "fits bottom top_addr len ts y" for y
    using any_loop_highest [OF l(2,3) assms(2) l(4) [OF that assms(2)]] l(1) by simp
  show ?thesis
    using any_search_Some(1) [OF assms(1) _ assms(2,3)] high
    by (cases "any_search bottom top_addr len ts") fastforce+
qed

theorem any_search_highest_fit_witness:
  "any_search 0x10000 0x30000 0x2000 [demo_vma, demo_libos_vma] = Some 0x30000 \<and>
   fits 0x10000 0x30000 0x2000 [demo_vma, demo_libos_vma] 0x30000"
proof -
  have "any_search 0x10000 0x30000 0x2000 [demo_vma, demo_libos_vma] = Some 0x30000"
    by (simp add: any_search_def u_lookup_vma_def cmp_addr_to_vma_def demo_defs)
  with any_search_highest_fit [of "[demo_vma, demo_libos_vma]" "0x2000" "0x30000" "0x10000"] demo_vmas_ok
  show ?thesis by (simp add: IS_ALLOC_ALIGNED_def ALLOC_ALIGNMENT_def)
qed

text \<open>C26: \<^verbatim>\<open>bkeep_mmap_any_in_range\<close> keeps the bookkeeping invariant on every path (also when
  allocating the region object maps memory for the LibOS, or fails). When it succeeds, the
  returned range is page aligned, inside the requested bounds and was free, its pages now show
  the requested protection, flags, file offset and comment, and every other page is unchanged
  except that free pages may have become internal ones; an error changes nothing else.\<close>

theorem bkeep_mmap_any_in_range_correct:
  assumes "env_ok E" "vma_inv st" "top_addr < 2 ^ 64"
    and "bkeep_mmap_any_in_range E r len bottom top_addr st = (res, st')"
  shows "vma_inv st' \<and> (case res of
      Inl err \<Rightarrow> (err = - EINVAL \<or> err = - ENOMEM) \<and> extends st st'
    | Inr a \<Rightarrow> bottom \<le> a \<and> a + len \<le> top_addr \<and> IS_ALLOC_ALIGNED a \<and>
        (\<forall>x. if a \<le> x \<and> x < a + len
             then page_map (vma_tree st) x = None \<and> page_map (vma_tree st') x =
               Some (vma_page ((new_vma_of r)\<lparr>vma_begin := a, vma_end := a + len\<rparr>) x)
             else grown (page_map (vma_tree st) x) (page_map (vma_tree st') x)))"
  using full_alloc.in_range_post [OF assms(1-3) assms(4) [unfolded bkeep_mmap_any_in_range_def]]
  unfolding map_post_def mapped_def by (cases res) simp_all

definition demo_env :: pal_env where
  "demo_env = \<lparr>memory_address_start = 0x10000, memory_address_end = 0x40000,
     early_libos_mem_range_start = 0x10000, early_libos_mem_range_end = 0x20000,
     initial_mem_ranges = [\<lparr>rng_start = 0x30000, rng_end = 0x38000, rng_prot = 0,
       rng_user_reserved = True, rng_free = False, rng_comment = ''gem''\<rparr>],
     mem_total = 0x40000, disable_aslr = False, pal_virtual_memory_alloc = (\<lambda>a n. 0)\<rparr>"

definition demo_req :: map_req where
  "demo_req = \<lparr>req_prot = 3, req_flags = MAP_PRIVATE OR MAP_ANONYMOUS, req_file = None,
     req_offset = 0, req_comment = ''heap''\<rparr>"

lemma demo_env_ok: "env_ok demo_env"
  by (simp add: env_ok_def demo_env_def ranges_ok_def IS_ALLOC_ALIGNED_def ALLOC_ALIGNMENT_def)

theorem bkeep_mmap_any_in_range_correct_witness:
  "fst (bkeep_mmap_any_in_range demo_env demo_req 0x1000 0x10000 0x20000 demo_state) = Inr 0x1f000 \<and>
   page_map (vma_tree (snd (bkeep_mmap_any_in_range demo_env demo_req 0x1000 0x10000 0x20000
     demo_state))) 0x1f800 = Some (3, MAP_PRIVATE OR MAP_ANONYMOUS, None, ''heap'')"
proof -
  obtain res st' where r: "bkeep_mmap_any_in_range demo_env demo_req 0x1000 0x10000 0x20000 demo_state
      = (res, st')" by fastforce
  have "fst (bkeep_mmap_any_in_range demo_env demo_req 0x1000 0x10000 0x20000 demo_state) = Inr 0x1f000"
    by (simp add: bkeep_mmap_any_in_range_def bkeep_mmap_any_in_range_with_def any_bounds_def
        IS_ALLOC_ALIGNED_def ALLOC_ALIGNMENT_def alloc_vma_def get_from_thread_vma_cache_def
        any_search_def u_lookup_vma_def cmp_addr_to_vma_def lookup_prefix_def demo_req_def
        demo_defs vma_consts hold_file_def)
  moreover from this r have "res = Inr 0x1f000" by simp
  then have "page_map (vma_tree st') 0x1f800 =
      Some (vma_page ((new_vma_of demo_req)\<lparr>vma_begin := 0x1f000, vma_end := 0x20000\<rparr>) 0x1f800)"
    using bkeep_mmap_any_in_range_correct [OF demo_env_ok demo_inv _ r] by simp
  ultimately show ?thesis
    unfolding r by (simp add: vma_page_def new_vma_of_def zero_vma_def demo_req_def
        filter_saved_flags_def copy_comment_def vma_consts)
qed

text \<open>\<^verbatim>\<open>bkeep_mmap_any_aslr\<close> (and through it \<^verbatim>\<open>bkeep_mmap_any\<close>) never returns a range that
  meets an initial memory range reserved for a user, even when that range has been unmapped in
  part or is not bookkept at all; the returned range lies in the memory bounds and was free, and
  the invariant is kept.\<close>

theorem bkeep_mmap_any_aslr_avoids_reserved:
  assumes "env_ok E" "vma_inv st" "g_aslr_addr_top st \<le> memory_address_end E"
    and "bkeep_mmap_any_aslr E r len st = (res, st')"
  shows "vma_inv st' \<and> (case res of
      Inl err \<Rightarrow> extends st st'
    | Inr a \<Rightarrow> avoids_reserved (initial_mem_ranges E) a len \<and>
        memory_address_start E \<le> a \<and> a + len \<le> memory_address_end E \<and>
        (\<forall>x. mapped r len a st st' x))"
proof -
  have end64: "memory_address_end E < 2 ^ 64" "g_aslr_addr_top st < 2 ^ 64"
    using assms(1,3) by (auto simp: env_ok_def)
  obtain m st1 where m: "bkeep_mmap_any_excluding_user_reserved_with (alloc_vma E) E r len
      (memory_address_start E) (g_aslr_addr_top st) st = (m, st1)" by fastforce
  note first = full_alloc.excluding_reserved_post [OF assms(1,2) end64(2) m]
  show ?thesis
  proof (cases m)
    case (Inr a)
    with assms(4) m have "res = Inr a" "st' = st1"
      by (simp_all add: bkeep_mmap_any_aslr_def bkeep_mmap_any_excluding_user_reserved_def)
    with first Inr assms(3) show ?thesis by (auto simp: map_post_def)
  next
    case (Inl err)
    with first(1) have st1: "vma_inv st1" "extends st st1" by (auto simp: map_post_def)
    from Inl assms(4) m have again: "bkeep_mmap_any_excluding_user_reserved_with (alloc_vma E) E r len
        (memory_address_start E) (memory_address_end E) st1 = (res, st')"
      by (simp add: bkeep_mmap_any_aslr_def bkeep_mmap_any_def bkeep_mmap_any_excluding_user_reserved_def)
    note second = full_alloc.excluding_reserved_post [OF assms(1) st1(1) end64(1) again]
    from map_post_after [OF st1(2) second(1)] second(2) show ?thesis
      by (auto simp: map_post_def split: sum.splits)
  qed
qed

theorem bkeep_mmap_any_aslr_avoids_reserved_witness:
  "fst (bkeep_mmap_any_aslr demo_env demo_req 0x1000 demo_state) = Inr 0x2f000 \<and>
   avoids_reserved (initial_mem_ranges demo_env) 0x2f000 0x1000"
proof -
  obtain res st' where r: "bkeep_mmap_any_aslr demo_env demo_req 0x1000 demo_state = (res, st')"
    by fastforce
  have "fst (bkeep_mmap_any_aslr demo_env demo_req 0x1000 demo_state) = Inr 0x2f000"
    by (simp add: bkeep_mmap_any_aslr_def bkeep_mmap_any_excluding_user_reserved_def
        bkeep_mmap_any_excluding_user_reserved_with_def bkeep_mmap_any_in_range_with_def any_bounds_def
        IS_ALLOC_ALIGNED_def ALLOC_ALIGNMENT_def alloc_vma_def get_from_thread_vma_cache_def
        any_search_def u_lookup_vma_def cmp_addr_to_vma_def lookup_prefix_def demo_req_def
        demo_defs demo_env_def vma_consts hold_file_def)
  moreover from this r have "res = Inr 0x2f000" by simp
  moreover have "g_aslr_addr_top demo_state \<le> memory_address_end demo_env"
    by (simp add: demo_state_def demo_env_def)
  ultimately show ?thesis
    using bkeep_mmap_any_aslr_avoids_reserved [OF demo_env_ok demo_inv _ r] by simp
qed

end
