(* ===== verification/Vma_Map.thy ===== *)
theory Vma_Map
  imports Vma_Any
begin

text \<open>
  The bookkeeping operations behind \<^verbatim>\<open>munmap\<close> and \<^verbatim>\<open>mmap\<close> at a fixed address, third part of
  \<^verbatim>\<open>libos/src/bookkeep/libos_vma.c\<close>.
\<close>

section \<open>Unmapping\<close>

definition unmapped_vma :: "addr \<Rightarrow> addr \<Rightarrow> libos_vma" where
  "unmapped_vma b e = \<lparr>vma_begin = b, vma_end = e, vma_prot = PROT_NONE,
     vma_flags = VMA_INTERNAL OR VMA_UNMAPPED, vma_file = None, vma_offset = 0,
     vma_comment = copy_comment ''''\<rparr>"

definition u_add_unmapped_vma :: "addr \<Rightarrow> addr \<Rightarrow> vma_state \<Rightarrow> libos_vma \<times> vma_state" where
  "u_add_unmapped_vma b e st = (unmapped_vma b e, add_vma (unmapped_vma b e) st)"

text \<open>
  \<^verbatim>\<open>bkeep_munmap\<close> replaces the range by a temporary internal region, which it returns: no other
  thread can map the range before the memory itself is released.
\<close>

definition bkeep_munmap ::
  "pal_env \<Rightarrow> addr \<Rightarrow> nat \<Rightarrow> bool \<Rightarrow> vma_state \<Rightarrow> (int + libos_vma) \<times> vma_state" where
  "bkeep_munmap E a len is_internal st =
     (if len = 0 \<or> \<not> IS_ALLOC_ALIGNED len \<or> \<not> IS_ALLOC_ALIGNED a then (Inl (- EINVAL), st)
      else let (ok1, st) = alloc_vma E st
      in if \<not> ok1 then (Inl (- ENOMEM), st)
         else let (ok2, st) = alloc_vma E st;
                  (rm, st) = u_vma_bkeep_remove a (u64 (a + len)) is_internal ok2 st;
                  (res, st) = (if rm_ret rm \<ge> 0
                               then map_prod Inr id (u_add_unmapped_vma a (u64 (a + len)) st)
                               else (Inl (rm_ret rm), st));
                  st = free_vmas_freelist (rm_to_free rm) st;
                  st = (if rm_ret rm \<ge> 0 then st else free_vma zero_vma st);
                  st = (if ok2 \<and> \<not> rm_used_new rm then free_vma zero_vma st else st)
              in (res, st))"

definition bkeep_remove_tmp_vma :: "libos_vma \<Rightarrow> vma_state \<Rightarrow> vma_state" where
  "bkeep_remove_tmp_vma v st =
     free_vma v (total_memory_size_sub (vma_end v - vma_begin v)
       (st\<lparr>vma_tree := tree_delete v (vma_tree st)\<rparr>))"

definition bkeep_convert_tmp_vma_to_user :: "libos_vma \<Rightarrow> vma_state \<Rightarrow> vma_state" where
  "bkeep_convert_tmp_vma_to_user v st =
     st\<lparr>vma_tree := map (\<lambda>w. if w = v then w\<lparr>vma_flags := vma_flags w AND NOT VMA_INTERNAL\<rparr> else w)
          (vma_tree st)\<rparr>"

definition pal_mem_bkeep_free :: "pal_env \<Rightarrow> addr \<Rightarrow> nat \<Rightarrow> vma_state \<Rightarrow> int \<times> vma_state" where
  "pal_mem_bkeep_free E a len st =
     (case bkeep_munmap E a len True st of
        (Inl err, st) \<Rightarrow> (err, st)
      | (Inr tmp, st) \<Rightarrow> (0, bkeep_remove_tmp_vma tmp st))"

section \<open>Mapping at a fixed address\<close>

text \<open>The check for \<^verbatim>\<open>MAP_FIXED_NOREPLACE\<close>: it removes nothing.\<close>

definition noreplace_result :: "addr \<Rightarrow> addr \<Rightarrow> vma_state \<Rightarrow> remove_result" where
  "noreplace_result b e st =
     \<lparr>rm_ret = (case u_lookup_vma b (vma_tree st) of
        None \<Rightarrow> 0 | Some t \<Rightarrow> if vma_begin t < e then - EEXIST else 0),
      rm_used_new = False, rm_to_free = []\<rparr>"

definition bkeep_mmap_fixed ::
  "pal_env \<Rightarrow> map_req \<Rightarrow> addr \<Rightarrow> nat \<Rightarrow> vma_state \<Rightarrow> int \<times> vma_state" where
  "bkeep_mmap_fixed E r a len st =
     (if len = 0 \<or> \<not> IS_ALLOC_ALIGNED len \<or> \<not> IS_ALLOC_ALIGNED a then (- EINVAL, st)
      else let (ok1, st) = alloc_vma E st
      in if \<not> ok1 then (- ENOMEM, st)
         else let (ok2, st) = alloc_vma E st;
                  new_vma = (new_vma_of r)\<lparr>vma_begin := a, vma_end := u64 (a + len)\<rparr>;
                  st = hold_file (req_file r) st;
                  (rm, st) =
                    (if has_flag (req_flags r) MAP_FIXED_NOREPLACE
                     then (noreplace_result (vma_begin new_vma) (vma_end new_vma) st, st)
                     else u_vma_bkeep_remove (vma_begin new_vma) (vma_end new_vma)
                            (has_flag (req_flags r) VMA_INTERNAL) ok2 st);
                  st = (if rm_ret rm \<ge> 0 then add_vma new_vma st else st);
                  st = free_vmas_freelist (rm_to_free rm) st;
                  st = (if ok2 \<and> \<not> rm_used_new rm then free_vma zero_vma st else st);
                  st = (if rm_ret rm < 0 then free_vma new_vma st else st)
              in (rm_ret rm, st))"

section \<open>Correctness of unmapping and fixed mapping\<close>

lemma files_ok_nofile [simp]: "vma_file v = None \<Longrightarrow> files_ok (v # extra) st = files_ok extra st"
  by (simp add: files_ok_def maps_inode_def maps_handle_def)

lemma zero_vma_file [simp]: "vma_file zero_vma = None"
  by (simp add: zero_vma_def)

lemma free_zero_vma [simp]:
  "vma_inv (free_vma zero_vma st) = vma_inv st" "files_ok extra (free_vma zero_vma st) = files_ok extra st"
  by (simp_all add: vma_inv_def files_ok_def release_file_def)

lemma extends_free [simp]: "extends st' (free_vma v st) = extends st' st"
  by (simp add: extends_def)

lemma alloc_vma_ok: "env_ok E \<Longrightarrow> vma_inv st \<Longrightarrow> alloc_vma E st = (ok, st') \<Longrightarrow> vma_inv st' \<and> extends st st'"
  by (rule full_alloc.alloc_ok)

text \<open>
  The page view of an operation that replaces a range by one region: the range shows the new
  region, other pages are as after an allocation.
\<close>

definition replaced :: "libos_vma \<Rightarrow> vma_state \<Rightarrow> vma_state \<Rightarrow> bool" where
  "replaced v st st' \<longleftrightarrow>
     (\<forall>x. if is_addr_in_vma x v then page_map (vma_tree st') x = Some (vma_page v x)
          else grown (page_map (vma_tree st) x) (page_map (vma_tree st') x)) \<and>
     g_aslr_addr_top st' = g_aslr_addr_top st \<and>
     g_received_user_memory st' = g_received_user_memory st"

lemma replaced_after: "extends st st1 \<Longrightarrow> replaced v st1 st' \<Longrightarrow> replaced v st st'"
  unfolding replaced_def extends_def by (auto split: if_splits intro: grown_trans)

lemma replaced_outside:
  "replaced v st st' \<Longrightarrow> \<not> is_addr_in_vma x v \<Longrightarrow>
     grown (page_map (vma_tree st) x) (page_map (vma_tree st') x)"
  by (simp add: replaced_def)

lemma replaced_free [simp]: "replaced v st (free_vma w st') = replaced v st st'"
  by (simp add: replaced_def)

text \<open>Putting a region in the place of a range just removed.\<close>

lemma add_after_remove:
  assumes rm: "remove_post (vma_begin v) (vma_end v) st res st1" and ret: "rm_ret res = 0"
    and v: "vma_ok v" and inv: "files_ok [v] st"
  shows "vma_inv (free_vmas_freelist (rm_to_free res) (add_vma v st1))"
    and "replaced v st (free_vmas_freelist (rm_to_free res) (add_vma v st1))"
    and "v \<in> set (vma_tree (add_vma v st1))"
proof -
  have p: "mem_ok st1" "vma_free (vma_begin v) (vma_end v) (vma_tree st1)"
      "files_ok (rm_to_free res @ [v]) st1"
      "page_map (vma_tree st1) =
        (\<lambda>a. if vma_begin v \<le> a \<and> a < vma_end v then None else page_map (vma_tree st) a)"
      "g_aslr_addr_top st1 = g_aslr_addr_top st" "g_received_user_memory st1 = g_received_user_memory st"
    using rm ret inv by (simp_all add: remove_post_def vma_free_def)
  from p(3) have "files_ok (v # rm_to_free res) st1"
    by (rule files_ok_change) simp_all
  note add = add_vma_ok [OF p(1) v p(2) this]
  have "files_ok [] (free_vmas_freelist (rm_to_free res) (add_vma v st1))"
    by (rule files_ok_freelist) (simp add: add(2))
  with add(1) show "vma_inv (free_vmas_freelist (rm_to_free res) (add_vma v st1))"
    by (simp add: vma_inv_def)
  show "replaced v st (free_vmas_freelist (rm_to_free res) (add_vma v st1))"
    using add(3-5) p(4-6)
    by (auto simp: replaced_def map_add_def vma_pages_def is_addr_in_vma_def)
  show "v \<in> set (vma_tree (add_vma v st1))"
    by (simp add: add_vma_def total_memory_size_add_def tree_insert_def Let_def)
qed

lemma vma_ok_range:
  "IS_ALLOC_ALIGNED a \<Longrightarrow> IS_ALLOC_ALIGNED len \<Longrightarrow> 0 < len \<Longrightarrow> a + len < 2 ^ 64 \<Longrightarrow>
     copy_comment (vma_comment v) = vma_comment v \<Longrightarrow>
     vma_ok (v\<lparr>vma_begin := a, vma_end := a + len\<rparr>)"
  by (simp add: vma_ok_def aligned_add)

lemma unmapped_vma_ok:
  "IS_ALLOC_ALIGNED a \<Longrightarrow> IS_ALLOC_ALIGNED len \<Longrightarrow> 0 < len \<Longrightarrow> a + len < 2 ^ 64 \<Longrightarrow>
     vma_ok (unmapped_vma a (a + len))"
  by (simp add: vma_ok_def unmapped_vma_def aligned_add copy_comment_def)

lemma munmap_post:
  assumes E: "env_ok E" and inv: "vma_inv st" and range: "a + len < 2 ^ 64"
    and res: "bkeep_munmap E a len is_internal st = (res, st')"
  shows "vma_inv st' \<and> (case res of
      Inl err \<Rightarrow> extends st st' \<and> err < 0
    | Inr tmp \<Rightarrow> tmp = unmapped_vma a (a + len) \<and> tmp \<in> set (vma_tree st') \<and> replaced tmp st st')"
proof (cases "len = 0 \<or> \<not> IS_ALLOC_ALIGNED len \<or> \<not> IS_ALLOC_ALIGNED a")
  case True
  with res inv show ?thesis by (auto simp: bkeep_munmap_def)
next
  case args: False
  obtain ok1 st1 where a1: "alloc_vma E st = (ok1, st1)" by fastforce
  have st1: "vma_inv st1" "extends st st1" using alloc_vma_ok [OF E inv a1] by auto
  show ?thesis
  proof (cases ok1)
    case False
    with res args a1 st1 show ?thesis by (auto simp: bkeep_munmap_def)
  next
    case True
    obtain ok2 st2 where a2: "alloc_vma E st1 = (ok2, st2)" by fastforce
    have st2: "vma_inv st2" "extends st st2"
      using alloc_vma_ok [OF E st1(1) a2] extends_trans [OF st1(2)] by auto
    obtain rm st3 where rm: "u_vma_bkeep_remove a (u64 (a + len)) is_internal ok2 st2 = (rm, st3)"
      by fastforce
    have post: "remove_post a (a + len) st2 rm st3"
      using args range st2(1) by (intro remove_length_post [OF _ _ _ _ _ rm]) (auto simp: vma_inv_def)
    let ?tmp = "unmapped_vma a (a + len)"
    show ?thesis
    proof (cases "rm_ret rm = 0")
      case ret: True
      with res args a1 True a2 rm range have r: "res = Inr ?tmp"
          "st' = (if ok2 \<and> \<not> rm_used_new rm then free_vma zero_vma
             (free_vmas_freelist (rm_to_free rm) (add_vma ?tmp st3))
             else free_vmas_freelist (rm_to_free rm) (add_vma ?tmp st3))"
        by (auto simp: bkeep_munmap_def u_add_unmapped_vma_def Let_def)
      have tmp: "vma_begin ?tmp = a" "vma_end ?tmp = a + len" "vma_file ?tmp = None"
        by (simp_all add: unmapped_vma_def)
      have "remove_post (vma_begin ?tmp) (vma_end ?tmp) st2 rm st3" "vma_ok ?tmp" "files_ok [?tmp] st2"
        using post unmapped_vma_ok [of a len] args range st2(1) tmp by (simp_all add: vma_inv_def)
      note add = add_after_remove [OF this(1) ret this(2,3)]
      from r add(1,3) replaced_after [OF st2(2) add(2)] show ?thesis by simp
    next
      case False
      then have neg: "rm_ret rm < 0" and st3: "st3 = st2" "rm_to_free rm = []" "\<not> rm_used_new rm"
        using post by (auto simp: remove_post_def)
      with res args a1 True a2 rm have "res = Inl (rm_ret rm)"
          "st' = (if ok2 then free_vma zero_vma (free_vma zero_vma st2) else free_vma zero_vma st2)"
        by (auto simp: bkeep_munmap_def Let_def)
      with neg st2 show ?thesis by auto
    qed
  qed
qed

text \<open>The temporary region can be taken out again, or given to the user.\<close>

lemma remove_tmp_post:
  assumes inv: "vma_inv st" and v: "v \<in> set (vma_tree st)" "vma_file v = None"
  shows "vma_inv (bkeep_remove_tmp_vma v st)"
    and "page_map (vma_tree (bkeep_remove_tmp_vma v st)) =
      (\<lambda>x. if is_addr_in_vma x v then None else page_map (vma_tree st) x)"
proof -
  have ok: "vmas_ok (vma_tree st)" using inv by (simp add: vma_inv_def mem_ok_def)
  obtain xs ys where tree: "vma_tree st = xs @ v # ys" using v(1) by (meson split_list)
  have "v \<notin> set xs" using vmas_distinct [OF ok] unfolding tree by simp
  then have del: "tree_delete v (vma_tree st) = xs @ ys"
    unfolding tree_delete_def tree by (simp add: remove1_append)
  have files: "files_ok [] (st\<lparr>vma_tree := xs @ ys, g_total_memory_size := t\<rparr>)" for t
  proof (rule files_ok_change)
    show "files_ok [] st" using inv by (simp add: vma_inv_def)
  qed (use v(2) in \<open>simp_all add: tree maps_inode_def maps_handle_def\<close>)
  let ?st = "total_memory_size_sub (vma_end v - vma_begin v) (st\<lparr>vma_tree := xs @ ys\<rparr>)"
  have "mem_ok ?st"
    using inv unfolding vma_inv_def mem_ok_def total_memory_size_sub_def tree by simp
  moreover have "files_ok [] (free_vma v ?st)"
    using files v(2) by (intro files_ok_free_vma) (simp add: total_memory_size_sub_def)
  ultimately show "vma_inv (bkeep_remove_tmp_vma v st)"
    by (simp add: vma_inv_def bkeep_remove_tmp_vma_def del)
  show "page_map (vma_tree (bkeep_remove_tmp_vma v st)) =
      (\<lambda>x. if is_addr_in_vma x v then None else page_map (vma_tree st) x)"
  proof
    fix x
    have "page_map xs x = None" if "is_addr_in_vma x v"
      using ok that unfolding tree
      by (intro page_map_below [of xs "vma_begin v"]) (auto simp: is_addr_in_vma_def)
    moreover have "page_map ys x = None" if "is_addr_in_vma x v"
      using ok that unfolding tree
      by (intro page_map_above [of ys "vma_end v"]) (auto simp: is_addr_in_vma_def)
    ultimately show "page_map (vma_tree (bkeep_remove_tmp_vma v st)) x =
        (if is_addr_in_vma x v then None else page_map (vma_tree st) x)"
      unfolding bkeep_remove_tmp_vma_def del
      by (auto simp: total_memory_size_sub_def tree map_add_def vma_pages_def split: option.split)
  qed
qed

lemma noreplace_post:
  assumes "mem_ok st" "b < e"
  shows "if rm_ret (noreplace_result b e st) = 0
    then remove_post b e st (noreplace_result b e st) st \<and>
      (\<forall>x. b \<le> x \<and> x < e \<longrightarrow> page_map (vma_tree st) x = None)
    else rm_ret (noreplace_result b e st) < 0 \<and> rm_to_free (noreplace_result b e st) = []"
proof (cases "rm_ret (noreplace_result b e st) = 0")
  case True
  have ok: "vmas_ok (vma_tree st)" using assms(1) by (simp add: mem_ok_def)
  have suffix: "e \<le> vma_begin w" if "w \<in> set (lookup_suffix b (vma_tree st))" for w
  proof (cases "lookup_suffix b (vma_tree st)")
    case Nil
    with that show ?thesis by simp
  next
    case (Cons t ts)
    have "vmas_ok (t # ts)"
      using ok lookup_split [of b "vma_tree st"] Cons by (metis vmas_ok_append)
    moreover have "e \<le> vma_begin t"
      using True Cons by (auto simp: noreplace_result_def lookup_hd split: if_splits)
    ultimately show ?thesis
      using that Cons by (auto simp: vma_ok_def intro: order.trans less_imp_le)
  qed
  have free: "\<forall>w\<in>set (vma_tree st). vma_end w \<le> b \<or> e \<le> vma_begin w"
    using suffix lookup_prefix_end [of _ b "vma_tree st"] lookup_split [of b "vma_tree st"]
    by (metis Un_iff set_append)
  then have none: "page_map (vma_tree st) x = None" if "b \<le> x" "x < e" for x
    using that by (intro page_map_NoneI) (force simp: is_addr_in_vma_def)
  then have "page_map (vma_tree st) = (\<lambda>a. if b \<le> a \<and> a < e then None else page_map (vma_tree st) a)"
    by auto
  with True free none assms(1) show ?thesis
    by (auto simp: remove_post_def noreplace_result_def)
next
  case False
  then show ?thesis
    by (auto simp: noreplace_result_def split: option.splits if_splits)
qed

lemma fixed_post:
  assumes E: "env_ok E" and inv: "vma_inv st" and range: "a + len < 2 ^ 64"
    and res: "bkeep_mmap_fixed E r a len st = (ret, st')"
  shows "vma_inv st' \<and> ret \<le> 0 \<and>
    (if ret = 0 then replaced ((new_vma_of r)\<lparr>vma_begin := a, vma_end := a + len\<rparr>) st st' \<and>
       (has_flag (req_flags r) MAP_FIXED_NOREPLACE \<longrightarrow>
          (\<forall>x. a \<le> x \<and> x < a + len \<longrightarrow> page_map (vma_tree st) x = None))
     else extends st st')"
proof (cases "len = 0 \<or> \<not> IS_ALLOC_ALIGNED len \<or> \<not> IS_ALLOC_ALIGNED a")
  case True
  with res inv show ?thesis by (auto simp: bkeep_mmap_fixed_def)
next
  case args: False
  obtain ok1 st1 where a1: "alloc_vma E st = (ok1, st1)" by fastforce
  have st1: "vma_inv st1" "extends st st1" using alloc_vma_ok [OF E inv a1] by auto
  show ?thesis
  proof (cases ok1)
    case False
    with res args a1 st1 show ?thesis by (auto simp: bkeep_mmap_fixed_def)
  next
    case True
    obtain ok2 st2 where a2: "alloc_vma E st1 = (ok2, st2)" by fastforce
    have st2: "vma_inv st2" "extends st st2"
      using alloc_vma_ok [OF E st1(1) a2] extends_trans [OF st1(2)] by auto
    let ?v = "(new_vma_of r)\<lparr>vma_begin := a, vma_end := a + len\<rparr>"
    define st3 where "st3 = hold_file (req_file r) st2"
    have v: "vma_ok ?v" using args range by (intro vma_ok_range) auto
    have files: "files_ok [?v] st3"
      using files_ok_hold [of "[]" st2 ?v] st2(1) by (simp add: vma_inv_def st3_def)
    have st3: "mem_ok st3" "extends st st3"
      using st2 by (auto simp: st3_def vma_inv_def extends_def)
    obtain rm st4 where rm: "(if has_flag (req_flags r) MAP_FIXED_NOREPLACE
        then (noreplace_result a (a + len) st3, st3)
        else u_vma_bkeep_remove a (u64 (a + len)) (has_flag (req_flags r) VMA_INTERNAL) ok2 st3)
        = (rm, st4)" by fastforce
    have st': "ret = rm_ret rm" "st' =
        (let st = (if rm_ret rm \<ge> 0 then add_vma ?v st4 else st4);
             st = free_vmas_freelist (rm_to_free rm) st;
             st = (if ok2 \<and> \<not> rm_used_new rm then free_vma zero_vma st else st)
         in if rm_ret rm < 0 then free_vma ?v st else st)"
      using res args a1 True a2 rm range
      by (auto simp: bkeep_mmap_fixed_def st3_def Let_def split: if_splits)
    consider (ok) "rm_ret rm = 0" "remove_post a (a + len) st3 rm st4"
        "has_flag (req_flags r) MAP_FIXED_NOREPLACE \<Longrightarrow>
           \<forall>x. a \<le> x \<and> x < a + len \<longrightarrow> page_map (vma_tree st3) x = None"
      | (err) "rm_ret rm < 0" "st4 = st3" "rm_to_free rm = []"
    proof (cases "has_flag (req_flags r) MAP_FIXED_NOREPLACE")
      case True
      with rm have r: "rm = noreplace_result a (a + len) st3" "st4 = st3" by auto
      have "a < a + len" using args by simp
      note post = noreplace_post [OF st3(1) this, folded r(1)]
      show thesis
      proof (cases "rm_ret rm = 0")
        case True
        with post r(2) that(1) show thesis by simp
      next
        case False
        with post r(2) that(2) show thesis by simp
      qed
    next
      case False
      with rm have "remove_post a (a + len) st3 rm st4"
        using args range by (intro remove_length_post [OF st3(1)]) auto
      with that False show thesis by (cases "rm_ret rm = 0") (auto simp: remove_post_def)
    qed
    then show ?thesis
    proof cases
      case ok
      have p: "remove_post (vma_begin ?v) (vma_end ?v) st3 rm st4" using ok(2) by simp
      note add = add_after_remove [OF p ok(1) v files]
      have "page_map (vma_tree st) x = None"
        if "has_flag (req_flags r) MAP_FIXED_NOREPLACE" "a \<le> x" "x < a + len" for x
        using ok(3) that st3(2) by (auto simp: extends_def intro: grown_None)
      with add(1) replaced_after [OF st3(2) add(2)] ok(1) st' show ?thesis by (auto simp: Let_def)
    next
      case err
      let ?st = "if ok2 \<and> \<not> rm_used_new rm then free_vma zero_vma st3 else st3"
      have "files_ok [?v] ?st" using files by simp
      then have "files_ok [] (free_vma ?v ?st)" by (rule files_ok_free_vma)
      moreover have "st' = free_vma ?v ?st" using st' err by (simp add: Let_def)
      ultimately show ?thesis using err(1) st'(1) st3 by (auto simp: vma_inv_def)
    qed
  qed
qed

section \<open>Properties\<close>

text \<open>C27: unmapping a range with \<^verbatim>\<open>bkeep_munmap\<close> and then taking out the temporary region with
  \<^verbatim>\<open>bkeep_remove_tmp_vma\<close> keeps the bookkeeping invariant (total size, file mapping counts and
  references included). On success exactly the pages of the range are gone, and in between they
  are held by one internal region, so that no other thread can map them; every other page is as
  it was, except that free pages may have become internal ones. An error is negative and unmaps
  nothing.\<close>

theorem bkeep_munmap_correct:
  assumes "env_ok E" "vma_inv st" "a + len < 2 ^ 64"
    and "bkeep_munmap E a len is_internal st = (res, st')"
  shows "vma_inv st' \<and> (case res of
      Inl err \<Rightarrow> err < 0 \<and> extends st st'
    | Inr tmp \<Rightarrow> vma_inv (bkeep_remove_tmp_vma tmp st') \<and>
        (\<forall>x. if a \<le> x \<and> x < a + len
             then (\<exists>p. page_map (vma_tree st') x = Some p \<and> internal_page p) \<and>
               page_map (vma_tree (bkeep_remove_tmp_vma tmp st')) x = None
             else page_map (vma_tree (bkeep_remove_tmp_vma tmp st')) x = page_map (vma_tree st') x \<and>
               grown (page_map (vma_tree st) x) (page_map (vma_tree st') x)))"
proof (cases res)
  case (Inr tmp)
  with munmap_post [OF assms] have post: "vma_inv st'" "tmp = unmapped_vma a (a + len)"
      "tmp \<in> set (vma_tree st')" "replaced tmp st st'"
    by auto
  have tmp: "vma_file tmp = None" "is_addr_in_vma x tmp \<longleftrightarrow> a \<le> x \<and> x < a + len"
      "internal_page (vma_page tmp x)" for x
    unfolding post(2)
    by (simp_all add: unmapped_vma_def is_addr_in_vma_def internal_page_def vma_page_def vma_consts)
  show ?thesis
    using Inr post(1,4) tmp(3) remove_tmp_post [OF post(1,3) tmp(1)]
    by (auto simp: replaced_def tmp(2))
qed (use munmap_post [OF assms] in auto)

lemmas demo_eval = IS_ALLOC_ALIGNED_def ALLOC_ALIGNMENT_def alloc_vma_def get_from_thread_vma_cache_def
  lookup_prefix_def lookup_suffix_def cmp_addr_to_vma_def demo_defs vma_consts

theorem bkeep_munmap_correct_witness:
  "\<exists>tmp st'. bkeep_munmap demo_env 0x11000 0x1000 False demo_state = (Inr tmp, st') \<and>
     page_map (vma_tree (bkeep_remove_tmp_vma tmp st')) 0x11800 = None"
proof -
  obtain res st' where r: "bkeep_munmap demo_env 0x11000 0x1000 False demo_state = (res, st')"
    by fastforce
  have "\<exists>tmp. fst (bkeep_munmap demo_env 0x11000 0x1000 False demo_state) = Inr tmp"
    by (simp add: bkeep_munmap_def u_vma_bkeep_remove_def u_add_unmapped_vma_def demo_eval Let_def
        split_vma_def copy_vma_def check_internal.simps(2))
  then show ?thesis
    using bkeep_munmap_correct [OF demo_env_ok demo_inv _ r] r by auto
qed

text \<open>C28: \<^verbatim>\<open>bkeep_mmap_fixed\<close> keeps the invariant on every path. When it returns 0, the pages of the
  range show exactly the requested mapping and all others are unchanged (up to pages the LibOS
  took for its own region objects); with \<^verbatim>\<open>MAP_FIXED_NOREPLACE\<close> the range was free. Otherwise the
  result is a negative error and nothing was replaced.\<close>

theorem bkeep_mmap_fixed_correct:
  assumes "env_ok E" "vma_inv st" "a + len < 2 ^ 64"
    and "bkeep_mmap_fixed E r a len st = (ret, st')"
  shows "vma_inv st' \<and>
    (if ret = 0
     then (\<forall>x. if a \<le> x \<and> x < a + len
           then page_map (vma_tree st') x =
               Some (vma_page ((new_vma_of r)\<lparr>vma_begin := a, vma_end := a + len\<rparr>) x) \<and>
             (has_flag (req_flags r) MAP_FIXED_NOREPLACE \<longrightarrow> page_map (vma_tree st) x = None)
           else grown (page_map (vma_tree st) x) (page_map (vma_tree st') x))
     else ret < 0 \<and> extends st st')"
  using fixed_post [OF assms]
  by (auto simp: replaced_def is_addr_in_vma_def vma_page_def split: if_splits)

definition demo_fixed :: map_req where
  "demo_fixed = demo_req\<lparr>req_flags := MAP_PRIVATE OR MAP_ANONYMOUS OR MAP_FIXED_NOREPLACE\<rparr>"

lemma demo_fixed_maps: "fst (bkeep_mmap_fixed demo_env demo_fixed 0x15000 0x1000 demo_state) = 0"
  by (simp add: bkeep_mmap_fixed_def noreplace_result_def u_lookup_vma_def demo_fixed_def demo_req_def
      demo_eval Let_def hold_file_def)

theorem bkeep_mmap_fixed_correct_witness:
  "fst (bkeep_mmap_fixed demo_env demo_fixed 0x15000 0x1000 demo_state) = 0 \<and>
   page_map (vma_tree demo_state) 0x15800 = None \<and>
   page_map (vma_tree (snd (bkeep_mmap_fixed demo_env demo_fixed 0x15000 0x1000 demo_state))) 0x15800 =
     Some (3, MAP_PRIVATE OR MAP_ANONYMOUS, None, ''heap'')"
proof -
  obtain ret st' where r: "bkeep_mmap_fixed demo_env demo_fixed 0x15000 0x1000 demo_state = (ret, st')"
    by fastforce
  with demo_fixed_maps have "ret = 0" by simp
  moreover have "has_flag (req_flags demo_fixed) MAP_FIXED_NOREPLACE"
    by (simp add: demo_fixed_def vma_consts)
  ultimately show ?thesis
    using bkeep_mmap_fixed_correct [OF demo_env_ok demo_inv _ r]
    unfolding r
    by (simp add: vma_page_def new_vma_of_def zero_vma_def demo_fixed_def demo_req_def
        filter_saved_flags_def copy_comment_def vma_consts)
qed

text \<open>Mapping a free range with \<^verbatim>\<open>MAP_FIXED_NOREPLACE\<close> and unmapping it again gives back the
  page view from before, up to pages the LibOS took for its own region objects.\<close>

theorem mmap_fixed_munmap_roundtrip:
  assumes E: "env_ok E" and inv: "vma_inv st" and range: "a + len < 2 ^ 64"
    and noreplace: "has_flag (req_flags r) MAP_FIXED_NOREPLACE"
    and map: "bkeep_mmap_fixed E r a len st = (0, st1)"
    and unmap: "bkeep_munmap E a len is_internal st1 = (Inr tmp, st2)"
  shows "vma_inv (bkeep_remove_tmp_vma tmp st2) \<and>
    (\<forall>x. grown (page_map (vma_tree st) x) (page_map (vma_tree (bkeep_remove_tmp_vma tmp st2)) x))"
proof -
  have fixed: "vma_inv st1" "replaced ((new_vma_of r)\<lparr>vma_begin := a, vma_end := a + len\<rparr>) st st1"
      "\<And>x. a \<le> x \<Longrightarrow> x < a + len \<Longrightarrow> page_map (vma_tree st) x = None"
    using fixed_post [OF E inv range map] noreplace by auto
  have un: "vma_inv st2" "tmp = unmapped_vma a (a + len)" "tmp \<in> set (vma_tree st2)"
      "replaced tmp st1 st2"
    using munmap_post [OF E fixed(1) range unmap] by auto
  have tmp: "vma_file tmp = None" "is_addr_in_vma x tmp \<longleftrightarrow> a \<le> x \<and> x < a + len" for x
    unfolding un(2) by (simp_all add: unmapped_vma_def is_addr_in_vma_def)
  have "grown (page_map (vma_tree st) x) (page_map (vma_tree (bkeep_remove_tmp_vma tmp st2)) x)" for x
  proof (cases "a \<le> x \<and> x < a + len")
    case True
    with fixed(3) remove_tmp_post(2) [OF un(1,3) tmp(1)] tmp(2) show ?thesis by simp
  next
    case False
    then have "grown (page_map (vma_tree st) x) (page_map (vma_tree st1) x)"
        "grown (page_map (vma_tree st1) x) (page_map (vma_tree st2) x)"
      using replaced_outside [OF fixed(2), of x] replaced_outside [OF un(4), of x]
      by (simp_all add: tmp(2)) (simp add: is_addr_in_vma_def)
    with False remove_tmp_post(2) [OF un(1,3) tmp(1)] tmp(2) show ?thesis
      by (auto intro: grown_trans)
  qed
  with remove_tmp_post(1) [OF un(1,3) tmp(1)] show ?thesis by simp
qed

definition demo_roomy :: vma_state where
  "demo_roomy = demo_state\<lparr>vma_cache := 4\<rparr>"

lemma demo_roomy_inv: "vma_inv demo_roomy"
  using demo_inv by (simp add: demo_roomy_def)

lemma demo_fixed_unmaps:
  "bkeep_mmap_fixed demo_env demo_fixed 0x15000 0x1000 demo_roomy = (ret, st1) \<Longrightarrow>
   bkeep_munmap demo_env 0x15000 0x1000 False st1 = (res, st2) \<Longrightarrow> ret = 0 \<and> (\<exists>tmp. res = Inr tmp)"
  by (auto simp: demo_roomy_def bkeep_mmap_fixed_def noreplace_result_def u_lookup_vma_def demo_fixed_def
      demo_req_def demo_eval Let_def hold_file_def free_vma_def add_to_thread_vma_cache_def add_vma_def
      release_file_def zero_vma_def new_vma_of_def filter_saved_flags_def copy_comment_def tree_insert_def
      total_memory_size_add_def vma_tree_cmp_def bkeep_munmap_def u_vma_bkeep_remove_def
      u_add_unmapped_vma_def check_internal.simps(2) remove_loop.simps(2) split: prod.splits)

theorem mmap_fixed_munmap_roundtrip_witness:
  "\<exists>st1 tmp st2. bkeep_mmap_fixed demo_env demo_fixed 0x15000 0x1000 demo_roomy = (0, st1) \<and>
     bkeep_munmap demo_env 0x15000 0x1000 False st1 = (Inr tmp, st2) \<and>
     vma_inv (bkeep_remove_tmp_vma tmp st2)"
proof -
  obtain ret st1 where m: "bkeep_mmap_fixed demo_env demo_fixed 0x15000 0x1000 demo_roomy = (ret, st1)"
    by fastforce
  obtain res st2 where u: "bkeep_munmap demo_env 0x15000 0x1000 False st1 = (res, st2)"
    by fastforce
  obtain tmp where ok: "ret = 0" "res = Inr tmp"
    using demo_fixed_unmaps [OF m u] by auto
  have "has_flag (req_flags demo_fixed) MAP_FIXED_NOREPLACE"
    by (simp add: demo_fixed_def vma_consts)
  with mmap_fixed_munmap_roundtrip [OF demo_env_ok demo_roomy_inv _ _ m [unfolded ok] u [unfolded ok]]
  show ?thesis using m u ok by simp
qed

end
