(* ===== verification/Vma_Protect.thy ===== *)
theory Vma_Protect
  imports Vma_Map
begin

text \<open>
  The bookkeeping behind \<^verbatim>\<open>mprotect\<close>, fourth part of \<^verbatim>\<open>libos/src/bookkeep/libos_vma.c\<close>.
\<close>

section \<open>Changing the protection\<close>

definition is_file_prot_matching :: "libos_handle \<Rightarrow> flags \<Rightarrow> bool" where
  "is_file_prot_matching h prot \<longleftrightarrow> \<not> has_flag prot PROT_WRITE \<or> has_flag (hdl_flags h) O_RDWR"

definition vma_update_prot :: "libos_vma \<Rightarrow> flags \<Rightarrow> libos_vma" where
  "vma_update_prot v prot =
     v\<lparr>vma_prot := prot AND (PROT_NONE OR PROT_READ OR PROT_WRITE OR PROT_EXEC),
       vma_flags := (if vma_file v \<noteq> None \<and> has_flag prot PROT_WRITE
                     then vma_flags v OR VMA_TAINTED else vma_flags v)\<rparr>"

definition change_check_vma :: "flags \<Rightarrow> bool \<Rightarrow> libos_vma \<Rightarrow> int" where
  "change_check_vma prot is_internal v =
     (if has_flag (vma_flags v) VMA_INTERNAL \<noteq> is_internal then - EACCES
      else if has_flag prot PROT_GROWSDOWN \<and> \<not> has_flag (vma_flags v) MAP_GROWSDOWN then - EINVAL
      else case vma_file v of
             Some h \<Rightarrow> if has_flag (vma_flags v) MAP_SHARED \<and> \<not> is_file_prot_matching h prot
                       then - EACCES else 0
           | None \<Rightarrow> 0)"

text \<open>The checking loop of \<^verbatim>\<open>_vma_bkeep_change\<close> from a region on, with its successors.\<close>

fun change_check :: "addr \<Rightarrow> flags \<Rightarrow> bool \<Rightarrow> libos_vma \<Rightarrow> libos_vma list \<Rightarrow> bool \<Rightarrow> int" where
  "change_check e prot is_internal v [] is_continuous =
     (if change_check_vma prot is_internal v \<noteq> 0 then change_check_vma prot is_internal v
      else if e \<le> vma_end v then (if is_continuous then 0 else - ENOMEM)
      else - ENOMEM)"
| "change_check e prot is_internal v (w # ws) is_continuous =
     (if change_check_vma prot is_internal v \<noteq> 0 then change_check_vma prot is_internal v
      else if e \<le> vma_end v then (if is_continuous then 0 else - ENOMEM)
      else change_check e prot is_internal w ws (is_continuous \<and> vma_end v = vma_begin w))"

text \<open>
  The updating loop: the regions with their new protection, the region split off at the end
  (to be inserted), and the state with its references.
\<close>

fun change_loop ::
  "addr \<Rightarrow> flags \<Rightarrow> libos_vma list \<Rightarrow> vma_state \<Rightarrow> (libos_vma list \<times> libos_vma option) \<times> vma_state" where
  "change_loop e prot [] st = (([], None), st)"
| "change_loop e prot (v # vs) st =
     (if vma_end v \<le> e
      then (let ((rs, n), st) = change_loop e prot vs st in ((vma_update_prot v prot # rs, n), st))
      else if e \<le> vma_begin v then ((v # vs, None), st)
      else (let ((old, new_vma2), st) = split_vma v e st
            in ((vma_update_prot old prot # vs, Some new_vma2), st)))"

text \<open>
  Nodes of a suffix are updated in place: the tree with its last nodes in their new form. An
  inserted node (the one split off) comes on top.
\<close>

definition update_suffix :: "libos_vma list \<Rightarrow> libos_vma list \<Rightarrow> libos_vma list \<Rightarrow> libos_vma list" where
  "update_suffix ts vs rs = take (length ts - length vs) ts @ rs"

definition insert_opt :: "libos_vma option \<Rightarrow> libos_vma list \<Rightarrow> libos_vma list" where
  "insert_opt n ts = (case n of None \<Rightarrow> ts | Some v \<Rightarrow> tree_insert v ts)"

text \<open>
  The result is the return value and which of the two spare regions were used. After splitting the
  first region the code asserts that it has a successor and goes on there; without one the
  assertion fails (and a build without assertions dereferences a null pointer), which is the
  result \<^const>\<open>None\<close>.
\<close>

definition u_vma_bkeep_change ::
  "addr \<Rightarrow> addr \<Rightarrow> flags \<Rightarrow> bool \<Rightarrow> vma_state \<Rightarrow> ((int \<times> bool \<times> bool) \<times> vma_state) option" where
  "u_vma_bkeep_change b e prot is_internal st =
     (let pre = lookup_prefix b (vma_tree st)
      in case lookup_suffix b (vma_tree st) of
           [] \<Rightarrow> Some ((- ENOMEM, False, False), st)
         | v # vs \<Rightarrow>
             if b < vma_begin v then Some ((- ENOMEM, False, False), st)
             else let ret = change_check e prot is_internal v vs True
             in if ret \<noteq> 0 then Some ((ret, False, False), st)
             else if vma_begin v < b \<and> \<not> has_flag prot PROT_GROWSDOWN
             then (let ((v, new_vma1), st) = split_vma v b st;
                       new_vma1 = vma_update_prot new_vma1 prot;
                       ts = tree_insert new_vma1 (pre @ v # vs)
                   in if e < vma_end new_vma1
                      then (let ((old1, new_vma2), st) = split_vma new_vma1 e st;
                                new_vma2 = vma_update_prot new_vma2 (vma_prot v);
                                ts = map (\<lambda>w. if w = new_vma1 then old1 else w) ts
                            in Some ((0, True, True), st\<lparr>vma_tree := tree_insert new_vma2 ts\<rparr>))
                      else if vs = [] then None
                      else (let ((rs, n), st) = change_loop e prot vs st
                            in Some ((0, True, n \<noteq> None),
                                 st\<lparr>vma_tree := insert_opt n (update_suffix ts vs rs)\<rparr>)))
             else (let ((rs, n), st) = change_loop e prot (v # vs) st
                   in Some ((0, False, n \<noteq> None), st\<lparr>vma_tree := insert_opt n (pre @ rs)\<rparr>)))"

definition bkeep_mprotect ::
  "pal_env \<Rightarrow> addr \<Rightarrow> nat \<Rightarrow> flags \<Rightarrow> bool \<Rightarrow> vma_state \<Rightarrow> (int \<times> vma_state) option" where
  "bkeep_mprotect E a len prot is_internal st =
     (if len = 0 \<or> \<not> IS_ALLOC_ALIGNED len \<or> \<not> IS_ALLOC_ALIGNED a then Some (- EINVAL, st)
      else let (ok1, st) = alloc_vma E st
      in if \<not> ok1 then Some (- ENOMEM, st)
         else let (ok2, st) = alloc_vma E st
         in if \<not> ok2 then Some (- ENOMEM, free_vma zero_vma st)
            else case u_vma_bkeep_change a (u64 (a + len)) prot is_internal st of
                   None \<Rightarrow> None
                 | Some ((ret, used1, used2), st) \<Rightarrow>
                     let st = (if used1 then st else free_vma zero_vma st);
                         st = (if used2 then st else free_vma zero_vma st)
                     in Some (ret, st))"

section \<open>Correctness of protection changes\<close>

definition PROT_RWX :: flags where
  "PROT_RWX = PROT_NONE OR PROT_READ OR PROT_WRITE OR PROT_EXEC"

text \<open>What a page looks like after its protection was changed, and a page up to the taint bit.\<close>

definition protect_page :: "flags \<Rightarrow> page \<Rightarrow> page" where
  "protect_page prot p = (case p of (pr, fl, file, c) \<Rightarrow>
     (prot AND PROT_RWX,
      if file \<noteq> None \<and> has_flag prot PROT_WRITE then fl OR VMA_TAINTED else fl, file, c))"

definition page_core :: "page \<Rightarrow> page" where
  "page_core p = (case p of (pr, fl, file, c) \<Rightarrow> (pr AND PROT_RWX, fl AND NOT VMA_TAINTED, file, c))"

lemma update_prot_simps [simp]:
  "vma_begin (vma_update_prot v prot) = vma_begin v" "vma_end (vma_update_prot v prot) = vma_end v"
  "vma_file (vma_update_prot v prot) = vma_file v" "vma_offset (vma_update_prot v prot) = vma_offset v"
  "vma_comment (vma_update_prot v prot) = vma_comment v"
  "is_addr_in_vma a (vma_update_prot v prot) = is_addr_in_vma a v"
  "vma_ok (vma_update_prot v prot) = vma_ok v"
  "maps_inode i (vma_update_prot v prot) = maps_inode i v"
  "maps_handle h (vma_update_prot v prot) = maps_handle h v"
  by (simp_all add: vma_update_prot_def is_addr_in_vma_def vma_ok_def maps_inode_def maps_handle_def)

lemma vma_page_update_prot: "vma_page (vma_update_prot v prot) a = protect_page prot (vma_page v a)"
  by (simp add: vma_page_def vma_update_prot_def protect_page_def PROT_RWX_def)

lemma vma_pages_update_prot:
  "vma_pages (vma_update_prot v prot) a = map_option (protect_page prot) (vma_pages v a)"
  by (simp add: vma_pages_def vma_page_update_prot)

text \<open>The sequence that the updating loop and the insertion after it leave.\<close>

fun change_list :: "addr \<Rightarrow> flags \<Rightarrow> libos_vma list \<Rightarrow> libos_vma list" where
  "change_list e prot [] = []"
| "change_list e prot (v # vs) =
     (if vma_end v \<le> e then vma_update_prot v prot # change_list e prot vs
      else if e \<le> vma_begin v then v # vs
      else vma_update_prot (v\<lparr>vma_end := e\<rparr>) prot # move_begin e v # vs)"

lemma insert_change_loop:
  "vmas_ok (pre @ vs) \<Longrightarrow> change_loop e prot vs st = ((rs, n), st') \<Longrightarrow>
     insert_opt n (pre @ rs) = pre @ change_list e prot vs"
proof (induction vs arbitrary: pre rs)
  case (Cons v vs)
  consider "vma_end v \<le> e" | "e < vma_end v" "e \<le> vma_begin v" | "e < vma_end v" "vma_begin v < e"
    by linarith
  then show ?case
  proof cases
    case 1
    with Cons.prems obtain rs' where rs: "change_loop e prot vs st = ((rs', n), st')"
        "rs = vma_update_prot v prot # rs'"
      by (auto split: prod.splits)
    have "insert_opt n ((pre @ [vma_update_prot v prot]) @ rs') =
        (pre @ [vma_update_prot v prot]) @ change_list e prot vs"
      using Cons.prems(1) by (intro Cons.IH rs) auto
    with 1 rs show ?thesis by simp
  next
    case 2
    with Cons.prems show ?thesis by (auto simp: insert_opt_def)
  next
    case 3
    have v: "vma_ok v" using Cons.prems(1) by simp
    with 3 Cons.prems have rs: "rs = vma_update_prot (v\<lparr>vma_end := e\<rparr>) prot # vs" "n = Some (move_begin e v)"
      by (auto simp: split_vma_def copy_vma_def)
    have "tree_insert (move_begin e v) ((pre @ [vma_update_prot (v\<lparr>vma_end := e\<rparr>) prot]) @ vs) =
        (pre @ [vma_update_prot (v\<lparr>vma_end := e\<rparr>) prot]) @ move_begin e v # vs"
      using Cons.prems(1) 3 v
      by (intro tree_insert_between) (force simp: vma_ok_def dest: vmas_okD)+
    with 3 rs show ?thesis by (simp add: insert_opt_def)
  qed
qed (simp add: insert_opt_def)

lemma change_list_ok:
  "vmas_ok vs \<Longrightarrow> IS_ALLOC_ALIGNED e \<Longrightarrow>
     vmas_ok (change_list e prot vs) \<and> tree_size (change_list e prot vs) = tree_size vs \<and>
     (\<forall>w\<in>set (change_list e prot vs). \<exists>v\<in>set vs. vma_begin v \<le> vma_begin w)"
proof (induction vs)
  case (Cons v vs)
  show ?case
  proof (cases "vma_end v \<le> e")
    case True
    have "\<forall>w\<in>set (change_list e prot vs). vma_end v \<le> vma_begin w"
      using Cons by (auto intro: order.trans)
    with True Cons show ?thesis by auto
  next
    case False
    with Cons.prems show ?thesis
      by (auto simp: vma_ok_move_begin vma_ok_move_end)
  qed
qed simp

lemma change_list_pages:
  "vmas_ok vs \<Longrightarrow> page_map (change_list e prot vs) x =
     (if x < e then map_option (protect_page prot) (page_map vs x) else page_map vs x)"
proof (induction vs)
  case (Cons v vs)
  have above: "page_map vs x = None" if "x < vma_end v"
    using Cons.prems by (intro page_map_above [OF _ that]) auto
  show ?case
  proof (cases "vma_end v \<le> e")
    case True
    with Cons show ?thesis
      by (auto simp: map_add_def vma_pages_update_prot split: option.splits)
        (auto simp: vma_pages_def is_addr_in_vma_def split: if_splits)
  next
    case False
    with above Cons.prems show ?thesis
      by (auto simp: map_add_def vma_pages_update_prot vma_pages_move_begin vma_pages_move_end
          split: option.splits) (auto simp: vma_pages_def is_addr_in_vma_def split: if_splits)
  qed
qed simp

lemma change_loop_state:
  assumes "change_loop e prot vs st = ((rs, n), st')"
  shows "num_mmapped st' i + inode_count i vs = num_mmapped st i + inode_count i (change_list e prot vs)"
    and "hdl_refs st' h + handle_count h vs = hdl_refs st h + handle_count h (change_list e prot vs)"
    and "vma_tree st' = vma_tree st" "g_total_memory_size st' = g_total_memory_size st"
    and "g_peak_total_memory_size st' = g_peak_total_memory_size st"
    and "g_aslr_addr_top st' = g_aslr_addr_top st"
    and "g_received_user_memory st' = g_received_user_memory st"
proof -
  have "(num_mmapped st' i + inode_count i vs = num_mmapped st i + inode_count i (change_list e prot vs)) \<and>
    (hdl_refs st' h + handle_count h vs = hdl_refs st h + handle_count h (change_list e prot vs)) \<and>
    vma_tree st' = vma_tree st \<and> g_total_memory_size st' = g_total_memory_size st \<and>
    g_peak_total_memory_size st' = g_peak_total_memory_size st \<and>
    g_aslr_addr_top st' = g_aslr_addr_top st \<and>
    g_received_user_memory st' = g_received_user_memory st"
    using assms
  proof (induction vs arbitrary: rs)
    case (Cons v vs)
    show ?case
    proof (cases "vma_end v \<le> e")
      case True
      with Cons.prems obtain rs' where "change_loop e prot vs st = ((rs', n), st')"
        by (auto split: prod.splits)
      from Cons.IH [OF this] True show ?thesis by auto
    next
      case False
      with Cons.prems show ?thesis
        by (auto simp: split_vma_def copy_vma_def file_count_simps split: if_splits)
    qed
  qed simp
  then show "num_mmapped st' i + inode_count i vs = num_mmapped st i + inode_count i (change_list e prot vs)"
    and "hdl_refs st' h + handle_count h vs = hdl_refs st h + handle_count h (change_list e prot vs)"
    and "vma_tree st' = vma_tree st" "g_total_memory_size st' = g_total_memory_size st"
    and "g_peak_total_memory_size st' = g_peak_total_memory_size st"
    and "g_aslr_addr_top st' = g_aslr_addr_top st"
    and "g_received_user_memory st' = g_received_user_memory st"
    by auto
qed

definition covered :: "addr \<Rightarrow> addr \<Rightarrow> libos_vma list \<Rightarrow> bool" where
  "covered b e ts \<longleftrightarrow> (\<forall>x. b \<le> x \<and> x < e \<longrightarrow> page_map ts x \<noteq> None)"

lemma covered_iff: "covered b e ts \<longleftrightarrow> (\<forall>x. b \<le> x \<and> x < e \<longrightarrow> (\<exists>v\<in>set ts. is_addr_in_vma x v))"
  unfolding covered_def page_map_dom ..

lemma covered_one: "e \<le> vma_end v \<Longrightarrow> covered (vma_begin v) e (v # vs)"
  by (auto simp: covered_iff is_addr_in_vma_def)

lemma covered_step:
  assumes "vmas_ok (v # w # ws)" "vma_end v < e"
  shows "covered (vma_begin v) e (v # w # ws) \<longleftrightarrow>
    vma_end v = vma_begin w \<and> covered (vma_begin w) e (w # ws)"
proof
  assume cov: "covered (vma_begin v) e (v # w # ws)"
  have vw: "vma_begin v < vma_end v" "vma_end v \<le> vma_begin w"
      "\<And>u. u \<in> set ws \<Longrightarrow> vma_begin w \<le> vma_begin u"
    using assms(1) by (auto simp: vma_ok_def intro: order.trans [OF less_imp_le])
  obtain u where "u \<in> set (v # w # ws)" "is_addr_in_vma (vma_end v) u"
    using cov assms(2) vw(1) unfolding covered_iff by (meson less_imp_le)
  then have "vma_begin w \<le> vma_end v"
    using vw(1,2) vw(3) [of u] by (fastforce simp: is_addr_in_vma_def)
  moreover have "\<exists>u\<in>set (w # ws). is_addr_in_vma x u" if lo: "vma_begin w \<le> x" and hi: "x < e" for x
  proof -
    have "vma_begin v \<le> x" using vw(1,2) lo by linarith
    then obtain u where "u \<in> set (v # w # ws)" "is_addr_in_vma x u"
      using cov hi unfolding covered_iff by blast
    with vw(2) lo show ?thesis by (auto simp: is_addr_in_vma_def)
  qed
  ultimately show "vma_end v = vma_begin w \<and> covered (vma_begin w) e (w # ws)"
    using vw by (auto simp: covered_iff)
next
  assume "vma_end v = vma_begin w \<and> covered (vma_begin w) e (w # ws)"
  then show "covered (vma_begin v) e (v # w # ws)"
    unfolding covered_iff by (auto simp: is_addr_in_vma_def not_less)
qed

lemma change_check_discontinuous: "change_check e prot is_internal v vs False \<noteq> 0"
  by (induction vs arbitrary: v) auto

lemma change_check_iff:
  "vmas_ok (v # vs) \<Longrightarrow> vma_begin v < e \<Longrightarrow> change_check e prot is_internal v vs c = 0 \<longleftrightarrow>
     c \<and> covered (vma_begin v) e (v # vs) \<and>
     (\<forall>w\<in>set (v # vs). vma_begin w < e \<longrightarrow> change_check_vma prot is_internal w = 0)"
proof (induction vs arbitrary: v c)
  case Nil
  have "\<not> covered (vma_begin v) e [v]" if "vma_end v < e"
    using that Nil by (auto simp: covered_iff is_addr_in_vma_def vma_ok_def intro!: exI [of _ "vma_end v"])
  with Nil covered_one [of e v "[]"] show ?case by (auto simp: not_le)
next
  case (Cons w ws)
  show ?case
  proof (cases "e \<le> vma_end v")
    case True
    then have "\<forall>u\<in>set (w # ws). \<not> vma_begin u < e" using Cons.prems(1) by force
    with True Cons.prems covered_one [OF True, of "w # ws"] show ?thesis by auto
  next
    case False
    then have step: "covered (vma_begin v) e (v # w # ws) \<longleftrightarrow>
        vma_end v = vma_begin w \<and> covered (vma_begin w) e (w # ws)"
      using covered_step [OF Cons.prems(1), of e] by simp
    show ?thesis
    proof (cases "vma_end v = vma_begin w")
      case True
      with False have "vma_begin w < e" by simp
      with True False Cons.IH [of w c] Cons.prems step show ?thesis by auto
    next
      case gap: False
      with False step change_check_discontinuous [of e prot is_internal w ws] show ?thesis by auto
    qed
  qed
qed

text \<open>
  The result of a successful change: pages of the range have the new protection; the others keep
  theirs, where a region split behind the range may have become tainted. With \<^verbatim>\<open>PROT_GROWSDOWN\<close>
  the change starts at the start of the region that has the first address of the range.
\<close>

definition change_start :: "addr \<Rightarrow> flags \<Rightarrow> libos_vma list \<Rightarrow> addr \<Rightarrow> bool" where
  "change_start b prot ts lo \<longleftrightarrow>
     (if has_flag prot PROT_GROWSDOWN then \<exists>w\<in>set ts. is_addr_in_vma b w \<and> lo = vma_begin w else lo = b)"

definition page_change :: "addr \<Rightarrow> addr \<Rightarrow> flags \<Rightarrow> vma_state \<Rightarrow> vma_state \<Rightarrow> bool" where
  "page_change b e prot st st' \<longleftrightarrow>
     (\<exists>lo. change_start b prot (vma_tree st) lo \<and>
       (\<forall>x. if lo \<le> x \<and> x < e
            then page_map (vma_tree st') x = map_option (protect_page prot) (page_map (vma_tree st) x)
            else map_option page_core (page_map (vma_tree st') x) =
                 map_option page_core (page_map (vma_tree st) x)))"

definition change_post :: "addr \<Rightarrow> addr \<Rightarrow> flags \<Rightarrow> vma_state \<Rightarrow> vma_state \<Rightarrow> bool" where
  "change_post b e prot st st' \<longleftrightarrow> mem_ok st' \<and>
     (\<forall>extra. files_ok extra st \<longrightarrow> files_ok extra st') \<and>
     page_change b e prot st st' \<and>
     g_aslr_addr_top st' = g_aslr_addr_top st \<and>
     g_received_user_memory st' = g_received_user_memory st"

lemma change_postI:
  assumes st: "mem_ok st" and new: "vmas_ok (vma_tree st')"
      "tree_size (vma_tree st') = tree_size (vma_tree st)"
    and same: "g_total_memory_size st' = g_total_memory_size st"
      "g_peak_total_memory_size st' = g_peak_total_memory_size st"
      "g_aslr_addr_top st' = g_aslr_addr_top st"
      "g_received_user_memory st' = g_received_user_memory st"
    and files: "\<And>i. num_mmapped st' i + inode_count i (vma_tree st) =
        num_mmapped st i + inode_count i (vma_tree st')"
      "\<And>h. hdl_refs st' h + handle_count h (vma_tree st) = hdl_refs st h + handle_count h (vma_tree st')"
    and lo: "change_start b prot (vma_tree st) lo"
    and pages: "\<And>x. lo \<le> x \<Longrightarrow> x < e \<Longrightarrow>
        page_map (vma_tree st') x = map_option (protect_page prot) (page_map (vma_tree st) x)"
      "\<And>x. x < lo \<or> e \<le> x \<Longrightarrow> map_option page_core (page_map (vma_tree st') x) =
        map_option page_core (page_map (vma_tree st) x)"
  shows "change_post b e prot st st'"
  unfolding change_post_def page_change_def
proof (intro conjI exI [of _ lo] allI impI)
  show "mem_ok st'" using st new same(1,2) by (simp add: mem_ok_def)
  show "files_ok extra st'" if "files_ok extra st" for extra
    using that by (rule files_ok_change) (simp_all add: files)
  show "if lo \<le> x \<and> x < e
      then page_map (vma_tree st') x = map_option (protect_page prot) (page_map (vma_tree st) x)
      else map_option page_core (page_map (vma_tree st') x) = map_option page_core (page_map (vma_tree st) x)"
    for x using pages by (auto simp: not_le not_less)
qed (use lo same in auto)

text \<open>The change that starts at a region boundary (or below it, growing down).\<close>

lemma change_post_loop:
  assumes st: "mem_ok st" and tree: "vma_tree st = pre @ v # vs"
    and loop: "change_loop e prot (v # vs) st = ((rs, n), st1)" and e: "IS_ALLOC_ALIGNED e"
    and b: "vma_begin v \<le> b" "b < vma_end v" "\<not> has_flag prot PROT_GROWSDOWN \<Longrightarrow> vma_begin v = b"
  shows "change_post b e prot st (st1\<lparr>vma_tree := insert_opt n (pre @ rs)\<rparr>)"
proof -
  have ok: "vmas_ok (pre @ v # vs)" using st tree by (simp add: mem_ok_def)
  have ins: "insert_opt n (pre @ rs) = pre @ change_list e prot (v # vs)"
    by (rule insert_change_loop [OF ok loop])
  have cl: "vmas_ok (change_list e prot (v # vs))"
      "tree_size (change_list e prot (v # vs)) = tree_size (v # vs)"
      "\<forall>w\<in>set (change_list e prot (v # vs)). \<exists>u\<in>set (v # vs). vma_begin u \<le> vma_begin w"
    using change_list_ok [of "v # vs" e prot] ok e by auto
  have pages: "page_map (change_list e prot (v # vs)) x =
      (if x < e then map_option (protect_page prot) (page_map (v # vs) x) else page_map (v # vs) x)" for x
    using ok by (intro change_list_pages) auto
  have pre: "page_map pre x = None" if "vma_begin v \<le> x" for x
    using ok by (intro page_map_below [OF _ that]) auto
  have vs: "page_map (v # vs) x = None" if "x < vma_begin v" for x
    using ok that by (intro page_map_above [OF _ that])
      (auto simp: vma_ok_def intro: order.trans [OF less_imp_le])
  show ?thesis
  proof (rule change_postI [OF st, where lo = "vma_begin v"])
    show "change_start b prot (vma_tree st) (vma_begin v)"
      using b by (auto simp: change_start_def tree is_addr_in_vma_def)
    show "vmas_ok (vma_tree (st1\<lparr>vma_tree := insert_opt n (pre @ rs)\<rparr>))"
      using ok cl(1,3) unfolding ins by (fastforce intro: order.trans)
    show "page_map (vma_tree (st1\<lparr>vma_tree := insert_opt n (pre @ rs)\<rparr>)) x =
        map_option (protect_page prot) (page_map (vma_tree st) x)" if "vma_begin v \<le> x" "x < e" for x
      using that pages [of x] pre [of x] unfolding tree ins
      by (simp add: map_add_def del: change_list.simps page_map.simps)
    show "map_option page_core (page_map (vma_tree (st1\<lparr>vma_tree := insert_opt n (pre @ rs)\<rparr>)) x) =
        map_option page_core (page_map (vma_tree st) x)" if "x < vma_begin v \<or> e \<le> x" for x
      using that pages [of x] vs [of x] unfolding tree ins
      by (cases "x < vma_begin v") (auto simp: map_add_def simp del: change_list.simps page_map.simps
          split: option.splits)
  qed (use change_loop_state [OF loop] cl(2) b ins tree in
      \<open>simp_all del: change_list.simps inode_count_simps(2) handle_count_simps(2) tree_size_simps(2)\<close>)
qed

lemma or_and_not_self: "((x::flags) OR y) AND NOT y = x AND NOT y"
  by (rule bit_word_eqI) (auto simp: bit_simps)

lemma page_core_protect:
  "page_core (protect_page pr (protect_page prot p)) = page_core (protect_page pr p)"
  by (cases p) (simp add: page_core_def protect_page_def or_and_not_self)

lemma page_core_own_prot:
  "page_core (protect_page (vma_prot v) (vma_page v x)) = page_core (vma_page v x)"
  by (simp add: page_core_def protect_page_def vma_page_def or_and_not_self and.assoc)

text \<open>The first region is cut at the start of the range; the range ends inside it or behind it.\<close>

lemma change_cut_insert:
  assumes "vmas_ok (pre @ v # vs)" "vma_begin v < b" "b < vma_end v"
  shows "tree_insert (vma_update_prot (move_begin b v) prot) (pre @ v\<lparr>vma_end := b\<rparr> # vs) =
    (pre @ [v\<lparr>vma_end := b\<rparr>]) @ vma_update_prot (move_begin b v) prot # vs"
proof -
  have "tree_insert (vma_update_prot (move_begin b v) prot) ((pre @ [v\<lparr>vma_end := b\<rparr>]) @ vs) =
      (pre @ [v\<lparr>vma_end := b\<rparr>]) @ vma_update_prot (move_begin b v) prot # vs"
    using assms by (intro tree_insert_between) (force simp: vma_ok_def dest: vmas_okD)+
  then show ?thesis by simp
qed

lemma replace_absent: "x \<notin> set xs \<Longrightarrow> map (\<lambda>w. if w = x then y else w) xs = xs"
  by (induction xs) auto

lemma cut_node_absent:
  assumes "vmas_ok (pre @ v # vs)" "vma_begin v < b" "b < vma_end v"
    and "vma_begin n1 = b" "vma_end n1 = vma_end v"
  shows "n1 \<notin> set pre" "n1 \<notin> set vs" "n1 \<noteq> v\<lparr>vma_end := b\<rparr>"
proof -
  show "n1 \<notin> set pre"
  proof
    assume "n1 \<in> set pre"
    with assms(1) have "vma_end n1 \<le> vma_begin v" by auto
    with assms(2-) show False by simp
  qed
  show "n1 \<notin> set vs"
  proof
    assume "n1 \<in> set vs"
    with assms(1) have "vma_end v \<le> vma_begin n1" by auto
    with assms(2-) show False by simp
  qed
  show "n1 \<noteq> v\<lparr>vma_end := b\<rparr>"
  proof
    assume "n1 = v\<lparr>vma_end := b\<rparr>"
    then have "vma_begin n1 = vma_begin v" by simp
    with assms(2,4) show False by simp
  qed
qed

lemma change_post_inside:
  assumes st: "mem_ok st" and tree: "vma_tree st = pre @ v # vs"
    and range: "IS_ALLOC_ALIGNED b" "IS_ALLOC_ALIGNED e" "b < e" "vma_begin v < b" "e < vma_end v"
    and grow: "\<not> has_flag prot PROT_GROWSDOWN"
    and n1: "n1 = vma_update_prot (move_begin b v) prot"
    and n2: "n2 = vma_update_prot (move_begin e n1) (vma_prot v)"
    and ts: "ts = pre @ v\<lparr>vma_end := b\<rparr> # n1\<lparr>vma_end := e\<rparr> # n2 # vs"
  shows "tree_insert n2 (map (\<lambda>w. if w = n1 then n1\<lparr>vma_end := e\<rparr> else w)
        (tree_insert n1 (pre @ v\<lparr>vma_end := b\<rparr> # vs))) = ts"
    and "change_post b e prot st
      ((hold_file (vma_file v) (hold_file (vma_file v) st))\<lparr>vma_tree := ts\<rparr>)"
proof -
  have ok: "vmas_ok (pre @ v # vs)" using st tree by (simp add: mem_ok_def)
  have v: "vma_ok v" "vma_ok n1"
    using ok range by (auto simp: n1 intro: vma_ok_move_begin)
  have n1_simps: "vma_begin n1 = b" "vma_end n1 = vma_end v" "vma_file n1 = vma_file v"
      "\<And>i. maps_inode i n1 = maps_inode i v" "\<And>h. maps_handle h n1 = maps_handle h v"
    by (simp_all add: n1)
  note absent = cut_node_absent [OF ok range(4) _ n1_simps(1,2)]
  then have "map (\<lambda>w. if w = n1 then n1\<lparr>vma_end := e\<rparr> else w)
        ((pre @ [v\<lparr>vma_end := b\<rparr>]) @ n1 # vs) = (pre @ [v\<lparr>vma_end := b\<rparr>, n1\<lparr>vma_end := e\<rparr>]) @ vs"
    using range by (simp add: replace_absent)
  moreover have "tree_insert n2 ((pre @ [v\<lparr>vma_end := b\<rparr>, n1\<lparr>vma_end := e\<rparr>]) @ vs) =
      (pre @ [v\<lparr>vma_end := b\<rparr>, n1\<lparr>vma_end := e\<rparr>]) @ n2 # vs"
    using ok range v by (intro tree_insert_between) (force simp: n2 n1_simps vma_ok_def dest: vmas_okD)+
  ultimately show "tree_insert n2 (map (\<lambda>w. if w = n1 then n1\<lparr>vma_end := e\<rparr> else w)
      (tree_insert n1 (pre @ v\<lparr>vma_end := b\<rparr> # vs))) = ts"
    unfolding ts using change_cut_insert [OF ok range(4), of prot] range n1 by simp
  have pre: "page_map pre x = None" if "vma_begin v \<le> x" for x
    using ok by (intro page_map_below [OF _ that]) auto
  have vs: "page_map vs x = None" if "x < vma_end v" for x
    using ok by (intro page_map_above [OF _ that]) auto
  have p1: "vma_pages (n1\<lparr>vma_end := e\<rparr>) x =
      (if b \<le> x \<and> x < e then map_option (protect_page prot) (vma_pages v x) else None)" for x
    using range by (simp add: vma_pages_move_end n1 vma_pages_update_prot vma_pages_move_begin)
  have p2: "vma_pages n2 x = (if e \<le> x then map_option (\<lambda>p. protect_page (vma_prot v)
      (protect_page prot p)) (vma_pages v x) else None)" for x
    using range by (simp add: n2 n1 vma_pages_update_prot vma_pages_move_begin option.map_comp o_def)
  show "change_post b e prot st ((hold_file (vma_file v) (hold_file (vma_file v) st))\<lparr>vma_tree := ts\<rparr>)"
  proof (rule change_postI [OF st, where lo = b])
    show "vmas_ok (vma_tree ((hold_file (vma_file v) (hold_file (vma_file v) st))\<lparr>vma_tree := ts\<rparr>))"
      using ok range v by (auto simp: ts n2 n1_simps vma_ok_move_begin vma_ok_move_end)
    show "page_map (vma_tree ((hold_file (vma_file v) (hold_file (vma_file v) st))\<lparr>vma_tree := ts\<rparr>)) x =
        map_option (protect_page prot) (page_map (vma_tree st) x)" if "b \<le> x" "x < e" for x
      using that range pre [of x] vs [of x] unfolding tree ts
      by (simp add: map_add_def p1 p2 vma_pages_move_end split: option.split)
    show "map_option page_core (page_map (vma_tree ((hold_file (vma_file v) (hold_file (vma_file v) st))
        \<lparr>vma_tree := ts\<rparr>)) x) = map_option page_core (page_map (vma_tree st) x)"
      if "x < b \<or> e \<le> x" for x
    proof (cases "x < b")
      case True
      with range vs [of x] show ?thesis unfolding tree ts
        by (simp add: map_add_def p1 p2 vma_pages_move_end split: option.split)
    next
      case False
      with that have "map_option page_core (vma_pages n2 x) = map_option page_core (vma_pages v x)"
        by (simp add: p2 option.map_comp o_def page_core_protect)
          (simp add: vma_pages_def page_core_own_prot)
      with False that range pre [of x] show ?thesis unfolding tree ts
        by (cases "vma_pages n2 x"; cases "vma_pages v x") (simp_all add: map_add_def p1 vma_pages_move_end)
    qed
  qed (use range grow in \<open>simp_all add: tree ts n1_simps n2 file_count_simps change_start_def\<close>)
qed

lemma change_post_behind:
  assumes st: "mem_ok st" and tree: "vma_tree st = pre @ v # vs"
    and range: "IS_ALLOC_ALIGNED b" "IS_ALLOC_ALIGNED e" "vma_begin v < b" "b < vma_end v" "vma_end v \<le> e"
    and grow: "\<not> has_flag prot PROT_GROWSDOWN"
    and n1: "n1 = vma_update_prot (move_begin b v) prot"
    and ts: "ts = tree_insert n1 (pre @ v\<lparr>vma_end := b\<rparr> # vs)"
    and loop: "change_loop e prot vs (hold_file (vma_file v) st) = ((rs, n), st1)"
  shows "change_post b e prot st (st1\<lparr>vma_tree := insert_opt n (update_suffix ts vs rs)\<rparr>)"
proof -
  have ok: "vmas_ok (pre @ v # vs)" using st tree by (simp add: mem_ok_def)
  have n1_simps: "vma_begin n1 = b" "vma_end n1 = vma_end v" "vma_file n1 = vma_file v"
      "\<And>i. maps_inode i n1 = maps_inode i v" "\<And>h. maps_handle h n1 = maps_handle h v"
    by (simp_all add: n1)
  let ?pre = "pre @ [v\<lparr>vma_end := b\<rparr>, n1]"
  have ts': "ts = (pre @ [v\<lparr>vma_end := b\<rparr>]) @ n1 # vs"
    unfolding ts n1 by (rule change_cut_insert [OF ok range(3,4)])
  have nodes: "update_suffix ts vs rs = ?pre @ rs"
    unfolding ts' by (simp add: update_suffix_def)
  have pre_ok: "vmas_ok (?pre @ vs)"
    using ok range by (auto simp: n1 vma_ok_move_begin vma_ok_move_end)
  have ins: "insert_opt n (?pre @ rs) = ?pre @ change_list e prot vs"
    by (rule insert_change_loop [OF pre_ok loop])
  have cl: "vmas_ok (change_list e prot vs)" "tree_size (change_list e prot vs) = tree_size vs"
      "\<forall>w\<in>set (change_list e prot vs). \<exists>u\<in>set vs. vma_begin u \<le> vma_begin w"
    using change_list_ok [of vs e prot] ok range by auto
  have pages: "page_map (change_list e prot vs) x =
      (if x < e then map_option (protect_page prot) (page_map vs x) else page_map vs x)" for x
    using ok by (intro change_list_pages) auto
  have pre: "page_map pre x = None" if "vma_begin v \<le> x" for x
    using ok by (intro page_map_below [OF _ that]) auto
  have p1: "vma_pages n1 x = (if b \<le> x then map_option (protect_page prot) (vma_pages v x) else None)" for x
    using range by (simp add: n1 vma_pages_update_prot vma_pages_move_begin)
  have v_none: "vma_pages v x = None" if "vma_end v \<le> x" for x
    using that by (simp add: vma_pages_def is_addr_in_vma_def)
  have st1: "st1\<lparr>vma_tree := insert_opt n (update_suffix ts vs rs)\<rparr> =
      st1\<lparr>vma_tree := ?pre @ change_list e prot vs\<rparr>"
    by (simp only: nodes ins)
  show ?thesis
    unfolding st1
  proof (rule change_postI [OF st, where lo = b])
    show "vmas_ok (vma_tree (st1\<lparr>vma_tree := ?pre @ change_list e prot vs\<rparr>))"
      using pre_ok cl(1,3) by (fastforce intro: order.trans)
    show "page_map (vma_tree (st1\<lparr>vma_tree := ?pre @ change_list e prot vs\<rparr>)) x =
        map_option (protect_page prot) (page_map (vma_tree st) x)" if "b \<le> x" "x < e" for x
      using that range pre [of x] unfolding tree
      by (simp add: map_add_def p1 pages vma_pages_move_end split: option.split)
    show "map_option page_core (page_map (vma_tree (st1\<lparr>vma_tree := ?pre @ change_list e prot vs\<rparr>)) x) =
        map_option page_core (page_map (vma_tree st) x)" if "x < b \<or> e \<le> x" for x
    proof (cases "x < b")
      case True
      have "page_map vs x = None"
        using ok True range by (intro page_map_above [of vs "vma_end v"]) auto
      with True range show ?thesis unfolding tree
        by (simp add: map_add_def p1 pages vma_pages_move_end split: option.split)
    next
      case False
      with that range pre [of x] v_none [of x] show ?thesis unfolding tree
        by (simp add: map_add_def p1 pages vma_pages_move_end split: option.split)
    qed
  qed (use range grow cl(2) change_loop_state [OF loop] in
      \<open>simp_all add: tree n1_simps file_count_simps change_start_def\<close>)
qed

lemma covered_suffix:
  assumes ok: "vmas_ok (pre @ v # vs)" and pre: "\<forall>w\<in>set pre. vma_end w \<le> b"
    and v: "vma_begin v \<le> b" "b < vma_end v"
  shows "covered b e (pre @ v # vs) \<longleftrightarrow> covered (vma_begin v) e (v # vs)"
proof
  assume cov: "covered b e (pre @ v # vs)"
  show "covered (vma_begin v) e (v # vs)"
    unfolding covered_iff
  proof (intro allI impI)
    fix x assume x: "vma_begin v \<le> x \<and> x < e"
    show "\<exists>w\<in>set (v # vs). is_addr_in_vma x w"
    proof (cases "x < vma_end v")
      case True
      with x show ?thesis by (auto simp: is_addr_in_vma_def)
    next
      case False
      then have "b \<le> x" using v by simp
      then obtain w where "w \<in> set (pre @ v # vs)" "is_addr_in_vma x w"
        using cov x unfolding covered_iff by blast
      moreover have "w \<notin> set pre" using pre \<open>b \<le> x\<close> calculation by (auto simp: is_addr_in_vma_def)
      ultimately show ?thesis by auto
    qed
  qed
next
  assume "covered (vma_begin v) e (v # vs)"
  then show "covered b e (pre @ v # vs)"
    using v unfolding covered_iff by (auto intro: order.trans)
qed

lemma change_succeeds:
  assumes st: "mem_ok st" and range: "IS_ALLOC_ALIGNED b" "IS_ALLOC_ALIGNED e" "b < e"
    and tree: "vma_tree st = pre @ v # vs"
    and look: "lookup_prefix b (vma_tree st) = pre" "lookup_suffix b (vma_tree st) = v # vs"
    and v: "vma_begin v \<le> b" "b < vma_end v"
    and check: "change_check e prot is_internal v vs True = 0"
    and res: "u_vma_bkeep_change b e prot is_internal st = Some ((ret, u1, u2), st')"
  shows "ret = 0 \<and> change_post b e prot st st'"
proof -
  have ok: "vma_ok v" using st tree by (auto simp: mem_ok_def)
  consider (inside) "vma_begin v < b" "\<not> has_flag prot PROT_GROWSDOWN" "e < vma_end v"
    | (behind) "vma_begin v < b" "\<not> has_flag prot PROT_GROWSDOWN" "vma_end v \<le> e"
    | (whole) "\<not> (vma_begin v < b \<and> \<not> has_flag prot PROT_GROWSDOWN)"
    by linarith
  then show ?thesis
  proof cases
    case inside
    note post = change_post_inside [OF st tree range inside(1,3,2) refl refl refl]
    define n1 where "n1 = vma_update_prot (move_begin b v) prot"
    have "vma_ok n1"
      using ok v(2) range(1) by (simp add: n1_def vma_ok_move_begin)
    then have n1: "n1\<lparr>vma_comment := copy_comment (vma_comment v)\<rparr> = n1"
      using vma_comment_ok [of n1] by (simp add: n1_def)
    show ?thesis
      using res inside v check look ok n1 [unfolded n1_def] post
      by (auto simp: u_vma_bkeep_change_def split_vma_def copy_vma_def Let_def)
  next
    case behind
    define n1 where "n1 = vma_update_prot (move_begin b v) prot"
    define ts where "ts = tree_insert n1 (pre @ v\<lparr>vma_end := b\<rparr> # vs)"
    obtain rs n st1 where loop:
        "change_loop e prot vs (hold_file (vma_file v) st) = ((rs, n), st1)"
      by (metis prod.exhaust)
    have "\<not> e < vma_end n1" using behind by (simp add: n1_def)
    moreover have "vs \<noteq> []"
      using res behind v check look ok
      by (auto simp: u_vma_bkeep_change_def split_vma_def copy_vma_def Let_def)
    ultimately show ?thesis
      using res behind v check look ok loop
        change_post_behind [OF st tree range(1,2) behind(1) v(2) behind(3,2) n1_def ts_def loop]
      by (auto simp: u_vma_bkeep_change_def split_vma_def copy_vma_def Let_def n1_def ts_def)
  next
    case whole
    obtain rs n st1 where loop: "change_loop e prot (v # vs) st = ((rs, n), st1)"
      by (metis prod.exhaust)
    have "change_post b e prot st (st1\<lparr>vma_tree := insert_opt n (pre @ rs)\<rparr>)"
      using whole v(1) by (intro change_post_loop [OF st tree loop range(2) v]) auto
    then show ?thesis
      using res whole v check look loop
      by (auto simp: u_vma_bkeep_change_def Let_def simp del: change_loop.simps)
  qed
qed

text \<open>
  A protection change either succeeds, which it does exactly when the range has no hole and every
  region that meets it admits the change, or fails and changes nothing.
\<close>

lemma change_correct:
  assumes st: "mem_ok st" and range: "IS_ALLOC_ALIGNED b" "IS_ALLOC_ALIGNED e" "b < e"
    and res: "u_vma_bkeep_change b e prot is_internal st = Some ((ret, u1, u2), st')"
  shows "if covered b e (vma_tree st) \<and> (\<forall>w\<in>set (vma_tree st). b < vma_end w \<and> vma_begin w < e \<longrightarrow>
        change_check_vma prot is_internal w = 0)
    then ret = 0 \<and> change_post b e prot st st'
    else ret \<noteq> 0 \<and> st' = st \<and> \<not> u1 \<and> \<not> u2" (is "if ?C then _ else _")
proof -
  define pre where "pre = lookup_prefix b (vma_tree st)"
  have ok: "vmas_ok (vma_tree st)" using st by (simp add: mem_ok_def)
  have pre: "\<forall>w\<in>set pre. vma_end w \<le> b" by (auto simp: pre_def lookup_prefix_end)
  have not_pre: "\<not> is_addr_in_vma b w" if "w \<in> set pre" for w
    using pre that by (auto simp: is_addr_in_vma_def)
  show ?thesis
  proof (cases "lookup_suffix b (vma_tree st)")
    case Nil
    then have tree: "vma_tree st = pre" using lookup_split [of b "vma_tree st"] by (simp add: pre_def)
    then have "\<not> covered b e (vma_tree st)"
      using not_pre range(3) unfolding covered_iff by blast
    with Nil res show ?thesis by (auto simp: u_vma_bkeep_change_def)
  next
    case (Cons v vs)
    then have tree: "vma_tree st = pre @ v # vs"
      using lookup_split [of b "vma_tree st"] by (simp add: pre_def)
    then have ok': "vmas_ok (pre @ v # vs)" using ok by simp
    have v: "b < vma_end v" "vma_ok v" "vmas_ok (v # vs)"
      using lookup_suffix_end [OF ok, of v b] Cons ok' by auto
    show ?thesis
    proof (cases "b < vma_begin v")
      case True
      have "\<not> is_addr_in_vma b w" if "w \<in> set (v # vs)" for w
        using that True v(3) by (auto simp: is_addr_in_vma_def vma_ok_def)
      then have "\<not> covered b e (vma_tree st)"
        using not_pre range(3) unfolding covered_iff tree by force
      with True Cons res show ?thesis by (auto simp: u_vma_bkeep_change_def)
    next
      case False
      then have vb: "vma_begin v \<le> b" "vma_begin v < e" using range(3) by simp_all
      have vs: "b < vma_end w" if "w \<in> set (v # vs)" for w
        using lookup_suffix_end [OF ok, of w b] that Cons by simp
      have C: "?C \<longleftrightarrow> change_check e prot is_internal v vs True = 0"
        using change_check_iff [OF v(3) vb(2), of prot is_internal True]
          covered_suffix [OF ok' pre vb(1) v(1), of e] pre vs
        unfolding tree by auto
      show ?thesis
      proof (cases "change_check e prot is_internal v vs True = 0")
        case no: False
        with False Cons res C show ?thesis by (auto simp: u_vma_bkeep_change_def Let_def)
      next
        case yes: True
        have "ret = 0 \<and> change_post b e prot st st'"
          by (rule change_succeeds [OF st range tree _ _ vb(1) v(1) yes res])
            (simp_all add: Cons pre_def)
        with yes C show ?thesis by simp
      qed
    qed
  qed
qed

lemma change_check_le: "change_check e prot is_internal v vs c \<le> 0"
  by (induction vs arbitrary: v c) (auto simp: change_check_vma_def split: option.splits)

lemma change_ret_le:
  "u_vma_bkeep_change b e prot is_internal st = Some ((ret, u1, u2), st') \<Longrightarrow> ret \<le> 0"
  using change_check_le
  by (auto simp: u_vma_bkeep_change_def Let_def split: list.splits if_splits prod.splits)

section \<open>Properties\<close>

lemma lookup_last:
  assumes "vmas_ok (pre @ [v])" "vma_begin v < b" "b < vma_end v"
  shows "lookup_prefix b (pre @ [v]) = pre" "lookup_suffix b (pre @ [v]) = [v]"
proof -
  have "\<forall>w\<in>set pre. vma_end w \<le> b" using assms(1,2) by (auto intro: order.trans)
  with assms(3) show "lookup_prefix b (pre @ [v]) = pre" "lookup_suffix b (pre @ [v]) = [v]"
    by (auto simp: lookup_prefix_def lookup_suffix_def cmp_addr_to_vma_def takeWhile_append
        dropWhile_append not_less)
qed

text \<open>When the assertion fails.\<close>

lemma change_stuck:
  assumes inv: "vma_inv st" and range: "b < e"
  shows "u_vma_bkeep_change b e prot is_internal st = None \<longleftrightarrow>
    (\<exists>pre v. vma_tree st = pre @ [v] \<and> vma_begin v < b \<and> vma_end v = e \<and>
       \<not> has_flag prot PROT_GROWSDOWN \<and> change_check_vma prot is_internal v = 0)" (is "?N \<longleftrightarrow> ?L")
proof
  assume ?N
  then obtain v where v: "lookup_suffix b (vma_tree st) = [v]" "vma_begin v < b"
      "\<not> has_flag prot PROT_GROWSDOWN" "vma_end v \<le> e" "change_check e prot is_internal v [] True = 0"
    by (auto simp: u_vma_bkeep_change_def Let_def split_vma_def copy_vma_def simp del: change_check.simps
        split: list.splits if_splits prod.splits)
  then show ?L
    using lookup_split [of b "vma_tree st"]
    by (intro exI [of _ "lookup_prefix b (vma_tree st)"] exI [of _ v]) (auto split: if_splits)
next
  assume ?L
  then obtain pre v where v: "vma_tree st = pre @ [v]" "vma_begin v < b" "vma_end v = e"
      "\<not> has_flag prot PROT_GROWSDOWN" "change_check_vma prot is_internal v = 0"
    by blast
  have "vmas_ok (pre @ [v])" using inv v(1) by (simp add: vma_inv_def mem_ok_def)
  from lookup_last [OF this v(2)] v range show ?N
    by (auto simp: u_vma_bkeep_change_def Let_def split_vma_def copy_vma_def)
qed

text \<open>C29: \<^verbatim>\<open>_vma_bkeep_change\<close> on a non-empty aligned range. Its assertion that there is a next node fails
  exactly if the range starts inside the last region and stops at its end, without \<^verbatim>\<open>PROT_GROWSDOWN\<close> and with the
  checks passed (C36). In every other case it returns: 0 exactly when every address of the range is bookkept and every
  region that meets it admits the change (same internality, growing down only on such regions, and no write access to
  a shared file mapping opened read-only). Then the pages from the start of the change up to the end of the range get
  the new protection (and the taint mark on writable file pages), where the change starts with the range or, with
  \<^verbatim>\<open>PROT_GROWSDOWN\<close>, with the region that has its first address; all other pages keep protection, file and comment,
  and the invariant is kept. Otherwise the result is an error and the state is untouched.\<close>

theorem vma_bkeep_change_correct:
  assumes "vma_inv st" "IS_ALLOC_ALIGNED b" "IS_ALLOC_ALIGNED e" "b < e"
  shows "case u_vma_bkeep_change b e prot is_internal st of
      None \<Rightarrow> (\<exists>pre v. vma_tree st = pre @ [v] \<and> vma_begin v < b \<and> vma_end v = e \<and>
        \<not> has_flag prot PROT_GROWSDOWN \<and> change_check_vma prot is_internal v = 0)
    | Some ((ret, u1, u2), st') \<Rightarrow>
        \<not> (\<exists>pre v. vma_tree st = pre @ [v] \<and> vma_begin v < b \<and> vma_end v = e \<and>
          \<not> has_flag prot PROT_GROWSDOWN \<and> change_check_vma prot is_internal v = 0) \<and>
        (if (\<forall>x. b \<le> x \<and> x < e \<longrightarrow> (\<exists>w\<in>set (vma_tree st). is_addr_in_vma x w)) \<and>
            (\<forall>w\<in>set (vma_tree st). b < vma_end w \<and> vma_begin w < e \<longrightarrow> change_check_vma prot is_internal w = 0)
         then ret = 0 \<and> vma_inv st' \<and>
           (\<exists>lo. (if has_flag prot PROT_GROWSDOWN then \<exists>w\<in>set (vma_tree st). is_addr_in_vma b w \<and> lo = vma_begin w
                  else lo = b) \<and>
             (\<forall>x. if lo \<le> x \<and> x < e
                  then page_map (vma_tree st') x = map_option (protect_page prot) (page_map (vma_tree st) x)
                  else map_option page_core (page_map (vma_tree st') x) =
                       map_option page_core (page_map (vma_tree st) x)))
         else ret < 0 \<and> st' = st \<and> \<not> u1 \<and> \<not> u2)"
proof (cases "u_vma_bkeep_change b e prot is_internal st")
  case None
  then show ?thesis unfolding change_stuck [OF assms(1,4), symmetric] by simp
next
  case (Some r)
  obtain ret u1 u2 st' where r: "r = ((ret, u1, u2), st')" by (metis prod.exhaust)
  note run = Some [unfolded r]
  note post = change_correct [OF _ assms(2-4) run] change_ret_le [OF run]
  show ?thesis
    unfolding change_stuck [OF assms(1,4), symmetric] unfolding run option.case prod.case
    using post assms(1) unfolding covered_iff
    by (cases "ret = 0") (auto simp: vma_inv_def change_post_def page_change_def change_start_def
        simp del: not_all split: if_split_asm)
qed

theorem vma_bkeep_change_correct_witness:
  "\<exists>res st'. u_vma_bkeep_change 0x11000 0x12000 PROT_READ False demo_state = Some (res, st') \<and>
     page_map (vma_tree st') 0x11800 = Some (PROT_READ, MAP_SHARED, Some (demo_file, 0x3800), ''data'')"
proof -
  obtain ret u1 u2 st' where r:
      "u_vma_bkeep_change 0x11000 0x12000 PROT_READ False demo_state = Some ((ret, u1, u2), st')"
    by (auto simp: u_vma_bkeep_change_def change_check_vma_def is_file_prot_matching_def demo_eval
        Let_def split_vma_def copy_vma_def vma_update_prot_def)
  have "\<forall>x. 0x11000 \<le> x \<and> x < 0x12000 \<longrightarrow> (\<exists>w\<in>set (vma_tree demo_state). is_addr_in_vma x w)"
      "\<forall>w\<in>set (vma_tree demo_state). 0x11000 < vma_end w \<and> vma_begin w < 0x12000 \<longrightarrow>
        change_check_vma PROT_READ False w = 0"
      "\<not> has_flag PROT_READ PROT_GROWSDOWN"
    by (auto simp: is_addr_in_vma_def change_check_vma_def is_file_prot_matching_def demo_defs vma_consts)
  then have "page_map (vma_tree st') 0x11800 =
      map_option (protect_page PROT_READ) (page_map (vma_tree demo_state) 0x11800)"
    using vma_bkeep_change_correct [OF demo_inv, of "0x11000" "0x12000" PROT_READ False] unfolding r
    by (simp add: IS_ALLOC_ALIGNED_def ALLOC_ALIGNMENT_def)
  then show ?thesis
    unfolding r by (simp add: demo_defs vma_pages_def vma_page_def is_addr_in_vma_def map_add_def
        protect_page_def PROT_RWX_def vma_consts)
qed

text \<open>C36: the protection change returns except in one situation: the range starts inside the last
  region of the tree and stops exactly at its end, \<^verbatim>\<open>PROT_GROWSDOWN\<close> is not set and the region
  passes the checks. The comment there says that the checks ensure
  a next node; in this situation they pass and there is none, so the assertion fails.\<close>

theorem vma_bkeep_change_stuck:
  assumes "vma_inv st" "b < e"
  shows "u_vma_bkeep_change b e prot is_internal st = None \<longleftrightarrow>
    (\<exists>pre v. vma_tree st = pre @ [v] \<and> vma_begin v < b \<and> vma_end v = e \<and>
       \<not> has_flag prot PROT_GROWSDOWN \<and> change_check_vma prot is_internal v = 0)"
  using assms by (rule change_stuck)

theorem vma_bkeep_change_stuck_witness:
  "u_vma_bkeep_change 0x12000 0x14000 PROT_READ False (demo_state\<lparr>vma_tree := [demo_vma],
     g_total_memory_size := 0x4000\<rparr>) = None"
proof -
  have "vma_inv (demo_state\<lparr>vma_tree := [demo_vma], g_total_memory_size := 0x4000\<rparr>)"
    using demo_vmas_ok
    by (simp add: vma_inv_def mem_ok_def files_ok_def demo_state_def)
      (simp add: demo_defs maps_inode_def maps_handle_def)
  from vma_bkeep_change_stuck [OF this, of "0x12000" "0x14000" PROT_READ False] show ?thesis
    by (simp add: change_check_vma_def is_file_prot_matching_def demo_defs vma_consts)
qed

text \<open>\<^verbatim>\<open>bkeep_mprotect\<close> keeps the invariant on every path, including the frees of the spare
  region objects. When it returns 0, every page of the range was bookkept after the allocations
  and now has the new protection, and no other page changed protection, file or comment. When it
  returns an error, no protection changed.\<close>

theorem bkeep_mprotect_correct:
  assumes E: "env_ok E" and inv: "vma_inv st" and range: "a + len < 2 ^ 64"
    and res: "bkeep_mprotect E a len prot is_internal st = Some (ret, st')"
  shows "vma_inv st' \<and>
    (if ret = 0
     then \<exists>st1. extends st st1 \<and> page_change a (a + len) prot st1 st' \<and>
       (\<forall>x. a \<le> x \<and> x < a + len \<longrightarrow> page_map (vma_tree st1) x \<noteq> None)
     else ret < 0 \<and> extends st st')"
proof (cases "len = 0 \<or> \<not> IS_ALLOC_ALIGNED len \<or> \<not> IS_ALLOC_ALIGNED a")
  case True
  with res inv show ?thesis by (auto simp: bkeep_mprotect_def)
next
  case args: False
  obtain ok1 st1 where a1: "alloc_vma E st = (ok1, st1)" by fastforce
  have st1: "vma_inv st1" "extends st st1" using alloc_vma_ok [OF E inv a1] by auto
  obtain ok2 st2 where a2: "alloc_vma E st1 = (ok2, st2)" by fastforce
  have st2: "vma_inv st2" "extends st st2"
    using alloc_vma_ok [OF E st1(1) a2] st1(2) by (auto intro: extends_trans)
  show ?thesis
  proof (cases "ok1 \<and> ok2")
    case False
    with res args a1 a2 st1 st2 show ?thesis by (auto simp: bkeep_mprotect_def split: if_splits)
  next
    case True
    obtain r u1 u2 st3 where c:
        "u_vma_bkeep_change a (a + len) prot is_internal st2 = Some ((r, u1, u2), st3)"
      using res args a1 a2 True range by (auto simp: bkeep_mprotect_def split: option.splits)
    have post: "if r = 0 then change_post a (a + len) prot st2 st3 \<and> covered a (a + len) (vma_tree st2)
        else r < 0 \<and> st3 = st2"
      using change_correct [OF _ _ _ _ c] change_ret_le [OF c] st2(1) args
      by (auto simp: vma_inv_def aligned_add split: if_splits)
    have st': "ret = r" "st' = (if u2 then id else free_vma zero_vma)
        ((if u1 then id else free_vma zero_vma) st3)"
      using res args a1 a2 True c range by (auto simp: bkeep_mprotect_def Let_def)
    show ?thesis
    proof (cases "r = 0")
      case True
      with post st2(1) have "vma_inv st3" by (simp add: change_post_def vma_inv_def)
      with True post st2(2) show ?thesis
        unfolding st' change_post_def
        by (auto intro!: exI [of _ st2] simp: covered_def page_change_def)
    next
      case False
      with post st2 show ?thesis unfolding st' by auto
    qed
  qed
qed

theorem bkeep_mprotect_correct_witness:
  "\<exists>st'. bkeep_mprotect demo_env 0x11000 0x1000 PROT_READ False demo_state = Some (0, st') \<and>
     vma_inv st' \<and> (\<exists>st1. extends demo_state st1 \<and> page_change 0x11000 0x12000 PROT_READ st1 st')"
proof -
  obtain st' where r: "bkeep_mprotect demo_env 0x11000 0x1000 PROT_READ False demo_state = Some (0, st')"
    by (auto simp: bkeep_mprotect_def u_vma_bkeep_change_def change_check_vma_def
        is_file_prot_matching_def demo_eval Let_def split_vma_def copy_vma_def vma_update_prot_def)
  from bkeep_mprotect_correct [OF demo_env_ok demo_inv _ r] show ?thesis
    unfolding r by auto
qed

end
