(* ===== verification/Sg_Listener.thy ===== *)
theory Sg_Listener
  imports Prelude
begin

text \<open>
  The host side of the redirection: the communication page and the request dispatch of the
  listener thread, \<^verbatim>\<open>qemu/include/qemu/sg.h\<close> and \<^verbatim>\<open>qemu/util/sg-listener.c\<close>.

  System calls, the X connection and the guest memory they reach through identity-mapped pointers
  are the parameter \<open>H\<close>: a record of functions on an unspecified host state. C integers keep
  their width (\<^verbatim>\<open>int\<close> is \<open>32 word\<close>, \<^verbatim>\<open>uint64_t\<close> is \<open>64 word\<close>), so that truncations and sign
  extensions are those of the code. A failing \<^verbatim>\<open>assert\<close> ends the process: result \<open>None\<close>.
\<close>

section \<open>The communication page\<close>

type_synonym u64w = "64 word"
type_synonym cint = "32 word"

record comm_page =
  c_magic :: u64w
  c_req_bit :: u64w
  c_ret :: u64w
  c_p1 :: u64w
  c_p2 :: u64w
  c_p3 :: u64w
  c_p4 :: u64w
  c_p5 :: u64w

definition COMM_MAGIC :: u64w where "COMM_MAGIC = 0x1234567812345678"
definition fs_offset :: u64w where "fs_offset = 500"

definition GEM_ALLOCATION :: u64w where "GEM_ALLOCATION = 3"
definition FSTAT :: u64w where "FSTAT = 4"
definition IOCTL :: u64w where "IOCTL = 5"
definition OPEN :: u64w where "OPEN = 6"
definition FCNTL :: u64w where "FCNTL = 7"
definition READLINK :: u64w where "READLINK = 8"
definition NEWFSTAT :: u64w where "NEWFSTAT = 9"
definition GETDENT :: u64w where "GETDENT = 10"
definition DUP :: u64w where "DUP = 11"
definition X11_SETUP :: u64w where "X11_SETUP = 12"
definition X11_PRESENT :: u64w where "X11_PRESENT = 13"
definition CLOSE :: u64w where "CLOSE = 14"
definition SYSCALL_LOGGING_ENABLE :: u64w where "SYSCALL_LOGGING_ENABLE = 15"
definition SYSCALL_LOGGING_DISABLE :: u64w where "SYSCALL_LOGGING_DISABLE = 16"
definition LSEEK :: u64w where "LSEEK = 22"
definition UPDATE_WINDOW_SIZE :: u64w where "UPDATE_WINDOW_SIZE = 23"
definition READ :: u64w where "READ = 24"
definition WRITE :: u64w where "WRITE = 25"
definition DUP_IDENTITY :: u64w where "DUP_IDENTITY = 30"
definition X11_IDLE_FENCE_BUFFER :: u64w where "X11_IDLE_FENCE_BUFFER = 33"
definition SYSV_SEMGET :: u64w where "SYSV_SEMGET = 34"
definition SYSV_SEMCTL :: u64w where "SYSV_SEMCTL = 35"
definition SYSV_SEMOP :: u64w where "SYSV_SEMOP = 36"
definition HOST_FLOCK :: u64w where "HOST_FLOCK = 37"
definition HOST_FTRUNCATE :: u64w where "HOST_FTRUNCATE = 38"
definition UPDATE_INPUT_MASK :: u64w where "UPDATE_INPUT_MASK = 39"

lemmas request_defs = GEM_ALLOCATION_def FSTAT_def IOCTL_def OPEN_def FCNTL_def READLINK_def
  NEWFSTAT_def GETDENT_def DUP_def X11_SETUP_def X11_PRESENT_def CLOSE_def
  SYSCALL_LOGGING_ENABLE_def SYSCALL_LOGGING_DISABLE_def LSEEK_def UPDATE_WINDOW_SIZE_def READ_def
  WRITE_def DUP_IDENTITY_def X11_IDLE_FENCE_BUFFER_def SYSV_SEMGET_def SYSV_SEMCTL_def SYSV_SEMOP_def
  HOST_FLOCK_def HOST_FTRUNCATE_def UPDATE_INPUT_MASK_def

section \<open>Host operations\<close>

text \<open>The calls of the listener, each with the host state it may read and change.\<close>

record 'h host_ops =
  h_errno :: "'h \<Rightarrow> cint"
  h_munmap :: "u64w \<Rightarrow> u64w \<Rightarrow> 'h \<Rightarrow> cint \<times> 'h"
  h_mmap :: "u64w \<Rightarrow> u64w \<Rightarrow> cint \<Rightarrow> cint \<Rightarrow> cint \<Rightarrow> u64w \<Rightarrow> 'h \<Rightarrow> u64w \<times> 'h"
  h_fstat :: "cint \<Rightarrow> u64w \<Rightarrow> 'h \<Rightarrow> cint \<times> 'h"
  h_ioctl :: "cint \<Rightarrow> u64w \<Rightarrow> u64w \<Rightarrow> 'h \<Rightarrow> cint \<times> 'h"
  h_open :: "u64w \<Rightarrow> cint \<Rightarrow> cint \<Rightarrow> 'h \<Rightarrow> cint \<times> 'h"
  h_fcntl :: "cint \<Rightarrow> cint \<Rightarrow> u64w \<Rightarrow> 'h \<Rightarrow> cint \<times> 'h"
  h_flock :: "cint \<Rightarrow> cint \<Rightarrow> 'h \<Rightarrow> cint \<times> 'h"
  h_ftruncate :: "cint \<Rightarrow> u64w \<Rightarrow> 'h \<Rightarrow> cint \<times> 'h"
  h_lseek :: "cint \<Rightarrow> u64w \<Rightarrow> cint \<Rightarrow> 'h \<Rightarrow> u64w \<times> 'h"
  h_readlink :: "u64w \<Rightarrow> u64w \<Rightarrow> u64w \<Rightarrow> 'h \<Rightarrow> u64w \<times> 'h"
  h_fstatat :: "cint \<Rightarrow> u64w \<Rightarrow> u64w \<Rightarrow> cint \<Rightarrow> 'h \<Rightarrow> cint \<times> 'h"
  h_getdents64 :: "u64w \<Rightarrow> u64w \<Rightarrow> u64w \<Rightarrow> 'h \<Rightarrow> u64w \<times> 'h"
  h_dup :: "cint \<Rightarrow> 'h \<Rightarrow> cint \<times> 'h"
  h_close :: "cint \<Rightarrow> 'h \<Rightarrow> cint \<times> 'h"
  h_read :: "cint \<Rightarrow> u64w \<Rightarrow> u64w \<Rightarrow> 'h \<Rightarrow> u64w \<times> 'h"
  h_write :: "cint \<Rightarrow> u64w \<Rightarrow> u64w \<Rightarrow> 'h \<Rightarrow> u64w \<times> 'h"
  h_semget :: "cint \<Rightarrow> cint \<Rightarrow> cint \<Rightarrow> 'h \<Rightarrow> cint \<times> 'h"
  h_semctl :: "cint \<Rightarrow> cint \<Rightarrow> cint \<Rightarrow> u64w \<Rightarrow> 'h \<Rightarrow> cint \<times> 'h"
  h_semop :: "cint \<Rightarrow> 16 word \<Rightarrow> 16 word \<Rightarrow> 16 word \<Rightarrow> 'h \<Rightarrow> cint \<times> 'h"
  h_create_pixmap_from_kbuf :: "u64w \<Rightarrow> cint \<Rightarrow> cint \<Rightarrow> cint \<Rightarrow> 'h \<Rightarrow> 'h"
  h_create_xcb_fence :: "u64w \<Rightarrow> cint \<Rightarrow> 'h \<Rightarrow> 'h"
  h_xcb_present :: "u64w \<Rightarrow> cint \<Rightarrow> 'h \<Rightarrow> 'h"
  h_query_idle_fence_buffer :: "u64w \<Rightarrow> cint \<Rightarrow> 'h \<Rightarrow> cint \<times> 'h"
  h_set_presentation_window :: "cint \<Rightarrow> 'h \<Rightarrow> 'h"
  h_update_window :: "cint \<Rightarrow> cint \<Rightarrow> 'h \<Rightarrow> 'h"
  h_set_shared_input_mask :: "cint \<Rightarrow> cint \<Rightarrow> 'h \<Rightarrow> 'h"

record gem_slots =
  host_address :: u64w
  guest_address :: u64w

record 'h listener =
  comm :: comm_page
  gem_slots :: gem_slots
  gem_hugepage_slots :: gem_slots
  data_region_actual_address :: u64w
  hugepage_host_addr :: u64w
  syscall_logging_enabled :: bool
  mmap_freq :: u64w
  frame_count :: u64w
  win_width :: cint
  win_height :: cint
  host :: 'h

section \<open>Request handlers\<close>

text \<open>Conversions of the code: a 64-bit argument read as \<^verbatim>\<open>int\<close>, and a guest descriptor.\<close>

definition int_arg :: "u64w \<Rightarrow> cint" where
  "int_arg p = ucast p"

definition fd_arg :: "u64w \<Rightarrow> cint" where
  "fd_arg p = ucast (p - fs_offset)"

definition int_ret :: "cint \<Rightarrow> u64w" where
  "int_ret r = scast r"

definition complete_request :: "'h listener \<Rightarrow> 'h listener" where
  "complete_request s = s\<lparr>comm := (comm s)\<lparr>c_req_bit := 0\<rparr>\<rparr>"

definition set_ret :: "u64w \<Rightarrow> 'h listener \<Rightarrow> 'h listener" where
  "set_ret r s = s\<lparr>comm := (comm s)\<lparr>c_ret := r\<rparr>\<rparr>"

definition answer :: "(u64w \<times> 'h) \<Rightarrow> 'h listener \<Rightarrow> 'h listener" where
  "answer rh s = complete_request (set_ret (fst rh) (s\<lparr>host := snd rh\<rparr>))"

subsection \<open>GEM allocation\<close>

definition PAGE_SIZE :: u64w where "PAGE_SIZE = 0x1000"
definition HUGE_PAGE :: u64w where "HUGE_PAGE = 0x200000"
definition DATA_SIZE :: u64w where "DATA_SIZE = 0xC0000000"
definition HUGE_DATA_SIZE :: u64w where "HUGE_DATA_SIZE = 0x40000000"
definition HOST_MAP_SHARED_FIXED :: u64w where "HOST_MAP_SHARED_FIXED = 0x11"
definition MAP_FAILED :: u64w where "MAP_FAILED = - 1"

definition gem_regular_advance :: "u64w \<Rightarrow> u64w" where
  "gem_regular_advance sz = PAGE_SIZE * int_ret (int_arg ((PAGE_SIZE + sz) div PAGE_SIZE))"

definition gem_bucket_has_capacity :: "gem_slots \<Rightarrow> u64w \<Rightarrow> u64w \<Rightarrow> u64w \<Rightarrow> bool" where
  "gem_bucket_has_capacity slots sz region_base region_size \<longleftrightarrow>
     host_address slots + sz < region_base + region_size"

definition gem_use_hugepage :: "u64w \<Rightarrow> bool \<Rightarrow> bool \<Rightarrow> bool" where
  "gem_use_hugepage sz hugepage_has_capacity regular_has_capacity =
     (let use_hugepage_bucket = (sz mod HUGE_PAGE = 0)
      in if use_hugepage_bucket \<and> \<not> hugepage_has_capacity \<and> regular_has_capacity then False
         else if \<not> use_hugepage_bucket \<and> \<not> regular_has_capacity \<and> hugepage_has_capacity then True
         else use_hugepage_bucket)"

text \<open>The checks and the replacement of an arena slice, the same for both arenas.\<close>

definition gem_map :: "'h host_ops \<Rightarrow> comm_page \<Rightarrow> gem_slots \<Rightarrow> bool \<Rightarrow> 'h \<Rightarrow> 'h option" where
  "gem_map H c slots has_capacity h =
     (if host_address slots \<noteq> guest_address slots then None
      else if \<not> has_capacity then None
      else let (r, h) = h_munmap H (host_address slots) (c_p1 c) h
      in if r \<noteq> 0 then None
      else let (retptr, h) = h_mmap H (host_address slots) (c_p1 c) (int_arg (c_p2 c))
                 (int_arg (c_p3 c OR HOST_MAP_SHARED_FIXED)) (fd_arg (c_p4 c)) (c_p5 c) h
      in if retptr = MAP_FAILED then None
      else if retptr \<noteq> host_address slots then None
      else Some h)"

definition advance_slots :: "u64w \<Rightarrow> gem_slots \<Rightarrow> gem_slots" where
  "advance_slots n slots =
     \<lparr>host_address = host_address slots + n, guest_address = guest_address slots + n\<rparr>"

text \<open>
  The listener copies \<^verbatim>\<open>c->p1\<close> into \<^verbatim>\<open>size\<close> and passes \<^verbatim>\<open>c->p1\<close> to \<^verbatim>\<open>mmap\<close> again. Serving a request is one step here, so that both
  reads give the same value: the thread that made the request only polls \<^verbatim>\<open>c->req_bit\<close> meanwhile, and no other thread
  writes the page while that thread holds its lock.
\<close>

definition serve_gem_allocation :: "'h host_ops \<Rightarrow> 'h listener \<Rightarrow> 'h listener option" where
  "serve_gem_allocation H s =
     (let sz = c_p1 (comm s);
          hugepage_has_capacity = gem_bucket_has_capacity (gem_hugepage_slots s) sz
            (hugepage_host_addr s) HUGE_DATA_SIZE;
          regular_has_capacity = gem_bucket_has_capacity (gem_slots s) sz
            (data_region_actual_address s) DATA_SIZE
      in map_option (\<lambda>s. (complete_request s)\<lparr>mmap_freq := mmap_freq s + 1\<rparr>)
        (if gem_use_hugepage sz hugepage_has_capacity regular_has_capacity
         then map_option (\<lambda>h. (set_ret (host_address (gem_hugepage_slots s)) (s\<lparr>host := h\<rparr>))
                  \<lparr>gem_hugepage_slots := advance_slots sz (gem_hugepage_slots s)\<rparr>)
                (gem_map H (comm s) (gem_hugepage_slots s) hugepage_has_capacity (host s))
         else map_option (\<lambda>h. (set_ret (host_address (gem_slots s)) (s\<lparr>host := h\<rparr>))
                  \<lparr>gem_slots := advance_slots (gem_regular_advance sz) (gem_slots s)\<rparr>)
                (gem_map H (comm s) (gem_slots s) regular_has_capacity (host s))))"

subsection \<open>File descriptors and semaphores\<close>

text \<open>Results below zero as \<^verbatim>\<open>int\<close> are replaced by the negated error number.\<close>

definition negate_errno :: "'h host_ops \<Rightarrow> cint \<times> 'h \<Rightarrow> u64w \<times> 'h" where
  "negate_errno H rh =
     (if sint (fst rh) < 0 then (int_ret (- h_errno H (snd rh)), snd rh) else (int_ret (fst rh), snd rh))"

definition serve_open :: "'h host_ops \<Rightarrow> 'h listener \<Rightarrow> 'h listener" where
  "serve_open H s =
     (let c = comm s; (oret, h) = h_open H (c_p1 c) (int_arg (c_p2 c)) (int_arg (c_p3 c)) (host s)
      in if sint oret < 0 then answer (int_ret (- h_errno H h), h) s
         else answer (int_ret oret + fs_offset, h) s)"

definition F_DUPFD_CLOEXEC :: u64w where "F_DUPFD_CLOEXEC = 1030"

definition serve_fcntl :: "'h host_ops \<Rightarrow> 'h listener \<Rightarrow> 'h listener" where
  "serve_fcntl H s =
     (let c = comm s; (r, h) = h_fcntl H (fd_arg (c_p1 c)) (int_arg (c_p2 c)) (c_p3 c) (host s)
      in if c_p2 c = F_DUPFD_CLOEXEC then answer (int_ret r + fs_offset, h) s
         else answer (int_ret r, h) s)"

text \<open>\<^verbatim>\<open>ret\<close> is unsigned in these two handlers, and so is the comparison with zero.\<close>

definition serve_host_flock :: "'h host_ops \<Rightarrow> 'h listener \<Rightarrow> 'h listener" where
  "serve_host_flock H s =
     (let c = comm s; (r, h) = h_flock H (fd_arg (c_p1 c)) (int_arg (c_p2 c)) (host s); r = int_ret r
      in answer (if r < 0 then int_ret (- h_errno H h) else r, h) s)"

definition serve_host_ftruncate :: "'h host_ops \<Rightarrow> 'h listener \<Rightarrow> 'h listener" where
  "serve_host_ftruncate H s =
     (let c = comm s; (r, h) = h_ftruncate H (fd_arg (c_p1 c)) (c_p2 c) (host s); r = int_ret r
      in answer (if r < 0 then int_ret (- h_errno H h) else r, h) s)"

definition serve_dup :: "'h host_ops \<Rightarrow> 'h listener \<Rightarrow> 'h listener" where
  "serve_dup H s =
     (let (r, h) = h_dup H (fd_arg (c_p1 (comm s))) (host s) in answer (int_ret r + fs_offset, h) s)"

definition serve_dup_identity :: "'h host_ops \<Rightarrow> 'h listener \<Rightarrow> 'h listener" where
  "serve_dup_identity H s =
     (let (r, h) = h_dup H (int_arg (c_p1 (comm s))) (host s) in answer (int_ret r + fs_offset, h) s)"

definition IPC_NOWAIT :: "16 word" where "IPC_NOWAIT = 0x800"

definition serve_semop :: "'h host_ops \<Rightarrow> 'h listener \<Rightarrow> 'h listener" where
  "serve_semop H s =
     (let c = comm s
      in answer (negate_errno H (h_semop H (int_arg (c_p1 c)) (ucast (c_p2 c)) (ucast (c_p3 c))
           (ucast (c_p4 c) OR IPC_NOWAIT) (host s))) s)"

definition serve_update_window_size :: "'h host_ops \<Rightarrow> 'h listener \<Rightarrow> 'h listener" where
  "serve_update_window_size H s =
     (let c = comm s;
          s = s\<lparr>win_width := int_arg (c_p1 c), win_height := int_arg (c_p2 c)\<rparr>;
          s = (if c_p3 c \<noteq> 0 then s\<lparr>host := h_set_presentation_window H (int_arg (c_p3 c)) (host s)\<rparr>
               else s)
      in complete_request (s\<lparr>host := h_update_window H (win_width s) (win_height s) (host s)\<rparr>))"

subsection \<open>Requests passed on to the host\<close>

text \<open>The cases that make one call and store its result as it is.\<close>

definition serve_fstat :: "'h host_ops \<Rightarrow> 'h listener \<Rightarrow> 'h listener" where
  "serve_fstat H s =
     answer (apfst int_ret (h_fstat H (fd_arg (c_p1 (comm s))) (c_p2 (comm s)) (host s))) s"

definition serve_ioctl :: "'h host_ops \<Rightarrow> 'h listener \<Rightarrow> 'h listener" where
  "serve_ioctl H s =
     (let c = comm s in answer (apfst int_ret (h_ioctl H (fd_arg (c_p1 c)) (c_p2 c) (c_p3 c) (host s))) s)"

definition serve_lseek :: "'h host_ops \<Rightarrow> 'h listener \<Rightarrow> 'h listener" where
  "serve_lseek H s =
     (let c = comm s in answer (h_lseek H (fd_arg (c_p1 c)) (c_p2 c) (int_arg (c_p3 c)) (host s)) s)"

definition serve_readlink :: "'h host_ops \<Rightarrow> 'h listener \<Rightarrow> 'h listener" where
  "serve_readlink H s =
     (let c = comm s in answer (h_readlink H (c_p1 c) (c_p2 c) (c_p3 c) (host s)) s)"

definition serve_newfstat :: "'h host_ops \<Rightarrow> 'h listener \<Rightarrow> 'h listener" where
  "serve_newfstat H s =
     (let c = comm s
      in answer (apfst int_ret
           (h_fstatat H (fd_arg (c_p1 c)) (c_p2 c) (c_p3 c) (int_arg (c_p4 c)) (host s))) s)"

definition serve_getdent :: "'h host_ops \<Rightarrow> 'h listener \<Rightarrow> 'h listener" where
  "serve_getdent H s =
     (let c = comm s in answer (h_getdents64 H (c_p1 c - fs_offset) (c_p2 c) (c_p3 c) (host s)) s)"

definition serve_read :: "'h host_ops \<Rightarrow> 'h listener \<Rightarrow> 'h listener" where
  "serve_read H s =
     (let c = comm s in answer (h_read H (fd_arg (c_p1 c)) (c_p2 c) (c_p3 c) (host s)) s)"

definition serve_write :: "'h host_ops \<Rightarrow> 'h listener \<Rightarrow> 'h listener" where
  "serve_write H s =
     (let c = comm s in answer (h_write H (fd_arg (c_p1 c)) (c_p2 c) (c_p3 c) (host s)) s)"

definition serve_close :: "'h host_ops \<Rightarrow> 'h listener \<Rightarrow> 'h listener" where
  "serve_close H s =
     complete_request (s\<lparr>host := snd (h_close H (fd_arg (c_p1 (comm s))) (host s))\<rparr>)"

definition serve_semget :: "'h host_ops \<Rightarrow> 'h listener \<Rightarrow> 'h listener" where
  "serve_semget H s =
     (let c = comm s
      in answer (negate_errno H
           (h_semget H (int_arg (c_p1 c)) (int_arg (c_p2 c)) (int_arg (c_p3 c)) (host s))) s)"

definition serve_semctl :: "'h host_ops \<Rightarrow> 'h listener \<Rightarrow> 'h listener" where
  "serve_semctl H s =
     (let c = comm s
      in answer (negate_errno H
           (h_semctl H (int_arg (c_p1 c)) (int_arg (c_p2 c)) (int_arg (c_p3 c)) (c_p4 c) (host s))) s)"

text \<open>The presentation requests: window buffers, frames and the input mask.\<close>

definition serve_x11_setup :: "'h host_ops \<Rightarrow> 'h listener \<Rightarrow> 'h listener" where
  "serve_x11_setup H s =
     (let c = comm s; h = h_create_pixmap_from_kbuf H (c_p1 c) (int_arg (c_p2 c)) (int_arg (c_p3 c)) (int_arg (c_p4 c)) (host s);
          h = h_create_xcb_fence H (c_p1 c) (int_arg (c_p2 c)) h
      in complete_request (s\<lparr>host := h\<rparr>))"

definition serve_x11_present :: "'h host_ops \<Rightarrow> 'h listener \<Rightarrow> 'h listener" where
  "serve_x11_present H s =
     (let c = comm s; s = complete_request (s\<lparr>host := h_xcb_present H (c_p1 c) (int_arg (c_p2 c)) (host s)\<rparr>)
      in s\<lparr>frame_count := frame_count s + 1\<rparr>)"

definition serve_x11_idle_fence_buffer :: "'h host_ops \<Rightarrow> 'h listener \<Rightarrow> 'h listener" where
  "serve_x11_idle_fence_buffer H s =
     (let c = comm s
      in answer (apfst int_ret (h_query_idle_fence_buffer H (c_p1 c) (int_arg (c_p2 c)) (host s))) s)"

definition serve_update_input_mask :: "'h host_ops \<Rightarrow> 'h listener \<Rightarrow> 'h listener" where
  "serve_update_input_mask H s =
     (let c = comm s
      in answer (0, h_set_shared_input_mask H (int_arg (c_p1 c)) (int_arg (c_p2 c)) (host s)) s)"

definition serve_logging :: "bool \<Rightarrow> 'h listener \<Rightarrow> 'h listener" where
  "serve_logging on s = complete_request (s\<lparr>syscall_logging_enabled := on\<rparr>)"

lemmas forward_defs = serve_fstat_def serve_ioctl_def serve_lseek_def serve_readlink_def
  serve_newfstat_def serve_getdent_def serve_read_def serve_write_def serve_close_def
  serve_semget_def serve_semctl_def serve_x11_setup_def serve_x11_present_def
  serve_x11_idle_fence_buffer_def serve_update_input_mask_def serve_logging_def

subsection \<open>Dispatch\<close>

text \<open>
  The body of the event loop. The request number is read into an \<^verbatim>\<open>enum\<close>, that is truncated to 32
  bits; an unknown number falls through without completing the request.
\<close>

definition dispatch :: "'h host_ops \<Rightarrow> cint \<Rightarrow> 'h listener \<Rightarrow> 'h listener option" where
  "dispatch H req s =
     (let r = (ucast req :: u64w)
      in if r = SYSCALL_LOGGING_ENABLE then Some (serve_logging True s)
      else if r = SYSCALL_LOGGING_DISABLE then Some (serve_logging False s)
      else if r = GEM_ALLOCATION then serve_gem_allocation H s
      else if r = FSTAT then Some (serve_fstat H s)
      else if r = IOCTL then Some (serve_ioctl H s)
      else if r = OPEN then Some (serve_open H s)
      else if r = FCNTL then Some (serve_fcntl H s)
      else if r = HOST_FLOCK then Some (serve_host_flock H s)
      else if r = HOST_FTRUNCATE then Some (serve_host_ftruncate H s)
      else if r = LSEEK then Some (serve_lseek H s)
      else if r = READLINK then Some (serve_readlink H s)
      else if r = NEWFSTAT then Some (serve_newfstat H s)
      else if r = GETDENT then Some (serve_getdent H s)
      else if r = DUP then Some (serve_dup H s)
      else if r = DUP_IDENTITY then Some (serve_dup_identity H s)
      else if r = X11_SETUP then Some (serve_x11_setup H s)
      else if r = X11_PRESENT then Some (serve_x11_present H s)
      else if r = X11_IDLE_FENCE_BUFFER then Some (serve_x11_idle_fence_buffer H s)
      else if r = CLOSE then Some (serve_close H s)
      else if r = UPDATE_WINDOW_SIZE then Some (serve_update_window_size H s)
      else if r = UPDATE_INPUT_MASK then Some (serve_update_input_mask H s)
      else if r = READ then Some (serve_read H s)
      else if r = WRITE then Some (serve_write H s)
      else if r = SYSV_SEMGET then Some (serve_semget H s)
      else if r = SYSV_SEMCTL then Some (serve_semctl H s)
      else if r = SYSV_SEMOP then Some (serve_semop H s)
      else Some s)"

text \<open>One round of the loop: polling an empty request word changes nothing.\<close>

definition listener_step :: "'h host_ops \<Rightarrow> 'h listener \<Rightarrow> 'h listener option" where
  "listener_step H s =
     (let req = int_arg (c_req_bit (comm s)) in if req = 0 then Some s else dispatch H req s)"

section \<open>Properties of the dispatch\<close>

text \<open>The request numbers the dispatch has a case for.\<close>

definition known_requests :: "u64w list" where
  "known_requests = [SYSCALL_LOGGING_ENABLE, SYSCALL_LOGGING_DISABLE, GEM_ALLOCATION, FSTAT, IOCTL,
     OPEN, FCNTL, HOST_FLOCK, HOST_FTRUNCATE, LSEEK, READLINK, NEWFSTAT, GETDENT, DUP, DUP_IDENTITY,
     X11_SETUP, X11_PRESENT, X11_IDLE_FENCE_BUFFER, CLOSE, UPDATE_WINDOW_SIZE, UPDATE_INPUT_MASK,
     READ, WRITE, SYSV_SEMGET, SYSV_SEMCTL, SYSV_SEMOP]"

text \<open>A page whose request has been completed: only the result and the request word differ.\<close>

definition completes :: "comm_page \<Rightarrow> comm_page \<Rightarrow> bool" where
  "completes c c' \<longleftrightarrow> (\<exists>r. c' = c\<lparr>c_ret := r, c_req_bit := 0\<rparr>)"

lemma completes_simps [simp]:
  "completes (comm s) (comm (answer rh s))"
  "completes (comm s) ((comm s)\<lparr>c_req_bit := 0\<rparr>)"
  "completes (comm s) ((comm s)\<lparr>c_ret := r, c_req_bit := 0\<rparr>)"
proof -
  have "(comm s)\<lparr>c_req_bit := 0\<rparr> = (comm s)\<lparr>c_ret := c_ret (comm s), c_req_bit := 0\<rparr>" by simp
  then show "completes (comm s) ((comm s)\<lparr>c_req_bit := 0\<rparr>)" unfolding completes_def by blast
qed (auto simp: completes_def answer_def complete_request_def set_ret_def)

lemma complete_request_comm [simp]: "comm (complete_request s) = (comm s)\<lparr>c_req_bit := 0\<rparr>"
  by (simp add: complete_request_def)

lemma set_ret_simps [simp]:
  "comm (set_ret r s) = (comm s)\<lparr>c_ret := r\<rparr>" "mmap_freq (set_ret r s) = mmap_freq s"
  by (simp_all add: set_ret_def)

lemma completes_open [simp]: "completes (comm s) (comm (serve_open H s))"
  by (simp add: serve_open_def Let_def split: prod.split)

lemma completes_fcntl [simp]: "completes (comm s) (comm (serve_fcntl H s))"
  by (simp add: serve_fcntl_def Let_def split: prod.split)

lemma completes_flock [simp]: "completes (comm s) (comm (serve_host_flock H s))"
  by (simp add: serve_host_flock_def Let_def split: prod.split)

lemma completes_ftruncate [simp]: "completes (comm s) (comm (serve_host_ftruncate H s))"
  by (simp add: serve_host_ftruncate_def Let_def split: prod.split)

lemma completes_dup [simp]:
  "completes (comm s) (comm (serve_dup H s))" "completes (comm s) (comm (serve_dup_identity H s))"
  by (simp_all add: serve_dup_def serve_dup_identity_def split: prod.split)

lemma completes_semop [simp]: "completes (comm s) (comm (serve_semop H s))"
  by (simp add: serve_semop_def Let_def)

lemma completes_window [simp]: "completes (comm s) (comm (serve_update_window_size H s))"
  by (simp add: serve_update_window_size_def Let_def)

lemma completes_gem:
  "serve_gem_allocation H s = Some s' \<Longrightarrow> completes (comm s) (comm s')"
  by (auto simp: serve_gem_allocation_def Let_def split: if_splits)

lemma dispatch_known:
  "dispatch H req s = Some s' \<Longrightarrow> ucast req \<in> set known_requests \<Longrightarrow> completes (comm s) (comm s')"
  by (auto simp: dispatch_def forward_defs Let_def known_requests_def completes_gem split: if_split_asm)

lemma dispatch_unknown: "ucast req \<notin> set known_requests \<Longrightarrow> dispatch H req s = Some s"
  by (simp add: dispatch_def Let_def known_requests_def)

lemma dispatch_None: "dispatch H req s = None \<Longrightarrow> ucast req = GEM_ALLOCATION"
  by (simp add: dispatch_def Let_def split: if_split_asm)

text \<open>every request with a case in the dispatch is completed: the request word is cleared, the
  result word may be set, and magic and parameters of the page are left as the guest wrote them.
  A request without a case leaves the whole state unchanged, so the guest keeps waiting. Only a
  GEM allocation can end the process.\<close>

theorem dispatch_completes:
  "case dispatch H req s of
     None \<Rightarrow> ucast req = GEM_ALLOCATION
   | Some s' \<Rightarrow> if ucast req \<in> set known_requests
       then \<exists>r. comm s' = (comm s)\<lparr>c_ret := r, c_req_bit := 0\<rparr> else s' = s"
  using dispatch_known [of H req s] dispatch_unknown [of req H s] dispatch_None [of H req s]
  by (auto simp: completes_def split: option.split)

subsection \<open>Descriptors and error numbers\<close>

lemma fd_arg_roundtrip [simp]: "fd_arg (int_ret fd + fs_offset) = fd"
  unfolding fd_arg_def int_ret_def by (simp, rule bit_word_eqI, simp add: bit_simps)

lemma int_arg_ret [simp]: "int_arg (int_ret r) = r"
  unfolding int_arg_def int_ret_def by (rule bit_word_eqI) (simp add: bit_simps)

lemma sint_int_ret [simp]: "sint (int_ret r) = sint r"
  unfolding int_ret_def by (simp add: sint_up_scast is_up)

lemma sint_cint_bounds: "- (2 ^ 31) \<le> sint (r :: cint)" "sint (r :: cint) < 2 ^ 31"
  using sint_range_size [of r] by (simp_all add: word_size)

lemma sint_fd_offset [simp]: "sint (int_ret fd + fs_offset) = sint fd + 500"
proof -
  have "sint (int_ret fd + fs_offset) = signed_take_bit 63 (sint fd + 500)"
    by (simp add: sint_word_add fs_offset_def)
  also have "\<dots> = sint fd + 500"
    using sint_cint_bounds [of fd] by (intro signed_take_bit_int_eq_self) simp_all
  finally show ?thesis .
qed

lemma sint_uminus_cint: "0 \<le> sint (e :: cint) \<Longrightarrow> sint (- e) = - sint e"
proof -
  assume "0 \<le> sint e"
  moreover have "sint (- e) = signed_take_bit 31 (- sint e)"
    by (simp add: sint_word_minus)
  ultimately show ?thesis
    using sint_cint_bounds [of e] by (simp add: signed_take_bit_int_eq_self)
qed

lemma answer_simps [simp]:
  "c_ret (comm (answer rh s)) = fst rh" "host (answer rh s) = snd rh"
  by (simp_all add: answer_def set_ret_def complete_request_def)

lemma dispatch_fd_requests:
  "dispatch H (int_arg READ) s =
     Some (answer (h_read H (fd_arg (c_p1 (comm s))) (c_p2 (comm s)) (c_p3 (comm s)) (host s)) s)"
  "dispatch H (int_arg WRITE) s =
     Some (answer (h_write H (fd_arg (c_p1 (comm s))) (c_p2 (comm s)) (c_p3 (comm s)) (host s)) s)"
  "dispatch H (int_arg IOCTL) s =
     Some (answer (apfst int_ret (h_ioctl H (fd_arg (c_p1 (comm s))) (c_p2 (comm s)) (c_p3 (comm s)) (host s))) s)"
  "dispatch H (int_arg CLOSE) s =
     Some (complete_request (s\<lparr>host := snd (h_close H (fd_arg (c_p1 (comm s))) (host s))\<rparr>))"
  by (simp_all add: dispatch_def forward_defs Let_def int_arg_def request_defs)

text \<open>descriptors survive the translation: when the host opens descriptor \<open>fd\<close>, the guest is
  told \<open>fd + 500\<close>, and a later request that names this number reaches the host descriptor \<open>fd\<close>,
  also through the conversions between \<^verbatim>\<open>int\<close> and \<^verbatim>\<open>uint64_t\<close>. A failing open is reported as the
  negated error number.\<close>

theorem open_fd_roundtrip:
  assumes "h_open H (c_p1 (comm s)) (int_arg (c_p2 (comm s))) (int_arg (c_p3 (comm s))) (host s) = (fd, h)"
    and "0 < sint (h_errno H h)"
    and "c_p1 (comm t) = c_ret (comm (serve_open H s))"
  shows "if 0 \<le> sint fd
    then sint (c_ret (comm (serve_open H s))) = sint fd + 500 \<and>
      dispatch H (int_arg READ) t =
        Some (answer (h_read H fd (c_p2 (comm t)) (c_p3 (comm t)) (host t)) t) \<and>
      dispatch H (int_arg WRITE) t =
        Some (answer (h_write H fd (c_p2 (comm t)) (c_p3 (comm t)) (host t)) t) \<and>
      dispatch H (int_arg IOCTL) t =
        Some (answer (apfst int_ret (h_ioctl H fd (c_p2 (comm t)) (c_p3 (comm t)) (host t))) t) \<and>
      dispatch H (int_arg CLOSE) t = Some (complete_request (t\<lparr>host := snd (h_close H fd (host t))\<rparr>))
    else sint (c_ret (comm (serve_open H s))) = - sint (h_errno H h)"
  using assms by (simp add: serve_open_def Let_def dispatch_fd_requests sint_uminus_cint)

text \<open>A small host: descriptors are handed out in order, and semaphores and locks always fail.\<close>

definition demo_host :: "cint host_ops" where
  "demo_host = \<lparr>h_errno = (\<lambda>h. 11), h_munmap = (\<lambda>a n h. (0, h)), h_mmap = (\<lambda>a n pr fl fd off h. (a, h)),
     h_fstat = (\<lambda>fd p h. (0, h)), h_ioctl = (\<lambda>fd r p h. (0, h)), h_open = (\<lambda>p fl m h. (h, h + 1)),
     h_fcntl = (\<lambda>fd c a h. (0, h)), h_flock = (\<lambda>fd op h. (- 1, h)), h_ftruncate = (\<lambda>fd n h. (- 1, h)),
     h_lseek = (\<lambda>fd off w h. (off, h)), h_readlink = (\<lambda>p b n h. (0, h)), h_fstatat = (\<lambda>fd p b fl h. (0, h)),
     h_getdents64 = (\<lambda>fd b n h. (0, h)), h_dup = (\<lambda>fd h. (- 1, h)), h_close = (\<lambda>fd h. (0, h)),
     h_read = (\<lambda>fd b n h. (n, h)), h_write = (\<lambda>fd b n h. (n, h)), h_semget = (\<lambda>k n fl h. (- 1, h)),
     h_semctl = (\<lambda>i n c a h. (- 1, h)), h_semop = (\<lambda>i n op fl h. (- 1, h)),
     h_create_pixmap_from_kbuf = (\<lambda>b i n st h. h), h_create_xcb_fence = (\<lambda>b i h. h),
     h_xcb_present = (\<lambda>b i h. h), h_query_idle_fence_buffer = (\<lambda>b i h. (0, h)),
     h_set_presentation_window = (\<lambda>w h. h), h_update_window = (\<lambda>w ht h. h),
     h_set_shared_input_mask = (\<lambda>w m h. h)\<rparr>"

definition demo_page :: comm_page where
  "demo_page = \<lparr>c_magic = COMM_MAGIC, c_req_bit = OPEN, c_ret = 0, c_p1 = 0x5000, c_p2 = 2, c_p3 = 0,
     c_p4 = 0, c_p5 = 0\<rparr>"

definition demo_listener :: "cint listener" where
  "demo_listener = \<lparr>comm = demo_page,
     gem_slots = \<lparr>host_address = 0x100000000, guest_address = 0x100000000\<rparr>,
     gem_hugepage_slots = \<lparr>host_address = 0x200000000, guest_address = 0x200000000\<rparr>,
     data_region_actual_address = 0x100000000, hugepage_host_addr = 0x200000000,
     syscall_logging_enabled = False, mmap_freq = 0, frame_count = 0, win_width = 300,
     win_height = 300, host = 7\<rparr>"

lemmas demo_sg_defs = demo_host_def demo_page_def demo_listener_def

theorem open_fd_roundtrip_witness:
  "dispatch demo_host (int_arg READ) (demo_listener\<lparr>comm := demo_page\<lparr>c_p1 := 507, c_p3 := 64\<rparr>\<rparr>) =
     Some (answer (h_read demo_host 7 2 64 7) (demo_listener\<lparr>comm := demo_page\<lparr>c_p1 := 507, c_p3 := 64\<rparr>\<rparr>))"
  using open_fd_roundtrip [of demo_host demo_listener 7 8
      "demo_listener\<lparr>comm := demo_page\<lparr>c_p1 := 507, c_p3 := 64\<rparr>\<rparr>"]
  by (simp add: demo_sg_defs serve_open_def answer_def set_ret_def complete_request_def int_ret_def
      fs_offset_def)

text \<open>Three failures do not reach the guest as errors of the call. A failing lock or truncation
  is answered with \<open>-1\<close> whatever the error number was, because the comparison with zero is
  unsigned, and a failing duplication is answered with the descriptor 499.\<close>

theorem failed_calls_lose_errno:
  assumes "h_flock H (fd_arg (c_p1 (comm s))) (int_arg (c_p2 (comm s))) (host s) = (- 1, h1)"
    and "h_ftruncate H (fd_arg (c_p1 (comm s))) (c_p2 (comm s)) (host s) = (- 1, h2)"
    and "h_dup H (fd_arg (c_p1 (comm s))) (host s) = (- 1, h3)"
  shows "sint (c_ret (comm (serve_host_flock H s))) = - 1 \<and>
    sint (c_ret (comm (serve_host_ftruncate H s))) = - 1 \<and>
    c_ret (comm (serve_dup H s)) = 499"
  using assms
  by (simp add: serve_host_flock_def serve_host_ftruncate_def serve_dup_def Let_def int_ret_def fs_offset_def)

theorem failed_calls_lose_errno_witness:
  "h_errno demo_host 7 = 11 \<and> sint (c_ret (comm (serve_host_flock demo_host demo_listener))) = - 1 \<and>
   c_ret (comm (serve_dup demo_host demo_listener)) = 499"
  using failed_calls_lose_errno [of demo_host demo_listener 7 7 7] by (simp add: demo_sg_defs)

end
