(* ===== verification/Sg_Protocol.thy ===== *)
theory Sg_Protocol
  imports Sg_Listener
begin

text \<open>
  The shared-memory protocol between guest threads and the listener: \<^verbatim>\<open>libos/include/libos_sg.h\<close>,
  \<^verbatim>\<open>libos/src/sys/libos_sg_lock.c\<close> and the polling loop of \<^verbatim>\<open>qemu/util/sg-listener.c\<close>, as
  interleaved steps on one state. Any number of guest threads compete for the lock of the single
  communication slot (\<^verbatim>\<open>MULTI_SLOT\<close> is 0). A guest call takes the lock, writes its parameters,
  writes the request word, polls it and reads the result; the listener loads the request word and
  handles the request. Each memory access that the other side can observe is a step of its own.
\<close>

section \<open>Guest calls\<close>

text \<open>A call names its request and the parameters it writes; the others keep their old values.\<close>

record sg_call =
  call_req :: u64w
  call_p1 :: "u64w option"
  call_p2 :: "u64w option"
  call_p3 :: "u64w option"
  call_p4 :: "u64w option"
  call_p5 :: "u64w option"

definition param :: "u64w option \<Rightarrow> u64w \<Rightarrow> u64w" where
  "param v old = (case v of None \<Rightarrow> old | Some w \<Rightarrow> w)"

definition fill_page :: "sg_call \<Rightarrow> comm_page \<Rightarrow> comm_page" where
  "fill_page call c = c\<lparr>c_p1 := param (call_p1 call) (c_p1 c), c_p2 := param (call_p2 call) (c_p2 c),
     c_p3 := param (call_p3 call) (c_p3 c), c_p4 := param (call_p4 call) (c_p4 c),
     c_p5 := param (call_p5 call) (c_p5 c)\<rparr>"

text \<open>A page carries a call when its parameters are those of the call.\<close>

definition carries :: "sg_call \<Rightarrow> comm_page \<Rightarrow> bool" where
  "carries call c \<longleftrightarrow> fill_page call c = c"

datatype guest_pc =
    G_idle
  | G_locked sg_call
  | G_filled sg_call
  | G_published sg_call
  | G_polling sg_call
  | G_done sg_call
  | G_returned sg_call u64w

datatype listener_pc = L_poll | L_loaded cint | L_dead

text \<open>
  The history records what the listener handled (the page as it was dispatched and the result it
  left) and what calls returned, newest first.
\<close>

datatype sg_event = Served comm_page u64w | Returned nat sg_call u64w

record 'h sg_state =
  lstn :: "'h listener"
  lpc :: listener_pc
  comm_lock :: "nat option"
  gpc :: "nat \<Rightarrow> guest_pc"
  history :: "sg_event list"

abbreviation page :: "'h sg_state \<Rightarrow> comm_page" where
  "page s \<equiv> comm (lstn s)"

definition set_page :: "comm_page \<Rightarrow> 'h sg_state \<Rightarrow> 'h sg_state" where
  "set_page c s = s\<lparr>lstn := (lstn s)\<lparr>comm := c\<rparr>\<rparr>"

definition set_pc :: "nat \<Rightarrow> guest_pc \<Rightarrow> 'h sg_state \<Rightarrow> 'h sg_state" where
  "set_pc t pc s = s\<lparr>gpc := (gpc s)(t := pc)\<rparr>"

section \<open>Steps\<close>

text \<open>
  Taking the lock of the page. The lock object is there: \<^verbatim>\<open>ensure_lock_ready\<close> creates it on the first call, and the set-up
  of \<^verbatim>\<open>gramine.c\<close>, which takes the lock itself, has made such a call, so that afterwards it does nothing. (It looks and
  creates without synchronisation; two first calls at the same time, before the set-up, are not part of the model.)
\<close>

definition libos_syscall_acquire_libos_lock :: "nat \<Rightarrow> sg_call \<Rightarrow> 'h sg_state \<Rightarrow> 'h sg_state option" where
  "libos_syscall_acquire_libos_lock t call s =
     (if gpc s t = G_idle \<and> comm_lock s = None
      then Some (set_pc t (G_locked call) (s\<lparr>comm_lock := Some t\<rparr>)) else None)"

text \<open>The caller writes the parameters and then, behind a barrier or in the order of the program, the request number.\<close>

definition write_params :: "nat \<Rightarrow> 'h sg_state \<Rightarrow> 'h sg_state option" where
  "write_params t s =
     (case gpc s t of
        G_locked call \<Rightarrow> Some (set_pc t (G_filled call) (set_page (fill_page call (page s)) s))
      | _ \<Rightarrow> None)"

definition write_request :: "nat \<Rightarrow> 'h sg_state \<Rightarrow> 'h sg_state option" where
  "write_request t s =
     (case gpc s t of
        G_filled call \<Rightarrow> Some (set_pc t (G_published call) (set_page ((page s)\<lparr>c_req_bit := call_req call\<rparr>) s))
      | _ \<Rightarrow> None)"

text \<open>\<^verbatim>\<open>comm_sync_notify\<close>: the check of the magic number, one round of the loop, and the result.\<close>

definition comm_sync_notify :: "nat \<Rightarrow> 'h sg_state \<Rightarrow> 'h sg_state option" where
  "comm_sync_notify t s =
     (case gpc s t of
        G_published call \<Rightarrow>
          Some (set_pc t (if c_magic (page s) \<noteq> COMM_MAGIC then G_returned call 0 else G_polling call) s)
      | G_polling call \<Rightarrow> if c_req_bit (page s) \<noteq> 0 then Some s else Some (set_pc t (G_done call) s)
      | G_done call \<Rightarrow> Some (set_pc t (G_returned call (c_ret (page s))) s)
      | _ \<Rightarrow> None)"

definition libos_syscall_relinquish_libos_lock :: "nat \<Rightarrow> 'h sg_state \<Rightarrow> 'h sg_state option" where
  "libos_syscall_relinquish_libos_lock t s =
     (case gpc s t of
        G_returned call r \<Rightarrow>
          Some (set_pc t G_idle (s\<lparr>comm_lock := None, history := Returned t call r # history s\<rparr>))
      | _ \<Rightarrow> None)"

text \<open>The listener: one load of the request word, then the dispatch of what was loaded.\<close>

definition listener_load :: "'h sg_state \<Rightarrow> 'h sg_state option" where
  "listener_load s =
     (if lpc s = L_poll
      then (let req = int_arg (c_req_bit (page s))
            in Some (if req = 0 then s else s\<lparr>lpc := L_loaded req\<rparr>))
      else None)"

definition listener_serve :: "'h host_ops \<Rightarrow> 'h sg_state \<Rightarrow> 'h sg_state option" where
  "listener_serve H s =
     (case lpc s of
        L_loaded req \<Rightarrow>
          Some (case dispatch H req (lstn s) of
             None \<Rightarrow> s\<lparr>lpc := L_dead\<rparr>
           | Some l \<Rightarrow> s\<lparr>lpc := L_poll, lstn := l, history := Served (page s) (c_ret (comm l)) # history s\<rparr>)
      | _ \<Rightarrow> None)"

text \<open>The callers of the guest only send requests of the listener's dispatch.\<close>

inductive sg_step :: "'h host_ops \<Rightarrow> 'h sg_state \<Rightarrow> 'h sg_state \<Rightarrow> bool" for H where
  acquire: "call_req call \<in> set known_requests \<Longrightarrow> libos_syscall_acquire_libos_lock t call s = Some s' \<Longrightarrow>
     sg_step H s s'"
| params: "write_params t s = Some s' \<Longrightarrow> sg_step H s s'"
| request: "write_request t s = Some s' \<Longrightarrow> sg_step H s s'"
| notify: "comm_sync_notify t s = Some s' \<Longrightarrow> sg_step H s s'"
| relinquish: "libos_syscall_relinquish_libos_lock t s = Some s' \<Longrightarrow> sg_step H s s'"
| load: "listener_load s = Some s' \<Longrightarrow> sg_step H s s'"
| serve: "listener_serve H s = Some s' \<Longrightarrow> sg_step H s s'"

text \<open>After the set-up: the page is ready, nobody holds the lock, nothing is requested.\<close>

definition sg_init :: "'h sg_state \<Rightarrow> bool" where
  "sg_init s \<longleftrightarrow> c_magic (page s) = COMM_MAGIC \<and> c_req_bit (page s) = 0 \<and> lpc s = L_poll \<and>
     comm_lock s = None \<and> gpc s = (\<lambda>t. G_idle) \<and> history s = []"

inductive sg_reachable :: "'h host_ops \<Rightarrow> 'h sg_state \<Rightarrow> bool" for H where
  start: "sg_init s \<Longrightarrow> sg_reachable H s"
| step: "sg_reachable H s \<Longrightarrow> sg_step H s s' \<Longrightarrow> sg_reachable H s'"

section \<open>Invariant\<close>

text \<open>
  In a completed history every return is directly preceded by the handling of its own call, with
  the same result.
\<close>

fun answered :: "sg_event list \<Rightarrow> bool" where
  "answered [] = True"
| "answered (Returned t call r # Served p r' # es) =
     (r = r' \<and> c_req_bit p = call_req call \<and> carries call p \<and> answered es)"
| "answered _ = False"

definition quiet :: "'h sg_state \<Rightarrow> bool" where
  "quiet s \<longleftrightarrow> c_req_bit (page s) = 0 \<and> lpc s = L_poll \<and> answered (history s)"

definition pending :: "sg_call \<Rightarrow> 'h sg_state \<Rightarrow> bool" where
  "pending call s \<longleftrightarrow> c_req_bit (page s) = call_req call \<and> carries call (page s) \<and>
     lpc s \<in> {L_poll, L_loaded (int_arg (call_req call)), L_dead} \<and> answered (history s)"

definition handled :: "sg_call \<Rightarrow> 'h sg_state \<Rightarrow> bool" where
  "handled call s \<longleftrightarrow> c_req_bit (page s) = 0 \<and> lpc s = L_poll \<and>
     (\<exists>p es. history s = Served p (c_ret (page s)) # es \<and> c_req_bit p = call_req call \<and>
        carries call p \<and> answered es)"

fun owner_inv :: "guest_pc \<Rightarrow> 'h sg_state \<Rightarrow> bool" where
  "owner_inv G_idle s = False"
| "owner_inv (G_locked call) s = (quiet s \<and> call_req call \<in> set known_requests)"
| "owner_inv (G_filled call) s =
     (quiet s \<and> carries call (page s) \<and> call_req call \<in> set known_requests)"
| "owner_inv (G_published call) s =
     ((pending call s \<or> handled call s) \<and> call_req call \<in> set known_requests)"
| "owner_inv (G_polling call) s =
     ((pending call s \<or> handled call s) \<and> call_req call \<in> set known_requests)"
| "owner_inv (G_done call) s = handled call s"
| "owner_inv (G_returned call r) s = (handled call s \<and> r = c_ret (page s))"

definition sg_inv :: "'h sg_state \<Rightarrow> bool" where
  "sg_inv s \<longleftrightarrow> c_magic (page s) = COMM_MAGIC \<and>
     (case comm_lock s of
        None \<Rightarrow> (\<forall>t. gpc s t = G_idle) \<and> quiet s
      | Some t \<Rightarrow> (\<forall>u. u \<noteq> t \<longrightarrow> gpc s u = G_idle) \<and> owner_inv (gpc s t) s)"

lemma carries_fill [simp]: "carries call (fill_page call c)"
  by (simp add: carries_def fill_page_def param_def split: option.split)

lemma carries_updates [simp]:
  "carries call (c\<lparr>c_req_bit := x\<rparr>) = carries call c" "carries call (c\<lparr>c_ret := x\<rparr>) = carries call c"
  by (cases c; simp add: carries_def fill_page_def)+

lemma known_numbers:
  "r \<in> set known_requests \<Longrightarrow> ucast (int_arg r) = r \<and> int_arg r \<noteq> 0 \<and> r \<noteq> 0"
  by (auto simp: known_requests_def request_defs int_arg_def)

lemma sg_state_simps [simp]:
  "page (set_page c s) = c" "gpc (set_page c s) = gpc s" "lpc (set_page c s) = lpc s"
  "comm_lock (set_page c s) = comm_lock s" "history (set_page c s) = history s"
  "lstn (set_pc t pc s) = lstn s" "gpc (set_pc t pc s) = (gpc s)(t := pc)" "lpc (set_pc t pc s) = lpc s"
  "comm_lock (set_pc t pc s) = comm_lock s" "history (set_pc t pc s) = history s"
  by (simp_all add: set_page_def set_pc_def)

lemma fill_page_simps [simp]:
  "c_magic (fill_page call c) = c_magic c" "c_req_bit (fill_page call c) = c_req_bit c"
  "c_ret (fill_page call c) = c_ret c"
  by (simp_all add: fill_page_def)

text \<open>A thread that is inside a call owns the lock.\<close>

lemma sg_inv_owner:
  assumes "sg_inv s" "gpc s t \<noteq> G_idle"
  shows "comm_lock s = Some t" "owner_inv (gpc s t) s" "\<forall>u. u \<noteq> t \<longrightarrow> gpc s u = G_idle"
    "c_magic (page s) = COMM_MAGIC"
proof -
  show lock: "comm_lock s = Some t"
    using assms unfolding sg_inv_def by (cases "comm_lock s") (auto, metis)
  then show "owner_inv (gpc s t) s" "\<forall>u. u \<noteq> t \<longrightarrow> gpc s u = G_idle" "c_magic (page s) = COMM_MAGIC"
    using assms unfolding sg_inv_def by auto
qed

lemma sg_invI:
  assumes "comm_lock s = Some t" "\<forall>u. u \<noteq> t \<longrightarrow> gpc s u = G_idle" "owner_inv (gpc s t) s"
    "c_magic (page s) = COMM_MAGIC"
  shows "sg_inv s"
  using assms by (simp add: sg_inv_def)

lemma inv_acquire:
  "call_req call \<in> set known_requests \<Longrightarrow> sg_inv s \<Longrightarrow> libos_syscall_acquire_libos_lock t call s = Some s' \<Longrightarrow> sg_inv s'"
  by (auto simp: libos_syscall_acquire_libos_lock_def sg_inv_def quiet_def split: if_splits)

lemma inv_params:
  assumes "sg_inv s" "write_params t s = Some s'"
  shows "sg_inv s'"
proof -
  from assms(2) obtain call where pc: "gpc s t = G_locked call"
      "s' = set_pc t (G_filled call) (set_page (fill_page call (page s)) s)"
    by (auto simp: write_params_def split: guest_pc.splits)
  note o = sg_inv_owner [OF assms(1), of t]
  show ?thesis
    using o pc by (intro sg_invI [of _ t]) (simp_all add: quiet_def)
qed

lemma inv_request:
  assumes "sg_inv s" "write_request t s = Some s'"
  shows "sg_inv s'"
proof -
  from assms(2) obtain call where pc: "gpc s t = G_filled call"
      "s' = set_pc t (G_published call) (set_page ((page s)\<lparr>c_req_bit := call_req call\<rparr>) s)"
    by (auto simp: write_request_def split: guest_pc.splits)
  note o = sg_inv_owner [OF assms(1), of t]
  show ?thesis
    using o pc by (intro sg_invI [of _ t]) (simp_all add: quiet_def pending_def)
qed

lemma owner_inv_set_pc [simp]:
  "pending call (set_pc t pc s) = pending call s" "handled call (set_pc t pc s) = handled call s"
  by (simp_all add: pending_def handled_def)

lemma inv_notify:
  assumes "sg_inv s" "comm_sync_notify t s = Some s'"
  shows "sg_inv s'"
proof -
  have "gpc s t \<noteq> G_idle" using assms(2) by (auto simp: comm_sync_notify_def)
  note o = sg_inv_owner [OF assms(1) this]
  show ?thesis
  proof (cases "gpc s t")
    case (G_published call)
    with assms(2) o show ?thesis
      by (intro sg_invI [of _ t]) (auto simp: comm_sync_notify_def)
  next
    case (G_polling call)
    show ?thesis
    proof (cases "c_req_bit (page s) = 0")
      case True
      with o(2) G_polling known_numbers have "handled call s" by (auto simp: pending_def)
      with True assms(2) o G_polling show ?thesis
        by (intro sg_invI [of _ t]) (auto simp: comm_sync_notify_def)
    next
      case False
      with assms G_polling show ?thesis by (simp add: comm_sync_notify_def)
    qed
  next
    case (G_done call)
    with assms(2) o show ?thesis
      by (intro sg_invI [of _ t]) (auto simp: comm_sync_notify_def)
  qed (use assms(2) in \<open>simp_all add: comm_sync_notify_def\<close>)
qed

lemma inv_relinquish:
  assumes "sg_inv s" "libos_syscall_relinquish_libos_lock t s = Some s'"
  shows "sg_inv s'"
proof -
  from assms(2) obtain call r where pc: "gpc s t = G_returned call r"
      "s' = set_pc t G_idle (s\<lparr>comm_lock := None, history := Returned t call r # history s\<rparr>)"
    by (auto simp: libos_syscall_relinquish_libos_lock_def split: guest_pc.splits)
  have o: "owner_inv (gpc s t) s" "\<forall>u. u \<noteq> t \<longrightarrow> gpc s u = G_idle" "c_magic (page s) = COMM_MAGIC"
    using sg_inv_owner [OF assms(1), of t] pc(1) by simp_all
  from o(1) pc(1) obtain p es where "history s = Served p r # es" "c_req_bit p = call_req call"
      "carries call p" "answered es" "c_req_bit (page s) = 0" "lpc s = L_poll"
    by (auto simp: handled_def)
  with o(2,3) show ?thesis by (simp add: pc(2) sg_inv_def quiet_def)
qed

lemma inv_load:
  assumes "sg_inv s" "listener_load s = Some s'"
  shows "sg_inv s'"
proof (cases "int_arg (c_req_bit (page s)) = 0")
  case True
  with assms show ?thesis by (auto simp: listener_load_def Let_def split: if_splits)
next
  case False
  then have bit: "c_req_bit (page s) \<noteq> 0" by (auto simp: int_arg_def)
  then obtain t where lock: "comm_lock s = Some t"
    using assms(1) by (auto simp: sg_inv_def quiet_def split: option.splits)
  from False assms(2) have s': "s' = s\<lparr>lpc := L_loaded (int_arg (c_req_bit (page s)))\<rparr>"
    by (auto simp: listener_load_def Let_def split: if_splits)
  show ?thesis
    using assms(1) bit lock unfolding s' sg_inv_def
    by (cases "gpc s t") (auto simp: quiet_def pending_def handled_def)
qed

lemma inv_serve:
  assumes "sg_inv s" "listener_serve H s = Some s'"
  shows "sg_inv s'"
proof -
  from assms(2) obtain req where l: "lpc s = L_loaded req"
    by (auto simp: listener_serve_def split: listener_pc.splits)
  then obtain t where lock: "comm_lock s = Some t"
    using assms(1) by (auto simp: sg_inv_def quiet_def split: option.splits)
  have idle: "\<forall>u. u \<noteq> t \<longrightarrow> gpc s u = G_idle" "c_magic (page s) = COMM_MAGIC" "owner_inv (gpc s t) s"
    using assms(1) lock by (auto simp: sg_inv_def)
  from idle(3) l obtain call where call: "gpc s t = G_published call \<or> gpc s t = G_polling call"
      "pending call s" "call_req call \<in> set known_requests"
    by (cases "gpc s t") (auto simp: quiet_def handled_def)
  have req: "req = int_arg (call_req call)" "ucast req = call_req call"
    using call(2,3) l known_numbers by (auto simp: pending_def)
  show ?thesis
  proof (cases "dispatch H req (lstn s)")
    case None
    with assms(2) l have "s' = s\<lparr>lpc := L_dead\<rparr>" by (simp add: listener_serve_def)
    with call idle lock show ?thesis by (intro sg_invI [of _ t]) (auto simp: pending_def)
  next
    case (Some k)
    have "completes (page s) (comm k)" using dispatch_known [OF Some] req(2) call(3) by simp
    then obtain r where k: "comm k = (page s)\<lparr>c_ret := r, c_req_bit := 0\<rparr>"
      by (auto simp: completes_def)
    from Some assms(2) l have s': "s' = s\<lparr>lpc := L_poll, lstn := k, history := Served (page s) (c_ret (comm k)) # history s\<rparr>"
      by (simp add: listener_serve_def)
    have "handled call s'" using call(2) by (simp add: s' handled_def k pending_def)
    with call(1,3) idle lock show ?thesis by (intro sg_invI [of _ t]) (auto simp: s' k)
  qed
qed

lemma sg_reachable_inv: "sg_reachable H s \<Longrightarrow> sg_inv s"
proof (induction rule: sg_reachable.induct)
  case (start s)
  then show ?case by (simp add: sg_init_def sg_inv_def quiet_def)
next
  case (step s s')
  from step(2,3) show ?case
    by cases (blast intro: inv_acquire inv_params inv_request inv_notify inv_relinquish inv_load inv_serve)+
qed

section \<open>Properties\<close>

text \<open>C1: from the end of the set-up on, under every interleaving of guest threads and listener, at most one thread is inside a
  call, and every call that returned got exactly the result that the listener left when it handled
  this call: the history alternates between the handling of a page that carries the request and
  the parameters of a call and the return of that call with the listener's result. No request is
  handled twice, lost, or mixed up with another thread's parameters.\<close>

theorem sg_calls_linear:
  assumes "sg_reachable H s"
  shows "(\<forall>t u. gpc s t \<noteq> G_idle \<and> gpc s u \<noteq> G_idle \<longrightarrow> t = u) \<and>
    (answered (history s) \<or> (\<exists>p r es. history s = Served p r # es \<and> answered es))"
proof
  have inv: "sg_inv s" using assms by (rule sg_reachable_inv)
  show "\<forall>t u. gpc s t \<noteq> G_idle \<and> gpc s u \<noteq> G_idle \<longrightarrow> t = u"
    using sg_inv_owner(3) [OF inv] by blast
  show "answered (history s) \<or> (\<exists>p r es. history s = Served p r # es \<and> answered es)"
  proof (cases "comm_lock s")
    case None
    with inv show ?thesis by (auto simp: sg_inv_def quiet_def)
  next
    case (Some t)
    with inv have "owner_inv (gpc s t) s" by (simp add: sg_inv_def)
    then show ?thesis by (cases "gpc s t") (auto simp: quiet_def pending_def handled_def)
  qed
qed

section \<open>The way of a call to its result\<close>

text \<open>
  The steps of the calling thread in \<^verbatim>\<open>comm_sync_notify\<close> and of the listener that change something, that is, without
  the rounds in which a polling loop reads an unchanged word.
\<close>

inductive own_step :: "'h host_ops \<Rightarrow> nat \<Rightarrow> 'h sg_state \<Rightarrow> 'h sg_state \<Rightarrow> bool" for H t where
  own_notify: "comm_sync_notify t s = Some s' \<Longrightarrow> s' \<noteq> s \<Longrightarrow> own_step H t s s'"
| own_load: "listener_load s = Some s' \<Longrightarrow> s' \<noteq> s \<Longrightarrow> own_step H t s s'"
| own_serve: "listener_serve H s = Some s' \<Longrightarrow> s' \<noteq> s \<Longrightarrow> own_step H t s s'"

lemma own_step_sg: "own_step H t s s' \<Longrightarrow> sg_step H s s'"
  by (induction rule: own_step.induct) (blast intro: sg_step.intros)+

lemma sg_step_inv: "sg_step H s s' \<Longrightarrow> sg_inv s \<Longrightarrow> sg_inv s'"
  by (induction rule: sg_step.induct)
    (blast intro: inv_acquire inv_params inv_request inv_notify inv_relinquish inv_load inv_serve)+

text \<open>The remaining steps of the thread and of the listener.\<close>

fun guest_left :: "guest_pc \<Rightarrow> nat" where
  "guest_left (G_published call) = 3"
| "guest_left (G_polling call) = 2"
| "guest_left (G_done call) = 1"
| "guest_left _ = 0"

definition listener_left :: "'h sg_state \<Rightarrow> nat" where
  "listener_left s =
     (case lpc s of L_poll \<Rightarrow> if c_req_bit (page s) = 0 then 0 else 2 | L_loaded req \<Rightarrow> 1 | L_dead \<Rightarrow> 0)"

definition inside :: "nat \<Rightarrow> sg_call \<Rightarrow> 'h sg_state \<Rightarrow> bool" where
  "inside t call s \<longleftrightarrow> sg_inv s \<and>
     (gpc s t = G_published call \<or> gpc s t = G_polling call \<or> gpc s t = G_done call \<or> (\<exists>r. gpc s t = G_returned call r))"

text \<open>The request in the hands of the listener is the one of the call.\<close>

lemma loaded_call:
  assumes "inside t call s" "lpc s = L_loaded req"
  shows "pending call s" "req = int_arg (call_req call)" "ucast req \<in> set known_requests"
proof -
  have "sg_inv s" "gpc s t \<noteq> G_idle" using assms(1) by (auto simp: inside_def)
  then have "owner_inv (gpc s t) s" by (rule sg_inv_owner(2))
  then have p: "pending call s" "call_req call \<in> set known_requests"
    using assms by (auto simp: inside_def handled_def)
  then show "pending call s" "req = int_arg (call_req call)" "ucast req \<in> set known_requests"
    using assms(2) known_numbers [OF p(2)] by (auto simp: pending_def)
qed

lemma own_notify_left:
  assumes "inside t call s" "comm_sync_notify t s = Some s'" "s' \<noteq> s"
  shows "inside t call s' \<and> guest_left (gpc s' t) + listener_left s' < guest_left (gpc s t) + listener_left s"
proof -
  have "c_magic (page s) = COMM_MAGIC" using assms(1) by (simp add: inside_def sg_inv_def)
  then have "guest_left (gpc s' t) < guest_left (gpc s t) \<and> listener_left s' = listener_left s \<and> (gpc s' t = G_polling call \<or>
      gpc s' t = G_done call \<or> (\<exists>r. gpc s' t = G_returned call r))"
    using assms by (auto simp: inside_def comm_sync_notify_def listener_left_def split: if_splits)
  then show ?thesis using inv_notify [OF _ assms(2)] assms(1) by (auto simp: inside_def)
qed

lemma own_load_left:
  assumes "inside t call s" "listener_load s = Some s'" "s' \<noteq> s"
  shows "inside t call s' \<and> guest_left (gpc s' t) + listener_left s' < guest_left (gpc s t) + listener_left s"
proof -
  have l: "lpc s = L_poll" "int_arg (c_req_bit (page s)) \<noteq> 0" "s' = s\<lparr>lpc := L_loaded (int_arg (c_req_bit (page s)))\<rparr>"
    using assms(2,3) by (auto simp: listener_load_def Let_def split: if_splits)
  then have "c_req_bit (page s) \<noteq> 0" by (auto simp: int_arg_def)
  then show ?thesis using l inv_load [OF _ assms(2)] assms(1) by (simp add: inside_def listener_left_def)
qed

lemma own_serve_left:
  assumes "inside t call s" "listener_serve H s = Some s'"
  shows "inside t call s' \<and> guest_left (gpc s' t) + listener_left s' < guest_left (gpc s t) + listener_left s"
proof -
  obtain req where l: "lpc s = L_loaded req" using assms(2) by (auto simp: listener_serve_def split: listener_pc.splits)
  have "listener_left s' = 0 \<and> gpc s' = gpc s"
  proof (cases "dispatch H req (lstn s)")
    case None
    then show ?thesis using assms(2) l by (auto simp: listener_serve_def listener_left_def)
  next
    case (Some k)
    then have "completes (page s) (comm k)" using dispatch_known [OF Some loaded_call(3) [OF assms(1) l]] by simp
    then show ?thesis using assms(2) l Some by (auto simp: listener_serve_def listener_left_def completes_def)
  qed
  then show ?thesis using inv_serve [OF _ assms(2)] assms(1) l by (simp add: inside_def listener_left_def)
qed

lemma own_step_left:
  "own_step H t s s' \<Longrightarrow> inside t call s \<Longrightarrow>
     inside t call s' \<and> guest_left (gpc s' t) + listener_left s' < guest_left (gpc s t) + listener_left s"
  by (induction rule: own_step.induct) (use own_notify_left own_load_left own_serve_left in blast)+

text \<open>Until the call has returned, one of the two has a step to take, unless the listener has aborted.\<close>

lemma own_step_possible:
  assumes "inside t call s" "lpc s \<noteq> L_dead" "\<And>r. gpc s t \<noteq> G_returned call r"
  shows "\<exists>s'. own_step H t s s'"
proof -
  have magic: "c_magic (page s) = COMM_MAGIC" using assms(1) by (simp add: inside_def sg_inv_def)
  have move: "\<exists>s'. own_step H t s s'" if "comm_sync_notify t s = Some (set_pc t pc s)" "pc \<noteq> gpc s t" for pc
  proof -
    have "gpc (set_pc t pc s) t \<noteq> gpc s t" using that(2) by simp
    then have "set_pc t pc s \<noteq> s" by metis
    then show ?thesis using own_notify [OF that(1)] by blast
  qed
  consider "gpc s t = G_published call" | "gpc s t = G_done call" | "gpc s t = G_polling call" "c_req_bit (page s) = 0"
    | "gpc s t = G_polling call" "c_req_bit (page s) \<noteq> 0" using assms(1,3) by (auto simp: inside_def)
  then show ?thesis
  proof cases
    case 1
    then show ?thesis using magic by (intro move [of "G_polling call"]) (simp_all add: comm_sync_notify_def)
  next
    case 2
    then show ?thesis by (intro move [of "G_returned call (c_ret (page s))"]) (simp_all add: comm_sync_notify_def)
  next
    case 3
    then show ?thesis by (intro move [of "G_done call"]) (simp_all add: comm_sync_notify_def)
  next
    case 4
    then have "owner_inv (G_polling call) s" using sg_inv_owner(2) [of s t] assms(1) by (simp add: inside_def)
    then have p: "pending call s" "call_req call \<in> set known_requests" using 4(2) by (auto simp: handled_def)
    then consider "lpc s = L_poll" | "lpc s = L_loaded (int_arg (call_req call))" using assms(2) by (auto simp: pending_def)
    then show ?thesis
    proof cases
      case 1
      let ?s = "s\<lparr>lpc := L_loaded (int_arg (call_req call))\<rparr>"
      have "listener_load s = Some ?s" using p 1 known_numbers [OF p(2)] by (simp add: listener_load_def pending_def)
      moreover have "lpc ?s \<noteq> lpc s" using 1 by simp
      then have "?s \<noteq> s" by metis
      ultimately show ?thesis by (blast intro: own_load)
    next
      case 2
      then obtain s' where "listener_serve H s = Some s'" "lpc s' \<noteq> lpc s" by (auto simp: listener_serve_def split: option.split)
      then show ?thesis by (metis own_serve)
    qed
  qed
qed

lemma own_steps_left:
  "(own_step H t ^^ n) s s' \<Longrightarrow> inside t call s \<Longrightarrow>
     inside t call s' \<and> n + guest_left (gpc s' t) + listener_left s' \<le> guest_left (gpc s t) + listener_left s"
proof (induction n arbitrary: s')
  case (Suc n)
  from Suc.prems(1) obtain u where "(own_step H t ^^ n) s u" "own_step H t u s'" by auto
  then show ?case using Suc.IH [of u] Suc.prems(2) own_step_left [of H t u s' call] by fastforce
qed simp

lemma own_run_ends:
  "inside t call s \<Longrightarrow> \<exists>s'. (own_step H t)\<^sup>*\<^sup>* s s' \<and> inside t call s' \<and> ((\<exists>r. gpc s' t = G_returned call r) \<or> lpc s' = L_dead)"
proof (induction "guest_left (gpc s t) + listener_left s" arbitrary: s rule: less_induct)
  case less
  show ?case
  proof (cases "(\<exists>r. gpc s t = G_returned call r) \<or> lpc s = L_dead")
    case True
    then show ?thesis using less.prems by blast
  next
    case False
    then obtain u where u: "own_step H t s u" using own_step_possible [OF less.prems] by blast
    note v = own_step_left [OF u less.prems]
    then obtain s' where "(own_step H t)\<^sup>*\<^sup>* u s'" "inside t call s'" "(\<exists>r. gpc s' t = G_returned call r) \<or> lpc s' = L_dead"
      using less.hyps [of u] by blast
    then show ?thesis using u by (meson converse_rtranclp_into_rtranclp)
  qed
qed

subsection \<open>A sample run\<close>

definition demo_call :: sg_call where
  "demo_call = \<lparr>call_req = OPEN, call_p1 = Some 0x5000, call_p2 = Some 2, call_p3 = Some 0,
     call_p4 = None, call_p5 = None\<rparr>"

definition demo_start :: "cint sg_state" where
  "demo_start = \<lparr>lstn = demo_listener\<lparr>comm := demo_page\<lparr>c_req_bit := 0\<rparr>\<rparr>, lpc = L_poll,
     comm_lock = None, gpc = (\<lambda>t. G_idle), history = []\<rparr>"

definition demo_published :: "cint sg_state" where
  "demo_published = demo_start\<lparr>lstn := demo_listener, comm_lock := Some 5,
     gpc := (\<lambda>t. G_idle)(5 := G_published demo_call)\<rparr>"

lemma demo_published_reachable: "sg_reachable demo_host demo_published"
proof -
  have s0: "sg_reachable demo_host demo_start"
    by (rule sg_reachable.start) (simp add: sg_init_def demo_start_def demo_page_def)
  define s1 where "s1 = set_pc 5 (G_locked demo_call) (demo_start\<lparr>comm_lock := Some 5\<rparr>)"
  have "libos_syscall_acquire_libos_lock 5 demo_call demo_start = Some s1"
    by (simp add: libos_syscall_acquire_libos_lock_def s1_def demo_start_def)
  moreover have "call_req demo_call \<in> set known_requests" by (simp add: demo_call_def known_requests_def)
  ultimately have s1: "sg_reachable demo_host s1" by (blast intro: sg_reachable.step [OF s0] sg_step.acquire)
  define s2 where "s2 = set_pc 5 (G_filled demo_call) s1"
  have "write_params 5 s1 = Some s2"
    by (simp add: write_params_def s2_def s1_def set_pc_def set_page_def fill_page_def param_def demo_call_def
        demo_start_def demo_page_def)
  then have s2: "sg_reachable demo_host s2" by (blast intro: sg_reachable.step [OF s1] sg_step.params)
  have "write_request 5 s2 = Some demo_published"
    by (simp add: write_request_def s2_def s1_def set_pc_def set_page_def demo_published_def demo_call_def
        demo_start_def demo_page_def demo_listener_def)
  then show ?thesis by (blast intro: sg_reachable.step [OF s2] sg_step.request)
qed

text \<open>A run in which the call has returned and its thread has released the lock.\<close>

lemma demo_returned: "\<exists>s r p. sg_reachable demo_host s \<and> history s = [Returned 5 demo_call r, Served p r]"
proof -
  define l where "l = the (dispatch demo_host (int_arg OPEN) demo_listener)"
  have l: "dispatch demo_host (int_arg OPEN) demo_listener = Some l"
    using dispatch_None [of demo_host "int_arg OPEN"] by (cases "dispatch demo_host (int_arg OPEN) demo_listener")
      (auto simp: l_def request_defs int_arg_def)
  have r: "c_req_bit demo_page = OPEN" "comm demo_listener = demo_page" "c_magic demo_page = COMM_MAGIC"
    by (simp_all add: demo_page_def demo_listener_def)
  have "completes demo_page (comm l)" using dispatch_known [OF l] r(2) by (simp add: known_requests_def request_defs int_arg_def)
  then have c: "c_req_bit (comm l) = 0" "c_magic (comm l) = COMM_MAGIC" using r(3) by (auto simp: completes_def)
  have nz: "int_arg OPEN \<noteq> 0" by (simp add: request_defs int_arg_def)
  let ?p = "demo_published" and ?r = "c_ret (comm l)"
  define s1 where "s1 = ?p\<lparr>lpc := L_loaded (int_arg OPEN)\<rparr>"
  define s2 where "s2 = s1\<lparr>lpc := L_poll, lstn := l, history := [Served demo_page ?r]\<rparr>"
  define s3 where "s3 = set_pc 5 (G_polling demo_call) s2"
  define s4 where "s4 = set_pc 5 (G_done demo_call) s3"
  define s5 where "s5 = set_pc 5 (G_returned demo_call ?r) s4"
  define s6 where "s6 = set_pc 5 G_idle (s5\<lparr>comm_lock := None, history := Returned 5 demo_call ?r # history s5\<rparr>)"
  have p: "lstn ?p = demo_listener" "lpc ?p = L_poll" "history ?p = []" "gpc ?p 5 = G_published demo_call"
    by (simp_all add: demo_published_def demo_start_def)
  have "listener_load ?p = Some s1" using p r nz by (simp add: listener_load_def s1_def)
  moreover have "listener_serve demo_host s1 = Some s2" using p l r by (simp add: listener_serve_def s1_def s2_def)
  moreover have "comm_sync_notify 5 s2 = Some s3" using p c by (simp add: comm_sync_notify_def s1_def s2_def s3_def)
  moreover have "comm_sync_notify 5 s3 = Some s4" using c by (simp add: comm_sync_notify_def s3_def s4_def s2_def)
  moreover have "comm_sync_notify 5 s4 = Some s5" by (simp add: comm_sync_notify_def s4_def s5_def s3_def s2_def)
  moreover have "libos_syscall_relinquish_libos_lock 5 s5 = Some s6" by (simp add: libos_syscall_relinquish_libos_lock_def s5_def s6_def)
  ultimately have "sg_reachable demo_host s6"
    by (meson demo_published_reachable sg_reachable.step sg_step.load sg_step.serve sg_step.notify sg_step.relinquish)
  moreover have "history s6 = [Returned 5 demo_call ?r, Served demo_page ?r]"
    by (simp add: s6_def s5_def s4_def s3_def s2_def)
  ultimately show ?thesis by blast
qed

theorem sg_calls_linear_witness:
  "{t. gpc demo_published t \<noteq> G_idle} = {5} \<and>
   (\<exists>s p r. sg_reachable demo_host s \<and> history s = [Returned 5 demo_call r, Served p r] \<and> c_req_bit p = OPEN \<and> carries demo_call p)"
proof
  have "gpc demo_published 5 \<noteq> G_idle" by (simp add: demo_published_def)
  then show "{t. gpc demo_published t \<noteq> G_idle} = {5}"
    using conjunct1 [OF sg_calls_linear [OF demo_published_reachable]] by blast
  obtain s r p where s: "sg_reachable demo_host s" "history s = [Returned 5 demo_call r, Served p r]" using demo_returned by blast
  from conjunct2 [OF sg_calls_linear [OF s(1)]] s show "\<exists>s p r. sg_reachable demo_host s \<and>
      history s = [Returned 5 demo_call r, Served p r] \<and> c_req_bit p = OPEN \<and> carries demo_call p"
    by (auto simp: demo_call_def)
qed

text \<open>C23: a published call comes to its result by the steps of its own thread and of the listener alone. Whatever
  these two have done since, and in whatever order: as long as the call has not returned and the listener has not
  aborted, one of them has a step to take that changes something; after at most five such steps there is none left, so
  that every such run ends with the call returned or the listener aborted.\<close>

theorem sg_call_returns:
  assumes "sg_reachable H s" "gpc s t = G_published call \<or> gpc s t = G_polling call"
  shows "(\<forall>n s'. (own_step H t ^^ n) s s' \<longrightarrow> n \<le> 5 \<and>
      ((\<exists>r. gpc s' t = G_returned call r) \<or> lpc s' = L_dead \<or> (\<exists>s''. own_step H t s' s''))) \<and>
    (\<exists>s'. (own_step H t)\<^sup>*\<^sup>* s s' \<and> ((\<exists>r. gpc s' t = G_returned call r) \<or> lpc s' = L_dead))"
proof -
  have i: "inside t call s" using sg_reachable_inv [OF assms(1)] assms(2) by (auto simp: inside_def)
  have "guest_left (gpc s t) + listener_left s \<le> 5"
    using assms(2) by (auto simp: listener_left_def split: listener_pc.split)
  then have "n \<le> 5 \<and> ((\<exists>r. gpc s' t = G_returned call r) \<or> lpc s' = L_dead \<or> (\<exists>s''. own_step H t s' s''))"
    if "(own_step H t ^^ n) s s'" for n s'
    using own_steps_left [OF that i] own_step_possible [of t call s' H] by auto
  then show ?thesis using own_run_ends [OF i, of H] by blast
qed

theorem sg_call_returns_witness:
  "\<exists>s'. (own_step demo_host 5)\<^sup>*\<^sup>* demo_published s' \<and> ((\<exists>r. gpc s' 5 = G_returned demo_call r) \<or> lpc s' = L_dead)"
  using sg_call_returns [OF demo_published_reachable, of 5 demo_call] by (simp add: demo_published_def)

end
