(* ===== verification/Gem_Arena.thy ===== *)
theory Gem_Arena
  imports Sg_Listener
begin

text \<open>
  The two arenas that back GEM objects: what sequences of allocation requests get from the
  listener's bump allocator.
\<close>

section \<open>Assumptions on the host and layout of the arenas\<close>

text \<open>
  From the manual page of \<^verbatim>\<open>munmap\<close>: it succeeds only on a page-aligned address and a non-empty
  range of the user address space.
\<close>

definition munmap_spec :: "'h host_ops \<Rightarrow> bool" where
  "munmap_spec H \<longleftrightarrow> (\<forall>a n h h'. h_munmap H a n h = (0, h') \<longrightarrow>
     unat a mod 4096 = 0 \<and> 0 < unat n \<and> unat a + unat n \<le> 2 ^ 47)"

definition region :: "u64w \<Rightarrow> u64w \<Rightarrow> nat set" where
  "region base n = {unat base ..< unat base + unat n}"

definition arenas_ok :: "'h listener \<Rightarrow> bool" where
  "arenas_ok s \<longleftrightarrow>
     unat (data_region_actual_address s) + unat DATA_SIZE < 2 ^ 47 \<and>
     unat (hugepage_host_addr s) + unat HUGE_DATA_SIZE < 2 ^ 47 \<and>
     region (data_region_actual_address s) DATA_SIZE \<inter> region (hugepage_host_addr s) HUGE_DATA_SIZE = {}"

text \<open>
  The position of a bump pointer: identity mapped, behind its base. It can leave its arena by at
  most the page that the regular arena adds.
\<close>

definition slots_ok :: "gem_slots \<Rightarrow> u64w \<Rightarrow> u64w \<Rightarrow> bool" where
  "slots_ok slots base n \<longleftrightarrow> host_address slots = guest_address slots \<and>
     unat base \<le> unat (host_address slots) \<and>
     unat (host_address slots) \<le> unat base + unat n + 4096"

definition gem_ok :: "'h listener \<Rightarrow> bool" where
  "gem_ok s \<longleftrightarrow> arenas_ok s \<and>
     slots_ok (gem_slots s) (data_region_actual_address s) DATA_SIZE \<and>
     slots_ok (gem_hugepage_slots s) (hugepage_host_addr s) HUGE_DATA_SIZE"

text \<open>A grant of the listener lies in the free part of an arena.\<close>

definition free_part :: "'h listener \<Rightarrow> nat set" where
  "free_part s =
     {unat (host_address (gem_slots s)) ..< unat (data_region_actual_address s) + unat DATA_SIZE} \<union>
     {unat (host_address (gem_hugepage_slots s)) ..< unat (hugepage_host_addr s) + unat HUGE_DATA_SIZE}"

section \<open>One allocation\<close>

lemma size_consts [simp]: "unat DATA_SIZE = 0xC0000000" "unat HUGE_DATA_SIZE = 0x40000000"
  "unat PAGE_SIZE = 4096"
  by (simp_all add: DATA_SIZE_def HUGE_DATA_SIZE_def PAGE_SIZE_def)

lemma unat_add_small: "unat a + unat b < 2 ^ 64 \<Longrightarrow> unat ((a :: u64w) + b) = unat a + unat b"
  by (simp add: unat_word_ariths)

lemma unat_mult_small: "unat a * unat b < 2 ^ 64 \<Longrightarrow> unat ((a :: u64w) * b) = unat a * unat b"
  by (simp add: unat_word_ariths)

lemma int_ret_arg_small:
  assumes "unat w < 2 ^ 31"
  shows "int_ret (int_arg w) = w"
proof -
  have "unat (take_bit 31 w) = unat w"
    using assms by (simp add: unsigned_take_bit_eq take_bit_nat_eq_self)
  then have w: "take_bit 31 w = w"
    by (simp only: unsigned_word_eqI)
  have "bit w n \<Longrightarrow> n < 31" for n
    by (subst (asm) w [symmetric]) (simp add: bit_take_bit_iff)
  then have b: "31 \<le> n \<Longrightarrow> \<not> bit w n" for n by (meson not_le)
  show ?thesis
    unfolding int_ret_def int_arg_def
  proof (rule bit_word_eqI)
    fix n :: nat
    assume "n < LENGTH(64)"
    then show "bit (scast (ucast w :: cint) :: u64w) n = bit w n"
      by (cases "n < 31") (simp_all add: bit_simps min_def b)
  qed
qed

lemma unat_regular_advance:
  assumes "unat sz < 0xC0000000"
  shows "unat (gem_regular_advance sz) = 4096 * ((4096 + unat sz) div 4096)"
proof -
  have "unat ((PAGE_SIZE + sz) div PAGE_SIZE) = (4096 + unat sz) div 4096"
    using assms by (simp add: unat_div unat_add_small)
  moreover from this have "int_ret (int_arg ((PAGE_SIZE + sz) div PAGE_SIZE)) = (PAGE_SIZE + sz) div PAGE_SIZE"
    using assms by (intro int_ret_arg_small) simp
  ultimately show ?thesis
    using assms by (simp add: gem_regular_advance_def unat_mult_small)
qed

lemma regular_advance_bounds:
  assumes "unat sz < 0xC0000000"
  shows "unat sz < unat (gem_regular_advance sz)" "unat (gem_regular_advance sz) \<le> unat sz + 4096"
proof -
  have "4096 * ((4096 + n) div 4096) = n - n mod 4096 + 4096" for n :: nat
    using div_add_self1 [of 4096 n] by (simp add: minus_mod_eq_mult_div)
  then have "n < 4096 * ((4096 + n) div 4096)" "4096 * ((4096 + n) div 4096) \<le> n + 4096" for n :: nat
    using mod_less_divisor [of 4096 n] by simp_all
  then show "unat sz < unat (gem_regular_advance sz)" "unat (gem_regular_advance sz) \<le> unat sz + 4096"
    unfolding unat_regular_advance [OF assms] by simp_all
qed

lemma capacity_bound:
  assumes "gem_bucket_has_capacity slots sz base n" "unat (host_address slots) + unat sz \<le> 2 ^ 47"
    and "unat base + unat n < 2 ^ 47"
  shows "unat (host_address slots) + unat sz < unat base + unat n"
  using assms by (simp add: gem_bucket_has_capacity_def word_less_nat_alt unat_add_small)

lemma gem_map_Some:
  "gem_map H c slots cap h = Some h' \<Longrightarrow>
     host_address slots = guest_address slots \<and> cap \<and>
     (\<exists>h1. h_munmap H (host_address slots) (c_p1 c) h = (0, h1))"
  by (auto simp: gem_map_def Let_def split: if_splits prod.splits)

text \<open>What a successful mapping in one arena says about its range.\<close>

lemma gem_map_range:
  assumes spec: "munmap_spec H" and slots: "slots_ok slots base n" and base: "unat base + unat n < 2 ^ 47"
    and map: "gem_map H c slots (gem_bucket_has_capacity slots (c_p1 c) base n) h = Some h'"
  shows "unat (host_address slots) mod 4096 = 0" "0 < unat (c_p1 c)"
    "unat base \<le> unat (host_address slots)"
    "unat (host_address slots) + unat (c_p1 c) < unat base + unat n"
proof -
  have "unat (host_address slots) mod 4096 = 0 \<and> 0 < unat (c_p1 c) \<and>
      unat (host_address slots) + unat (c_p1 c) \<le> 2 ^ 47"
    using gem_map_Some [OF map] spec unfolding munmap_spec_def by blast
  with gem_map_Some [OF map] slots base capacity_bound [of slots "c_p1 c" base n]
  show "unat (host_address slots) mod 4096 = 0" "0 < unat (c_p1 c)"
    "unat base \<le> unat (host_address slots)"
    "unat (host_address slots) + unat (c_p1 c) < unat base + unat n"
    by (simp_all add: slots_ok_def)
qed

lemma slots_advance:
  assumes "slots_ok slots base n" "unat (host_address slots) + unat sz < unat base + unat n"
    and "unat base + unat n < 2 ^ 47" "unat sz \<le> unat d" "unat d \<le> unat sz + 4096"
  shows "slots_ok (advance_slots d slots) base n"
    "unat (host_address slots) + unat sz \<le> unat (host_address (advance_slots d slots))"
proof -
  have "unat (host_address slots + d) = unat (host_address slots) + unat d"
    using assms by (intro unat_add_small) simp
  with assms show "slots_ok (advance_slots d slots) base n"
    "unat (host_address slots) + unat sz \<le> unat (host_address (advance_slots d slots))"
    unfolding slots_ok_def advance_slots_def by auto
qed

definition gem_granted :: "'h listener \<Rightarrow> u64w \<Rightarrow> u64w \<Rightarrow> 'h listener \<Rightarrow> bool" where
  "gem_granted s a n s' \<longleftrightarrow> gem_ok s' \<and> unat a mod 4096 = 0 \<and> 0 < unat n \<and>
     region a n \<subseteq> free_part s \<and> free_part s' \<subseteq> free_part s \<and> free_part s' \<inter> region a n = {}"

lemma gem_regular_granted:
  assumes spec: "munmap_spec H" and ok: "gem_ok s"
    and map: "gem_map H (comm s) (gem_slots s)
      (gem_bucket_has_capacity (gem_slots s) (c_p1 (comm s)) (data_region_actual_address s) DATA_SIZE) h = Some h'"
    and s': "gem_slots s' = advance_slots (gem_regular_advance (c_p1 (comm s))) (gem_slots s)"
      "gem_hugepage_slots s' = gem_hugepage_slots s"
      "data_region_actual_address s' = data_region_actual_address s"
      "hugepage_host_addr s' = hugepage_host_addr s"
  shows "gem_granted s (host_address (gem_slots s)) (c_p1 (comm s)) s'"
proof -
  have a: "arenas_ok s" "slots_ok (gem_slots s) (data_region_actual_address s) DATA_SIZE"
      "slots_ok (gem_hugepage_slots s) (hugepage_host_addr s) HUGE_DATA_SIZE"
    using ok by (simp_all add: gem_ok_def)
  have base: "unat (data_region_actual_address s) + unat DATA_SIZE < 2 ^ 47"
    using a(1) by (simp add: arenas_ok_def)
  note r = gem_map_range [OF spec a(2) base map]
  have sz: "unat (c_p1 (comm s)) < 0xC0000000" using r(3,4) by simp
  note adv = slots_advance [OF a(2) r(4) base less_imp_le [OF regular_advance_bounds(1) [OF sz]]
      regular_advance_bounds(2) [OF sz]]
  have "region (host_address (gem_slots s)) (c_p1 (comm s)) \<subseteq> region (data_region_actual_address s) DATA_SIZE"
    using r(3,4) by (auto simp: region_def)
  moreover have "{unat (host_address (gem_hugepage_slots s)) ..< unat (hugepage_host_addr s) + unat HUGE_DATA_SIZE}
      \<subseteq> region (hugepage_host_addr s) HUGE_DATA_SIZE"
    using a(3) by (auto simp: region_def slots_ok_def)
  ultimately have "{unat (host_address (gem_hugepage_slots s)) ..< unat (hugepage_host_addr s) + unat HUGE_DATA_SIZE}
      \<inter> region (host_address (gem_slots s)) (c_p1 (comm s)) = {}"
    using a(1) unfolding arenas_ok_def by blast
  then show ?thesis
    using r adv a s' unfolding gem_granted_def gem_ok_def arenas_ok_def free_part_def region_def
    by auto
qed

lemma gem_huge_granted:
  assumes spec: "munmap_spec H" and ok: "gem_ok s"
    and map: "gem_map H (comm s) (gem_hugepage_slots s)
      (gem_bucket_has_capacity (gem_hugepage_slots s) (c_p1 (comm s)) (hugepage_host_addr s) HUGE_DATA_SIZE) h = Some h'"
    and s': "gem_hugepage_slots s' = advance_slots (c_p1 (comm s)) (gem_hugepage_slots s)"
      "gem_slots s' = gem_slots s"
      "data_region_actual_address s' = data_region_actual_address s"
      "hugepage_host_addr s' = hugepage_host_addr s"
  shows "gem_granted s (host_address (gem_hugepage_slots s)) (c_p1 (comm s)) s'"
proof -
  have a: "arenas_ok s" "slots_ok (gem_slots s) (data_region_actual_address s) DATA_SIZE"
      "slots_ok (gem_hugepage_slots s) (hugepage_host_addr s) HUGE_DATA_SIZE"
    using ok by (simp_all add: gem_ok_def)
  have base: "unat (hugepage_host_addr s) + unat HUGE_DATA_SIZE < 2 ^ 47"
    using a(1) by (simp add: arenas_ok_def)
  note r = gem_map_range [OF spec a(3) base map]
  note adv = slots_advance [OF a(3) r(4) base le_refl le_add1]
  have "region (host_address (gem_hugepage_slots s)) (c_p1 (comm s)) \<subseteq> region (hugepage_host_addr s) HUGE_DATA_SIZE"
    using r(3,4) by (auto simp: region_def)
  moreover have "{unat (host_address (gem_slots s)) ..< unat (data_region_actual_address s) + unat DATA_SIZE}
      \<subseteq> region (data_region_actual_address s) DATA_SIZE"
    using a(2) by (auto simp: region_def slots_ok_def)
  ultimately have "{unat (host_address (gem_slots s)) ..< unat (data_region_actual_address s) + unat DATA_SIZE}
      \<inter> region (host_address (gem_hugepage_slots s)) (c_p1 (comm s)) = {}"
    using a(1) unfolding arenas_ok_def by blast
  then show ?thesis
    using r adv a s' unfolding gem_granted_def gem_ok_def arenas_ok_def free_part_def region_def
    by auto
qed

lemma gem_allocation_granted:
  assumes "munmap_spec H" "gem_ok s" "serve_gem_allocation H s = Some s'"
  shows "gem_granted s (c_ret (comm s')) (c_p1 (comm s)) s'"
  using assms(3) unfolding serve_gem_allocation_def Let_def
  by (auto simp: complete_request_def set_ret_def split: if_splits
      intro!: gem_regular_granted [OF assms(1,2)] gem_huge_granted [OF assms(1,2)])

section \<open>Sequences of requests\<close>

text \<open>
  An allocator that hands out ranges of a shrinking free set, and the ranges a sequence of
  requests gets from it.
\<close>

fun grants :: "('r \<Rightarrow> 's \<Rightarrow> (nat set option \<times> 's) option) \<Rightarrow> 'r list \<Rightarrow> 's \<Rightarrow> (nat set list \<times> 's) option" where
  "grants step [] s = Some ([], s)"
| "grants step (r # rs) s =
     (case step r s of
        None \<Rightarrow> None
      | Some (g, s) \<Rightarrow>
          (case grants step rs s of
             None \<Rightarrow> None
           | Some (gs, s) \<Rightarrow> Some ((case g of None \<Rightarrow> gs | Some R \<Rightarrow> R # gs), s)))"

locale range_allocator =
  fixes step :: "'r \<Rightarrow> 's \<Rightarrow> (nat set option \<times> 's) option"
    and ok :: "'s \<Rightarrow> bool"
    and free :: "'s \<Rightarrow> nat set"
  assumes step_ok: "ok s \<Longrightarrow> step r s = Some (g, s') \<Longrightarrow> ok s' \<and> free s' \<subseteq> free s"
    and step_grant: "ok s \<Longrightarrow> step r s = Some (Some R, s') \<Longrightarrow> R \<noteq> {} \<and> R \<subseteq> free s \<and> R \<inter> free s' = {}"
begin

lemma grants_disjoint:
  "ok s \<Longrightarrow> grants step rs s = Some (gs, s') \<Longrightarrow>
     ok s' \<and> free s' \<subseteq> free s \<and> (\<forall>R\<in>set gs. R \<noteq> {} \<and> R \<subseteq> free s \<and> R \<inter> free s' = {}) \<and>
     sorted_wrt (\<lambda>R S. R \<inter> S = {}) gs"
proof (induction rs arbitrary: s gs)
  case (Cons r rs)
  from Cons.prems(2) obtain g s1 gs1 where r: "step r s = Some (g, s1)"
      "grants step rs s1 = Some (gs1, s')" "gs = (case g of None \<Rightarrow> gs1 | Some R \<Rightarrow> R # gs1)"
    by (auto split: option.splits)
  have s1: "ok s1" "free s1 \<subseteq> free s" using step_ok [OF Cons.prems(1) r(1)] by auto
  note IH = Cons.IH [OF s1(1) r(2)]
  show ?case
  proof (cases g)
    case None
    with IH s1(2) r(3) show ?thesis by auto
  next
    case (Some R)
    have R: "R \<noteq> {}" "R \<subseteq> free s" "R \<inter> free s1 = {}"
      using step_grant [OF Cons.prems(1), of r R s1] r(1) Some by auto
    have sub: "free s' \<subseteq> free s1" "\<forall>S\<in>set gs1. S \<noteq> {} \<and> S \<subseteq> free s1 \<and> S \<inter> free s' = {}"
      using IH by simp_all
    have "S \<noteq> {} \<and> S \<subseteq> free s \<and> S \<inter> free s' = {} \<and> R \<inter> S = {}" if "S \<in> set gs1" for S
      using bspec [OF sub(2) that] s1(2) R(3) by auto
    moreover have "R \<inter> free s' = {}" "free s' \<subseteq> free s" using sub(1) R(3) s1(2) by auto
    ultimately show ?thesis using IH R Some r(3) by simp
  qed
qed simp

end

text \<open>
  The listener as such an allocator: the guest writes a page, the listener handles it, and an
  allocation grants the range of the returned address.
\<close>

definition gem_step :: "'h host_ops \<Rightarrow> comm_page \<Rightarrow> 'h listener \<Rightarrow> (nat set option \<times> 'h listener) option" where
  "gem_step H c s =
     map_option (\<lambda>s'. (if int_arg (c_req_bit c) = int_arg GEM_ALLOCATION
                       then Some (region (c_ret (comm s')) (c_p1 c)) else None, s'))
       (listener_step H (s\<lparr>comm := c\<rparr>))"

definition gem_state :: "'h listener \<Rightarrow> gem_slots \<times> gem_slots \<times> u64w \<times> u64w" where
  "gem_state s = (gem_slots s, gem_hugepage_slots s, data_region_actual_address s, hugepage_host_addr s)"

lemma gem_state_simps [simp]:
  "gem_state (s\<lparr>comm := c\<rparr>) = gem_state s" "gem_state (s\<lparr>host := h\<rparr>) = gem_state s"
  "gem_state (s\<lparr>frame_count := n\<rparr>) = gem_state s" "gem_state (s\<lparr>syscall_logging_enabled := b\<rparr>) = gem_state s"
  "gem_state (s\<lparr>win_width := w, win_height := v\<rparr>) = gem_state s"
  "gem_state (complete_request s) = gem_state s" "gem_state (set_ret r s) = gem_state s"
  "gem_state (answer rh s) = gem_state s"
  by (simp_all add: gem_state_def complete_request_def set_ret_def answer_def)

lemma gem_state_serve [simp]:
  "gem_state (serve_open H s) = gem_state s" "gem_state (serve_fcntl H s) = gem_state s"
  "gem_state (serve_host_flock H s) = gem_state s" "gem_state (serve_host_ftruncate H s) = gem_state s"
  "gem_state (serve_dup H s) = gem_state s" "gem_state (serve_dup_identity H s) = gem_state s"
  "gem_state (serve_semop H s) = gem_state s" "gem_state (serve_update_window_size H s) = gem_state s"
  by (simp_all add: serve_open_def serve_fcntl_def serve_host_flock_def serve_host_ftruncate_def
      serve_dup_def serve_dup_identity_def serve_semop_def serve_update_window_size_def Let_def
      split: prod.split)

lemma gem_state_cong:
  "gem_state s = gem_state s' \<Longrightarrow> gem_ok s = gem_ok s' \<and> free_part s = free_part s'"
  by (simp add: gem_state_def gem_ok_def arenas_ok_def free_part_def)

lemma dispatch_frame:
  "dispatch H req s = Some s' \<Longrightarrow> ucast req \<noteq> GEM_ALLOCATION \<Longrightarrow> gem_state s' = gem_state s"
  by (auto simp: dispatch_def forward_defs Let_def split: if_split_asm)

lemma gem_request_iff: "ucast req = GEM_ALLOCATION \<longleftrightarrow> req = int_arg GEM_ALLOCATION" for req :: cint
proof
  assume "ucast req = GEM_ALLOCATION"
  then have "int_arg (ucast req) = int_arg GEM_ALLOCATION" by simp
  moreover have "int_arg (ucast req) = req"
    unfolding int_arg_def by (rule bit_word_eqI) (simp add: bit_simps)
  ultimately show "req = int_arg GEM_ALLOCATION" by simp
qed (simp add: int_arg_def GEM_ALLOCATION_def)

lemma dispatch_gem: "dispatch H (int_arg GEM_ALLOCATION) s = serve_gem_allocation H s"
  by (simp add: dispatch_def forward_defs Let_def int_arg_def request_defs)

lemma gem_ok_comm [simp]: "gem_ok (s\<lparr>comm := c\<rparr>) = gem_ok s" "free_part (s\<lparr>comm := c\<rparr>) = free_part s"
  using gem_state_cong [of "s\<lparr>comm := c\<rparr>" s] by simp_all

lemma gem_step_cases:
  assumes "gem_step H c s = Some (g, s')"
  obtains (grant) "g = Some (region (c_ret (comm s')) (c_p1 c))" "serve_gem_allocation H (s\<lparr>comm := c\<rparr>) = Some s'"
  | (other) "g = None" "gem_state s' = gem_state s"
proof (cases "int_arg (c_req_bit c) = int_arg GEM_ALLOCATION")
  case True
  moreover have "int_arg GEM_ALLOCATION \<noteq> 0" by (simp add: int_arg_def GEM_ALLOCATION_def)
  ultimately show thesis
    using assms grant by (auto simp: gem_step_def listener_step_def dispatch_gem)
next
  case False
  with assms have "g = None" "listener_step H (s\<lparr>comm := c\<rparr>) = Some s'" by (auto simp: gem_step_def)
  moreover from this(2) False have "gem_state s' = gem_state s"
    using dispatch_frame [of H "int_arg (c_req_bit c)" "s\<lparr>comm := c\<rparr>" s']
    by (auto simp: listener_step_def Let_def gem_request_iff split: if_splits)
  ultimately show thesis using other by blast
qed

lemma region_nonempty: "0 < unat n \<Longrightarrow> region a n \<noteq> {}"
  by (simp add: region_def)

interpretation gem: range_allocator "gem_step H" "\<lambda>s. munmap_spec H \<and> gem_ok s" free_part for H :: "'h host_ops"
proof
  fix s :: "'h listener" and c g s'
  assume ok: "munmap_spec H \<and> gem_ok s" and step: "gem_step H c s = Some (g, s')"
  from step show "(munmap_spec H \<and> gem_ok s') \<and> free_part s' \<subseteq> free_part s"
  proof (cases rule: gem_step_cases)
    case grant
    with gem_allocation_granted [of H "s\<lparr>comm := c\<rparr>" s'] ok show ?thesis by (simp add: gem_granted_def)
  next
    case other
    with ok gem_state_cong [of s' s] show ?thesis by simp
  qed
next
  fix s :: "'h listener" and c R s'
  assume ok: "munmap_spec H \<and> gem_ok s" and step: "gem_step H c s = Some (Some R, s')"
  from step show "R \<noteq> {} \<and> R \<subseteq> free_part s \<and> R \<inter> free_part s' = {}"
  proof (cases rule: gem_step_cases)
    case grant
    with gem_allocation_granted [of H "s\<lparr>comm := c\<rparr>" s'] ok region_nonempty show ?thesis
      by (auto simp: gem_granted_def Int_commute)
  qed simp
qed

text \<open>C2: however the guest interleaves requests, the ranges the listener returns for GEM
  allocations are non-empty, pairwise disjoint, inside the two arenas and disjoint from what is
  still free, and the bump pointers stay identity mapped. This covers the fallback from one arena
  to the other and sizes whose sum with the pointer would wrap around.\<close>

theorem gem_arena_safe:
  assumes "munmap_spec H" "gem_ok s" "grants (gem_step H) cs s = Some (gs, s')"
  shows "gem_ok s' \<and> sorted_wrt (\<lambda>R S. R \<inter> S = {}) gs \<and>
    (\<forall>R\<in>set gs. R \<noteq> {} \<and> R \<inter> free_part s' = {} \<and>
       R \<subseteq> region (data_region_actual_address s) DATA_SIZE \<union> region (hugepage_host_addr s) HUGE_DATA_SIZE)"
proof -
  have "free_part s \<subseteq> region (data_region_actual_address s) DATA_SIZE \<union> region (hugepage_host_addr s) HUGE_DATA_SIZE"
    using assms(2) by (auto simp: gem_ok_def slots_ok_def free_part_def region_def)
  with gem.grants_disjoint [of H s cs gs s'] assms show ?thesis by auto
qed

text \<open>A host on which unmapping follows the manual page and fixed mappings succeed.\<close>

definition strict_host :: "cint host_ops" where
  "strict_host = demo_host\<lparr>h_munmap := (\<lambda>a n h.
     (if unat a mod 4096 = 0 \<and> 0 < unat n \<and> unat a + unat n \<le> 2 ^ 47 then 0 else - 1, h))\<rparr>"

definition gem_request :: "u64w \<Rightarrow> comm_page" where
  "gem_request n = demo_page\<lparr>c_req_bit := GEM_ALLOCATION, c_p1 := n\<rparr>"

lemma strict_host_spec: "munmap_spec strict_host"
  by (auto simp: munmap_spec_def strict_host_def split: if_splits)

lemma demo_gem_ok: "gem_ok demo_listener"
  by (simp add: gem_ok_def arenas_ok_def slots_ok_def region_def demo_listener_def)

lemma dispatch_gem_number: "dispatch H 3 s = serve_gem_allocation H s"
  using dispatch_gem [of H s] by (simp add: int_arg_def GEM_ALLOCATION_def)

lemmas gem_eval = gem_step_def listener_step_def int_arg_def GEM_ALLOCATION_def dispatch_gem_number
  serve_gem_allocation_def gem_map_def gem_bucket_has_capacity_def gem_use_hugepage_def Let_def
  gem_request_def strict_host_def HUGE_PAGE_def DATA_SIZE_def HUGE_DATA_SIZE_def MAP_FAILED_def

theorem gem_arena_safe_witness:
  "\<exists>a b s'. grants (gem_step strict_host) [gem_request 0x3000, gem_request 0x200000] demo_listener =
     Some ([a, b], s') \<and> a \<inter> b = {}"
proof -
  obtain a b s' where g: "grants (gem_step strict_host) [gem_request 0x3000, gem_request 0x200000] demo_listener =
     Some ([a, b], s')"
    by (auto simp: gem_eval demo_sg_defs set_ret_def complete_request_def advance_slots_def)
  from gem_arena_safe [OF strict_host_spec demo_gem_ok g] g show ?thesis by auto
qed

section \<open>When an allocation ends the process\<close>

definition host_maps :: "'h host_ops \<Rightarrow> bool" where
  "host_maps H \<longleftrightarrow>
     (\<forall>a n h. unat a mod 4096 = 0 \<and> 0 < unat n \<and> unat a + unat n \<le> 2 ^ 47 \<longrightarrow> fst (h_munmap H a n h) = 0) \<and>
     (\<forall>a n p f fd off h. fst (h_mmap H a n p f fd off h) = a)"

lemma gem_map_succeeds:
  assumes "host_maps H" "slots_ok slots base n" "unat base + unat n < 2 ^ 47"
    and "unat (host_address slots) mod 4096 = 0" "0 < unat (c_p1 c)" "unat (c_p1 c) \<le> 2 ^ 46"
  shows "gem_map H c slots (gem_bucket_has_capacity slots (c_p1 c) base n) h = None \<longleftrightarrow>
    \<not> gem_bucket_has_capacity slots (c_p1 c) base n"
proof (cases "gem_bucket_has_capacity slots (c_p1 c) base n")
  case True
  have "unat (host_address slots + c_p1 c) = unat (host_address slots) + unat (c_p1 c)"
    using assms(2,3,6) by (intro unat_add_small) (auto simp: slots_ok_def)
  with True assms(3) have "unat (host_address slots) + unat (c_p1 c) \<le> 2 ^ 47"
    by (simp add: gem_bucket_has_capacity_def word_less_nat_alt unat_add_small)
  then have un: "fst (h_munmap H (host_address slots) (c_p1 c) h) = 0" for h
    using assms(1,4,5) by (simp add: host_maps_def)
  have "host_address slots \<noteq> MAP_FAILED" using assms(4) by (auto simp: MAP_FAILED_def unsigned_minus_1_eq_mask mask_eq_exp_minus_1)
  then show ?thesis
    using True un assms(1,2)
    by (auto simp: gem_map_def Let_def slots_ok_def host_maps_def split: prod.splits)
      (metis fst_conv)+
qed (simp add: gem_map_def)

text \<open>For the page-multiple sizes that the guest's \<^verbatim>\<open>mmap\<close> asks for, the listener ends the
  process exactly when neither arena has room for the object: an object that does not fit the
  preferred arena goes to the other one.\<close>

theorem gem_allocation_stuck:
  assumes "host_maps H" "gem_ok s"
    and "unat (host_address (gem_slots s)) mod 4096 = 0"
    and "unat (host_address (gem_hugepage_slots s)) mod 4096 = 0"
    and "0 < unat (c_p1 (comm s))" "unat (c_p1 (comm s)) \<le> 2 ^ 46"
  shows "serve_gem_allocation H s = None \<longleftrightarrow>
    \<not> gem_bucket_has_capacity (gem_slots s) (c_p1 (comm s)) (data_region_actual_address s) DATA_SIZE \<and>
    \<not> gem_bucket_has_capacity (gem_hugepage_slots s) (c_p1 (comm s)) (hugepage_host_addr s) HUGE_DATA_SIZE"
  using assms gem_map_succeeds [of H "gem_slots s" "data_region_actual_address s" DATA_SIZE "comm s"]
    gem_map_succeeds [of H "gem_hugepage_slots s" "hugepage_host_addr s" HUGE_DATA_SIZE "comm s"]
  by (auto simp: serve_gem_allocation_def gem_use_hugepage_def Let_def gem_ok_def arenas_ok_def)

theorem gem_allocation_stuck_witness:
  "serve_gem_allocation strict_host (demo_listener\<lparr>comm := gem_request 0xD0000000\<rparr>) = None"
proof -
  have "host_maps strict_host" by (simp add: host_maps_def strict_host_def demo_host_def)
  moreover have "gem_ok (demo_listener\<lparr>comm := gem_request 0xD0000000\<rparr>)" using demo_gem_ok by simp
  ultimately show ?thesis
    by (subst gem_allocation_stuck)
      (simp_all add: gem_request_def demo_listener_def gem_bucket_has_capacity_def DATA_SIZE_def
        HUGE_DATA_SIZE_def)
qed

end
