(* ===== verification/Sg_Setup.thy ===== *)
theory Sg_Setup
  imports Sg_Protocol Gem_Arena
begin

text \<open>
  The start-up handshake: \<^verbatim>\<open>setup_syscall_comms\<close> of \<^verbatim>\<open>egl-redirect/gramine.c\<close> in the guest and
  \<^verbatim>\<open>setup_comm_data_regions\<close> of \<^verbatim>\<open>qemu/util/sg-listener.c\<close> on the host. The two sides synchronise
  through the magic word of the communication page, the first words of the two data regions and
  the parameter \<^verbatim>\<open>p1\<close>. A loop that waits is a step that is disabled until its condition holds; a
  failing assertion sets \<open>aborted\<close>. The guest holds the lock of the slot throughout, and
  \<^verbatim>\<open>NUM_COMM_PAGES\<close> is 1, so the loops over further pages are empty.
\<close>

section \<open>The two programs\<close>

definition DATA_MAGIC :: u64w where "DATA_MAGIC = 0x1234567812344678"
definition DATA_REGION :: u64w where "DATA_REGION = 0x100000000"
definition HUGEPAGE_DATA_REGION :: u64w where "HUGEPAGE_DATA_REGION = 0x200000000"

record 'h setup_state =
  side :: "'h listener"
  data_word :: u64w
  huge_word :: u64w
  hugepage_region :: u64w
  guest_at :: nat
  listener_at :: nat
  aborted :: bool

text \<open>
  What the handshake depends on: whether the three fixed mappings of the guest succeed, where
  QEMU mapped the guest RAM blocks, and the creation of the window.
\<close>

record 'h setup_env =
  mmap_ok :: "nat \<Rightarrow> bool"
  global_ram_address :: u64w
  global_ram3_address :: u64w
  create_and_setup_xcb_window :: "'h \<Rightarrow> 'h"

definition on_page :: "(comm_page \<Rightarrow> comm_page) \<Rightarrow> 'h setup_state \<Rightarrow> 'h setup_state" where
  "on_page f s = s\<lparr>side := (side s)\<lparr>comm := f (comm (side s))\<rparr>\<rparr>"

abbreviation smagic :: "'h setup_state \<Rightarrow> u64w" where
  "smagic s \<equiv> c_magic (comm (side s))"

definition guest_to :: "nat \<Rightarrow> 'h setup_state \<Rightarrow> 'h setup_state option" where
  "guest_to n s = Some (s\<lparr>guest_at := n\<rparr>)"

definition listener_to :: "nat \<Rightarrow> 'h setup_state \<Rightarrow> 'h setup_state option" where
  "listener_to n s = Some (s\<lparr>listener_at := n\<rparr>)"

definition zero_page :: comm_page where
  "zero_page = \<lparr>c_magic = 0, c_req_bit = 0, c_ret = 0, c_p1 = 0, c_p2 = 0, c_p3 = 0, c_p4 = 0, c_p5 = 0\<rparr>"

definition setup_syscall_comms :: "'h setup_env \<Rightarrow> 'h setup_state \<Rightarrow> 'h setup_state option" where
  "setup_syscall_comms E s =
     (if aborted s then None
      else if guest_at s = 0 then
        (if mmap_ok E 0 then guest_to 1 (on_page (\<lambda>c. zero_page) s) else Some (s\<lparr>aborted := True\<rparr>))
      else if guest_at s = 1 then guest_to 2 (on_page (\<lambda>c. c\<lparr>c_magic := COMM_MAGIC\<rparr>) s)
      else if guest_at s = 2 then (if smagic s = 2 then guest_to 3 s else None)
      else if guest_at s = 3 then guest_to 4 (on_page (\<lambda>c. c\<lparr>c_magic := COMM_MAGIC\<rparr>) s)
      else if guest_at s = 4 then
        (if mmap_ok E 1 then guest_to 5 (s\<lparr>data_word := DATA_MAGIC\<rparr>) else Some (s\<lparr>aborted := True\<rparr>))
      else if guest_at s = 5 then (if data_word s = 2 then guest_to 6 s else None)
      else if guest_at s = 6 then
        (if mmap_ok E 2 then guest_to 7 (on_page (\<lambda>c. c\<lparr>c_p1 := HUGEPAGE_DATA_REGION\<rparr>) s)
         else Some (s\<lparr>aborted := True\<rparr>))
      else if guest_at s = 7 then guest_to 8 (s\<lparr>huge_word := DATA_MAGIC\<rparr>)
      else if guest_at s = 8 then (if huge_word s = 2 then guest_to 9 s else None)
      else if guest_at s = 9 then (if smagic s = 3 then guest_to 10 s else None)
      else if guest_at s = 10 then guest_to 11 (on_page (\<lambda>c. c\<lparr>c_magic := COMM_MAGIC\<rparr>) s)
      else None)"

definition slots_at :: "u64w \<Rightarrow> u64w \<Rightarrow> gem_slots" where
  "slots_at h g = \<lparr>host_address = h, guest_address = g\<rparr>"

definition setup_comm_data_regions :: "'h setup_env \<Rightarrow> 'h setup_state \<Rightarrow> 'h setup_state option" where
  "setup_comm_data_regions E s =
     (if aborted s then None
      else if listener_at s = 0 then (if smagic s = COMM_MAGIC then listener_to 1 s else None)
      else if listener_at s = 1 then listener_to 2 (on_page (\<lambda>c. c\<lparr>c_magic := 2\<rparr>) s)
      else if listener_at s = 2 then (if data_word s = DATA_MAGIC then listener_to 3 s else None)
      else if listener_at s = 3 then
        (let s = s\<lparr>side := (side s)\<lparr>data_region_actual_address := global_ram_address E\<rparr>\<rparr>
         in if data_region_actual_address (side s) \<noteq> DATA_REGION then Some (s\<lparr>aborted := True\<rparr>)
            else listener_to 4 s)
      else if listener_at s = 4 then (if data_word s = DATA_MAGIC then listener_to 5 s else None)
      else if listener_at s = 5 then listener_to 6 (s\<lparr>data_word := 2\<rparr>)
      else if listener_at s = 6 then
        listener_to 7 (s\<lparr>side := (side s)\<lparr>gem_slots := slots_at (data_region_actual_address (side s)) DATA_REGION\<rparr>\<rparr>)
      else if listener_at s = 7 then (if c_p1 (comm (side s)) = 0 then None else listener_to 8 s)
      else if listener_at s = 8 then
        (let p = c_p1 (comm (side s));
             s = s\<lparr>side := (side s)\<lparr>hugepage_host_addr := (p - 0x180000000) + global_ram3_address E\<rparr>,
                   hugepage_region := p\<rparr>
         in if hugepage_host_addr (side s) \<noteq> hugepage_region s then Some (s\<lparr>aborted := True\<rparr>) else listener_to 9 s)
      else if listener_at s = 9 then listener_to 10 (on_page (\<lambda>c. c\<lparr>c_p1 := 0\<rparr>) s)
      else if listener_at s = 10 then (if huge_word s = DATA_MAGIC then listener_to 11 s else None)
      else if listener_at s = 11 then listener_to 12 (s\<lparr>huge_word := 2\<rparr>)
      else if listener_at s = 12 then
        listener_to 13 (s\<lparr>side := (side s)\<lparr>
            gem_hugepage_slots := slots_at (hugepage_host_addr (side s)) (hugepage_region s),
            host := create_and_setup_xcb_window E (host (side s))\<rparr>\<rparr>)
      else if listener_at s = 13 then listener_to 14 (on_page (\<lambda>c. c\<lparr>c_ret := 0\<rparr>) s)
      else if listener_at s = 14 then listener_to 15 (on_page (\<lambda>c. c\<lparr>c_magic := 3\<rparr>) s)
      else None)"

inductive setup_step :: "'h setup_env \<Rightarrow> 'h setup_state \<Rightarrow> 'h setup_state \<Rightarrow> bool" for E where
  guest: "setup_syscall_comms E s = Some s' \<Longrightarrow> setup_step E s s'"
| listener: "setup_comm_data_regions E s = Some s' \<Longrightarrow> setup_step E s s'"

definition setup_start :: "'h setup_state \<Rightarrow> bool" where
  "setup_start s \<longleftrightarrow> guest_at s = 0 \<and> listener_at s = 0 \<and> \<not> aborted s \<and>
     smagic s = 0 \<and> data_word s = 0 \<and> huge_word s = 0"

inductive setup_reachable :: "'h setup_env \<Rightarrow> 'h setup_state \<Rightarrow> bool" for E where
  start: "setup_start s \<Longrightarrow> setup_reachable E s"
| step: "setup_reachable E s \<Longrightarrow> setup_step E s s' \<Longrightarrow> setup_reachable E s'"

section \<open>Invariant\<close>

definition setup_env_ok :: "'h setup_env \<Rightarrow> bool" where
  "setup_env_ok E \<longleftrightarrow> mmap_ok E 0 \<and> mmap_ok E 1 \<and> mmap_ok E 2 \<and>
     global_ram_address E = DATA_REGION \<and> global_ram3_address E = 0x180000000"

text \<open>Which positions of the two sides can occur together, and the words they then see.\<close>

definition positions :: "(nat \<times> nat) list" where
  "positions = [(0, 0), (1, 0), (2, 0), (2, 1), (2, 2), (3, 2), (4, 2), (5, 2), (5, 3), (5, 4), (5, 5),
     (5, 6), (6, 6), (7, 6), (8, 6), (5, 7), (6, 7), (7, 7), (8, 7), (7, 8), (8, 8), (7, 9), (8, 9),
     (7, 10), (8, 10), (8, 11), (8, 12), (9, 12), (8, 13), (9, 13), (8, 14), (9, 14), (8, 15), (9, 15),
     (10, 15), (11, 15)]"

definition words_ok :: "nat \<Rightarrow> nat \<Rightarrow> 'h setup_state \<Rightarrow> bool" where
  "words_ok g l s \<longleftrightarrow>
     smagic s = (if g \<le> 1 then 0 else if l \<le> 1 then COMM_MAGIC else if g \<le> 3 then 2
                 else if g = 11 \<or> l < 15 then COMM_MAGIC else 3) \<and>
     data_word s = (if 6 \<le> l then 2 else if 5 \<le> g then DATA_MAGIC else 0) \<and>
     (1 \<le> g \<longrightarrow> c_req_bit (comm (side s)) = 0 \<and>
        c_p1 (comm (side s)) = (if 7 \<le> g \<and> l < 10 then HUGEPAGE_DATA_REGION else 0)) \<and>
     huge_word s = (if 12 \<le> l then 2 else if 8 \<le> g then DATA_MAGIC else 0)"

definition addresses_ok :: "nat \<Rightarrow> 'h setup_state \<Rightarrow> bool" where
  "addresses_ok l s \<longleftrightarrow>
     (4 \<le> l \<longrightarrow> data_region_actual_address (side s) = DATA_REGION) \<and>
     (7 \<le> l \<longrightarrow> gem_slots (side s) = slots_at DATA_REGION DATA_REGION) \<and>
     (9 \<le> l \<longrightarrow> hugepage_host_addr (side s) = HUGEPAGE_DATA_REGION \<and> hugepage_region s = HUGEPAGE_DATA_REGION) \<and>
     (13 \<le> l \<longrightarrow> gem_hugepage_slots (side s) = slots_at HUGEPAGE_DATA_REGION HUGEPAGE_DATA_REGION)"

definition setup_inv :: "'h setup_state \<Rightarrow> bool" where
  "setup_inv s \<longleftrightarrow> \<not> aborted s \<and> (guest_at s, listener_at s) \<in> set positions \<and>
     words_ok (guest_at s) (listener_at s) s \<and> addresses_ok (listener_at s) s"

lemmas setup_defs = on_page_def guest_to_def listener_to_def zero_page_def COMM_MAGIC_def DATA_MAGIC_def
  HUGEPAGE_DATA_REGION_def Let_def

definition inv_next :: "'h setup_state \<Rightarrow> 'h setup_state option \<Rightarrow> bool" where
  "inv_next s r = (case r of None \<Rightarrow> True
     | Some s' \<Rightarrow> setup_inv s' \<and> guest_at s' + listener_at s' = Suc (guest_at s + listener_at s))"

lemma inv_next_simps:
  "inv_next s None" "inv_next s (Some s') \<longleftrightarrow>
     setup_inv s' \<and> guest_at s' + listener_at s' = Suc (guest_at s + listener_at s)"
  by (simp_all add: inv_next_def)

lemmas setup_inv_defs = setup_env_ok_def setup_inv_def words_ok_def addresses_ok_def inv_next_simps setup_defs

lemmas position_splits = positions_def list.set insert_iff empty_iff prod.inject

lemma guest_keeps_inv:
  assumes E: "setup_env_ok E" and inv: "setup_inv s"
  shows "inv_next s (setup_syscall_comms E s)"
proof -
  have "(guest_at s, listener_at s) \<in> set positions" using inv by (simp add: setup_inv_def)
  then show ?thesis
    using E inv
    by (simp only: position_splits, elim disjE conjE FalseE, simp_all add: setup_inv_defs setup_syscall_comms_def positions_def)
qed

lemma listener_keeps_inv:
  assumes E: "setup_env_ok E" and inv: "setup_inv s"
  shows "inv_next s (setup_comm_data_regions E s)"
proof -
  have "(guest_at s, listener_at s) \<in> set positions" using inv by (simp add: setup_inv_def)
  then show ?thesis
    using E inv
    by (simp only: position_splits, elim disjE conjE FalseE, simp_all add: setup_inv_defs setup_comm_data_regions_def positions_def)
qed

lemma setup_proceeds:
  assumes E: "setup_env_ok E" and inv: "setup_inv s" and unfinished: "guest_at s \<noteq> 11"
  shows "setup_syscall_comms E s \<noteq> None \<or> setup_comm_data_regions E s \<noteq> None"
proof -
  have "(guest_at s, listener_at s) \<in> set positions" using inv by (simp add: setup_inv_def)
  then show ?thesis
    using E inv unfinished
    by (simp only: position_splits, elim disjE conjE FalseE, simp_all add: setup_inv_defs setup_syscall_comms_def setup_comm_data_regions_def)
qed

section \<open>Properties\<close>

lemma setup_start_inv: "setup_start s \<Longrightarrow> setup_inv s"
  by (simp add: setup_start_def setup_inv_def positions_def words_ok_def addresses_ok_def)

lemma setup_step_inv:
  "setup_env_ok E \<Longrightarrow> setup_inv s \<Longrightarrow> setup_step E s s' \<Longrightarrow>
     setup_inv s' \<and> guest_at s' + listener_at s' = Suc (guest_at s + listener_at s)"
  using guest_keeps_inv [of E s] listener_keeps_inv [of E s]
  by (auto elim!: setup_step.cases simp: inv_next_def)

lemma setup_reachable_inv: "setup_env_ok E \<Longrightarrow> setup_reachable E s \<Longrightarrow> setup_inv s"
  by (rotate_tac, induction rule: setup_reachable.induct)
    (auto dest: setup_start_inv setup_step_inv)

lemma setup_inv_bound: "setup_inv s \<Longrightarrow> guest_at s + listener_at s \<le> 26"
  by (auto simp: setup_inv_def positions_def)

text \<open>The protocol state in which the guest releases the lock after the set-up.\<close>

definition after_setup :: "'h setup_state \<Rightarrow> 'h sg_state" where
  "after_setup s = \<lparr>lstn = side s, lpc = L_poll, comm_lock = None, gpc = (\<lambda>t. G_idle), history = []\<rparr>"

text \<open>C24: whatever the interleaving of the two sides, the set-up does not abort when the mappings
  succeed and the RAM blocks are identity mapped, and when the guest has finished, the listener
  has entered its request loop, the page is in the state the request protocol starts from (magic
  number set, no request, \<^verbatim>\<open>p1\<close> cleared) and both arenas are empty, disjoint and identity
  mapped. In particular no write of the listener's set-up can hit the first request.\<close>

theorem setup_establishes_protocol:
  assumes "setup_env_ok E" "setup_reachable E s"
  shows "\<not> aborted s \<and> (guest_at s = 11 \<longrightarrow>
    listener_at s = 15 \<and> sg_init (after_setup s) \<and> c_p1 (comm (side s)) = 0 \<and> gem_ok (side s) \<and>
    host_address (gem_slots (side s)) = DATA_REGION \<and>
    host_address (gem_hugepage_slots (side s)) = HUGEPAGE_DATA_REGION)"
proof -
  have inv: "setup_inv s" by (rule setup_reachable_inv [OF assms])
  show ?thesis
  proof (intro conjI impI)
    show "\<not> aborted s" using inv by (simp add: setup_inv_def)
    assume fin: "guest_at s = 11"
    then show l: "listener_at s = 15" using inv by (auto simp: setup_inv_def positions_def)
    have w: "words_ok 11 15 s" "addresses_ok 15 s" using inv fin l by (simp_all add: setup_inv_def)
    show "sg_init (after_setup s)" "c_p1 (comm (side s)) = 0"
      using w(1) by (simp_all add: sg_init_def after_setup_def words_ok_def)
    show "host_address (gem_slots (side s)) = DATA_REGION"
        "host_address (gem_hugepage_slots (side s)) = HUGEPAGE_DATA_REGION"
      using w(2) by (simp_all add: addresses_ok_def slots_at_def)
    show "gem_ok (side s)"
      using w(2) by (simp add: addresses_ok_def slots_at_def gem_ok_def arenas_ok_def slots_ok_def region_def
          DATA_REGION_def HUGEPAGE_DATA_REGION_def)
  qed
qed

text \<open>the set-up always ends: every step makes progress, so no execution is infinite, and until
  the guest has finished some step is possible, so the two sides never wait for each other.\<close>

theorem setup_terminates:
  assumes "setup_env_ok E"
  shows "wf {(s', s). setup_reachable E s \<and> setup_step E s s'} \<and>
    (\<forall>s. setup_reachable E s \<and> guest_at s \<noteq> 11 \<longrightarrow> (\<exists>s'. setup_step E s s'))"
proof
  have "{(s', s). setup_reachable E s \<and> setup_step E s s'} \<subseteq>
      measure (\<lambda>s. 26 - (guest_at s + listener_at s))"
  proof clarsimp
    fix s s' assume r: "setup_reachable E s" "setup_step E s s'"
    have "setup_inv s" by (rule setup_reachable_inv [OF assms r(1)])
    from setup_step_inv [OF assms this r(2)] setup_inv_bound [of s']
    show "26 - (guest_at s' + listener_at s') < 26 - (guest_at s + listener_at s)" by simp
  qed
  then show "wf {(s', s). setup_reachable E s \<and> setup_step E s s'}" by (rule wf_subset [rotated]) simp
  show "\<forall>s. setup_reachable E s \<and> guest_at s \<noteq> 11 \<longrightarrow> (\<exists>s'. setup_step E s s')"
    using setup_proceeds [OF assms setup_reachable_inv [OF assms]]
    by (blast intro: setup_step.guest setup_step.listener)
qed

definition demo_setup_env :: "cint setup_env" where
  "demo_setup_env = \<lparr>mmap_ok = (\<lambda>i. True), global_ram_address = DATA_REGION,
     global_ram3_address = 0x180000000, create_and_setup_xcb_window = (\<lambda>h. h)\<rparr>"

definition demo_setup :: "cint setup_state" where
  "demo_setup = \<lparr>side = demo_listener\<lparr>comm := zero_page\<rparr>, data_word = 0, huge_word = 0, hugepage_region = 0,
     guest_at = 0, listener_at = 0, aborted = False\<rparr>"

lemma demo_setup_env_ok: "setup_env_ok demo_setup_env"
  by (simp add: setup_env_ok_def demo_setup_env_def)

lemma demo_setup_reachable: "setup_reachable E demo_setup"
  by (rule setup_reachable.start) (simp add: setup_start_def demo_setup_def zero_page_def)

theorem setup_terminates_witness: "\<exists>s'. setup_step demo_setup_env demo_setup s'"
  using conjunct2 [OF setup_terminates [OF demo_setup_env_ok]] demo_setup_reachable [of demo_setup_env]
  by (simp add: demo_setup_def)

lemma setup_completes:
  assumes "setup_env_ok E"
  shows "setup_reachable E s \<Longrightarrow> \<exists>s'. setup_reachable E s' \<and> guest_at s' = 11"
proof (induction "26 - (guest_at s + listener_at s)" arbitrary: s rule: less_induct)
  case less
  have inv: "setup_inv s" by (rule setup_reachable_inv [OF assms less.prems])
  show ?case
  proof (cases "guest_at s = 11")
    case False
    with setup_proceeds [OF assms inv] obtain s' where s': "setup_step E s s'"
      by (blast intro: setup_step.guest setup_step.listener)
    have r: "setup_reachable E s'" by (rule setup_reachable.step [OF less.prems s'])
    from setup_step_inv [OF assms inv s'] setup_inv_bound [of s'] less.hyps [OF _ r] show ?thesis by simp
  qed (use less.prems in blast)
qed

theorem setup_establishes_protocol_witness:
  "\<exists>s. setup_reachable demo_setup_env s \<and> guest_at s = 11 \<and> sg_init (after_setup s) \<and> gem_ok (side s)"
  using setup_completes [OF demo_setup_env_ok demo_setup_reachable]
    setup_establishes_protocol [OF demo_setup_env_ok] by blast

end
