(* ===== verification/Input_Ring.thy ===== *)
theory Input_Ring
  imports Sg_Listener
begin

text \<open>
  The shared input transport in the tail of the communication page: \<^verbatim>\<open>egl-redirect/input_ring.h\<close>,
  its producer in \<^verbatim>\<open>egl-redirect/xcb.c\<close> (the input thread of the listener process) and its consumer
  in \<^verbatim>\<open>egl-redirect/glx.c\<close> (the interposed X event functions of the guest). This theory has the
  operations as functions on the shared structure; the next one interleaves their memory accesses.
\<close>

section \<open>The shared structure\<close>

record sg_input_event =
  ev_type :: "8 word"
  ev_detail :: "8 word"
  ev_same_screen :: "8 word"
  ev_time :: "32 word"
  ev_window :: "32 word"
  ev_root :: "32 word"
  ev_child :: "32 word"
  ev_root_x :: "16 word"
  ev_root_y :: "16 word"
  ev_event_x :: "16 word"
  ev_event_y :: "16 word"
  ev_state :: "16 word"

record sg_input_ring =
  ring_magic :: u64w
  ring_enabled :: "32 word"
  ring_head :: "32 word"
  ring_tail :: "32 word"
  ring_dropped :: "32 word"
  motion_seq :: "32 word"
  motion_serial :: "32 word"
  ring_motion :: sg_input_event
  ring_events :: "sg_input_event list"

record sg_input_latency =
  lat_magic :: u64w
  lat_enabled :: "32 word"
  delivered_sequence :: "32 word"
  delivery_tsc :: u64w

definition SG_INPUT_RING_MAGIC :: u64w where "SG_INPUT_RING_MAGIC = 0x5347494e50555431"
definition SG_INPUT_LATENCY_MAGIC :: u64w where "SG_INPUT_LATENCY_MAGIC = 0x53474c4154454e31"
definition SG_INPUT_RING_CAPACITY :: "32 word" where "SG_INPUT_RING_CAPACITY = 64"

definition ring_index :: "32 word \<Rightarrow> nat" where
  "ring_index i = unat (i mod SG_INPUT_RING_CAPACITY)"

section \<open>Producer\<close>

text \<open>An X event as the producer reads it (the layout of a key event, shared by the others).\<close>

record xcb_input =
  response_type :: "8 word"
  x_detail :: "8 word"
  x_same_screen :: "8 word"
  x_time :: "32 word"
  x_event :: "32 word"
  x_root :: "32 word"
  x_child :: "32 word"
  x_root_x :: "16 word"
  x_root_y :: "16 word"
  x_event_x :: "16 word"
  x_event_y :: "16 word"
  x_state :: "16 word"

definition KeyPress :: "8 word" where "KeyPress = 2"
definition KeyRelease :: "8 word" where "KeyRelease = 3"
definition ButtonPress :: "8 word" where "ButtonPress = 4"
definition ButtonRelease :: "8 word" where "ButtonRelease = 5"
definition MotionNotify :: "8 word" where "MotionNotify = 6"
definition Button1 :: "8 word" where "Button1 = 1"

lemmas x_types = KeyPress_def KeyRelease_def ButtonPress_def ButtonRelease_def MotionNotify_def

definition is_redirected_input_event :: "8 word \<Rightarrow> bool" where
  "is_redirected_input_event t \<longleftrightarrow> t = KeyPress \<or> t = KeyRelease \<or> t = ButtonPress \<or> t = ButtonRelease \<or>
     t = MotionNotify"

definition compact_event :: "xcb_input \<Rightarrow> sg_input_event" where
  "compact_event e =
     \<lparr>ev_type = response_type e AND 0x7f, ev_detail = x_detail e, ev_same_screen = x_same_screen e,
      ev_time = x_time e, ev_window = x_event e, ev_root = x_root e, ev_child = x_child e,
      ev_root_x = x_root_x e, ev_root_y = x_root_y e, ev_event_x = x_event_x e,
      ev_event_y = x_event_y e, ev_state = x_state e\<rparr>"

definition update_shared_motion :: "sg_input_event \<Rightarrow> bool \<Rightarrow> sg_input_ring \<Rightarrow> sg_input_ring" where
  "update_shared_motion motion is_event r =
     (let seq = motion_seq r;
          r = r\<lparr>motion_seq := seq + 1\<rparr>;
          r = r\<lparr>ring_motion := motion\<rparr>;
          r = r\<lparr>motion_seq := seq + 2\<rparr>
      in if is_event then r\<lparr>motion_serial := motion_serial r + 1\<rparr> else r)"

definition publish_shared_input_event :: "xcb_input \<Rightarrow> sg_input_ring \<Rightarrow> sg_input_ring" where
  "publish_shared_input_event e r =
     (if ring_enabled r = 0 then r
      else let t = response_type e AND 0x7f
      in if \<not> is_redirected_input_event t then r
      else let compact = compact_event e
      in if t = MotionNotify then update_shared_motion compact True r
      else let head = ring_head r; tail = ring_tail r
      in if tail - head \<ge> SG_INPUT_RING_CAPACITY then r\<lparr>ring_dropped := ring_dropped r + 1\<rparr>
         else r\<lparr>ring_events := (ring_events r)[ring_index tail := compact], ring_tail := tail + 1\<rparr>)"

section \<open>Consumer\<close>

text \<open>The guest's own state, and the event it hands to the application.\<close>

record guest_input =
  shared_input_requested :: bool
  consumed_motion_serial :: "32 word"
  delivered_click_sequence :: "32 word"
  latency :: sg_input_latency

datatype xevent =
    XKey sg_input_event
  | XButton sg_input_event
  | XMotion sg_input_event
  | XOther "8 word" "32 word"

text \<open>
  \<^verbatim>\<open>fill_xevent\<close> copies type and window for every event and the remaining fields into the member of
  the union that belongs to the type.
\<close>

definition fill_xevent :: "sg_input_event \<Rightarrow> xevent" where
  "fill_xevent e =
     (if ev_type e = KeyPress \<or> ev_type e = KeyRelease then XKey e
      else if ev_type e = ButtonPress \<or> ev_type e = ButtonRelease then XButton e
      else if ev_type e = MotionNotify then XMotion e
      else XOther (ev_type e) (ev_window e))"

definition mark_shared_input_delivered :: "u64w \<Rightarrow> sg_input_event \<Rightarrow> guest_input \<Rightarrow> guest_input" where
  "mark_shared_input_delivered tsc input g =
     (if ev_type input \<noteq> ButtonPress \<or> ev_detail input \<noteq> Button1 then g
      else if lat_magic (latency g) \<noteq> SG_INPUT_LATENCY_MAGIC \<or> lat_enabled (latency g) \<noteq> 1 then g
      else let sequence = delivered_click_sequence g + 1
      in g\<lparr>delivered_click_sequence := sequence,
           latency := (latency g)\<lparr>delivery_tsc := tsc, delivered_sequence := sequence\<rparr>\<rparr>)"

fun read_shared_motion :: "nat \<Rightarrow> sg_input_ring \<Rightarrow> (sg_input_event \<times> 32 word) option" where
  "read_shared_motion 0 r = None"
| "read_shared_motion (Suc attempts) r =
     (let serial_before = motion_serial r; seq_before = motion_seq r
      in if seq_before AND 1 \<noteq> 0 \<or> seq_before = 0 then read_shared_motion attempts r
      else let input = ring_motion r; seq_after = motion_seq r; serial_after = motion_serial r
      in if seq_before = seq_after \<and> seq_after AND 1 = 0 \<and> serial_before = serial_after
         then Some (input, serial_after) else read_shared_motion attempts r)"

definition peek_shared_input ::
  "u64w \<Rightarrow> bool \<Rightarrow> guest_input \<Rightarrow> sg_input_ring \<Rightarrow> xevent option \<times> guest_input \<times> sg_input_ring" where
  "peek_shared_input tsc consume g r =
     (if \<not> shared_input_requested g then (None, g, r)
      else if ring_magic r \<noteq> SG_INPUT_RING_MAGIC \<or> ring_enabled r = 0 then (None, g, r)
      else let head = ring_head r; tail = ring_tail r
      in if head \<noteq> tail
         then (let input = ring_events r ! ring_index head
               in (Some (fill_xevent input),
                   if consume then (mark_shared_input_delivered tsc input g, r\<lparr>ring_head := head + 1\<rparr>)
                   else (g, r)))
      else let serial = motion_serial r
      in if serial = consumed_motion_serial g then (None, g, r)
         else case read_shared_motion 3 r of
                None \<Rightarrow> (None, g, r)
              | Some (input, serial) \<Rightarrow>
                  if serial = consumed_motion_serial g then (None, g, r)
                  else (Some (fill_xevent input),
                        if consume then g\<lparr>consumed_motion_serial := serial\<rparr> else g, r))"

definition shared_input_pending :: "guest_input \<Rightarrow> sg_input_ring \<Rightarrow> int" where
  "shared_input_pending g r =
     (if \<not> shared_input_requested g then 0
      else if ring_magic r \<noteq> SG_INPUT_RING_MAGIC \<or> ring_enabled r = 0 then 0
      else sint (ring_tail r - ring_head r) +
           (if motion_serial r \<noteq> consumed_motion_serial g then 1 else 0))"

section \<open>The ring as a queue\<close>

definition ring_length :: "sg_input_ring \<Rightarrow> nat" where
  "ring_length r = unat (ring_tail r - ring_head r)"

definition ring_queue :: "sg_input_ring \<Rightarrow> sg_input_event list" where
  "ring_queue r = map (\<lambda>k. ring_events r ! ring_index (ring_head r + of_nat k)) [0..<ring_length r]"

definition ring_ok :: "sg_input_ring \<Rightarrow> bool" where
  "ring_ok r \<longleftrightarrow> length (ring_events r) = 64 \<and> ring_length r \<le> 64"

lemma ring_index_nat: "ring_index (a + of_nat k) = (unat a + k) mod 64"
proof -
  have "unat (a + of_nat k) mod 64 = ((unat a + k mod 2 ^ 32) mod 2 ^ 32) mod 64"
    by (simp add: unat_word_ariths unat_of_nat)
  also have "\<dots> = (unat a + k) mod 64"
    by (simp add: mod_mod_cancel mod_simps)
  finally show ?thesis by (simp add: ring_index_def SG_INPUT_RING_CAPACITY_def unat_mod)
qed

lemma ring_index_less: "ring_index i < 64"
  by (simp add: ring_index_def SG_INPUT_RING_CAPACITY_def unat_mod)

lemma mod_add_inj: "k < (64::nat) \<Longrightarrow> l < 64 \<Longrightarrow> (a + k) mod 64 = (a + l) mod 64 \<Longrightarrow> k = l"
proof (induction k l rule: linorder_wlog)
  case (le k l)
  then have "64 dvd (a + l) - (a + k)"
    by (metis add_le_cancel_left mod_eq_dvd_iff_nat)
  with le show ?case by (auto dest: dvd_imp_le)
qed simp

lemma ring_tail_conv: "ring_tail r = ring_head r + of_nat (ring_length r)"
  by (simp add: ring_length_def)

lemma unat_Suc_small: "unat (w :: 32 word) < 2 ^ 32 - 1 \<Longrightarrow> unat (w + 1) = Suc (unat w)"
  by (simp add: unat_word_ariths)

text \<open>Storing behind the last element, and dropping the first.\<close>

lemma ring_queue_store:
  assumes "ring_ok r" "ring_length r < 64"
  shows "ring_queue (r\<lparr>ring_events := (ring_events r)[ring_index (ring_tail r) := e], ring_tail := ring_tail r + 1\<rparr>) =
    ring_queue r @ [e]" (is "ring_queue ?r = _")
proof -
  have "ring_tail r + 1 - ring_head r = (ring_tail r - ring_head r) + 1" by simp
  then have "unat (ring_tail r + 1 - ring_head r) = unat ((ring_tail r - ring_head r) + 1)" by (rule arg_cong)
  then have len: "ring_length ?r = Suc (ring_length r)"
    using assms(2) unat_Suc_small [of "ring_tail r - ring_head r"] by (simp add: ring_length_def)
  have old: "ring_index (ring_head r + of_nat k) \<noteq> ring_index (ring_tail r)" if "k < ring_length r" for k
    using that assms(2) mod_add_inj [of k "ring_length r" "unat (ring_head r)"]
    by (subst ring_tail_conv) (auto simp: ring_index_nat)
  have "ring_index (ring_head r + of_nat (ring_length r)) = ring_index (ring_tail r)"
    by (simp only: ring_tail_conv)
  moreover have "ring_index (ring_tail r) < length (ring_events r)"
    using assms(1) ring_index_less by (simp add: ring_ok_def)
  ultimately show ?thesis
    unfolding ring_queue_def len using not_sym [OF old] by simp
qed

lemma ring_queue_drop:
  assumes "0 < ring_length r"
  shows "ring_queue r = ring_events r ! ring_index (ring_head r) # ring_queue (r\<lparr>ring_head := ring_head r + 1\<rparr>)"
    "ring_length (r\<lparr>ring_head := ring_head r + 1\<rparr>) = ring_length r - 1"
proof -
  have "ring_tail r - (ring_head r + 1) = (ring_tail r - ring_head r) - 1" by simp
  then have "unat (ring_tail r - (ring_head r + 1)) = unat ((ring_tail r - ring_head r) - 1)" by (rule arg_cong)
  then show len: "ring_length (r\<lparr>ring_head := ring_head r + 1\<rparr>) = ring_length r - 1"
    using assms by (simp add: ring_length_def unat_minus_one unat_gt_0)
  have "[0..<ring_length r] = 0 # map Suc [0..<ring_length r - 1]"
    using assms by (simp add: map_Suc_upt upt_conv_Cons)
  then show "ring_queue r = ring_events r ! ring_index (ring_head r) # ring_queue (r\<lparr>ring_head := ring_head r + 1\<rparr>)"
    unfolding ring_queue_def len by (simp add: ac_simps)
qed

text \<open>
  The contract between the two sides: a bounded first-in first-out queue. The two lemmas of the
  client say how one operation moves the content.
\<close>

locale bounded_fifo =
  fixes put :: "'e \<Rightarrow> 's \<Rightarrow> 's" and take :: "'s \<Rightarrow> 'e option \<times> 's"
    and ok :: "'s \<Rightarrow> bool" and content :: "'s \<Rightarrow> 'e list" and capacity :: nat
  assumes put_ok: "ok s \<Longrightarrow> ok (put e s)"
    and put_content: "ok s \<Longrightarrow>
      content (put e s) = (if length (content s) < capacity then content s @ [e] else content s)"
    and take_ok: "ok s \<Longrightarrow> ok (snd (take s))"
    and take_content: "ok s \<Longrightarrow> fst (take s) = (case content s of [] \<Rightarrow> None | x # xs \<Rightarrow> Some x)"
    and take_rest: "ok s \<Longrightarrow> content (snd (take s)) = tl (content s)"
begin

lemma put_step:
  "ok s \<Longrightarrow> content (put e s) = content s @ (if length (content s) < capacity then [e] else [])"
  by (simp add: put_content)

lemma take_step:
  "ok s \<Longrightarrow> content s = (case fst (take s) of None \<Rightarrow> [] | Some x \<Rightarrow> [x]) @ content (snd (take s))"
  by (cases "content s") (simp_all add: take_content take_rest)

lemma take_None: "ok s \<Longrightarrow> fst (take s) = None \<longleftrightarrow> content s = []"
  by (cases "content s") (simp_all add: take_content)

end

definition ring_put :: "sg_input_event \<Rightarrow> sg_input_ring \<Rightarrow> sg_input_ring" where
  "ring_put e r =
     (if ring_tail r - ring_head r \<ge> SG_INPUT_RING_CAPACITY then r\<lparr>ring_dropped := ring_dropped r + 1\<rparr>
      else r\<lparr>ring_events := (ring_events r)[ring_index (ring_tail r) := e], ring_tail := ring_tail r + 1\<rparr>)"

definition ring_take :: "sg_input_ring \<Rightarrow> sg_input_event option \<times> sg_input_ring" where
  "ring_take r =
     (if ring_head r \<noteq> ring_tail r
      then (Some (ring_events r ! ring_index (ring_head r)), r\<lparr>ring_head := ring_head r + 1\<rparr>)
      else (None, r))"

lemma ring_full_iff: "ring_tail r - ring_head r \<ge> SG_INPUT_RING_CAPACITY \<longleftrightarrow> 64 \<le> ring_length r"
  by (simp add: word_le_nat_alt SG_INPUT_RING_CAPACITY_def ring_length_def)

lemma ring_empty_iff: "ring_head r = ring_tail r \<longleftrightarrow> ring_length r = 0"
  by (auto simp: ring_length_def unat_eq_0)

lemma ring_queue_length [simp]: "length (ring_queue r) = ring_length r"
  by (simp add: ring_queue_def)

lemma ring_queue_dropped [simp]:
  "ring_queue (r\<lparr>ring_dropped := n\<rparr>) = ring_queue r" "ring_length (r\<lparr>ring_dropped := n\<rparr>) = ring_length r"
  by (simp_all add: ring_queue_def ring_length_def)

lemma ring_put_content:
  "ring_ok r \<Longrightarrow> ring_queue (ring_put e r) = (if length (ring_queue r) < 64 then ring_queue r @ [e] else ring_queue r)"
  using ring_queue_store [of r e] by (auto simp: ring_put_def ring_full_iff)

lemma ring_put_ok: "ring_ok r \<Longrightarrow> ring_ok (ring_put e r)"
  using ring_put_content [of r e] by (auto simp: ring_ok_def ring_put_def ring_full_iff
      simp flip: ring_queue_length)

lemma ring_take_content:
  "ring_queue (snd (ring_take r)) = tl (ring_queue r)"
  "fst (ring_take r) = (case ring_queue r of [] \<Rightarrow> None | x # xs \<Rightarrow> Some x)"
proof -
  show "ring_queue (snd (ring_take r)) = tl (ring_queue r)"
    using ring_queue_drop(1) [of r]
    by (cases "ring_length r = 0") (auto simp: ring_take_def ring_empty_iff ring_queue_def)
  show "fst (ring_take r) = (case ring_queue r of [] \<Rightarrow> None | x # xs \<Rightarrow> Some x)"
  proof (cases "ring_length r = 0")
    case True
    then have "ring_queue r = []" by (simp flip: ring_queue_length)
    with True show ?thesis by (simp add: ring_take_def ring_empty_iff)
  next
    case False
    with ring_queue_drop(1) [of r] show ?thesis by (simp add: ring_take_def ring_empty_iff)
  qed
qed

interpretation input_ring: bounded_fifo ring_put ring_take ring_ok ring_queue 64
proof
  fix r :: sg_input_ring and e
  assume ok: "ring_ok r"
  show "ring_ok (ring_put e r)" using ok by (rule ring_put_ok)
  show "ring_queue (ring_put e r) = (if length (ring_queue r) < 64 then ring_queue r @ [e] else ring_queue r)"
    using ok by (rule ring_put_content)
  show "ring_ok (snd (ring_take r))"
    using ok ring_queue_drop(2) [of r]
    by (cases "ring_length r = 0") (auto simp: ring_take_def ring_empty_iff ring_ok_def)
qed (rule ring_take_content)+

section \<open>Properties\<close>

text \<open>Events of the ring are never motion events: these go to the motion slot.\<close>

definition discrete :: "sg_input_event \<Rightarrow> bool" where
  "discrete e \<longleftrightarrow> is_redirected_input_event (ev_type e) \<and> ev_type e \<noteq> MotionNotify"

fun is_motion :: "xevent \<Rightarrow> bool" where
  "is_motion (XMotion e) = True"
| "is_motion _ = False"

definition queue_ok :: "sg_input_ring \<Rightarrow> bool" where
  "queue_ok r \<longleftrightarrow> ring_ok r \<and> list_all discrete (ring_queue r) \<and>
     (motion_seq r = 0 \<or> ev_type (ring_motion r) = MotionNotify)"

datatype input_op = Publish xcb_input | Next u64w

text \<open>The events the ring accepted and the events delivered to the application by a sequence.\<close>

fun input_run :: "input_op list \<Rightarrow> guest_input \<Rightarrow> sg_input_ring \<Rightarrow>
    sg_input_event list \<times> xevent list \<times> guest_input \<times> sg_input_ring" where
  "input_run [] g r = ([], [], g, r)"
| "input_run (Publish e # ops) g r =
     (let (acc, del, g', r') = input_run ops g (publish_shared_input_event e r)
      in (if ring_enabled r \<noteq> 0 \<and> discrete (compact_event e) \<and> ring_length r < 64
          then compact_event e # acc else acc, del, g', r'))"
| "input_run (Next tsc # ops) g r =
     (let (x, g, r) = peek_shared_input tsc True g r; (acc, del, g', r') = input_run ops g r
      in (acc, case x of None \<Rightarrow> del | Some e \<Rightarrow> e # del, g', r'))"

lemma update_motion_queue [simp]:
  "ring_queue (update_shared_motion m b r) = ring_queue r" "ring_ok (update_shared_motion m b r) = ring_ok r"
  by (simp_all add: update_shared_motion_def Let_def ring_queue_def ring_ok_def ring_length_def)

lemma compact_type [simp]: "ev_type (compact_event e) = response_type e AND 0x7f"
  by (simp add: compact_event_def)

lemma publish_queue:
  assumes "ring_ok r"
  shows "ring_ok (publish_shared_input_event e r)"
    "ring_queue (publish_shared_input_event e r) = ring_queue r @
      (if ring_enabled r \<noteq> 0 \<and> discrete (compact_event e) \<and> ring_length r < 64 then [compact_event e] else [])"
proof -
  consider (off) "ring_enabled r = 0 \<or> \<not> is_redirected_input_event (response_type e AND 0x7f)"
    | (motion) "ring_enabled r \<noteq> 0" "response_type e AND 0x7f = MotionNotify"
    | (ring) "ring_enabled r \<noteq> 0" "discrete (compact_event e)"
    by (auto simp: discrete_def)
  then have "ring_ok (publish_shared_input_event e r) \<and> ring_queue (publish_shared_input_event e r) =
      ring_queue r @
      (if ring_enabled r \<noteq> 0 \<and> discrete (compact_event e) \<and> ring_length r < 64 then [compact_event e] else [])"
  proof cases
    case ring
    then have "publish_shared_input_event e r = ring_put (compact_event e) r"
      by (simp add: publish_shared_input_event_def ring_put_def discrete_def Let_def)
    with ring assms input_ring.put_step [OF assms] input_ring.put_ok [OF assms] show ?thesis by simp
  qed (use assms in \<open>auto simp: publish_shared_input_event_def discrete_def is_redirected_input_event_def\<close>)
  then show "ring_ok (publish_shared_input_event e r)"
    "ring_queue (publish_shared_input_event e r) = ring_queue r @
      (if ring_enabled r \<noteq> 0 \<and> discrete (compact_event e) \<and> ring_length r < 64 then [compact_event e] else [])"
    by simp_all
qed

lemma fill_discrete: "discrete e \<Longrightarrow> \<not> is_motion (fill_xevent e)"
  by (auto simp: discrete_def fill_xevent_def is_redirected_input_event_def x_types)

lemma peek_queue:
  assumes ok: "queue_ok r" and peek: "peek_shared_input tsc True g r = (x, g', r')"
  shows "queue_ok r' \<and> map fill_xevent (ring_queue r) =
    filter (\<lambda>x. \<not> is_motion x) (case x of None \<Rightarrow> [] | Some e \<Rightarrow> [e]) @ map fill_xevent (ring_queue r')"
proof (cases "shared_input_requested g \<and> ring_magic r = SG_INPUT_RING_MAGIC \<and> ring_enabled r \<noteq> 0 \<and>
    ring_head r \<noteq> ring_tail r")
  case True
  have rok: "ring_ok r" using ok by (simp add: queue_ok_def)
  let ?e = "ring_events r ! ring_index (ring_head r)"
  have take: "ring_take r = (Some ?e, r\<lparr>ring_head := ring_head r + 1\<rparr>)" using True by (simp add: ring_take_def)
  then have step: "ring_queue r = ?e # ring_queue (r\<lparr>ring_head := ring_head r + 1\<rparr>)"
      "ring_ok (r\<lparr>ring_head := ring_head r + 1\<rparr>)"
    using input_ring.take_step [OF rok] input_ring.take_ok [OF rok] by simp_all
  then have "\<not> is_motion (fill_xevent ?e)" using ok by (intro fill_discrete) (simp add: queue_ok_def)
  with True peek step ok show ?thesis by (auto simp: peek_shared_input_def Let_def queue_ok_def)
next
  case False
  have "read_shared_motion n r = Some (e, i) \<Longrightarrow> e = ring_motion r \<and> motion_seq r \<noteq> 0" for n e i
    by (induction n) (auto simp: Let_def split: if_splits)
  with False peek ok have "r' = r \<and> (case x of None \<Rightarrow> True | Some e \<Rightarrow> is_motion e)"
    by (fastforce simp: peek_shared_input_def Let_def fill_xevent_def x_types queue_ok_def
        split: if_splits option.splits)
  then show ?thesis
    using ok by (cases x) (auto simp: queue_ok_def)
qed

lemma publish_queue_ok: "queue_ok r \<Longrightarrow> queue_ok (publish_shared_input_event e r)"
proof -
  assume ok: "queue_ok r"
  have "motion_seq (publish_shared_input_event e r) = 0 \<or>
      ev_type (ring_motion (publish_shared_input_event e r)) = MotionNotify"
    using ok by (auto simp: publish_shared_input_event_def update_shared_motion_def Let_def queue_ok_def)
  with ok publish_queue [of r e] show ?thesis by (auto simp: queue_ok_def)
qed

text \<open>input events travel in order: for every sequence of published events and of events taken by
  the application, the key and button events delivered, followed by those still in the ring, are
  exactly those that were in the ring at first followed by those accepted since. Nothing is lost,
  duplicated, reordered or altered, also across the wrap-around of the 32-bit indices, and motion
  events never take a place in the ring.\<close>

theorem input_events_fifo:
  assumes "queue_ok r" "input_run ops g r = (acc, del, g', r')"
  shows "queue_ok r' \<and> map fill_xevent (ring_queue r @ acc) =
    filter (\<lambda>x. \<not> is_motion x) del @ map fill_xevent (ring_queue r')"
  using assms
proof (induction ops arbitrary: g r acc del)
  case (Cons op ops)
  show ?case
  proof (cases op)
    case (Publish e)
    obtain acc1 del1 g1 r1 where rest: "input_run ops g (publish_shared_input_event e r) = (acc1, del1, g1, r1)"
      by (metis prod.exhaust)
    with Cons.prems(2) Publish have "g1 = g'" "r1 = r'" "del1 = del"
      by (auto split: if_splits)
    with Cons.IH [OF publish_queue_ok [OF Cons.prems(1)], of g e acc1 del1] rest Cons.prems Publish
      publish_queue(2) [of r e]
    show ?thesis by (auto simp: queue_ok_def split: if_splits)
  next
    case (Next tsc)
    obtain x g1 r1 where x: "peek_shared_input tsc True g r = (x, g1, r1)" by (metis prod.exhaust)
    obtain acc1 del1 g2 r2 where rest: "input_run ops g1 r1 = (acc1, del1, g2, r2)" by (metis prod.exhaust)
    with Cons.prems(2) Next x have eqs: "acc = acc1" "g2 = g'" "r2 = r'"
        "del = (case x of None \<Rightarrow> del1 | Some e \<Rightarrow> e # del1)"
      by auto
    note step = peek_queue [OF Cons.prems(1) x]
    with Cons.IH [of r1 g1 acc1 del1] rest eqs show ?thesis
      by (cases x) auto
  qed
qed simp

subsection \<open>A sample ring\<close>

definition demo_key :: xcb_input where
  "demo_key = \<lparr>response_type = 2, x_detail = 38, x_same_screen = 1, x_time = 100, x_event = 7, x_root = 1,
     x_child = 0, x_root_x = 5, x_root_y = 6, x_event_x = 1, x_event_y = 2, x_state = 0\<rparr>"

text \<open>An empty ring whose indices are about to wrap around.\<close>

definition demo_ring :: sg_input_ring where
  "demo_ring = \<lparr>ring_magic = SG_INPUT_RING_MAGIC, ring_enabled = 1, ring_head = - 1, ring_tail = - 1,
     ring_dropped = 0, motion_seq = 2, motion_serial = 0,
     ring_motion = (compact_event demo_key)\<lparr>ev_type := MotionNotify\<rparr>,
     ring_events = replicate 64 (compact_event demo_key)\<rparr>"

definition demo_guest :: guest_input where
  "demo_guest = \<lparr>shared_input_requested = True, consumed_motion_serial = 0, delivered_click_sequence = 0,
     latency = \<lparr>lat_magic = 0, lat_enabled = 0, delivered_sequence = 0, delivery_tsc = 0\<rparr>\<rparr>"

lemma demo_ring_ok: "queue_ok demo_ring"
  by (simp add: queue_ok_def ring_ok_def ring_queue_def ring_length_def demo_ring_def)

theorem input_events_fifo_witness:
  "\<exists>acc del g' r'. input_run [Publish demo_key, Publish (demo_key\<lparr>response_type := 3\<rparr>), Next 0]
       demo_guest demo_ring = (acc, del, g', r') \<and>
     map fill_xevent acc = filter (\<lambda>x. \<not> is_motion x) del @ map fill_xevent (ring_queue r') \<and>
     acc = [compact_event demo_key, compact_event (demo_key\<lparr>response_type := 3\<rparr>)]"
proof -
  obtain acc del g' r' where r: "input_run [Publish demo_key, Publish (demo_key\<lparr>response_type := 3\<rparr>), Next 0]
       demo_guest demo_ring = (acc, del, g', r')"
    by (metis prod.exhaust)
  have "ring_queue demo_ring = []" by (simp add: ring_queue_def ring_length_def demo_ring_def)
  moreover have "acc = [compact_event demo_key, compact_event (demo_key\<lparr>response_type := 3\<rparr>)]"
    using r
    by (simp add: demo_ring_def demo_guest_def publish_shared_input_event_def discrete_def
        is_redirected_input_event_def x_types compact_event_def demo_key_def Let_def ring_length_def
        SG_INPUT_RING_CAPACITY_def split: prod.splits)
  ultimately show ?thesis
    using input_events_fifo [OF demo_ring_ok r] r by simp
qed

text \<open>\<^verbatim>\<open>shared_input_pending\<close> announces an event exactly when the next read returns one: the
  number is positive if and only if \<^verbatim>\<open>peek_shared_input\<close> delivers an event, whenever the motion
  slot is not in the middle of an update and has been written.\<close>

theorem pending_iff_event:
  assumes "queue_ok r" "motion_seq r AND 1 = 0" "motion_seq r \<noteq> 0"
  shows "0 \<le> shared_input_pending g r \<and>
    (0 < shared_input_pending g r \<longleftrightarrow> fst (peek_shared_input tsc consume g r) \<noteq> None)"
proof -
  have len: "ring_length r \<le> 64" using assms(1) by (simp add: queue_ok_def ring_ok_def)
  have "sint (ring_tail r - ring_head r) = signed_take_bit 31 (int (ring_length r))"
    by (simp add: sint_uint ring_length_def)
  then have "sint (ring_tail r - ring_head r) = int (ring_length r)"
    using len by (simp add: signed_take_bit_int_eq_self)
  moreover have "read_shared_motion 3 r = Some (ring_motion r, motion_serial r)"
    using assms(2,3) by (simp add: eval_nat_numeral Let_def)
  ultimately show ?thesis
    by (auto simp: shared_input_pending_def peek_shared_input_def Let_def ring_empty_iff)
qed

theorem pending_iff_event_witness:
  "0 < shared_input_pending demo_guest (demo_ring\<lparr>motion_serial := 1\<rparr>) \<and>
   fst (peek_shared_input 0 True demo_guest (demo_ring\<lparr>motion_serial := 1\<rparr>)) \<noteq> None"
proof -
  have "queue_ok (demo_ring\<lparr>motion_serial := 1\<rparr>)"
    by (simp add: queue_ok_def ring_ok_def ring_queue_def ring_length_def demo_ring_def)
  moreover have "0 < shared_input_pending demo_guest (demo_ring\<lparr>motion_serial := 1\<rparr>)"
    by (simp add: shared_input_pending_def demo_ring_def demo_guest_def)
  ultimately show ?thesis
    using pending_iff_event [of "demo_ring\<lparr>motion_serial := 1\<rparr>" demo_guest 0 True]
    by (simp add: demo_ring_def)
qed

end
