(* ===== verification/Input_Race.thy ===== *)
theory Input_Race
  imports Input_Ring
begin

text \<open>
  The input transport under interleaving: the memory accesses of \<^verbatim>\<open>publish_shared_input_event\<close>,
  \<^verbatim>\<open>peek_shared_input\<close>, \<^verbatim>\<open>update_shared_motion\<close> and \<^verbatim>\<open>read_shared_motion\<close> as separate steps of the
  producer threads and the consumer (in program order, as the release and acquire accesses on x86
  keep it).
\<close>

section \<open>The ring: one producer, one consumer\<close>

datatype producer_pc =
    P_idle
  | P_head sg_input_event "32 word"
  | P_tail sg_input_event "32 word" "32 word"
  | P_stored sg_input_event "32 word"

datatype consumer_pc =
    C_idle
  | C_head "32 word"
  | C_nonempty "32 word"
  | C_copied "32 word" sg_input_event

text \<open>Besides the ring and the two positions the state keeps the history of both sides.\<close>

record spsc =
  spsc_ring :: sg_input_ring
  ppc :: producer_pc
  cpc :: consumer_pc
  published :: "sg_input_event list"
  consumed :: "sg_input_event list"

text \<open>The accesses of \<^verbatim>\<open>publish_shared_input_event\<close>.\<close>

inductive producer_step :: "spsc \<Rightarrow> spsc \<Rightarrow> bool" where
  load_head: "ppc s = P_idle \<Longrightarrow> discrete e \<Longrightarrow>
     producer_step s (s\<lparr>ppc := P_head e (ring_head (spsc_ring s))\<rparr>)"
| load_tail: "ppc s = P_head e h \<Longrightarrow> producer_step s (s\<lparr>ppc := P_tail e h (ring_tail (spsc_ring s))\<rparr>)"
| drop: "ppc s = P_tail e h t \<Longrightarrow> t - h \<ge> SG_INPUT_RING_CAPACITY \<Longrightarrow>
     producer_step s (s\<lparr>ppc := P_idle,
       spsc_ring := (spsc_ring s)\<lparr>ring_dropped := ring_dropped (spsc_ring s) + 1\<rparr>\<rparr>)"
| store_event: "ppc s = P_tail e h t \<Longrightarrow> \<not> t - h \<ge> SG_INPUT_RING_CAPACITY \<Longrightarrow>
     producer_step s (s\<lparr>ppc := P_stored e t,
       spsc_ring := (spsc_ring s)\<lparr>ring_events := (ring_events (spsc_ring s))[ring_index t := e]\<rparr>\<rparr>)"
| store_tail: "ppc s = P_stored e t \<Longrightarrow>
     producer_step s (s\<lparr>ppc := P_idle, spsc_ring := (spsc_ring s)\<lparr>ring_tail := t + 1\<rparr>,
       published := published s @ [e]\<rparr>)"

text \<open>The accesses of \<^verbatim>\<open>peek_shared_input\<close>, which removes the event or only looks at it.\<close>

inductive consumer_step :: "spsc \<Rightarrow> spsc \<Rightarrow> bool" where
  consumer_head: "cpc s = C_idle \<Longrightarrow> consumer_step s (s\<lparr>cpc := C_head (ring_head (spsc_ring s))\<rparr>)"
| consumer_empty: "cpc s = C_head h \<Longrightarrow> h = ring_tail (spsc_ring s) \<Longrightarrow> consumer_step s (s\<lparr>cpc := C_idle\<rparr>)"
| consumer_nonempty: "cpc s = C_head h \<Longrightarrow> h \<noteq> ring_tail (spsc_ring s) \<Longrightarrow>
     consumer_step s (s\<lparr>cpc := C_nonempty h\<rparr>)"
| copy_event: "cpc s = C_nonempty h \<Longrightarrow>
     consumer_step s (s\<lparr>cpc := C_copied h (ring_events (spsc_ring s) ! ring_index h)\<rparr>)"
| store_head: "cpc s = C_copied h e \<Longrightarrow>
     consumer_step s (s\<lparr>cpc := C_idle, spsc_ring := (spsc_ring s)\<lparr>ring_head := h + 1\<rparr>,
       consumed := consumed s @ [e]\<rparr>)"
| peek_only: "cpc s = C_copied h e \<Longrightarrow> consumer_step s (s\<lparr>cpc := C_idle\<rparr>)"

inductive spsc_step :: "spsc \<Rightarrow> spsc \<Rightarrow> bool" where
  producer: "producer_step s s' \<Longrightarrow> spsc_step s s'"
| consumer: "consumer_step s s' \<Longrightarrow> spsc_step s s'"

definition spsc_init :: "spsc \<Rightarrow> bool" where
  "spsc_init s \<longleftrightarrow> ppc s = P_idle \<and> cpc s = C_idle \<and> published s = [] \<and> consumed s = [] \<and>
     ring_head (spsc_ring s) = 0 \<and> ring_tail (spsc_ring s) = 0 \<and> length (ring_events (spsc_ring s)) = 64"

inductive spsc_reachable :: "spsc \<Rightarrow> bool" where
  start: "spsc_init s \<Longrightarrow> spsc_reachable s"
| step: "spsc_reachable s \<Longrightarrow> spsc_step s s' \<Longrightarrow> spsc_reachable s'"

subsection \<open>Invariant\<close>

text \<open>
  With \<open>D\<close> events consumed and \<open>A\<close> published: the indices are \<open>D\<close> and \<open>A\<close> modulo \<open>2 ^ 32\<close>, at most
  64 apart, and the slots in between hold the published events. The head a producer has loaded
  may be older than the current one, but not by more than the free space allows.
\<close>

definition slots_hold :: "nat \<Rightarrow> sg_input_event list \<Rightarrow> sg_input_event list \<Rightarrow> bool" where
  "slots_hold D pub ev \<longleftrightarrow> (\<forall>k. D \<le> k \<and> k < length pub \<longrightarrow> ev ! (k mod 64) = pub ! k)"

fun producer_inv :: "producer_pc \<Rightarrow> nat \<Rightarrow> nat \<Rightarrow> sg_input_event list \<Rightarrow> bool" where
  "producer_inv P_idle D A ev = True"
| "producer_inv (P_head e h) D A ev = (\<exists>m\<le>D. h = of_nat m \<and> A \<le> m + 64)"
| "producer_inv (P_tail e h t) D A ev = ((\<exists>m\<le>D. h = of_nat m \<and> A \<le> m + 64) \<and> t = of_nat A)"
| "producer_inv (P_stored e t) D A ev = (t = of_nat A \<and> A < D + 64 \<and> ev ! (A mod 64) = e)"

fun consumer_inv :: "consumer_pc \<Rightarrow> nat \<Rightarrow> sg_input_event list \<Rightarrow> bool" where
  "consumer_inv C_idle D pub = True"
| "consumer_inv (C_head h) D pub = (h = of_nat D)"
| "consumer_inv (C_nonempty h) D pub = (h = of_nat D \<and> D < length pub)"
| "consumer_inv (C_copied h e) D pub = (h = of_nat D \<and> D < length pub \<and> e = pub ! D)"

definition spsc_inv :: "spsc \<Rightarrow> bool" where
  "spsc_inv s \<longleftrightarrow> (let D = length (consumed s); A = length (published s); r = spsc_ring s
     in ring_head r = of_nat D \<and> ring_tail r = of_nat A \<and> D \<le> A \<and> A \<le> D + 64 \<and>
        consumed s = take D (published s) \<and> length (ring_events r) = 64 \<and>
        slots_hold D (published s) (ring_events r) \<and>
        producer_inv (ppc s) D A (ring_events r) \<and> consumer_inv (cpc s) D (published s))"

lemma ring_index_of_nat [simp]: "ring_index (of_nat k) = k mod 64"
  using ring_index_nat [of 0 k] by simp

lemma word_distance: "m \<le> A \<Longrightarrow> A \<le> m + 64 \<Longrightarrow> unat (of_nat A - of_nat m :: 32 word) = A - m"
proof -
  assume "m \<le> A" "A \<le> m + 64"
  then have "(of_nat A - of_nat m :: 32 word) = of_nat (A - m)" by simp
  then show ?thesis using \<open>A \<le> m + 64\<close> by (simp add: unat_of_nat)
qed

lemma capacity_iff:
  "m \<le> A \<Longrightarrow> A \<le> m + 64 \<Longrightarrow>
     SG_INPUT_RING_CAPACITY \<le> of_nat A - of_nat m \<longleftrightarrow> 64 \<le> A - m"
  using word_distance [of m A] by (simp add: word_le_nat_alt SG_INPUT_RING_CAPACITY_def)

lemma of_nat_eq_close: "D \<le> A \<Longrightarrow> A \<le> D + 64 \<Longrightarrow> (of_nat D :: 32 word) = of_nat A \<longleftrightarrow> D = A"
proof
  assume "D \<le> A" "A \<le> D + 64" "(of_nat D :: 32 word) = of_nat A"
  then show "D = A" using word_distance [of D A] by simp
qed simp

lemma mod_64_close: "D \<le> k \<Longrightarrow> k < A \<Longrightarrow> A < D + 64 \<Longrightarrow> k mod 64 \<noteq> A mod 64" for k A :: nat
proof
  assume le: "D \<le> k" "k < A" "A < D + 64" and "k mod 64 = A mod 64"
  then have "64 dvd A - k" using mod_eq_dvd_iff_nat [of k A 64] by simp
  then show False using le by (auto dest: dvd_imp_le)
qed

lemma slots_hold_store:
  assumes "slots_hold D pub ev" "length pub < D + 64"
  shows "slots_hold D pub (ev[length pub mod 64 := e])"
  unfolding slots_hold_def
proof (intro allI impI)
  fix k assume "D \<le> k \<and> k < length pub"
  then show "ev[length pub mod 64 := e] ! (k mod 64) = pub ! k"
    using assms mod_64_close [of D k "length pub"] by (simp add: slots_hold_def)
qed

lemma slots_hold_append:
  "slots_hold D pub ev \<Longrightarrow> ev ! (length pub mod 64) = e \<Longrightarrow> slots_hold D (pub @ [e]) ev"
  by (auto simp: slots_hold_def nth_append less_Suc_eq)

lemma spsc_init_inv: "spsc_init s \<Longrightarrow> spsc_inv s"
  by (simp add: spsc_init_def spsc_inv_def slots_hold_def)

lemma producer_inv_consume: "producer_inv p D A ev \<Longrightarrow> producer_inv p (Suc D) A ev"
  by (cases p) (auto intro: le_SucI)

lemma consumer_inv_publish: "consumer_inv c D pub \<Longrightarrow> consumer_inv c D (pub @ [e])"
  by (cases c) (auto simp: nth_append)

lemma slots_hold_consume: "slots_hold D pub ev \<Longrightarrow> slots_hold (Suc D) pub ev"
  by (simp add: slots_hold_def)

lemma space_after_check:
  assumes "\<exists>m\<le>D. h = of_nat m \<and> A \<le> m + 64" "D \<le> A" "\<not> of_nat A - h \<ge> SG_INPUT_RING_CAPACITY"
  shows "A < D + 64"
proof -
  obtain m where "m \<le> D" "h = of_nat m" "A \<le> m + 64" using assms(1) by blast
  then show ?thesis using capacity_iff [of m A] assms(2,3) by simp
qed

lemma producer_step_inv: "producer_step s s' \<Longrightarrow> spsc_inv s \<Longrightarrow> spsc_inv s'"
proof (induction rule: producer_step.induct)
  case (store_event s e h t)
  then have "length (published s) < length (consumed s) + 64"
    using space_after_check [of "length (consumed s)" h "length (published s)"]
    by (simp add: spsc_inv_def Let_def)
  with store_event show ?case
    by (simp add: spsc_inv_def Let_def slots_hold_store)
next
  case (store_tail s e t)
  then show ?case
    by (simp add: spsc_inv_def Let_def slots_hold_append consumer_inv_publish)
qed (auto simp: spsc_inv_def Let_def)

lemma consumer_step_inv: "consumer_step s s' \<Longrightarrow> spsc_inv s \<Longrightarrow> spsc_inv s'"
proof (induction rule: consumer_step.induct)
  case (consumer_nonempty s h)
  then show ?case
    using of_nat_eq_close [of "length (consumed s)" "length (published s)"]
    by (simp add: spsc_inv_def Let_def)
next
  case (copy_event s h)
  then show ?case by (simp add: spsc_inv_def Let_def slots_hold_def)
next
  case (store_head s h e)
  then show ?case
    by (simp add: spsc_inv_def Let_def take_Suc_conv_app_nth producer_inv_consume slots_hold_consume)
qed (auto simp: spsc_inv_def Let_def)

lemma spsc_step_inv: "spsc_step s s' \<Longrightarrow> spsc_inv s \<Longrightarrow> spsc_inv s'"
  by (auto elim!: spsc_step.cases intro: producer_step_inv consumer_step_inv)

lemma spsc_reachable_inv: "spsc_reachable s \<Longrightarrow> spsc_inv s"
  by (induction rule: spsc_reachable.induct) (auto intro: spsc_init_inv spsc_step_inv)

section \<open>The motion slot: a sequence lock\<close>

text \<open>
  \<^verbatim>\<open>sg_input_event_t\<close> occupies eight 32-bit words of the page. A structure assignment copies them one
  at a time, so a reader may see some words of one event and some of another.
\<close>

definition word_pair :: "16 word \<Rightarrow> 16 word \<Rightarrow> 32 word" where
  "word_pair lo hi = ucast lo OR push_bit 16 (ucast hi)"

definition type_word :: "8 word \<Rightarrow> 8 word \<Rightarrow> 8 word \<Rightarrow> 32 word" where
  "type_word t d ss = ucast t OR push_bit 8 (ucast d) OR push_bit 16 (ucast ss)"

definition event_words :: "sg_input_event \<Rightarrow> 32 word list" where
  "event_words e =
     [type_word (ev_type e) (ev_detail e) (ev_same_screen e),
      ev_time e, ev_window e, ev_root e, ev_child e, word_pair (ev_root_x e) (ev_root_y e),
      word_pair (ev_event_x e) (ev_event_y e), ucast (ev_state e)]"

definition event_of_words :: "32 word list \<Rightarrow> sg_input_event" where
  "event_of_words w =
     \<lparr>ev_type = ucast (w ! 0), ev_detail = ucast (drop_bit 8 (w ! 0)),
      ev_same_screen = ucast (drop_bit 16 (w ! 0)), ev_time = w ! 1, ev_window = w ! 2,
      ev_root = w ! 3, ev_child = w ! 4, ev_root_x = ucast (w ! 5), ev_root_y = ucast (drop_bit 16 (w ! 5)),
      ev_event_x = ucast (w ! 6), ev_event_y = ucast (drop_bit 16 (w ! 6)), ev_state = ucast (w ! 7)\<rparr>"

lemma length_event_words [simp]: "length (event_words e) = 8"
  by (simp add: event_words_def)

lemma word_pair_parts: "ucast (word_pair lo hi) = lo" "ucast (drop_bit 16 (word_pair lo hi)) = hi"
  unfolding word_pair_def by (rule bit_word_eqI; auto simp: bit_simps dest: bit_imp_le_length)+

lemma type_word_parts:
  "ucast (type_word t d ss) = t" "ucast (drop_bit 8 (type_word t d ss)) = d"
  "ucast (drop_bit 16 (type_word t d ss)) = ss"
  unfolding type_word_def by (rule bit_word_eqI; auto simp: bit_simps dest: bit_imp_le_length)+

lemma event_words_roundtrip: "event_of_words (event_words e) = e"
proof -
  have "(ucast (ucast (ev_state e) :: 32 word) :: 16 word) = ev_state e"
    by (rule bit_word_eqI) (auto simp: bit_simps)
  then show ?thesis by (simp add: event_of_words_def event_words_def word_pair_parts type_word_parts)
qed

text \<open>
  Writers are the input thread (\<^verbatim>\<open>publish_shared_input_event\<close>) and the listener thread
  (\<^verbatim>\<open>apply_shared_input_mask\<close>); both run \<^verbatim>\<open>update_shared_motion\<close>. The reader is
  \<^verbatim>\<open>read_shared_motion\<close>. The history holds the versions completed so far; the reader's positions
  keep how many there were when it loaded the sequence number.
\<close>

datatype writer = Input_thread | Listener_thread

datatype writer_pc =
    W_idle
  | W_loaded sg_input_event bool "32 word"
  | W_copy sg_input_event bool "32 word" nat
  | W_finish bool

datatype reader_pc =
    R_attempt nat
  | R_serial nat "32 word"
  | R_copy nat "32 word" "32 word" "32 word list" nat
  | R_after nat "32 word" "32 word" "32 word list" "32 word" nat nat
  | R_accepted sg_input_event nat nat
  | R_failed

record motion_state =
  m_seq :: "32 word"
  m_serial :: "32 word"
  m_cells :: "32 word list"
  m_writer :: "writer \<Rightarrow> writer_pc"
  m_reader :: reader_pc
  versions :: "sg_input_event list"

fun other_writer :: "writer \<Rightarrow> writer" where
  "other_writer Input_thread = Listener_thread"
| "other_writer Listener_thread = Input_thread"

text \<open>
  \<open>excl\<close> says whether something outside the two functions keeps the writers apart; the code has no
  such lock.
\<close>

definition begin_update :: "bool \<Rightarrow> writer \<Rightarrow> sg_input_event \<Rightarrow> bool \<Rightarrow> motion_state \<Rightarrow> motion_state option" where
  "begin_update excl w e is_event s =
     (if m_writer s w = W_idle \<and> (excl \<longrightarrow> m_writer s (other_writer w) = W_idle)
      then Some (s\<lparr>m_writer := (m_writer s)(w := W_loaded e is_event (m_seq s))\<rparr>) else None)"

definition writer_step :: "writer \<Rightarrow> motion_state \<Rightarrow> motion_state option" where
  "writer_step w s =
     (case m_writer s w of
        W_idle \<Rightarrow> None
      | W_loaded e is_event seq \<Rightarrow>
          Some (s\<lparr>m_seq := seq + 1, m_writer := (m_writer s)(w := W_copy e is_event seq 0)\<rparr>)
      | W_copy e is_event seq k \<Rightarrow>
          if k < 8
          then Some (s\<lparr>m_cells := (m_cells s)[k := event_words e ! k],
                       m_writer := (m_writer s)(w := W_copy e is_event seq (Suc k))\<rparr>)
          else Some (s\<lparr>m_seq := seq + 2, m_writer := (m_writer s)(w := W_finish is_event),
                       versions := versions s @ [e]\<rparr>)
      | W_finish is_event \<Rightarrow>
          Some (s\<lparr>m_serial := (if is_event then m_serial s + 1 else m_serial s),
                  m_writer := (m_writer s)(w := W_idle)\<rparr>))"

definition retry :: "nat \<Rightarrow> reader_pc" where
  "retry n = (if Suc n < 3 then R_attempt (Suc n) else R_failed)"

definition reader_step :: "motion_state \<Rightarrow> motion_state option" where
  "reader_step s =
     (case m_reader s of
        R_attempt n \<Rightarrow> Some (s\<lparr>m_reader := R_serial n (m_serial s)\<rparr>)
      | R_serial n serial \<Rightarrow>
          Some (s\<lparr>m_reader := (if m_seq s AND 1 \<noteq> 0 \<or> m_seq s = 0 then retry n
                              else R_copy n serial (m_seq s) [] (length (versions s)))\<rparr>)
      | R_copy n serial seq buf v \<Rightarrow>
          if length buf < 8
          then Some (s\<lparr>m_reader := R_copy n serial seq (buf @ [m_cells s ! length buf]) v\<rparr>)
          else Some (s\<lparr>m_reader := R_after n serial seq buf (m_seq s) v (length (versions s))\<rparr>)
      | R_after n serial seq buf seq_after v v' \<Rightarrow>
          Some (s\<lparr>m_reader := (if seq = seq_after \<and> seq_after AND 1 = 0 \<and> serial = m_serial s
                              then R_accepted (event_of_words buf) v v' else retry n)\<rparr>)
      | R_accepted _ _ _ \<Rightarrow> Some (s\<lparr>m_reader := R_attempt 0\<rparr>)
      | R_failed \<Rightarrow> Some (s\<lparr>m_reader := R_attempt 0\<rparr>))"

datatype motion_action = Begin writer sg_input_event bool | Write writer | Read

fun motion_step :: "bool \<Rightarrow> motion_action \<Rightarrow> motion_state \<Rightarrow> motion_state option" where
  "motion_step excl (Begin w e b) s = begin_update excl w e b s"
| "motion_step excl (Write w) s = writer_step w s"
| "motion_step excl Read s = reader_step s"

definition motion_init :: "sg_input_event \<Rightarrow> motion_state" where
  "motion_init e = \<lparr>m_seq = 0, m_serial = 0, m_cells = event_words e, m_writer = (\<lambda>_. W_idle),
     m_reader = R_attempt 0, versions = []\<rparr>"

inductive motion_reachable :: "bool \<Rightarrow> motion_state \<Rightarrow> bool" for excl where
  start: "motion_reachable excl (motion_init e)"
| step: "motion_reachable excl s \<Longrightarrow> motion_step excl a s = Some s' \<Longrightarrow> motion_reachable excl s'"

fun motion_run :: "bool \<Rightarrow> motion_action list \<Rightarrow> motion_state \<Rightarrow> motion_state option" where
  "motion_run excl [] s = Some s"
| "motion_run excl (a # as) s = (case motion_step excl a s of None \<Rightarrow> None | Some s' \<Rightarrow> motion_run excl as s')"

lemma motion_run_reachable:
  "motion_reachable excl s \<Longrightarrow> motion_run excl as s = Some s' \<Longrightarrow> motion_reachable excl s'"
  by (induction as arbitrary: s) (auto split: option.splits intro: motion_reachable.step)

subsection \<open>Invariant under exclusion\<close>

fun copying :: "writer_pc \<Rightarrow> bool" where
  "copying (W_copy _ _ _ _) = True"
| "copying _ = False"

definition some_copying :: "motion_state \<Rightarrow> bool" where
  "some_copying s \<longleftrightarrow> copying (m_writer s Input_thread) \<or> copying (m_writer s Listener_thread)"

fun writer_inv :: "writer_pc \<Rightarrow> nat \<Rightarrow> 32 word list \<Rightarrow> bool" where
  "writer_inv (W_loaded e b seq) u cells = (seq = of_nat (2 * u))"
| "writer_inv (W_copy e b seq k) u cells =
     (seq = of_nat (2 * u) \<and> k \<le> 8 \<and> take k cells = take k (event_words e))"
| "writer_inv _ u cells = True"

text \<open>A copy that started at version \<open>v\<close> is a prefix of it as long as the writers have not moved on.\<close>

definition prefix_of_version :: "motion_state \<Rightarrow> nat \<Rightarrow> 32 word list \<Rightarrow> bool" where
  "prefix_of_version s v buf \<longleftrightarrow> 0 < v \<and> v \<le> length (versions s) \<and> length buf \<le> 8 \<and>
     (length (versions s) = v \<and> \<not> some_copying s \<longrightarrow>
        buf = take (length buf) (event_words (versions s ! (v - 1))))"

definition full_version :: "motion_state \<Rightarrow> nat \<Rightarrow> 32 word list \<Rightarrow> bool" where
  "full_version s v buf \<longleftrightarrow> 0 < v \<and> v \<le> length (versions s) \<and> buf = event_words (versions s ! (v - 1))"

fun reader_inv :: "reader_pc \<Rightarrow> motion_state \<Rightarrow> bool" where
  "reader_inv (R_copy n ser seq buf v) s = (seq = of_nat (2 * v) \<and> prefix_of_version s v buf)"
| "reader_inv (R_after n ser seq buf seq' v v') s =
     (seq = seq' \<and> v' - v < 2 ^ 31 \<longrightarrow> full_version s v buf)"
| "reader_inv (R_accepted e v v') s =
     (v' - v < 2 ^ 31 \<longrightarrow> 0 < v \<and> v \<le> length (versions s) \<and> e = versions s ! (v - 1))"
| "reader_inv _ s = True"

definition motion_inv :: "motion_state \<Rightarrow> bool" where
  "motion_inv s \<longleftrightarrow>
     (let u = length (versions s)
      in (\<exists>w. m_writer s w = W_idle) \<and> length (m_cells s) = 8 \<and>
         m_seq s = of_nat (if some_copying s then 2 * u + 1 else 2 * u) \<and>
         (\<forall>w. writer_inv (m_writer s w) u (m_cells s)) \<and>
         (\<not> some_copying s \<and> 0 < u \<longrightarrow> m_cells s = event_words (versions s ! (u - 1))) \<and>
         reader_inv (m_reader s) s)"

lemma seq_parity: "(of_nat (2 * u) :: 32 word) AND 1 = 0" "(of_nat (2 * u + 1) :: 32 word) AND 1 = 1"
  by (simp_all add: and_one_eq mod_2_eq_odd)

lemma seq_parity_ne: "(of_nat (2 * v) :: 32 word) \<noteq> of_nat (2 * u + 1)"
  using seq_parity(1) [of v] seq_parity(2) [of u] by (metis zero_neq_one)

lemma seq_same_version:
  assumes "(of_nat (2 * v) :: 32 word) = of_nat (2 * u)" "v \<le> u" "u - v < 2 ^ 31"
  shows "u = v"
proof -
  have "(of_nat (2 * (u - v)) :: 32 word) = 0"
    using assms(1,2) by (simp add: right_diff_distrib)
  then have "unat (of_nat (2 * (u - v)) :: 32 word) = 0" by simp
  then have "2 * (u - v) mod 2 ^ 32 = (0 :: nat)" by (simp only: unat_of_nat) simp
  then show ?thesis using assms(2,3) by simp
qed

lemma some_copying_upd:
  "m_writer s (other_writer w) = W_idle \<Longrightarrow> m_writer s' = (m_writer s)(w := p) \<Longrightarrow>
     some_copying s' = copying p"
  by (cases w) (auto simp: some_copying_def)

lemma some_copying_writer: "m_writer s (other_writer w) = W_idle \<Longrightarrow> some_copying s = copying (m_writer s w)"
  by (cases w) (auto simp: some_copying_def)

lemma other_idle: "\<exists>w. m_writer s w = W_idle \<Longrightarrow> m_writer s w \<noteq> W_idle \<Longrightarrow> m_writer s (other_writer w) = W_idle"
  by (metis other_writer.simps writer.exhaust)

lemma other_writer_ne [simp]: "other_writer w \<noteq> w" "w \<noteq> other_writer w"
  by (cases w; simp)+

lemma writers_all: "(\<forall>v. P v) \<longleftrightarrow> P w \<and> P (other_writer w)"
proof (cases w)
  case Input_thread
  then show ?thesis using writer.exhaust by (metis other_writer.simps(1))
next
  case Listener_thread
  then show ?thesis using writer.exhaust by (metis other_writer.simps(2))
qed

text \<open>With one writer idle the invariant is about the position of the other.\<close>

lemma motion_inv_alone:
  assumes "m_writer s (other_writer w) = W_idle"
  shows "motion_inv s \<longleftrightarrow>
    length (m_cells s) = 8 \<and>
    m_seq s = of_nat (if copying (m_writer s w) then 2 * length (versions s) + 1 else 2 * length (versions s)) \<and>
    writer_inv (m_writer s w) (length (versions s)) (m_cells s) \<and>
    (\<not> copying (m_writer s w) \<and> 0 < length (versions s) \<longrightarrow>
       m_cells s = event_words (versions s ! (length (versions s) - 1))) \<and>
    reader_inv (m_reader s) s"
proof -
  have "(\<exists>v. m_writer s v = W_idle) = True" using assms by blast
  then show ?thesis
    unfolding motion_inv_def Let_def writers_all [of _ w] some_copying_writer [OF assms] by (simp add: assms)
qed

lemma motion_inv_other:
  assumes "motion_inv s" "m_writer s w \<noteq> W_idle"
  shows "m_writer s (other_writer w) = W_idle"
proof -
  have "\<exists>v. m_writer s v = W_idle" using assms(1) unfolding motion_inv_def Let_def by (rule conjunct1)
  then show ?thesis using other_idle assms(2) by blast
qed

lemma reader_inv_same:
  "versions s' = versions s \<Longrightarrow> (some_copying s \<longrightarrow> some_copying s') \<Longrightarrow> reader_inv p s \<Longrightarrow> reader_inv p s'"
  by (cases p) (auto simp: prefix_of_version_def full_version_def)

lemma reader_inv_complete:
  "versions s' = versions s @ [e] \<Longrightarrow> reader_inv p s \<Longrightarrow> reader_inv p s'"
  by (cases p) (auto simp: prefix_of_version_def full_version_def nth_append)

lemma reader_inv_writer:
  assumes "m_writer s (other_writer w) = W_idle" "m_writer s' = (m_writer s)(w := p)"
    "reader_inv (m_reader s) s" "copying (m_writer s w) \<Longrightarrow> copying p"
    "versions s' = versions s" "m_reader s' = m_reader s"
  shows "reader_inv (m_reader s') s'"
  using assms reader_inv_same [of s' s] some_copying_writer [of s w] some_copying_upd [of s w s' p] by simp

lemma begin_inv:
  assumes "begin_update True w e b s = Some s'" "motion_inv s"
  shows "motion_inv s'"
proof -
  have idle: "m_writer s w = W_idle" "m_writer s (other_writer w) = W_idle"
    and s': "s' = s\<lparr>m_writer := (m_writer s)(w := W_loaded e b (m_seq s))\<rparr>"
    using assms(1) by (auto simp: begin_update_def split: if_splits)
  have inv: "reader_inv (m_reader s) s" using assms(2) motion_inv_alone [OF idle(2)] by blast
  have "reader_inv (m_reader s') s'"
    by (rule reader_inv_writer [OF idle(2) _ inv]) (simp_all add: s' idle)
  then show ?thesis
    using assms(2) idle motion_inv_alone [of s' w] motion_inv_alone [of s w] by (simp add: s')
qed

lemma writer_inv_step:
  assumes "writer_step w s = Some s'" "motion_inv s"
  shows "motion_inv s'"
proof -
  have act: "m_writer s w \<noteq> W_idle" using assms(1) by (auto simp: writer_step_def)
  note idle = motion_inv_other [OF assms(2) act]
  note inv = assms(2) [unfolded motion_inv_alone [OF idle]]
  have idle': "m_writer s' (other_writer w) = W_idle"
    using assms(1) idle by (auto simp: writer_step_def split: writer_pc.splits if_splits)
  have reader: "reader_inv (m_reader s') s'"
  proof (cases "versions s' = versions s")
    case True
    then show ?thesis
      using assms(1) inv by (intro reader_inv_writer [OF idle, of s' "m_writer s' w"])
        (auto simp: writer_step_def split: writer_pc.splits if_splits)
  next
    case False
    then obtain e where "versions s' = versions s @ [e]" "m_reader s' = m_reader s"
      using assms(1) by (auto simp: writer_step_def split: writer_pc.splits if_splits)
    then show ?thesis using inv reader_inv_complete [of s' s e] by simp
  qed
  show ?thesis
    unfolding motion_inv_alone [OF idle']
    using assms(1) inv reader
    by (cases "m_writer s w") (auto simp: writer_step_def take_Suc_conv_app_nth split: if_splits)
qed

lemma seq_read:
  assumes "motion_inv s" "m_seq s AND 1 = 0"
  shows "\<not> some_copying s" "m_seq s = of_nat (2 * length (versions s))"
proof -
  have "m_seq s = of_nat (if some_copying s then 2 * length (versions s) + 1 else 2 * length (versions s))"
    using assms(1) unfolding motion_inv_def Let_def by (elim conjE)
  then show "\<not> some_copying s" "m_seq s = of_nat (2 * length (versions s))"
    using assms(2) seq_parity(2) [of "length (versions s)"] by (auto split: if_splits)
qed

lemma cells_version:
  "motion_inv s \<Longrightarrow> \<not> some_copying s \<Longrightarrow> 0 < length (versions s) \<Longrightarrow>
     m_cells s = event_words (versions s ! (length (versions s) - 1))"
  unfolding motion_inv_def Let_def by (elim conjE) simp

lemma reader_of_inv: "motion_inv s \<Longrightarrow> reader_inv (m_reader s) s"
  unfolding motion_inv_def Let_def by (elim conjE)

lemma reader_frame [simp]:
  "some_copying (s\<lparr>m_reader := p\<rparr>) = some_copying s"
  "prefix_of_version (s\<lparr>m_reader := p\<rparr>) = prefix_of_version s"
  "full_version (s\<lparr>m_reader := p\<rparr>) = full_version s"
  by (simp_all add: fun_eq_iff some_copying_def prefix_of_version_def full_version_def)

lemma reader_inv_frame [simp]: "reader_inv q (s\<lparr>m_reader := p\<rparr>) = reader_inv q s"
  by (cases q) simp_all

lemma motion_inv_reader: "motion_inv s \<Longrightarrow> reader_inv p s \<Longrightarrow> motion_inv (s\<lparr>m_reader := p\<rparr>)"
  by (simp add: motion_inv_def Let_def)

lemma reader_inv_retry [simp]: "reader_inv (retry n) s"
  by (simp add: retry_def)

lemma reader_inv_step:
  assumes "reader_step s = Some s'" "motion_inv s"
  shows "motion_inv s'"
proof (cases "m_reader s")
  case (R_serial n ser)
  then show ?thesis
    using assms(1) seq_read [OF assms(2)]
    by (auto simp: reader_step_def prefix_of_version_def intro!: motion_inv_reader [OF assms(2)])
next
  case (R_copy n ser seq buf v)
  note inv = reader_of_inv [OF assms(2), unfolded R_copy reader_inv.simps prefix_of_version_def]
  show ?thesis
  proof (cases "length buf < 8")
    case True
    have "prefix_of_version s v (buf @ [m_cells s ! length buf])"
      using inv True cells_version [OF assms(2)]
      by (auto simp: prefix_of_version_def take_Suc_conv_app_nth)
    then show ?thesis
      using assms(1) R_copy True inv by (auto simp: reader_step_def intro!: motion_inv_reader [OF assms(2)])
  next
    case False
    have "full_version s v buf" if "seq = m_seq s" "length (versions s) - v < 2 ^ 31"
    proof -
      have "m_seq s AND 1 = 0" using that(1) inv seq_parity(1) [of v] by metis
      note now = seq_read [OF assms(2) this]
      then have "length (versions s) = v" using that inv seq_same_version by metis
      then show ?thesis using now(1) inv False by (simp add: full_version_def)
    qed
    then show ?thesis
      using assms(1) R_copy False by (auto simp: reader_step_def intro!: motion_inv_reader [OF assms(2)])
  qed
next
  case (R_after n ser seq buf seq' v v')
  have "reader_inv (if seq = seq' \<and> seq' AND 1 = 0 \<and> ser = m_serial s
      then R_accepted (event_of_words buf) v v' else retry n) s"
    using reader_of_inv [OF assms(2)] R_after by (simp add: full_version_def event_words_roundtrip)
  from motion_inv_reader [OF assms(2) this] show ?thesis
    using assms(1) R_after by (simp add: reader_step_def)
qed (use assms in \<open>auto simp: reader_step_def intro!: motion_inv_reader\<close>)

lemma motion_step_inv: "motion_step True a s = Some s' \<Longrightarrow> motion_inv s \<Longrightarrow> motion_inv s'"
  by (cases a) (auto intro: begin_inv writer_inv_step reader_inv_step)

lemma motion_reachable_inv: "motion_reachable True s \<Longrightarrow> motion_inv s"
proof (induction rule: motion_reachable.induct)
  case (start e)
  show ?case by (simp add: motion_init_def motion_inv_def some_copying_def)
qed (rule motion_step_inv)

section \<open>Properties\<close>

text \<open>C30: However the memory accesses of one producer and one consumer interleave, the events the
  consumer takes are the published ones, in order and without loss or duplicates, and the ring
  never holds more than its 64 slots; an event the consumer has copied and not yet released is the
  oldest published event it has not consumed.\<close>

theorem ring_interleaved_fifo:
  assumes "spsc_reachable s"
  shows "consumed s = take (length (consumed s)) (published s) \<and>
    length (published s) \<le> length (consumed s) + 64 \<and>
    (\<forall>h e. cpc s = C_copied h e \<longrightarrow>
       length (consumed s) < length (published s) \<and> e = published s ! length (consumed s))"
  using spsc_reachable_inv [OF assms, unfolded spsc_inv_def Let_def] by auto

lemma spsc_reachable_init:
  "spsc_reachable \<lparr>spsc_ring = demo_ring\<lparr>ring_head := 0, ring_tail := 0\<rparr>, ppc = P_idle, cpc = C_idle,
     published = [], consumed = []\<rparr>"
  by (rule spsc_reachable.start) (simp add: spsc_init_def demo_ring_def)

lemma demo_key_discrete: "discrete (compact_event demo_key)"
  by (simp add: discrete_def compact_event_def demo_key_def is_redirected_input_event_def x_types)

lemma demo_spsc_run:
  "\<exists>s. spsc_reachable s \<and> cpc s = C_copied 0 (compact_event demo_key) \<and>
     published s = [compact_event demo_key] \<and> consumed s = []"
proof -
  let ?k = "compact_event demo_key"
  let ?st = "\<lambda>ev t p c pub. \<lparr>spsc_ring = demo_ring\<lparr>ring_head := 0, ring_tail := t, ring_events := ev\<rparr>, ppc = p,
    cpc = c, published = pub, consumed = []\<rparr>"
  let ?ev = "replicate 64 ?k"
  have 0: "spsc_reachable (?st ?ev 0 P_idle C_idle [])"
    using spsc_reachable_init by (simp add: demo_ring_def)
  have 1: "spsc_reachable (?st ?ev 0 (P_head ?k 0) C_idle [])"
    by (rule spsc_reachable.step [OF 0 spsc_step.producer]) (use load_head [of "?st ?ev 0 P_idle C_idle []"] demo_key_discrete in simp)
  have 2: "spsc_reachable (?st ?ev 0 (P_tail ?k 0 0) C_idle [])"
    by (rule spsc_reachable.step [OF 1 spsc_step.producer]) (use load_tail [of "?st ?ev 0 (P_head ?k 0) C_idle []"] in simp)
  have 3: "spsc_reachable (?st (?ev[0 := ?k]) 0 (P_stored ?k 0) C_idle [])"
    by (rule spsc_reachable.step [OF 2 spsc_step.producer])
      (use store_event [of "?st ?ev 0 (P_tail ?k 0 0) C_idle []"] in
        \<open>simp add: SG_INPUT_RING_CAPACITY_def ring_index_def\<close>)
  have 4: "spsc_reachable (?st (?ev[0 := ?k]) 1 P_idle C_idle [?k])"
    by (rule spsc_reachable.step [OF 3 spsc_step.producer])
      (use store_tail [of "?st (?ev[0 := ?k]) 0 (P_stored ?k 0) C_idle []"] in \<open>simp add: demo_ring_def\<close>)
  have 5: "spsc_reachable (?st (?ev[0 := ?k]) 1 P_idle (C_head 0) [?k])"
    by (rule spsc_reachable.step [OF 4 spsc_step.consumer])
      (use consumer_head [of "?st (?ev[0 := ?k]) 1 P_idle C_idle [?k]"] in simp)
  have 6: "spsc_reachable (?st (?ev[0 := ?k]) 1 P_idle (C_nonempty 0) [?k])"
    by (rule spsc_reachable.step [OF 5 spsc_step.consumer])
      (use consumer_nonempty [of "?st (?ev[0 := ?k]) 1 P_idle (C_head 0) [?k]"] in simp)
  have 7: "spsc_reachable (?st (?ev[0 := ?k]) 1 P_idle (C_copied 0 ?k) [?k])"
    by (rule spsc_reachable.step [OF 6 spsc_step.consumer])
      (use copy_event [of "?st (?ev[0 := ?k]) 1 P_idle (C_nonempty 0) [?k]"] in
        \<open>simp add: SG_INPUT_RING_CAPACITY_def ring_index_def\<close>)
  then show ?thesis by (intro exI [of _ "?st (?ev[0 := ?k]) 1 P_idle (C_copied 0 ?k) [?k]"]) simp
qed

theorem ring_interleaved_fifo_witness:
  "\<exists>s h e. spsc_reachable s \<and> cpc s = C_copied h e \<and> consumed s = [] \<and> e = published s ! 0 \<and>
     length (published s) = 1"
proof -
  obtain s where s: "spsc_reachable s" "cpc s = C_copied 0 (compact_event demo_key)"
    "published s = [compact_event demo_key]" "consumed s = []" using demo_spsc_run by blast
  from ring_interleaved_fifo [OF s(1)] s have "spsc_reachable s \<and> cpc s = C_copied 0 (compact_event demo_key) \<and>
    consumed s = [] \<and> compact_event demo_key = published s ! 0 \<and> length (published s) = 1" by simp
  then show ?thesis by blast
qed

text \<open>While the two writers never overlap, a motion event the reader accepts is one that was
  written as a whole, the newest one complete when the reader looked at the sequence number (fewer than
  \<open>2 ^ 31\<close> updates fit between its two looks).\<close>

theorem motion_read_consistent:
  assumes "motion_reachable True s" "m_reader s = R_accepted e v v'" "v' - v < 2 ^ 31"
  shows "0 < v \<and> v \<le> length (versions s) \<and> e = versions s ! (v - 1)"
  using reader_of_inv [OF motion_reachable_inv [OF assms(1)]] assms(2,3) by simp

definition demo_motion :: "32 word \<Rightarrow> sg_input_event" where
  "demo_motion t = (compact_event demo_key)\<lparr>ev_type := MotionNotify, ev_time := t, ev_window := t,
     ev_root := t, ev_child := t\<rparr>"

definition demo_schedule :: "motion_action list" where
  "demo_schedule = Begin Input_thread (demo_motion 1) True # replicate 11 (Write Input_thread) @ replicate 12 Read"

theorem motion_read_consistent_witness:
  "\<exists>s. motion_run True demo_schedule (motion_init (demo_motion 0)) = Some s \<and>
     m_reader s = R_accepted (demo_motion 1) 1 1 \<and> versions s ! 0 = demo_motion 1"
proof -
  have "map_option m_reader (motion_run True demo_schedule (motion_init (demo_motion 0))) =
      Some (R_accepted (demo_motion 1) 1 1)" by code_simp
  then obtain s where run: "motion_run True demo_schedule (motion_init (demo_motion 0)) = Some s"
    and acc: "m_reader s = R_accepted (demo_motion 1) 1 1" by auto
  from motion_run_reachable [OF motion_reachable.start run]
  have "motion_reachable True s" .
  from motion_read_consistent [OF this acc] run acc show ?thesis by simp
qed

text \<open>
  A schedule that mixes two events: both writers load the sequence number 0 and write 1, the input thread completes
  its event and publishes 2; the reader takes \<open>k\<close> words of it, the listener thread copies its own event, and the
  reader takes the remaining words and finds the sequence number 2 again.
\<close>

definition torn_schedule :: "nat \<Rightarrow> sg_input_event \<Rightarrow> sg_input_event \<Rightarrow> motion_action list" where
  "torn_schedule k e1 e2 =
     [Begin Input_thread e1 True, Begin Listener_thread e2 False, Write Input_thread, Write Listener_thread] @
     replicate 8 (Write Input_thread) @ [Write Input_thread, Write Input_thread, Read, Read] @ replicate k Read @
     replicate 8 (Write Listener_thread) @ replicate (8 - k) Read @ [Read, Read]"

lemma motion_run_append:
  "motion_run excl (as @ bs) s = (case motion_run excl as s of None \<Rightarrow> None | Some s' \<Rightarrow> motion_run excl bs s')"
  by (induction as arbitrary: s) (auto split: option.splits)

lemma replicate_snoc: "replicate (Suc n) x = replicate n x @ [x]"
  by (simp add: replicate_append_same)

lemma writer_copies:
  assumes "m_writer s w = W_copy e b seq 0" "length (m_cells s) = 8" "j \<le> 8"
  shows "motion_run excl (replicate j (Write w)) s =
    Some (s\<lparr>m_cells := take j (event_words e) @ drop j (m_cells s), m_writer := (m_writer s)(w := W_copy e b seq j)\<rparr>)"
  using assms(3)
proof (induction j)
  case 0
  have "(m_writer s)(w := W_copy e b seq 0) = m_writer s" using assms(1) by auto
  then show ?case by simp
next
  case (Suc j)
  have "(take j (event_words e) @ drop j (m_cells s))[j := event_words e ! j] =
      take (Suc j) (event_words e) @ drop (Suc j) (m_cells s)"
    using assms(2) Suc.prems by (intro nth_equalityI) (auto simp: nth_append nth_list_update less_Suc_eq)
  then show ?case
    using Suc assms(2) unfolding replicate_snoc motion_run_append by (simp add: writer_step_def fun_upd_def cong: if_cong)
qed

lemma reader_copies:
  assumes "m_reader s = R_copy n serial seq buf v" "length buf + j \<le> 8" "length (m_cells s) = 8"
  shows "motion_run excl (replicate j Read) s =
    Some (s\<lparr>m_reader := R_copy n serial seq (buf @ take j (drop (length buf) (m_cells s))) v\<rparr>)"
  using assms(2)
proof (induction j)
  case 0
  then show ?case using assms(1) by simp
next
  case (Suc j)
  then show ?case using assms(3) unfolding replicate_snoc motion_run_append
    by (simp add: reader_step_def take_Suc_conv_app_nth)
qed

lemma mixed_words:
  assumes "k \<le> 8"
  shows "event_of_words (take k (event_words e1) @ drop k (event_words e2)) =
    \<lparr>ev_type = ev_type (if 0 < k then e1 else e2), ev_detail = ev_detail (if 0 < k then e1 else e2),
     ev_same_screen = ev_same_screen (if 0 < k then e1 else e2), ev_time = ev_time (if 1 < k then e1 else e2),
     ev_window = ev_window (if 2 < k then e1 else e2), ev_root = ev_root (if 3 < k then e1 else e2),
     ev_child = ev_child (if 4 < k then e1 else e2), ev_root_x = ev_root_x (if 5 < k then e1 else e2),
     ev_root_y = ev_root_y (if 5 < k then e1 else e2), ev_event_x = ev_event_x (if 6 < k then e1 else e2),
     ev_event_y = ev_event_y (if 6 < k then e1 else e2), ev_state = ev_state (if 7 < k then e1 else e2)\<rparr>"
proof -
  define p where "p i = (if i < k then e1 else e2)" for i
  have w: "(take k (event_words e1) @ drop k (event_words e2)) ! i = event_words (p i) ! i" if "i < 8" for i
    using that assms by (auto simp: nth_append p_def)
  have "(ucast (ucast (ev_state e) :: 32 word) :: 16 word) = ev_state e" for e :: sg_input_event
    by (rule bit_word_eqI) (auto simp: bit_simps)
  then have "event_of_words (take k (event_words e1) @ drop k (event_words e2)) =
    \<lparr>ev_type = ev_type (p 0), ev_detail = ev_detail (p 0), ev_same_screen = ev_same_screen (p 0), ev_time = ev_time (p 1),
     ev_window = ev_window (p 2), ev_root = ev_root (p 3), ev_child = ev_child (p 4), ev_root_x = ev_root_x (p 5),
     ev_root_y = ev_root_y (p 5), ev_event_x = ev_event_x (p 6), ev_event_y = ev_event_y (p 6), ev_state = ev_state (p 7)\<rparr>"
    unfolding event_of_words_def by (simp add: w) (simp add: event_words_def word_pair_parts type_word_parts)
  then show ?thesis unfolding p_def .
qed

lemma torn_run:
  assumes "k \<le> 8"
  shows "\<exists>s. motion_run False (torn_schedule k e1 e2) (motion_init e0) = Some s \<and>
    m_reader s = R_accepted (event_of_words (take k (event_words e1) @ drop k (event_words e2))) 1 1"
proof -
  define s0 where "s0 = (motion_init e0)\<lparr>m_seq := 1, m_writer := (\<lambda>_. W_idle)
    (Input_thread := W_copy e1 True 0 0, Listener_thread := W_copy e2 False 0 0)\<rparr>"
  have s0: "m_writer s0 Input_thread = W_copy e1 True 0 0" "length (m_cells s0) = 8"
    by (simp_all add: s0_def motion_init_def)
  have r0: "motion_run False [Begin Input_thread e1 True, Begin Listener_thread e2 False, Write Input_thread,
      Write Listener_thread] (motion_init e0) = Some s0"
    by (simp add: s0_def motion_init_def begin_update_def writer_step_def fun_upd_twist)
  define s1 where "s1 = s0\<lparr>m_cells := event_words e1, m_seq := 2, m_serial := 1, versions := [e1],
    m_writer := (m_writer s0)(Input_thread := W_idle), m_reader := R_copy 0 1 2 [] 1\<rparr>"
  have s1: "m_reader s1 = R_copy 0 1 2 [] 1" "length ([] :: 32 word list) + k \<le> 8" "length (m_cells s1) = 8"
    using assms by (simp_all add: s1_def)
  have r1: "motion_run False [Write Input_thread, Write Input_thread, Read, Read]
      (s0\<lparr>m_cells := take 8 (event_words e1) @ drop 8 (m_cells s0),
        m_writer := (m_writer s0)(Input_thread := W_copy e1 True 0 8)\<rparr>) = Some s1"
    using s0(2) by (simp add: s1_def s0_def motion_init_def writer_step_def reader_step_def)
  define s2 where "s2 = s1\<lparr>m_reader := R_copy 0 1 2 (take k (event_words e1)) 1\<rparr>"
  have s2: "m_writer s2 Listener_thread = W_copy e2 False 0 0" "length (m_cells s2) = 8"
    by (simp_all add: s2_def s1_def s0_def)
  have r2: "motion_run False (replicate k Read) s1 = Some s2"
    using reader_copies [OF s1] by (simp add: s2_def) (simp add: s1_def)
  define s3 where "s3 = s2\<lparr>m_cells := event_words e2, m_writer := (m_writer s2)(Listener_thread := W_copy e2 False 0 8)\<rparr>"
  have r3: "motion_run False (replicate 8 (Write Listener_thread)) s2 = Some s3"
    using writer_copies [OF s2 order.refl] s2(2) by (simp add: s3_def)
  have s3: "m_reader s3 = R_copy 0 1 2 (take k (event_words e1)) 1" "length (take k (event_words e1)) + (8 - k) \<le> 8"
      "length (m_cells s3) = 8"
    using assms by (simp_all add: s3_def s2_def s1_def)
  define s4 where "s4 = s3\<lparr>m_reader := R_copy 0 1 2 (take k (event_words e1) @ drop k (event_words e2)) 1\<rparr>"
  have r4: "motion_run False (replicate (8 - k) Read) s3 = Some s4"
    using reader_copies [OF s3] assms by (simp add: s4_def min_def) (simp add: s3_def)
  have r5: "motion_run False [Read, Read] s4 =
      Some (s4\<lparr>m_reader := R_accepted (event_of_words (take k (event_words e1) @ drop k (event_words e2))) 1 1\<rparr>)"
    using assms by (simp add: s4_def s3_def s2_def s1_def reader_step_def)
  show ?thesis
    unfolding torn_schedule_def motion_run_append [of _ "[_, _, _, _]"] motion_run_append [of _ "replicate _ _"] r0 option.case
      writer_copies [OF s0 order.refl] r1 r2 r3 r4 r5
    by simp
qed

text \<open>C37: Without exclusion of the writers, which the code does not have, the reader accepts a mixture: for any two motion
  events \<open>e1\<close> and \<open>e2\<close> and any \<open>k\<close> up to 8 there is a schedule in which the input thread updates the slot with \<open>e1\<close>, the
  listener thread with \<open>e2\<close>, no other update is made, and the reader accepts the event that has the fields in the first
  \<open>k\<close> words of \<open>e1\<close> and all other fields of \<open>e2\<close>.\<close>

theorem motion_torn_without_exclusion:
  fixes k :: nat
  assumes "k \<le> 8"
  shows "\<exists>as s. motion_run False as (motion_init e0) = Some s \<and>
    {u. case u of (w, e, b) \<Rightarrow> Begin w e b \<in> set as} = {(Input_thread, e1, True), (Listener_thread, e2, False)} \<and>
    m_reader s = R_accepted
      \<lparr>ev_type = ev_type (if 0 < k then e1 else e2), ev_detail = ev_detail (if 0 < k then e1 else e2),
       ev_same_screen = ev_same_screen (if 0 < k then e1 else e2), ev_time = ev_time (if 1 < k then e1 else e2),
       ev_window = ev_window (if 2 < k then e1 else e2), ev_root = ev_root (if 3 < k then e1 else e2),
       ev_child = ev_child (if 4 < k then e1 else e2), ev_root_x = ev_root_x (if 5 < k then e1 else e2),
       ev_root_y = ev_root_y (if 5 < k then e1 else e2), ev_event_x = ev_event_x (if 6 < k then e1 else e2),
       ev_event_y = ev_event_y (if 6 < k then e1 else e2), ev_state = ev_state (if 7 < k then e1 else e2)\<rparr> 1 1"
proof -
  obtain s where s: "motion_run False (torn_schedule k e1 e2) (motion_init e0) = Some s"
      "m_reader s = R_accepted (event_of_words (take k (event_words e1) @ drop k (event_words e2))) 1 1"
    using torn_run [OF assms] by blast
  moreover have "{u. case u of (w, e, b) \<Rightarrow> Begin w e b \<in> set (torn_schedule k e1 e2)} =
      {(Input_thread, e1, True), (Listener_thread, e2, False)}"
    by (auto simp: torn_schedule_def)
  ultimately show ?thesis unfolding mixed_words [OF assms] by blast
qed

theorem motion_torn_without_exclusion_witness:
  "\<exists>as s. motion_run False as (motion_init (demo_motion 0)) = Some s \<and>
    {u. case u of (w, e, b) \<Rightarrow> Begin w e b \<in> set as} =
      {(Input_thread, demo_motion 1, True), (Listener_thread, demo_motion 2, False)} \<and>
    m_reader s = R_accepted ((demo_motion 1)\<lparr>ev_window := 2, ev_root := 2, ev_child := 2\<rparr>) 1 1 \<and>
    (demo_motion 1)\<lparr>ev_window := 2, ev_root := 2, ev_child := 2\<rparr> \<noteq> demo_motion 1 \<and>
    (demo_motion 1)\<lparr>ev_window := 2, ev_root := 2, ev_child := 2\<rparr> \<noteq> demo_motion 2"
proof -
  have "(demo_motion 1)\<lparr>ev_window := 2, ev_root := 2, ev_child := 2\<rparr> \<noteq> demo_motion 1"
    "(demo_motion 1)\<lparr>ev_window := 2, ev_root := 2, ev_child := 2\<rparr> \<noteq> demo_motion 2" by code_simp+
  then show ?thesis
    using motion_torn_without_exclusion [of 2 "demo_motion 0" "demo_motion 1" "demo_motion 2"]
    by (simp add: demo_motion_def compact_event_def)
qed

end
