(* ===== verification/File_Lock.thy ===== *)
theory File_Lock
  imports Prelude
begin

text \<open>
  Advisory file locks, first part of \<^verbatim>\<open>libos/src/fs/libos_fs_lock.c\<close>: the lock record, the search
  for a conflicting lock, and the update of the lock list of one file by \<^verbatim>\<open>_posix_lock_set\<close> (ranges
  of bytes held by processes, split and merged on the way) and \<^verbatim>\<open>_flock_lock_set\<close> (whole files held
  by handles). Offsets are naturals below \<open>2 ^ 64\<close>, with the reduction written out where the source
  adds to one; a subtraction of 1 in the source is guarded by a comparison with 0.
\<close>

section \<open>Data\<close>

datatype lock_family = FILE_LOCK_UNKNOWN | FILE_LOCK_POSIX | FILE_LOCK_FLOCK
datatype lock_type = F_RDLCK | F_WRLCK | F_UNLCK

record libos_file_lock =
  family :: lock_family
  ltype :: lock_type
  l_start :: nat
  l_end :: nat
  l_pid :: nat
  handle_id :: nat

definition FS_LOCK_EOF :: nat where "FS_LOCK_EOF = 2 ^ 64 - 1"

section \<open>Conflicts\<close>

definition write_involved :: "libos_file_lock \<Rightarrow> libos_file_lock \<Rightarrow> bool" where
  "write_involved cur fl \<longleftrightarrow> ltype cur = F_WRLCK \<or> ltype fl = F_WRLCK"

definition posix_conflict :: "libos_file_lock \<Rightarrow> libos_file_lock \<Rightarrow> bool" where
  "posix_conflict fl cur \<longleftrightarrow> l_pid cur \<noteq> l_pid fl \<and> l_start fl \<le> l_end cur \<and> l_start cur \<le> l_end fl \<and>
     write_involved cur fl"

definition flock_conflict :: "libos_file_lock \<Rightarrow> libos_file_lock \<Rightarrow> bool" where
  "flock_conflict fl cur \<longleftrightarrow> handle_id cur \<noteq> handle_id fl \<and> write_involved cur fl"

definition file_lock_find_conflict :: "libos_file_lock list \<Rightarrow> libos_file_lock \<Rightarrow> libos_file_lock option" where
  "file_lock_find_conflict locks fl =
     (if family fl = FILE_LOCK_POSIX then find (posix_conflict fl) locks else find (flock_conflict fl) locks)"

section \<open>Setting a POSIX lock\<close>

text \<open>
  The loop over the list. \<open>pre\<close> is the list up to and including \<^verbatim>\<open>prev\<close>, \<open>mid\<close> holds the elements
  after it that were passed over; the result is the target range as widened by merging, the part of
  the list up to \<^verbatim>\<open>prev\<close> and the part behind it.
\<close>

fun posix_scan :: "libos_file_lock \<Rightarrow> nat \<Rightarrow> nat \<Rightarrow> libos_file_lock list \<Rightarrow> libos_file_lock list \<Rightarrow>
    libos_file_lock list \<Rightarrow> nat \<times> nat \<times> libos_file_lock list \<times> libos_file_lock list" where
  "posix_scan fl st en pre mid [] = (st, en, pre, mid)"
| "posix_scan fl st en pre mid (cur # rest) =
     (if family cur \<noteq> FILE_LOCK_POSIX then posix_scan fl st en pre (mid @ [cur]) rest
      else if l_pid cur < l_pid fl then posix_scan fl st en (pre @ mid @ [cur]) [] rest
      else if l_pid fl < l_pid cur then (st, en, pre, mid @ cur # rest)
      else if ltype cur = ltype fl then
        (if st > 0 \<and> l_end cur < st - 1 then posix_scan fl st en (pre @ mid @ [cur]) [] rest
         else if en < FS_LOCK_EOF \<and> u64 (en + 1) < l_start cur then (st, en, pre, mid @ cur # rest)
         else posix_scan fl (min st (l_start cur)) (max en (l_end cur)) pre mid rest)
      else
        (if l_end cur < st then posix_scan fl st en (pre @ mid @ [cur]) [] rest
         else if en < l_start cur then (st, en, pre, mid @ cur # rest)
         else if l_start cur < st \<and> l_end cur \<le> en
           then posix_scan fl st en (pre @ mid @ [cur\<lparr>l_end := st - 1\<rparr>]) [] rest
         else if l_start cur < st \<and> l_end cur > en
           then (let extra = \<lparr>family = FILE_LOCK_POSIX, ltype = ltype cur, l_start = u64 (en + 1), l_end = l_end cur,
                              l_pid = l_pid cur, handle_id = 0\<rparr>
                 in (st, en, pre @ mid @ [cur\<lparr>l_end := st - 1\<rparr>], extra # rest))
         else if st \<le> l_start cur \<and> l_end cur \<le> en then posix_scan fl st en pre mid rest
         else (st, en, pre, mid @ cur\<lparr>l_start := u64 (en + 1)\<rparr> # rest)))"

text \<open>
  \<^verbatim>\<open>_posix_lock_set\<close>: the two allocations come first, the one for the new lock only when there is
  one; \<open>new_ok\<close> and \<open>extra_ok\<close> say whether they succeed.
\<close>

definition u_posix_lock_set :: "bool \<Rightarrow> bool \<Rightarrow> libos_file_lock \<Rightarrow> libos_file_lock list \<Rightarrow> int \<times> libos_file_lock list" where
  "u_posix_lock_set new_ok extra_ok fl locks =
     (if ltype fl \<noteq> F_UNLCK \<and> \<not> new_ok then (- ENOMEM, locks)
      else if \<not> extra_ok then (- ENOMEM, locks)
      else let (st, en, pre, post) = posix_scan fl (l_start fl) (l_end fl) [] [] locks
      in (0, if ltype fl \<noteq> F_UNLCK
             then pre @ \<lparr>family = FILE_LOCK_POSIX, ltype = ltype fl, l_start = st, l_end = en,
                         l_pid = l_pid fl, handle_id = 0\<rparr> # post
             else pre @ post))"

section \<open>Setting a BSD lock\<close>

fun flock_remove :: "nat \<Rightarrow> libos_file_lock list \<Rightarrow> libos_file_lock list" where
  "flock_remove h [] = []"
| "flock_remove h (cur # rest) =
     (if family cur \<noteq> FILE_LOCK_FLOCK then cur # flock_remove h rest
      else if handle_id cur = h then rest else cur # flock_remove h rest)"

definition u_flock_lock_set :: "bool \<Rightarrow> libos_file_lock \<Rightarrow> libos_file_lock list \<Rightarrow> int \<times> libos_file_lock list" where
  "u_flock_lock_set new_ok fl locks =
     (if ltype fl \<noteq> F_UNLCK \<and> \<not> new_ok then (- ENOMEM, locks)
      else let locks = flock_remove (handle_id fl) locks
      in (0, if ltype fl \<noteq> F_UNLCK
             then \<lparr>family = FILE_LOCK_FLOCK, ltype = ltype fl, l_start = 0, l_end = 0, l_pid = 0,
                   handle_id = handle_id fl\<rparr> # locks
             else locks))"

section \<open>The lock list of a file\<close>

text \<open>
  The order \<^verbatim>\<open>dent_file_locks\<close> documents: by process and then by position, without overlap within a
  process; and, as neighbours of one type are merged, with a gap between those.
\<close>

definition lock_before :: "libos_file_lock \<Rightarrow> libos_file_lock \<Rightarrow> bool" where
  "lock_before a b \<longleftrightarrow> l_pid a < l_pid b \<or>
     l_pid a = l_pid b \<and> (if ltype a = ltype b then l_end a + 1 < l_start b else l_end a < l_start b)"

definition range_ok :: "libos_file_lock \<Rightarrow> bool" where
  "range_ok l \<longleftrightarrow> l_start l \<le> l_end l \<and> l_end l \<le> FS_LOCK_EOF"

definition posix_lock :: "libos_file_lock \<Rightarrow> bool" where
  "posix_lock l \<longleftrightarrow> family l = FILE_LOCK_POSIX \<and> ltype l \<noteq> F_UNLCK \<and> range_ok l"

definition posix_ok :: "libos_file_lock list \<Rightarrow> bool" where
  "posix_ok ls \<longleftrightarrow> sorted_wrt lock_before ls \<and> list_all posix_lock ls"

text \<open>Who holds which byte, and how.\<close>

definition covers :: "libos_file_lock \<Rightarrow> nat \<Rightarrow> nat \<Rightarrow> lock_type \<Rightarrow> bool" where
  "covers l p b t \<longleftrightarrow> l_pid l = p \<and> ltype l = t \<and> l_start l \<le> b \<and> b \<le> l_end l"

definition holds :: "libos_file_lock list \<Rightarrow> nat \<Rightarrow> nat \<Rightarrow> lock_type \<Rightarrow> bool" where
  "holds ls p b t \<longleftrightarrow> (\<exists>l\<in>set ls. covers l p b t)"

definition in_range :: "libos_file_lock \<Rightarrow> nat \<Rightarrow> nat \<Rightarrow> bool" where
  "in_range l p b \<longleftrightarrow> p = l_pid l \<and> l_start l \<le> b \<and> b \<le> l_end l"

abbreviation target :: "libos_file_lock \<Rightarrow> nat \<Rightarrow> nat \<Rightarrow> libos_file_lock" where
  "target fl st en \<equiv> fl\<lparr>l_start := st, l_end := en\<rparr>"

text \<open>What is held once the target range has been given to the lock.\<close>

definition held_after :: "libos_file_lock \<Rightarrow> nat \<Rightarrow> nat \<Rightarrow> libos_file_lock list \<Rightarrow> nat \<Rightarrow> nat \<Rightarrow> lock_type \<Rightarrow> bool" where
  "held_after fl st en ls p b t \<longleftrightarrow>
     (if in_range (target fl st en) p b then t = ltype fl else holds ls p b t)"

definition scan_post :: "libos_file_lock \<Rightarrow> nat \<Rightarrow> nat \<Rightarrow> libos_file_lock list \<Rightarrow>
    nat \<times> nat \<times> libos_file_lock list \<times> libos_file_lock list \<Rightarrow> bool" where
  "scan_post fl st en ls r =
     (case r of (st', en', pre, post) \<Rightarrow>
        posix_ok (pre @ post) \<and> range_ok (target fl st' en') \<and>
        list_all (\<lambda>a. lock_before a (target fl st' en')) pre \<and> list_all (lock_before (target fl st' en')) post \<and>
        (ltype fl = F_UNLCK \<longrightarrow> st' = st \<and> en' = en) \<and>
        held_after fl st' en' (pre @ post) = held_after fl st en ls)"

lemma posix_ok_append:
  "posix_ok (xs @ ys) \<longleftrightarrow> posix_ok xs \<and> posix_ok ys \<and> (\<forall>x\<in>set xs. \<forall>y\<in>set ys. lock_before x y)"
  by (auto simp: posix_ok_def sorted_wrt_append)

lemma posix_ok_Cons: "posix_ok (x # xs) \<longleftrightarrow> posix_lock x \<and> posix_ok xs \<and> (\<forall>y\<in>set xs. lock_before x y)"
  by (auto simp: posix_ok_def)

lemma posix_ok_Nil [simp]: "posix_ok []"
  by (simp add: posix_ok_def)

lemma lock_before_trans: "lock_before a b \<Longrightarrow> lock_before b c \<Longrightarrow> range_ok b \<Longrightarrow> lock_before a c"
  by (auto simp: lock_before_def range_ok_def split: if_splits)

lemma u64_succ: "range_ok l \<Longrightarrow> en < l_end l \<Longrightarrow> u64 (en + 1) = en + 1"
  by (simp add: range_ok_def FS_LOCK_EOF_def)

lemma u64_succ_EOF: "en < FS_LOCK_EOF \<Longrightarrow> u64 (en + 1) = en + 1"
  by (simp add: FS_LOCK_EOF_def)

lemma scan_post_shift:
  "scan_post fl st' en' ls' r \<Longrightarrow> held_after fl st' en' ls' = held_after fl st en ls \<Longrightarrow>
     (ltype fl = F_UNLCK \<Longrightarrow> st' = st \<and> en' = en) \<Longrightarrow> scan_post fl st en ls r"
  by (auto simp: scan_post_def split: prod.splits)

lemma holds_append [simp]: "holds (xs @ ys) p b t \<longleftrightarrow> holds xs p b t \<or> holds ys p b t"
  by (auto simp: holds_def)

lemma holds_Cons [simp]: "holds (x # xs) p b t \<longleftrightarrow> covers x p b t \<or> holds xs p b t"
  by (auto simp: holds_def)

lemma holds_Nil [simp]: "\<not> holds [] p b t"
  by (simp add: holds_def)

text \<open>Replacing an element by what is left of it outside the target range.\<close>

lemma held_after_replace:
  assumes "\<And>p b t. \<not> in_range (target fl st en) p b \<Longrightarrow> covers cur p b t = holds cs p b t"
  shows "held_after fl st en (pre @ cs @ rest) = held_after fl st en (pre @ cur # rest)"
  using assms by (auto simp: held_after_def fun_eq_iff)

lemma scan_post_replace:
  assumes "scan_post fl st en (pre @ cs @ rest) r"
    "\<And>p b t. \<not> in_range (target fl st en) p b \<Longrightarrow> covers cur p b t = holds cs p b t"
  shows "scan_post fl st en (pre @ cur # rest) r"
  by (rule scan_post_shift [OF assms(1) held_after_replace [OF assms(2)]]) simp_all

text \<open>Absorbing an element of the same process and type that touches the target range.\<close>

lemma held_after_merge:
  assumes "l_pid cur = l_pid fl" "ltype cur = ltype fl" "st \<le> en" "range_ok cur"
    "st \<le> l_end cur + 1" "l_start cur \<le> en + 1"
    "list_all (\<lambda>a. lock_before a cur) pre" "list_all (lock_before cur) rest"
  shows "held_after fl (min st (l_start cur)) (max en (l_end cur)) (pre @ rest) =
    held_after fl st en (pre @ cur # rest)"
proof (intro ext)
  fix p b t
  consider "in_range (target fl st en) p b" | "\<not> in_range (target fl st en) p b" "covers cur p b (ltype cur)"
    | "\<not> in_range (target fl st en) p b" "\<not> covers cur p b (ltype cur)" by blast
  then show "held_after fl (min st (l_start cur)) (max en (l_end cur)) (pre @ rest) p b t =
    held_after fl st en (pre @ cur # rest) p b t"
  proof cases
    case 2
    have "\<not> covers l p b t" if "l \<in> set pre \<union> set rest" for l t
      using that 2(2) assms(7,8) by (fastforce simp: list_all_iff covers_def lock_before_def split: if_splits)
    then have "\<not> holds (pre @ rest) p b t" for t by (auto simp: holds_def)
    then show ?thesis using 2 assms(1,2) by (auto simp: held_after_def in_range_def covers_def)
  next
    case 3
    then have "\<not> in_range (target fl (min st (l_start cur)) (max en (l_end cur))) p b"
      using assms(1-6) by (auto simp: in_range_def covers_def range_ok_def)
    moreover have "\<not> covers cur p b t" using 3(2) by (auto simp: covers_def)
    ultimately show ?thesis using 3 by (simp add: held_after_def)
  qed (auto simp: held_after_def in_range_def)
qed

lemma lock_before_shrink:
  "lock_before a b \<Longrightarrow> l_start b \<le> s \<Longrightarrow> lock_before a (b\<lparr>l_start := s\<rparr>)"
  "lock_before a b \<Longrightarrow> e \<le> l_end a \<Longrightarrow> lock_before (a\<lparr>l_end := e\<rparr>) b"
  "lock_before a (b\<lparr>l_end := e\<rparr>) = lock_before a b"
  "lock_before (a\<lparr>l_start := s\<rparr>) b = lock_before a b"
  by (auto simp: lock_before_def)

lemma lock_before_target_end [simp]: "lock_before a (target fl st en) = lock_before a (fl\<lparr>l_start := st\<rparr>)"
  by (simp add: lock_before_def)

lemma lock_before_target_start [simp]: "lock_before (target fl st en) = lock_before (fl\<lparr>l_end := en\<rparr>)"
  by (simp add: lock_before_def fun_eq_iff)

lemma scan_stop:
  "posix_ok (pre @ post) \<Longrightarrow> range_ok (target fl st en) \<Longrightarrow>
   list_all (\<lambda>a. lock_before a (fl\<lparr>l_start := st\<rparr>)) pre \<Longrightarrow> list_all (lock_before (fl\<lparr>l_end := en\<rparr>)) post \<Longrightarrow>
   held_after fl st en (pre @ post) = held_after fl st en ls \<Longrightarrow> scan_post fl st en ls (st, en, pre, post)"
  by (simp add: scan_post_def)

text \<open>When an element lies behind the target, so do all that follow it.\<close>

lemma all_behind:
  assumes "posix_ok (pre @ cur # rest)" "lock_before (fl\<lparr>l_end := en\<rparr>) cur"
  shows "list_all (lock_before (fl\<lparr>l_end := en\<rparr>)) (cur # rest)"
proof -
  have "range_ok cur" using assms(1) by (simp add: posix_ok_append posix_ok_Cons posix_lock_def)
  then have "lock_before (fl\<lparr>l_end := en\<rparr>) y" if "y \<in> set rest" for y
    using that assms lock_before_trans [of "fl\<lparr>l_end := en\<rparr>" cur y]
    by (simp add: posix_ok_append posix_ok_Cons)
  then show ?thesis using assms(2) by (simp add: list_all_iff)
qed

lemmas posix_ok_simps = posix_ok_append posix_ok_Cons posix_lock_def

text \<open>
  The loop invariant: the list so far is in order and everything up to \<^verbatim>\<open>prev\<close> lies before the target.
  The step lemmas below take the claim for the remaining list as a hypothesis.
\<close>

definition scan_pre :: "libos_file_lock \<Rightarrow> nat \<Rightarrow> nat \<Rightarrow> libos_file_lock list \<Rightarrow> libos_file_lock list \<Rightarrow> bool" where
  "scan_pre fl st en pre rest \<longleftrightarrow> posix_ok (pre @ rest) \<and> range_ok (target fl st en) \<and>
     list_all (\<lambda>a. lock_before a (fl\<lparr>l_start := st\<rparr>)) pre"

definition scan_ok :: "libos_file_lock \<Rightarrow> libos_file_lock list \<Rightarrow> bool" where
  "scan_ok fl rest \<longleftrightarrow> (\<forall>st en pre. scan_pre fl st en pre rest \<longrightarrow>
     scan_post fl st en (pre @ rest) (posix_scan fl st en pre [] rest))"

lemma scan_okD:
  "scan_ok fl rest \<Longrightarrow> scan_pre fl st en pre rest \<Longrightarrow>
     scan_post fl st en (pre @ rest) (posix_scan fl st en pre [] rest)"
  by (simp add: scan_ok_def)

lemma scan_pre_facts:
  assumes "scan_pre fl st en pre (cur # rest)"
  shows "posix_lock cur" "list_all (\<lambda>a. lock_before a cur) pre" "list_all (lock_before cur) rest" "range_ok cur"
    "family cur = FILE_LOCK_POSIX" "scan_pre fl st en pre rest" "st \<le> en" "en \<le> FS_LOCK_EOF"
  using assms by (auto simp: scan_pre_def posix_ok_simps list_all_iff range_ok_def)

lemma scan_keep:
  assumes "scan_ok fl rest" "scan_pre fl st en pre (cur # rest)" "lock_before cur (fl\<lparr>l_start := st\<rparr>)"
  shows "scan_post fl st en (pre @ cur # rest) (posix_scan fl st en (pre @ [cur]) [] rest)"
  using scan_okD [OF assms(1), of st en "pre @ [cur]"] assms(2,3) by (simp add: scan_pre_def)

lemma scan_break:
  assumes "scan_pre fl st en pre (cur # rest)" "lock_before (fl\<lparr>l_end := en\<rparr>) cur"
  shows "scan_post fl st en (pre @ cur # rest) (st, en, pre, cur # rest)"
  using assms(1) all_behind [OF _ assms(2), of pre rest] by (intro scan_stop) (auto simp: scan_pre_def)

lemma scan_same:
  assumes IH: "scan_ok fl rest" and pre: "scan_pre fl st en pre (cur # rest)"
    and same: "l_pid cur = l_pid fl" "ltype cur = ltype fl"
  shows "scan_post fl st en (pre @ cur # rest) (posix_scan fl st en pre [] (cur # rest))"
proof -
  note ok = scan_pre_facts [OF pre]
  consider (before) "st > 0" "l_end cur < st - 1"
    | (behind) "\<not> (st > 0 \<and> l_end cur < st - 1)" "en < FS_LOCK_EOF" "en + 1 < l_start cur"
    | (merge) "st \<le> l_end cur + 1" "l_start cur \<le> en + 1" using ok(4) by (force simp: range_ok_def)
  then show ?thesis
  proof cases
    case before
    with same scan_keep [OF IH pre] ok(5) show ?thesis by (simp add: lock_before_def)
  next
    case behind
    with same scan_break [OF pre] ok(5) u64_succ_EOF show ?thesis by (auto simp: lock_before_def)
  next
    case merge
    have "scan_pre fl (min st (l_start cur)) (max en (l_end cur)) pre rest"
      using ok(2,4,6) same by (auto simp: scan_pre_def range_ok_def list_all_iff lock_before_def split: if_splits)
    from scan_post_shift [OF scan_okD [OF IH this] held_after_merge]
    have "scan_post fl st en (pre @ cur # rest)
        (posix_scan fl (min st (l_start cur)) (max en (l_end cur)) pre [] rest)"
      using same merge ok by (simp add: posix_lock_def)
    with merge u64_succ_EOF [of en] same ok(5) show ?thesis by auto
  qed
qed

lemma posix_ok_shorten:
  assumes "posix_ok (pre @ cur # rest)" "l_start cur < st" "st \<le> l_end cur"
  shows "posix_ok (pre @ cur\<lparr>l_end := st - 1\<rparr> # rest)"
  using assms by (auto simp: posix_ok_simps range_ok_def lock_before_shrink)

lemma scan_head:
  assumes IH: "scan_ok fl rest" and pre: "scan_pre fl st en pre (cur # rest)"
    and other: "l_pid cur = l_pid fl" "ltype cur \<noteq> ltype fl"
    and head: "l_start cur < st" "st \<le> l_end cur" "l_end cur \<le> en"
  shows "scan_post fl st en (pre @ cur # rest) (posix_scan fl st en (pre @ [cur\<lparr>l_end := st - 1\<rparr>]) [] rest)"
proof -
  have "scan_pre fl st en (pre @ [cur\<lparr>l_end := st - 1\<rparr>]) rest"
    using pre posix_ok_shorten [OF _ head(1,2)] head other by (simp add: scan_pre_def lock_before_def)
  from scan_okD [OF IH this] have "scan_post fl st en (pre @ [cur\<lparr>l_end := st - 1\<rparr>] @ rest)
      (posix_scan fl st en (pre @ [cur\<lparr>l_end := st - 1\<rparr>]) [] rest)" by simp
  then show ?thesis
    by (rule scan_post_replace) (use head other in \<open>auto simp: covers_def in_range_def\<close>)
qed

lemma scan_split:
  assumes pre: "scan_pre fl st en pre (cur # rest)"
    and other: "l_pid cur = l_pid fl" "ltype cur \<noteq> ltype fl" and inside: "l_start cur < st" "en < l_end cur"
    and extra: "l_pid extra = l_pid cur" "ltype extra = ltype cur" "family extra = FILE_LOCK_POSIX"
      "l_start extra = en + 1" "l_end extra = l_end cur"
  shows "scan_post fl st en (pre @ cur # rest) (st, en, pre @ [cur\<lparr>l_end := st - 1\<rparr>], extra # rest)"
proof -
  note ok = scan_pre_facts [OF pre]
  have behind: "lock_before (fl\<lparr>l_end := en\<rparr>) extra" using extra other by (simp add: lock_before_def)
  have "lock_before extra = lock_before cur" using extra by (simp add: lock_before_def fun_eq_iff)
  with ok(3) have "list_all (lock_before extra) rest" by simp
  moreover have "list_all (\<lambda>a. lock_before a extra) (pre @ [cur\<lparr>l_end := st - 1\<rparr>])"
    using ok(2,7) extra inside by (auto simp: list_all_iff lock_before_def)
  moreover have "posix_ok (pre @ cur\<lparr>l_end := st - 1\<rparr> # rest)"
    using posix_ok_shorten [of pre cur rest st] pre inside ok(7) by (simp add: scan_pre_def)
  moreover have "posix_lock extra" using ok(1,4) extra inside by (simp add: posix_lock_def range_ok_def)
  ultimately have new: "posix_ok ((pre @ [cur\<lparr>l_end := st - 1\<rparr>]) @ extra # rest)"
    by (auto simp: posix_ok_append posix_ok_Cons list_all_iff)
  have "held_after fl st en (pre @ [cur\<lparr>l_end := st - 1\<rparr>, extra] @ rest) = held_after fl st en (pre @ cur # rest)"
    using inside other extra ok(7) by (intro held_after_replace) (auto simp: covers_def in_range_def)
  then show ?thesis
    using pre new all_behind [OF new behind] inside other
    by (intro scan_stop) (auto simp: scan_pre_def lock_before_def)
qed

lemma scan_tail:
  assumes pre: "scan_pre fl st en pre (cur # rest)"
    and other: "l_pid cur = l_pid fl" "ltype cur \<noteq> ltype fl"
    and tail: "st \<le> l_start cur" "l_start cur \<le> en" "en < l_end cur"
  shows "scan_post fl st en (pre @ cur # rest) (st, en, pre, cur\<lparr>l_start := en + 1\<rparr> # rest)"
proof -
  have new: "posix_ok (pre @ cur\<lparr>l_start := en + 1\<rparr> # rest)"
    using pre tail by (auto simp: scan_pre_def posix_ok_simps range_ok_def lock_before_shrink)
  have behind: "lock_before (fl\<lparr>l_end := en\<rparr>) (cur\<lparr>l_start := en + 1\<rparr>)" using other by (simp add: lock_before_def)
  have "held_after fl st en (pre @ [cur\<lparr>l_start := en + 1\<rparr>] @ rest) = held_after fl st en (pre @ cur # rest)"
    using tail other by (intro held_after_replace) (auto simp: covers_def in_range_def)
  then show ?thesis
    using pre new all_behind [OF new behind] by (intro scan_stop) (auto simp: scan_pre_def)
qed

lemma scan_other:
  assumes IH: "scan_ok fl rest" and pre: "scan_pre fl st en pre (cur # rest)"
    and other: "l_pid cur = l_pid fl" "ltype cur \<noteq> ltype fl"
  shows "scan_post fl st en (pre @ cur # rest) (posix_scan fl st en pre [] (cur # rest))"
proof -
  note ok = scan_pre_facts [OF pre]
  consider (before) "l_end cur < st" | (behind) "st \<le> l_end cur" "en < l_start cur"
    | (head) "l_start cur < st" "st \<le> l_end cur" "l_end cur \<le> en"
    | (inside) "l_start cur < st" "en < l_end cur" | (covered) "st \<le> l_start cur" "l_end cur \<le> en"
    | (tail) "st \<le> l_start cur" "l_start cur \<le> en" "en < l_end cur" by linarith
  then show ?thesis
  proof cases
    case before
    with other scan_keep [OF IH pre] ok(5) show ?thesis by (simp add: lock_before_def)
  next
    case behind
    with other scan_break [OF pre] ok(5) show ?thesis by (simp add: lock_before_def)
  next
    case head
    with other scan_head [OF IH pre other head] ok(5) show ?thesis by simp
  next
    case inside
    with other scan_split [OF pre other inside] ok(5,7) u64_succ [OF ok(4)] show ?thesis by (simp add: Let_def)
  next
    case covered
    from scan_okD [OF IH ok(6)] have "scan_post fl st en (pre @ [] @ rest) (posix_scan fl st en pre [] rest)" by simp
    then have "scan_post fl st en (pre @ cur # rest) (posix_scan fl st en pre [] rest)"
      by (rule scan_post_replace) (use covered other in \<open>auto simp: covers_def in_range_def\<close>)
    then show ?thesis using covered other ok(4,5) by (simp add: range_ok_def)
  next
    case tail
    with other scan_tail [OF pre other tail] ok(5) u64_succ [OF ok(4)] show ?thesis by simp
  qed
qed

lemma scan_correct: "scan_ok fl ls"
proof (induction ls)
  case Nil
  show ?case by (simp add: scan_ok_def scan_pre_def scan_post_def)
next
  case (Cons cur rest)
  have "scan_post fl st en (pre @ cur # rest) (posix_scan fl st en pre [] (cur # rest))"
    if pre: "scan_pre fl st en pre (cur # rest)" for st en pre
  proof -
    note fam = scan_pre_facts(5) [OF pre]
    consider "l_pid cur < l_pid fl" | "l_pid fl < l_pid cur" | "l_pid cur = l_pid fl" "ltype cur = ltype fl"
      | "l_pid cur = l_pid fl" "ltype cur \<noteq> ltype fl" by linarith
    then show ?thesis
    proof cases
      case 1
      with scan_keep [OF Cons.IH pre] fam show ?thesis by (simp add: lock_before_def)
    next
      case 2
      with scan_break [OF pre] fam show ?thesis by (simp add: lock_before_def)
    qed (use scan_same [OF Cons.IH pre] scan_other [OF Cons.IH pre] in blast)+
  qed
  then show ?case by (simp add: scan_ok_def)
qed

lemma scan_result:
  assumes "posix_ok ls" "range_ok fl" "posix_scan fl (l_start fl) (l_end fl) [] [] ls = (st, en, pre, post)"
  shows "scan_post fl (l_start fl) (l_end fl) ls (st, en, pre, post)"
proof -
  have "scan_pre fl (l_start fl) (l_end fl) [] ls" using assms(1,2) by (simp add: scan_pre_def)
  from scan_okD [OF scan_correct this] show ?thesis using assms(3) by simp
qed

lemma before_not_covers:
  assumes "list_all (\<lambda>a. lock_before a (fl\<lparr>l_start := st\<rparr>)) pre" "list_all (lock_before (fl\<lparr>l_end := en\<rparr>)) post"
    "in_range (target fl st en) p b"
  shows "\<not> holds (pre @ post) p b t"
proof
  assume "holds (pre @ post) p b t"
  then obtain l where l: "l \<in> set pre \<or> l \<in> set post" "covers l p b t" by (auto simp: holds_def)
  from l(1) have "lock_before l (fl\<lparr>l_start := st\<rparr>) \<or> lock_before (fl\<lparr>l_end := en\<rparr>) l"
    using assms(1,2) by (auto simp: list_all_iff)
  then show False
    using l(2) assms(3) by (auto simp: covers_def in_range_def lock_before_def split: if_splits)
qed

text \<open>The effect on the list: the new lock between \<open>pre\<close> and \<open>post\<close>, or nothing for an unlock.\<close>

lemma posix_set_list:
  assumes ok: "posix_ok ls" "range_ok fl" and scan: "posix_scan fl (l_start fl) (l_end fl) [] [] ls = (st, en, pre, post)"
  shows "ltype fl = F_UNLCK \<Longrightarrow> posix_ok (pre @ post)"
    "ltype fl \<noteq> F_UNLCK \<Longrightarrow> l_start n = st \<Longrightarrow> l_end n = en \<Longrightarrow> l_pid n = l_pid fl \<Longrightarrow> ltype n = ltype fl \<Longrightarrow>
       family n = FILE_LOCK_POSIX \<Longrightarrow> posix_ok (pre @ n # post)"
    "ltype fl = F_UNLCK \<Longrightarrow> holds (pre @ post) p b t = (\<not> in_range fl p b \<and> holds ls p b t)"
    "ltype fl \<noteq> F_UNLCK \<Longrightarrow> l_start n = st \<Longrightarrow> l_end n = en \<Longrightarrow> l_pid n = l_pid fl \<Longrightarrow> ltype n = ltype fl \<Longrightarrow>
       holds (pre @ n # post) p b t = (if in_range fl p b then t = ltype fl else holds ls p b t)"
proof -
  note r = scan_result [OF assms, unfolded scan_post_def prod.case]
  then have parts: "posix_ok (pre @ post)" "range_ok (target fl st en)"
    "list_all (\<lambda>a. lock_before a (fl\<lparr>l_start := st\<rparr>)) pre" "list_all (lock_before (fl\<lparr>l_end := en\<rparr>)) post"
    by simp_all
  have view: "held_after fl st en (pre @ post) p b t = held_after fl (l_start fl) (l_end fl) ls p b t"
    using r by simp
  note disj = before_not_covers [OF parts(3,4)]
  show "ltype fl = F_UNLCK \<Longrightarrow> posix_ok (pre @ post)" by (rule parts(1))
  { assume "ltype fl = F_UNLCK"
    then have "st = l_start fl" "en = l_end fl" using r by simp_all
    then show "holds (pre @ post) p b t = (\<not> in_range fl p b \<and> holds ls p b t)"
      using view disj [of p b t] by (cases "in_range fl p b") (auto simp: held_after_def) }
  assume n: "ltype fl \<noteq> F_UNLCK" "l_start n = st" "l_end n = en" "l_pid n = l_pid fl" "ltype n = ltype fl"
  have "covers n p b t = (in_range (target fl st en) p b \<and> t = ltype fl)"
    using n by (auto simp: covers_def in_range_def)
  then show "holds (pre @ n # post) p b t = (if in_range fl p b then t = ltype fl else holds ls p b t)"
    using view disj [of p b t]
    by (cases "in_range fl p b"; cases "in_range (target fl st en) p b") (auto simp: held_after_def)
  assume "family n = FILE_LOCK_POSIX"
  then have "posix_lock n" using parts(2) n by (simp add: posix_lock_def range_ok_def)
  then show "posix_ok (pre @ n # post)"
    using parts(1,3,4) n by (auto simp: posix_ok_append posix_ok_Cons list_all_iff lock_before_def split: if_splits)
qed

lemma posix_set_result:
  assumes "posix_ok ls" "range_ok fl" "u_posix_lock_set new_ok extra_ok fl ls = (ret, ls')"
  shows "posix_ok ls' \<and>
    (if extra_ok \<and> (ltype fl = F_UNLCK \<or> new_ok)
     then ret = 0 \<and> (\<forall>p b t. holds ls' p b t \<longleftrightarrow>
            (if in_range fl p b then t = ltype fl \<and> t \<noteq> F_UNLCK else holds ls p b t))
     else ret = - ENOMEM \<and> ls' = ls)"
proof -
  obtain st en pre post where scan: "posix_scan fl (l_start fl) (l_end fl) [] [] ls = (st, en, pre, post)"
    by (metis prod_cases4)
  note l = posix_set_list [OF assms(1,2) scan]
  show ?thesis
  proof (cases "extra_ok \<and> (ltype fl = F_UNLCK \<or> new_ok)")
    case False
    then show ?thesis using assms(1,3) by (auto simp: u_posix_lock_set_def split: if_splits)
  next
    case True
    show ?thesis
    proof (cases "ltype fl = F_UNLCK")
      case unlock: True
      then have "ret = 0" "ls' = pre @ post" using assms(3) True scan by (auto simp: u_posix_lock_set_def)
      then show ?thesis using True unlock l(1,3) by auto
    next
      case False
      define n where "n = \<lparr>family = FILE_LOCK_POSIX, ltype = ltype fl, l_start = st, l_end = en, l_pid = l_pid fl,
        handle_id = 0\<rparr>"
      have n: "l_start n = st" "l_end n = en" "l_pid n = l_pid fl" "ltype n = ltype fl" "family n = FILE_LOCK_POSIX"
        by (simp_all add: n_def)
      have "ret = 0" "ls' = pre @ n # post" using assms(3) True False scan by (auto simp: u_posix_lock_set_def n_def)
      then show ?thesis using True False l(2,4) [OF False n(1-4)] n(5) by auto
    qed
  qed
qed

section \<open>Exclusion\<close>

definition lock_conflict :: "libos_file_lock \<Rightarrow> libos_file_lock \<Rightarrow> bool" where
  "lock_conflict fl cur = (if family fl = FILE_LOCK_POSIX then posix_conflict fl cur else flock_conflict fl cur)"

definition no_conflicts :: "libos_file_lock list \<Rightarrow> bool" where
  "no_conflicts ls \<longleftrightarrow> (\<forall>a\<in>set ls. \<forall>b\<in>set ls. \<not> lock_conflict a b)"

lemma find_conflict_None: "file_lock_find_conflict ls fl = None \<longleftrightarrow> (\<forall>cur\<in>set ls. \<not> lock_conflict fl cur)"
  by (auto simp: file_lock_find_conflict_def lock_conflict_def find_None_iff)

text \<open>On ranges: no byte is held by two processes when one of them writes.\<close>

definition exclusive :: "(nat \<Rightarrow> nat \<Rightarrow> lock_type \<Rightarrow> bool) \<Rightarrow> bool" where
  "exclusive V \<longleftrightarrow> (\<forall>p q b t u. V p b t \<and> V q b u \<and> p \<noteq> q \<longrightarrow> t \<noteq> F_WRLCK \<and> u \<noteq> F_WRLCK)"

lemma overlap_common:
  "range_ok a \<Longrightarrow> range_ok c \<Longrightarrow>
     l_start a \<le> l_end c \<and> l_start c \<le> l_end a \<longleftrightarrow> (\<exists>b. covers a (l_pid a) b (ltype a) \<and> covers c (l_pid c) b (ltype c))"
  by (auto simp: covers_def range_ok_def intro!: exI [of _ "max (l_start a) (l_start c)"])

lemma posix_conflict_covers:
  "range_ok fl \<Longrightarrow> range_ok c \<Longrightarrow>
     posix_conflict fl c \<longleftrightarrow> l_pid c \<noteq> l_pid fl \<and> write_involved c fl \<and>
       (\<exists>b. covers fl (l_pid fl) b (ltype fl) \<and> covers c (l_pid c) b (ltype c))"
  using overlap_common [of fl c] by (auto simp: posix_conflict_def)

lemma no_conflicts_exclusive:
  assumes "posix_ok ls"
  shows "no_conflicts ls \<longleftrightarrow> exclusive (holds ls)"
proof -
  have ok: "range_ok a" "family a = FILE_LOCK_POSIX" if "a \<in> set ls" for a
    using that assms by (auto simp: posix_ok_def list_all_iff posix_lock_def)
  have "posix_conflict a c \<longleftrightarrow> l_pid c \<noteq> l_pid a \<and> write_involved c a \<and>
      (\<exists>b. covers a (l_pid a) b (ltype a) \<and> covers c (l_pid c) b (ltype c))" if "a \<in> set ls" "c \<in> set ls" for a c
    using ok(1) [OF that(1)] ok(1) [OF that(2)] by (rule posix_conflict_covers)
  then have "no_conflicts ls \<longleftrightarrow> (\<forall>a\<in>set ls. \<forall>c\<in>set ls. \<not> (l_pid c \<noteq> l_pid a \<and> write_involved c a \<and>
      (\<exists>b. covers a (l_pid a) b (ltype a) \<and> covers c (l_pid c) b (ltype c))))"
    using ok(2) by (auto simp: no_conflicts_def lock_conflict_def)
  also have "\<dots> \<longleftrightarrow> exclusive (holds ls)"
    unfolding exclusive_def holds_def write_involved_def by (auto simp: covers_def) metis+
  finally show ?thesis .
qed

lemma posix_no_conflict_holds:
  assumes "posix_ok ls" "range_ok fl" "family fl = FILE_LOCK_POSIX" "file_lock_find_conflict ls fl = None"
    "holds ls q b u" "q \<noteq> l_pid fl" "in_range fl (l_pid fl) b"
  shows "u \<noteq> F_WRLCK \<and> ltype fl \<noteq> F_WRLCK"
proof -
  obtain c where c: "c \<in> set ls" "covers c q b u" using assms(5) by (auto simp: holds_def)
  have "\<not> posix_conflict fl c" using assms(3,4) c(1) by (simp add: find_conflict_None lock_conflict_def)
  moreover have "l_pid c = q" "ltype c = u" "l_start c \<le> b" "b \<le> l_end c" using c(2) by (simp_all add: covers_def)
  moreover have "l_start fl \<le> b" "b \<le> l_end fl" using assms(7) by (simp_all add: in_range_def)
  ultimately show ?thesis using assms(6) by (simp add: posix_conflict_def write_involved_def)
qed

lemma posix_set_no_conflicts:
  assumes "posix_ok ls" "range_ok fl" "family fl = FILE_LOCK_POSIX" "no_conflicts ls"
    "ltype fl = F_UNLCK \<or> file_lock_find_conflict ls fl = None"
    "u_posix_lock_set new_ok extra_ok fl ls = (ret, ls')"
  shows "no_conflicts ls'"
proof -
  note r = posix_set_result [OF assms(1,2,6)]
  have ex: "exclusive (holds ls)" using assms(1,4) no_conflicts_exclusive by blast
  show ?thesis
  proof (cases "ret = 0")
    case False
    with r assms(4) show ?thesis by (auto split: if_splits)
  next
    case True
    then have view: "\<And>p b t. holds ls' p b t \<longleftrightarrow>
        (if in_range fl p b then t = ltype fl \<and> t \<noteq> F_UNLCK else holds ls p b t)" and ok: "posix_ok ls'"
      using r by (auto split: if_splits)
    have new: "t \<noteq> F_WRLCK \<and> u \<noteq> F_WRLCK"
      if "in_range fl p b" "t = ltype fl" "t \<noteq> F_UNLCK" "holds ls q b u" "q \<noteq> p" for p q b t u
      using that assms(5) posix_no_conflict_holds [OF assms(1-3) _ that(4)] by (auto simp: in_range_def)
    have "exclusive (holds ls')"
      unfolding exclusive_def
    proof (intro allI impI)
      fix p q b t u
      assume h: "holds ls' p b t \<and> holds ls' q b u \<and> p \<noteq> q"
      consider "in_range fl p b" "in_range fl q b" | "in_range fl p b" "\<not> in_range fl q b"
        | "\<not> in_range fl p b" "in_range fl q b" | "\<not> in_range fl p b" "\<not> in_range fl q b" by blast
      then show "t \<noteq> F_WRLCK \<and> u \<noteq> F_WRLCK"
      proof cases
        case 1 with h show ?thesis by (simp add: in_range_def)
      next
        case 2 with h view [of p b t] view [of q b u] new [of p b t q u] show ?thesis by auto
      next
        case 3 with h view [of p b t] view [of q b u] new [of q b u p t] show ?thesis by auto
      next
        case 4
        with h view have "holds ls p b t \<and> holds ls q b u \<and> p \<noteq> q" by simp
        with ex show ?thesis unfolding exclusive_def by blast
      qed
    qed
    with ok no_conflicts_exclusive show ?thesis by blast
  qed
qed

section \<open>BSD locks\<close>

definition flock_lock :: "libos_file_lock \<Rightarrow> bool" where
  "flock_lock l \<longleftrightarrow> family l = FILE_LOCK_FLOCK \<and> ltype l \<noteq> F_UNLCK"

definition flock_ok :: "libos_file_lock list \<Rightarrow> bool" where
  "flock_ok ls \<longleftrightarrow> distinct (map handle_id ls) \<and> list_all flock_lock ls"

definition fholds :: "libos_file_lock list \<Rightarrow> nat \<Rightarrow> lock_type \<Rightarrow> bool" where
  "fholds ls h t \<longleftrightarrow> (\<exists>l\<in>set ls. handle_id l = h \<and> ltype l = t)"

lemma flock_remove_filter:
  "flock_ok ls \<Longrightarrow> flock_remove h ls = filter (\<lambda>l. handle_id l \<noteq> h) ls"
proof (induction ls)
  case (Cons cur rest)
  then have "flock_ok rest" "family cur = FILE_LOCK_FLOCK" by (simp_all add: flock_ok_def flock_lock_def)
  moreover have "filter (\<lambda>l. handle_id l \<noteq> handle_id cur) rest = rest"
    using Cons.prems unfolding flock_ok_def filter_id_conv by (metis distinct.simps(2) image_eqI list.set_map list.simps(9))
  ultimately show ?case using Cons.IH by auto
qed simp

lemma flock_ok_filter: "flock_ok ls \<Longrightarrow> flock_ok (filter P ls)"
  by (auto simp: flock_ok_def list_all_iff distinct_map_filter)

lemma flock_set_result:
  assumes "flock_ok ls" "family fl = FILE_LOCK_FLOCK" "no_conflicts ls"
    "ltype fl = F_UNLCK \<or> file_lock_find_conflict ls fl = None"
    "u_flock_lock_set new_ok fl ls = (ret, ls')"
  shows "flock_ok ls' \<and> no_conflicts ls' \<and>
    (if ltype fl = F_UNLCK \<or> new_ok
     then ret = 0 \<and> (\<forall>h t. fholds ls' h t \<longleftrightarrow>
            (if h = handle_id fl then t = ltype fl \<and> t \<noteq> F_UNLCK else fholds ls h t))
     else ret = - ENOMEM \<and> ls' = ls)"
proof (cases "ltype fl = F_UNLCK \<or> new_ok")
  case False
  with assms show ?thesis by (auto simp: u_flock_lock_set_def)
next
  case True
  let ?rest = "filter (\<lambda>l. handle_id l \<noteq> handle_id fl) ls"
  note rem = flock_remove_filter [OF assms(1), of "handle_id fl"]
  have rest: "flock_ok ?rest" "no_conflicts ?rest"
    using flock_ok_filter [OF assms(1)] assms(3) by (auto simp: no_conflicts_def)
  show ?thesis
  proof (cases "ltype fl = F_UNLCK")
    case unlock: True
    then have "ret = 0" "ls' = ?rest" using assms(5) rem by (auto simp: u_flock_lock_set_def)
    then show ?thesis using rest unlock by (auto simp: fholds_def)
  next
    case lock: False
    define n where "n = \<lparr>family = FILE_LOCK_FLOCK, ltype = ltype fl, l_start = 0, l_end = 0, l_pid = 0,
      handle_id = handle_id fl\<rparr>"
    have res: "ret = 0" "ls' = n # ?rest" using assms(5) rem True lock by (auto simp: u_flock_lock_set_def n_def)
    have "flock_ok (n # ?rest)" using rest(1) lock by (auto simp: flock_ok_def flock_lock_def n_def)
    moreover have "\<not> flock_conflict fl c" if "c \<in> set ls" for c
      using assms(2,4) lock that by (simp add: find_conflict_None lock_conflict_def)
    then have "no_conflicts (n # ?rest)"
      using rest(2) assms(1) unfolding no_conflicts_def
      by (auto simp: n_def lock_conflict_def flock_conflict_def write_involved_def flock_ok_def flock_lock_def list_all_iff)
    moreover have "fholds (n # ?rest) h t \<longleftrightarrow> (if h = handle_id fl then t = ltype fl else fholds ls h t)" for h t
      by (auto simp: fholds_def n_def)
    ultimately show ?thesis using res lock True by auto
  qed
qed

section \<open>Property\<close>

text \<open>C15: setting or removing a POSIX lock keeps the list in its documented order, without overlaps
  within a process and with touching locks of one type merged. It either fails for lack of memory and
  changes nothing, or gives exactly the requested bytes the requested state (for an unlock: not
  held) and leaves what every process holds on all other bytes, and what other processes hold
  anywhere, as it was.\<close>

theorem posix_lock_set_correct:
  assumes "posix_ok ls" "range_ok fl"
  shows "case u_posix_lock_set new_ok extra_ok fl ls of (ret, ls') \<Rightarrow>
    posix_ok ls' \<and>
    (if extra_ok \<and> (ltype fl = F_UNLCK \<or> new_ok)
     then ret = 0 \<and> (\<forall>p b t. holds ls' p b t \<longleftrightarrow>
            (if in_range fl p b then t = ltype fl \<and> t \<noteq> F_UNLCK else holds ls p b t))
     else ret = - ENOMEM \<and> ls' = ls)"
  using posix_set_result [OF assms] by (simp split: prod.split)

definition demo_lock :: "lock_type \<Rightarrow> nat \<Rightarrow> nat \<Rightarrow> nat \<Rightarrow> libos_file_lock" where
  "demo_lock t a b p = \<lparr>family = FILE_LOCK_POSIX, ltype = t, l_start = a, l_end = b, l_pid = p, handle_id = 0\<rparr>"

lemma demo_locks_ok: "posix_ok [demo_lock F_RDLCK 0 99 1, demo_lock F_WRLCK 200 299 1, demo_lock F_RDLCK 50 80 2]"
  by (simp add: posix_ok_def lock_before_def posix_lock_def range_ok_def demo_lock_def FS_LOCK_EOF_def)

theorem posix_lock_set_correct_witness:
  "\<exists>ls'. u_posix_lock_set True True (demo_lock F_WRLCK 40 199 1)
       [demo_lock F_RDLCK 0 99 1, demo_lock F_WRLCK 200 299 1, demo_lock F_RDLCK 50 80 2] = (0, ls') \<and>
     ls' = [demo_lock F_RDLCK 0 39 1, demo_lock F_WRLCK 40 299 1, demo_lock F_RDLCK 50 80 2] \<and>
     holds ls' 1 45 F_WRLCK \<and> \<not> holds ls' 1 45 F_RDLCK \<and> holds ls' 2 60 F_RDLCK"
proof -
  let ?ls = "[demo_lock F_RDLCK 0 99 1, demo_lock F_WRLCK 200 299 1, demo_lock F_RDLCK 50 80 2]"
  have range: "range_ok (demo_lock F_WRLCK 40 199 1)" by (simp add: range_ok_def demo_lock_def FS_LOCK_EOF_def)
  let ?ls' = "[demo_lock F_RDLCK 0 39 1, demo_lock F_WRLCK 40 299 1, demo_lock F_RDLCK 50 80 2]"
  have eval: "u_posix_lock_set True True (demo_lock F_WRLCK 40 199 1) ?ls = (0, ?ls')"
    by (simp add: u_posix_lock_set_def demo_lock_def FS_LOCK_EOF_def)
  have "holds ?ls' 1 45 F_WRLCK \<and> \<not> holds ?ls' 1 45 F_RDLCK \<and> holds ?ls' 2 60 F_RDLCK"
    using posix_lock_set_correct [OF demo_locks_ok range, of True True] unfolding eval
    by (simp add: in_range_def demo_lock_def covers_def)
  with eval show ?thesis by blast
qed

end
