(* ===== verification/File_Lock_Requests.thy ===== *)
theory File_Lock_Requests
  imports File_Lock "HOL-Library.Multiset"
begin

text \<open>
  Advisory file locks, second part of \<^verbatim>\<open>libos/src/fs/libos_fs_lock.c\<close>: the lock tables of all files,
  pending requests and their processing, and the operations called by system calls and by IPC.

  Every operation runs under \<^verbatim>\<open>g_fs_lock_lock\<close>, so it is one function on the state; where the code
  releases the lock in between, the operation is cut there. \<open>None\<close> stands for a failing assertion or
  the use of an uninitialised field. Memory allocation is a parameter: \<open>M n\<close> says whether the
  \<open>n\<close>-th call succeeds.
\<close>

section \<open>State\<close>

text \<open>
  \<^verbatim>\<open>notify\<close> of a request: an event of this process, or a process to answer over IPC; \<open>None\<close> while
  the fields have not been written, and once the event and the result they point to are gone.
  \<open>req_id\<close> stands for the address of the request: the number of the call of \<^verbatim>\<open>malloc\<close> that returned it.
\<close>

datatype waiter = Event nat | Remote nat nat

record file_lock_request =
  req_lock :: libos_file_lock
  notify :: "waiter option"
  req_id :: nat

record dent_file_locks =
  posix_used :: bool
  flock_used :: bool
  file_locks :: "libos_file_lock list"
  file_lock_requests :: "file_lock_request list"

record 'd fs_locks =
  dents :: "'d \<Rightarrow> dent_file_locks option"
  dent_file_locks_list :: "'d list"
  dent_refs :: "'d \<Rightarrow> nat"
  maybe_has_file_locks :: "'d \<Rightarrow> bool"
  mallocs :: nat
  events :: nat
  responses :: "(waiter \<times> int) list"

type_synonym malloc = "nat \<Rightarrow> bool"

section \<open>Tables\<close>

definition find_dent_file_locks :: "malloc \<Rightarrow> 'd \<Rightarrow> bool \<Rightarrow> 'd fs_locks \<Rightarrow> int \<times> 'd fs_locks" where
  "find_dent_file_locks M d create s =
     (if dents s d = None \<and> create
      then let k = mallocs s; s = s\<lparr>mallocs := k + 1\<rparr>
      in if \<not> M k then (- ENOMEM, s)
      else (0, s\<lparr>dents := (dents s)(d \<mapsto> \<lparr>posix_used = False, flock_used = False, file_locks = [],
                                       file_lock_requests = []\<rparr>),
                 dent_refs := (dent_refs s)(d := dent_refs s d + 1),
                 dent_file_locks_list := d # dent_file_locks_list s\<rparr>)
      else (0, s))"

definition dent_file_locks_gc :: "'d \<Rightarrow> 'd fs_locks \<Rightarrow> 'd fs_locks" where
  "dent_file_locks_gc d s =
     (case dents s d of None \<Rightarrow> s | Some f \<Rightarrow>
        if file_locks f = [] \<and> file_lock_requests f = []
        then s\<lparr>dents := (dents s)(d := None),
               dent_file_locks_list := remove1 d (dent_file_locks_list s),
               dent_refs := (dent_refs s)(d := dent_refs s d - 1)\<rparr>
        else s)"

section \<open>Setting locks and processing requests\<close>

text \<open>The choice between the two families, counting the allocations they make.\<close>

definition lock_set :: "malloc \<Rightarrow> libos_file_lock \<Rightarrow> libos_file_lock list \<times> nat \<Rightarrow> int \<times> libos_file_lock list \<times> nat" where
  "lock_set M fl lk =
     (let ls = fst lk; k = snd lk; k' = (if ltype fl \<noteq> F_UNLCK then k + 1 else k)
      in if family fl = FILE_LOCK_POSIX
         then let (ret, ls') = u_posix_lock_set (M k) (M k') fl ls
              in (ret, ls', if ltype fl \<noteq> F_UNLCK \<and> \<not> M k then k' else k' + 1)
         else let (ret, ls') = u_flock_lock_set (M k) fl ls in (ret, ls', k'))"

record lock_work =
  w_locks :: "libos_file_lock list"
  w_mallocs :: nat
  w_responses :: "(waiter \<times> int) list"

definition grant :: "malloc \<Rightarrow> waiter \<Rightarrow> libos_file_lock \<Rightarrow> lock_work \<Rightarrow> lock_work" where
  "grant M n fl w =
     (let (result, ls, k) = lock_set M fl (w_locks w, w_mallocs w)
      in w\<lparr>w_locks := ls, w_mallocs := k, w_responses := w_responses w @ [(n, result)]\<rparr>)"

text \<open>One round over the pending requests: what is left of them, and whether one was granted.\<close>

fun process_pass :: "malloc \<Rightarrow> file_lock_request list \<Rightarrow> lock_work \<Rightarrow>
    (file_lock_request list \<times> lock_work \<times> bool) option" where
  "process_pass M [] w = Some ([], w, False)"
| "process_pass M (req # reqs) w =
     (case file_lock_find_conflict (w_locks w) (req_lock req) of
        Some conflict \<Rightarrow>
          (case process_pass M reqs w of None \<Rightarrow> None
           | Some (reqs', w', changed) \<Rightarrow> Some (req # reqs', w', changed))
      | None \<Rightarrow>
          (case notify req of None \<Rightarrow> None
           | Some n \<Rightarrow>
             (case process_pass M reqs (grant M n (req_lock req) w) of None \<Rightarrow> None
              | Some (reqs', w', changed) \<Rightarrow> Some (reqs', w', True))))"

lemma process_pass_length:
  "process_pass M reqs w = Some (reqs', w', changed) \<Longrightarrow>
     (if changed then length reqs' < length reqs else reqs' = reqs \<and> w' = w)"
proof (induction reqs arbitrary: w reqs' w' changed)
  case (Cons req reqs)
  then show ?case by (fastforce split: option.splits if_splits)
qed simp

function process_requests :: "malloc \<Rightarrow> file_lock_request list \<Rightarrow> lock_work \<Rightarrow>
    (file_lock_request list \<times> lock_work) option" where
  "process_requests M reqs w =
     (case process_pass M reqs w of None \<Rightarrow> None
      | Some (reqs', w', changed) \<Rightarrow> if changed then process_requests M reqs' w' else Some (reqs', w'))"
  by pat_completeness auto
termination
  by (relation "measure (\<lambda>(M, reqs, w). length reqs)") (auto dest!: process_pass_length)

declare process_requests.simps [simp del]

definition file_lock_process_requests :: "malloc \<Rightarrow> 'd \<Rightarrow> 'd fs_locks \<Rightarrow> 'd fs_locks option" where
  "file_lock_process_requests M d s =
     (case dents s d of None \<Rightarrow> Some s | Some f \<Rightarrow>
        map_option (\<lambda>(reqs, w). s\<lparr>dents := (dents s)(d \<mapsto> f\<lparr>file_locks := w_locks w, file_lock_requests := reqs\<rparr>),
                                 mallocs := w_mallocs w, responses := w_responses w\<rparr>)
          (process_requests M (file_lock_requests f)
             \<lparr>w_locks = file_locks f, w_mallocs = mallocs s, w_responses = responses s\<rparr>))"

definition file_lock_add_request :: "malloc \<Rightarrow> 'd \<Rightarrow> dent_file_locks \<Rightarrow> libos_file_lock \<Rightarrow> 'd fs_locks \<Rightarrow> int \<times> nat option \<times> 'd fs_locks" where
  "file_lock_add_request M d f fl s =
     (let k = mallocs s; s = s\<lparr>mallocs := k + 1\<rparr>
      in if \<not> M k then (- ENOMEM, None, s)
         else (0, Some k, s\<lparr>dents := (dents s)(d \<mapsto> f\<lparr>file_lock_requests :=
                      \<lparr>req_lock = fl, notify = None, req_id = k\<rparr> # file_lock_requests f\<rparr>)\<rparr>))"

definition mark_used :: "'d \<Rightarrow> libos_file_lock \<Rightarrow> 'd fs_locks \<Rightarrow> 'd fs_locks" where
  "mark_used d fl s =
     (case dents s d of None \<Rightarrow> s | Some f \<Rightarrow>
        if ltype fl = F_UNLCK then s
        else s\<lparr>dents := (dents s)(d \<mapsto> f\<lparr>posix_used := posix_used f \<or> family fl = FILE_LOCK_POSIX,
                                        flock_used := flock_used f \<or> family fl = FILE_LOCK_FLOCK\<rparr>)\<rparr>)"

text \<open>
  \<^verbatim>\<open>file_lock_set_or_add_request\<close>: the result and the request that was added, if any (\<^verbatim>\<open>out_req\<close>). The
  collection at the end runs on every path on which the file has a table.
\<close>

definition set_now :: "malloc \<Rightarrow> 'd \<Rightarrow> dent_file_locks \<Rightarrow> libos_file_lock \<Rightarrow> 'd fs_locks \<Rightarrow> (int \<times> nat option \<times> 'd fs_locks) option" where
  "set_now M d f fl s =
     (let (ret, ls, k) = lock_set M fl (file_locks f, mallocs s);
          s = s\<lparr>mallocs := k, dents := (dents s)(d \<mapsto> f\<lparr>file_locks := ls\<rparr>)\<rparr>
      in if ret < 0 then Some (ret, None, dent_file_locks_gc d s)
         else map_option (\<lambda>s. (0, None, dent_file_locks_gc d (mark_used d fl s))) (file_lock_process_requests M d s))"

definition set_later :: "malloc \<Rightarrow> 'd \<Rightarrow> dent_file_locks \<Rightarrow> libos_file_lock \<Rightarrow> 'd fs_locks \<Rightarrow> int \<times> nat option \<times> 'd fs_locks" where
  "set_later M d f fl s =
     (let (ret, req, s) = file_lock_add_request M d f fl s
      in if ret < 0 then (ret, None, dent_file_locks_gc d s)
         else (0, req, dent_file_locks_gc d (mark_used d fl s)))"

definition file_lock_set_or_add_request ::
  "malloc \<Rightarrow> 'd \<Rightarrow> libos_file_lock \<Rightarrow> bool \<Rightarrow> 'd fs_locks \<Rightarrow> (int \<times> nat option \<times> 'd fs_locks) option" where
  "file_lock_set_or_add_request M d fl wait s =
     (let (ret, s) = find_dent_file_locks M d (ltype fl \<noteq> F_UNLCK) s
      in if ret < 0 then Some (ret, None, s)
         else (case dents s d of
             None \<Rightarrow> (if ltype fl = F_UNLCK then Some (0, None, s) else None)
           | Some f \<Rightarrow>
             (if ltype fl \<noteq> F_UNLCK \<and>
                (family fl = FILE_LOCK_FLOCK \<and> posix_used f \<or> family fl = FILE_LOCK_POSIX \<and> flock_used f)
              then Some (- EPERM, None, dent_file_locks_gc d s)
              else if ltype fl \<noteq> F_UNLCK \<and> file_lock_find_conflict (file_locks f) fl \<noteq> None
              then (if \<not> wait then Some (- EAGAIN, None, dent_file_locks_gc d s) else Some (set_later M d f fl s))
              else set_now M d f fl s)))"

section \<open>Operations\<close>

text \<open>
  What the operations use of other parts: whether this process is the leader, the creation of an
  event (its result for the \<open>n\<close>-th call), the path of a file and its lookup, and the answers of the
  leader to IPC requests.
\<close>

record 'd lock_env =
  leader_vmid :: nat
  event_create :: "nat \<Rightarrow> int"
  dentry_abs_path :: "'d \<Rightarrow> int + string"
  path_lookupat :: "string \<Rightarrow> int + 'd"
  ipc_file_lock_set :: "string \<Rightarrow> libos_file_lock \<Rightarrow> bool \<Rightarrow> int"
  ipc_file_lock_get :: "string \<Rightarrow> libos_file_lock \<Rightarrow> int \<times> libos_file_lock"
  ipc_file_lock_clear_pid :: "nat \<Rightarrow> int"

text \<open>The call returns a number, or waits for an event (and then returns the answer to the event).\<close>

datatype lock_result = Returns int | Waits nat

definition assert_owner :: "libos_file_lock \<Rightarrow> bool" where
  "assert_owner fl \<longleftrightarrow> (family fl = FILE_LOCK_POSIX \<or> family fl = FILE_LOCK_FLOCK) \<and>
     (if family fl = FILE_LOCK_POSIX then l_pid fl \<noteq> 0 else handle_id fl \<noteq> 0)"

text \<open>Writing the \<^verbatim>\<open>notify\<close> fields of a request of the file.\<close>

definition set_notify :: "waiter \<Rightarrow> 'd \<Rightarrow> nat \<Rightarrow> 'd fs_locks \<Rightarrow> 'd fs_locks" where
  "set_notify n d i s =
     (case dents s d of None \<Rightarrow> s | Some f \<Rightarrow>
        s\<lparr>dents := (dents s)(d \<mapsto> f\<lparr>file_lock_requests :=
          map (\<lambda>req. if req_id req = i then req\<lparr>notify := Some n\<rparr> else req) (file_lock_requests f)\<rparr>)\<rparr>)"

definition file_lock_set_ipc :: "'d lock_env \<Rightarrow> 'd \<Rightarrow> libos_file_lock \<Rightarrow> bool \<Rightarrow> 'd fs_locks \<Rightarrow> int \<times> 'd fs_locks" where
  "file_lock_set_ipc E d fl wait s =
     (if ltype fl \<noteq> F_RDLCK \<and> ltype fl \<noteq> F_WRLCK \<and> \<not> maybe_has_file_locks s d then (0, s)
      else let s = (if ltype fl = F_RDLCK \<or> ltype fl = F_WRLCK
                    then s\<lparr>maybe_has_file_locks := (maybe_has_file_locks s)(d := True)\<rparr> else s)
      in case dentry_abs_path E d of
           Inl err \<Rightarrow> (err, s)
         | Inr path \<Rightarrow> (ipc_file_lock_set E path fl wait, s))"

definition file_lock_set ::
  "'d lock_env \<Rightarrow> malloc \<Rightarrow> 'd \<Rightarrow> libos_file_lock \<Rightarrow> bool \<Rightarrow> 'd fs_locks \<Rightarrow> (lock_result \<times> 'd fs_locks) option" where
  "file_lock_set E M d fl wait s =
     (if \<not> assert_owner fl then None
      else if leader_vmid E \<noteq> 0 then Some (apfst Returns (file_lock_set_ipc E d fl wait s))
      else (case file_lock_set_or_add_request M d fl wait s of
          None \<Rightarrow> None
        | Some (ret, req, s) \<Rightarrow>
            if ret < 0 then Some (Returns ret, s)
            else (case req of
                    None \<Rightarrow> Some (Returns 0, s)
                  | Some i \<Rightarrow>
                      if \<not> wait then None
                      else let e = events s; s = s\<lparr>events := e + 1\<rparr>
                      in if event_create E e < 0 then Some (Returns (event_create E e), s)
                         else Some (Waits e, set_notify (Event e) d i s))))"

text \<open>
  The end of a call that has waited for its event, \<open>ret\<close> being the result of the wait: it returns the answer the event
  came with. When the wait fails the call returns too; its event is destroyed and its variable \<^verbatim>\<open>result\<close> is gone, while
  the request stays.
\<close>

definition forget_event :: "'d \<Rightarrow> nat \<Rightarrow> 'd fs_locks \<Rightarrow> 'd fs_locks" where
  "forget_event d e s =
     (case dents s d of None \<Rightarrow> s | Some f \<Rightarrow>
        s\<lparr>dents := (dents s)(d \<mapsto> f\<lparr>file_lock_requests :=
          map (\<lambda>req. if notify req = Some (Event e) then req\<lparr>notify := None\<rparr> else req) (file_lock_requests f)\<rparr>)\<rparr>)"

definition file_lock_set_woken :: "'d \<Rightarrow> nat \<Rightarrow> int \<Rightarrow> 'd fs_locks \<Rightarrow> (int \<times> 'd fs_locks) option" where
  "file_lock_set_woken d e ret s =
     (if ret < 0 then Some (ret, forget_event d e s)
      else map_option (\<lambda>result. (result, s)) (map_of (responses s) (Event e)))"

text \<open>
  The handler of an IPC request, cut where it releases \<^verbatim>\<open>g_fs_lock_lock\<close>: the first part ends with
  the lock set or a request added, the second one writes \<^verbatim>\<open>notify\<close> or answers. The reference to
  the file taken by the lookup is dropped at the end.
\<close>

definition set_from_ipc_locked ::
  "'d lock_env \<Rightarrow> malloc \<Rightarrow> string \<Rightarrow> libos_file_lock \<Rightarrow> bool \<Rightarrow> 'd fs_locks \<Rightarrow>
     ((int + 'd) \<times> int \<times> nat option \<times> 'd fs_locks) option" where
  "set_from_ipc_locked E M path fl wait s =
     (if \<not> assert_owner fl \<or> leader_vmid E \<noteq> 0 then None
      else (case path_lookupat E path of
          Inl err \<Rightarrow> Some (Inl err, err, None, s)
        | Inr d \<Rightarrow>
            map_option (Pair (Inr d))
              (file_lock_set_or_add_request M d fl wait (s\<lparr>dent_refs := (dent_refs s)(d := dent_refs s d + 1)\<rparr>))))"

definition set_from_ipc_answer ::
  "nat \<Rightarrow> nat \<Rightarrow> (int + 'd) \<times> int \<times> nat option \<times> 'd fs_locks \<Rightarrow> 'd fs_locks" where
  "set_from_ipc_answer vmid seq r =
     (case r of (dent, ret, req, s) \<Rightarrow>
        let s = (case (dent, req) of
                   (Inr d, Some i) \<Rightarrow> if ret \<ge> 0 then set_notify (Remote vmid seq) d i s else s
                 | _ \<Rightarrow> s);
            s = (case dent of Inr d \<Rightarrow> s\<lparr>dent_refs := (dent_refs s)(d := dent_refs s d - 1)\<rparr> | Inl e \<Rightarrow> s)
        in if req \<noteq> None then s else s\<lparr>responses := responses s @ [(Remote vmid seq, ret)]\<rparr>)"

definition file_lock_get ::
  "'d lock_env \<Rightarrow> malloc \<Rightarrow> 'd \<Rightarrow> libos_file_lock \<Rightarrow> libos_file_lock \<Rightarrow> 'd fs_locks \<Rightarrow> (int \<times> libos_file_lock \<times> 'd fs_locks) option" where
  "file_lock_get E M d fl out s =
     (if \<not> assert_owner fl \<or> ltype fl = F_UNLCK then None
      else if leader_vmid E \<noteq> 0
      then (case dentry_abs_path E d of
              Inl err \<Rightarrow> Some (err, out, s)
            | Inr path \<Rightarrow> let (ret, res) = ipc_file_lock_get E path fl in Some (ret, res, s))
      else let (ret, s) = find_dent_file_locks M d False s
      in case dents s d of
           None \<Rightarrow> Some (0, out\<lparr>ltype := F_UNLCK\<rparr>, s)
         | Some f \<Rightarrow>
             Some (0, case file_lock_find_conflict (file_locks f) fl of
                        None \<Rightarrow> out\<lparr>ltype := F_UNLCK\<rparr> | Some conflict \<Rightarrow> conflict,
                   dent_file_locks_gc d s))"

definition file_lock_get_from_ipc ::
  "'d lock_env \<Rightarrow> malloc \<Rightarrow> string \<Rightarrow> libos_file_lock \<Rightarrow> libos_file_lock \<Rightarrow> 'd fs_locks \<Rightarrow>
     (int \<times> libos_file_lock \<times> 'd fs_locks) option" where
  "file_lock_get_from_ipc E M path fl out s =
     (if \<not> assert_owner fl \<or> leader_vmid E \<noteq> 0 then None
      else (case path_lookupat E path of
          Inl err \<Rightarrow> Some (err, out, s)
        | Inr d \<Rightarrow>
            map_option (\<lambda>(ret, out, s). (ret, out, s\<lparr>dent_refs := (dent_refs s)(d := dent_refs s d - 1)\<rparr>))
              (file_lock_get E M d fl out (s\<lparr>dent_refs := (dent_refs s)(d := dent_refs s d + 1)\<rparr>))))"

text \<open>Clearing a process; a pending request of it must not have an event of this process.\<close>

definition of_pid :: "nat \<Rightarrow> libos_file_lock \<Rightarrow> bool" where
  "of_pid pid fl \<longleftrightarrow> family fl = FILE_LOCK_POSIX \<and> l_pid fl = pid"

fun remote :: "waiter option \<Rightarrow> bool" where
  "remote (Some (Remote vmid seq)) = True"
| "remote _ = False"

definition file_lock_clear_pid_from_dentry :: "malloc \<Rightarrow> 'd \<Rightarrow> nat \<Rightarrow> 'd fs_locks \<Rightarrow> 'd fs_locks option" where
  "file_lock_clear_pid_from_dentry M d pid s =
     (case dents s d of None \<Rightarrow> Some s | Some f \<Rightarrow>
        let changed = list_ex (of_pid pid) (file_locks f);
            ls = filter (\<lambda>l. \<not> of_pid pid l) (file_locks f)
        in if list_ex (\<lambda>req. of_pid pid (req_lock req) \<and> \<not> remote (notify req)) (file_lock_requests f) then None
        else let reqs = filter (\<lambda>req. \<not> of_pid pid (req_lock req)) (file_lock_requests f);
                 s = s\<lparr>dents := (dents s)(d \<mapsto> f\<lparr>file_locks := ls, file_lock_requests := reqs\<rparr>)\<rparr>
        in if changed then map_option (dent_file_locks_gc d) (file_lock_process_requests M d s) else Some s)"

fun clear_dentries :: "malloc \<Rightarrow> nat \<Rightarrow> 'd list \<Rightarrow> 'd fs_locks \<Rightarrow> 'd fs_locks option" where
  "clear_dentries M pid [] s = Some s"
| "clear_dentries M pid (d # ds) s =
     (case file_lock_clear_pid_from_dentry M d pid s of None \<Rightarrow> None | Some s \<Rightarrow> clear_dentries M pid ds s)"

definition file_lock_clear_pid :: "'d lock_env \<Rightarrow> malloc \<Rightarrow> nat \<Rightarrow> 'd fs_locks \<Rightarrow> (int \<times> 'd fs_locks) option" where
  "file_lock_clear_pid E M pid s =
     (if leader_vmid E \<noteq> 0 then Some (ipc_file_lock_clear_pid E pid, s)
      else map_option (Pair 0) (clear_dentries M pid (dent_file_locks_list s) s))"

section \<open>What a table grants\<close>

text \<open>The bytes processes hold by POSIX locks, and the handles that hold the file by BSD locks.\<close>

definition pholds :: "libos_file_lock list \<Rightarrow> nat \<Rightarrow> nat \<Rightarrow> lock_type \<Rightarrow> bool" where
  "pholds ls p b t \<longleftrightarrow> (\<exists>l\<in>set ls. family l = FILE_LOCK_POSIX \<and> covers l p b t)"

definition bholds :: "libos_file_lock list \<Rightarrow> nat \<Rightarrow> lock_type \<Rightarrow> bool" where
  "bholds ls h t \<longleftrightarrow> (\<exists>l\<in>set ls. family l = FILE_LOCK_FLOCK \<and> handle_id l = h \<and> ltype l = t)"

definition give_bytes :: "libos_file_lock \<Rightarrow> (nat \<Rightarrow> nat \<Rightarrow> lock_type \<Rightarrow> bool) \<Rightarrow> nat \<Rightarrow> nat \<Rightarrow> lock_type \<Rightarrow> bool" where
  "give_bytes fl V p b t \<longleftrightarrow>
     (if family fl = FILE_LOCK_POSIX \<and> in_range fl p b then t = ltype fl \<and> t \<noteq> F_UNLCK else V p b t)"

definition give_file :: "libos_file_lock \<Rightarrow> (nat \<Rightarrow> lock_type \<Rightarrow> bool) \<Rightarrow> nat \<Rightarrow> lock_type \<Rightarrow> bool" where
  "give_file fl W h t \<longleftrightarrow>
     (if family fl = FILE_LOCK_FLOCK \<and> h = handle_id fl then t = ltype fl \<and> t \<noteq> F_UNLCK else W h t)"

text \<open>The result of setting a lock: it is given exactly what it asks for, or memory runs out and nothing changes.\<close>

definition set_result :: "malloc \<Rightarrow> libos_file_lock \<Rightarrow> int \<Rightarrow> libos_file_lock list \<Rightarrow> libos_file_lock list \<Rightarrow> bool" where
  "set_result M fl ret ls ls' \<longleftrightarrow>
     ret = 0 \<and> pholds ls' = give_bytes fl (pholds ls) \<and> bholds ls' = give_file fl (bholds ls) \<or>
     ret = - ENOMEM \<and> ls' = ls \<and> (\<exists>n. \<not> M n)"

text \<open>
  Requests answered one after the other: each of them had no conflict with the locks held at its turn, and the
  number it is answered with is the result of setting its lock.
\<close>

inductive answered :: "malloc \<Rightarrow> libos_file_lock list \<Rightarrow> (file_lock_request \<times> int) list \<Rightarrow> libos_file_lock list \<Rightarrow> bool"
  for M where
  answered_Nil: "answered M ls [] ls"
| answered_Cons: "answered M ls ((req, ret) # gs) ls'"
    if "\<forall>c\<in>set ls. \<not> lock_conflict (req_lock req) c" "set_result M (req_lock req) ret ls ls1" "answered M ls1 gs ls'"

inductive_simps answered_simps: "answered M ls [] ls'" "answered M ls (g # gs) ls'"

lemma answered_append: "answered M ls gs ls1 \<Longrightarrow> answered M ls1 hs ls' \<Longrightarrow> answered M ls (gs @ hs) ls'"
  by (induction rule: answered.induct) (auto intro: answered.intros)

text \<open>The answers as they are sent, and the requests still pending: nobody is answered twice, and nobody is lost.\<close>

definition answer :: "file_lock_request \<times> int \<Rightarrow> waiter \<times> int" where
  "answer g = (the (notify (fst g)), snd g)"

definition served :: "file_lock_request list \<Rightarrow> (file_lock_request \<times> int) list \<Rightarrow> file_lock_request list \<Rightarrow> bool" where
  "served reqs gs reqs' \<longleftrightarrow> mset reqs = mset reqs' + mset (map fst gs) \<and> (\<forall>g\<in>set gs. notify (fst g) \<noteq> None)"

definition all_blocked :: "libos_file_lock list \<Rightarrow> file_lock_request list \<Rightarrow> bool" where
  "all_blocked ls reqs \<longleftrightarrow> (\<forall>req\<in>set reqs. file_lock_find_conflict ls (req_lock req) \<noteq> None)"

definition all_notified :: "file_lock_request list \<Rightarrow> bool" where
  "all_notified reqs \<longleftrightarrow> (\<forall>req\<in>set reqs. notify req \<noteq> None)"

lemma served_subset: "served reqs gs reqs' \<Longrightarrow> set reqs' \<subseteq> set reqs"
  unfolding served_def by (metis set_mset_mset set_mset_union Un_upper1)

lemma served_append:
  assumes "served reqs gs reqs'" "served reqs' hs reqs''"
  shows "served reqs (gs @ hs) reqs''"
proof -
  have "mset reqs = mset reqs'' + mset (map fst (gs @ hs))" using assms unfolding served_def by (simp add: ac_simps)
  then show ?thesis using assms unfolding served_def by auto
qed

text \<open>What processing does, in these terms.\<close>

definition worked :: "malloc \<Rightarrow> file_lock_request list \<Rightarrow> lock_work \<Rightarrow> file_lock_request list \<Rightarrow> lock_work \<Rightarrow> bool" where
  "worked M reqs w reqs' w' \<longleftrightarrow>
     (\<exists>gs. served reqs gs reqs' \<and> w_responses w' = w_responses w @ map answer gs \<and> answered M (w_locks w) gs (w_locks w'))"

lemma worked_Nil: "worked M [] w [] w"
  by (auto simp: worked_def served_def intro: exI [of _ "[]"] answered_Nil)

lemma worked_keep: "worked M reqs w reqs' w' \<Longrightarrow> worked M (req # reqs) w (req # reqs') w'"
  by (auto simp: worked_def served_def)

lemma worked_grant:
  assumes "worked M reqs w1 reqs' w'" "notify req \<noteq> None" "w_responses w1 = w_responses w @ [answer (req, ret)]"
    "\<And>gs ls'. answered M (w_locks w1) gs ls' \<Longrightarrow> answered M (w_locks w) ((req, ret) # gs) ls'"
  shows "worked M (req # reqs) w reqs' w'"
proof -
  obtain gs where "served reqs gs reqs'" "w_responses w' = w_responses w1 @ map answer gs" "answered M (w_locks w1) gs (w_locks w')"
    using assms(1) by (auto simp: worked_def)
  then have "served (req # reqs) ((req, ret) # gs) reqs'" "w_responses w' = w_responses w @ map answer ((req, ret) # gs)"
    "answered M (w_locks w) ((req, ret) # gs) (w_locks w')" using assms(2-) by (simp_all add: served_def)
  then show ?thesis unfolding worked_def by blast
qed

lemma worked_trans:
  assumes "worked M reqs w reqs' w'" "worked M reqs' w' reqs'' w''"
  shows "worked M reqs w reqs'' w''"
proof -
  obtain gs where gs: "served reqs gs reqs'" "w_responses w' = w_responses w @ map answer gs" "answered M (w_locks w) gs (w_locks w')"
    using assms(1) by (auto simp: worked_def)
  obtain hs where hs: "served reqs' hs reqs''" "w_responses w'' = w_responses w' @ map answer hs"
    "answered M (w_locks w') hs (w_locks w'')" using assms(2) by (auto simp: worked_def)
  have "w_responses w'' = w_responses w @ map answer (gs @ hs)" using gs(2) hs(2) by simp
  then show ?thesis using served_append [OF gs(1) hs(1)] answered_append [OF gs(3) hs(3)] unfolding worked_def by blast
qed

lemma worked_set: "worked M reqs w reqs' w' \<Longrightarrow> set reqs' \<subseteq> set reqs"
  using served_subset unfolding worked_def by blast

section \<open>The contract between lock table and request queue\<close>

text \<open>
  The queue relies on one law of the table: granting a request that has no conflict gives it what it asks for and
  keeps the table well formed. Its lemmas hold for both families. Processing comes to an end; it fails only on a
  request without a waiter.
\<close>

locale lock_mode =
  fixes table :: "libos_file_lock list \<Rightarrow> bool" and request :: "libos_file_lock \<Rightarrow> bool"
  assumes grant_table: "table ls \<Longrightarrow> request fl \<Longrightarrow> file_lock_find_conflict ls fl = None \<Longrightarrow>
    lock_set M fl (ls, k) = (ret, ls', k') \<Longrightarrow> table ls' \<and> set_result M fl ret ls ls'"
begin

lemma grant_work:
  assumes "table (w_locks w)" "request (req_lock req)" "file_lock_find_conflict (w_locks w) (req_lock req) = None"
    "notify req = Some n"
  obtains ret where "table (w_locks (grant M n (req_lock req) w))"
    "w_responses (grant M n (req_lock req) w) = w_responses w @ [answer (req, ret)]"
    "\<And>gs ls'. answered M (w_locks (grant M n (req_lock req) w)) gs ls' \<Longrightarrow> answered M (w_locks w) ((req, ret) # gs) ls'"
proof -
  obtain ret ls k where l: "lock_set M (req_lock req) (w_locks w, w_mallocs w) = (ret, ls, k)" by (metis prod_cases3)
  note t = grant_table [OF assms(1-3) l]
  have g: "w_locks (grant M n (req_lock req) w) = ls" "w_responses (grant M n (req_lock req) w) = w_responses w @ [(n, ret)]"
    using l by (simp_all add: grant_def)
  have "answered M (w_locks w) ((req, ret) # gs) ls'" if "answered M ls gs ls'" for gs ls'
    using answered_Cons [OF _ conjunct2 [OF t] that] assms(3) by (simp add: find_conflict_None)
  then show thesis using that [of ret] t g assms(4) by (simp add: answer_def)
qed

lemma pass_complete:
  "table (w_locks w) \<Longrightarrow> \<forall>req\<in>set reqs. request (req_lock req) \<Longrightarrow>
   (case process_pass M reqs w of
      None \<Rightarrow> \<not> all_notified reqs
    | Some (reqs', w', changed) \<Rightarrow>
        table (w_locks w') \<and> worked M reqs w reqs' w' \<and> (changed \<or> all_blocked (w_locks w) reqs))"
proof (induction reqs arbitrary: w)
  case Nil
  then show ?case by (simp add: all_blocked_def worked_Nil)
next
  case (Cons req reqs)
  have rest: "\<forall>req\<in>set reqs. request (req_lock req)" and req: "request (req_lock req)" using Cons.prems(2) by simp_all
  show ?case
  proof (cases "file_lock_find_conflict (w_locks w) (req_lock req)")
    case None
    show ?thesis
    proof (cases "notify req")
      case (Some n)
      from grant_work [OF Cons.prems(1) req None Some, where M = M] obtain ret where
        g: "table (w_locks (grant M n (req_lock req) w))"
          "w_responses (grant M n (req_lock req) w) = w_responses w @ [answer (req, ret)]"
          "\<And>gs ls'. answered M (w_locks (grant M n (req_lock req) w)) gs ls' \<Longrightarrow> answered M (w_locks w) ((req, ret) # gs) ls'"
        by blast
      have "worked M (req # reqs) w reqs' w'" if "worked M reqs (grant M n (req_lock req) w) reqs' w'" for reqs' w'
        by (rule worked_grant [OF that _ g(2)]) (use Some g(3) in simp_all)
      then show ?thesis using None Some Cons.IH [OF g(1) rest] by (auto simp: all_notified_def split: option.splits)
    qed (use None in \<open>simp add: all_notified_def\<close>)
  next
    case (Some c)
    then show ?thesis using worked_keep Cons.IH [OF Cons.prems(1) rest]
      by (auto simp: all_notified_def all_blocked_def split: option.splits)
  qed
qed

lemma process_complete:
  "table (w_locks w) \<Longrightarrow> \<forall>req\<in>set reqs. request (req_lock req) \<Longrightarrow>
   (case process_requests M reqs w of
      None \<Rightarrow> \<not> all_notified reqs
    | Some (reqs', w') \<Rightarrow> table (w_locks w') \<and> worked M reqs w reqs' w' \<and> all_blocked (w_locks w') reqs')"
proof (induction "length reqs" arbitrary: reqs w rule: less_induct)
  case less
  note pass = pass_complete [OF less.prems, of M]
  show ?case
  proof (cases "process_pass M reqs w")
    case None
    then show ?thesis using pass by (simp add: process_requests.simps)
  next
    case (Some r)
    then obtain reqs' w' ch where r: "process_pass M reqs w = Some (reqs', w', ch)" by (cases r) auto
    then have p: "table (w_locks w')" "worked M reqs w reqs' w'" "ch \<or> all_blocked (w_locks w) reqs" using pass by simp_all
    note len = process_pass_length [OF r]
    show ?thesis
    proof (cases ch)
      case False
      then show ?thesis using p r len by (simp add: process_requests.simps)
    next
      case True
      have "\<forall>req\<in>set reqs'. request (req_lock req)" using less.prems(2) worked_set [OF p(2)] by blast
      note IH = less.hyps [OF _ p(1) this]
      have "all_notified reqs \<Longrightarrow> all_notified reqs'" using worked_set [OF p(2)] by (auto simp: all_notified_def)
      then show ?thesis using IH len True r worked_trans [OF p(2)] process_requests.simps [of M reqs w]
        by (auto split: option.splits)
    qed
  qed
qed

end

text \<open>The two kinds of table.\<close>

fun table_ok :: "lock_family \<Rightarrow> libos_file_lock list \<Rightarrow> bool" where
  "table_ok FILE_LOCK_POSIX ls = (posix_ok ls \<and> no_conflicts ls)"
| "table_ok FILE_LOCK_FLOCK ls = (flock_ok ls \<and> no_conflicts ls)"
| "table_ok FILE_LOCK_UNKNOWN ls = False"

definition lock_ok :: "libos_file_lock \<Rightarrow> bool" where
  "lock_ok fl \<longleftrightarrow> assert_owner fl \<and> (family fl = FILE_LOCK_POSIX \<longrightarrow> range_ok fl)"

definition request_ok :: "lock_family \<Rightarrow> libos_file_lock \<Rightarrow> bool" where
  "request_ok fam fl \<longleftrightarrow> family fl = fam \<and> ltype fl \<noteq> F_UNLCK \<and> lock_ok fl"

lemma posix_holds: "posix_ok ls \<Longrightarrow> pholds ls = holds ls \<and> bholds ls = (\<lambda>h t. False)"
  by (auto simp: fun_eq_iff pholds_def bholds_def holds_def posix_ok_def list_all_iff posix_lock_def)

lemma flock_holds: "flock_ok ls \<Longrightarrow> bholds ls = fholds ls \<and> pholds ls = (\<lambda>p b t. False)"
  by (auto simp: fun_eq_iff pholds_def bholds_def fholds_def flock_ok_def list_all_iff flock_lock_def)

lemma lock_set_posix:
  assumes "posix_ok ls" "no_conflicts ls" "range_ok fl" "family fl = FILE_LOCK_POSIX"
    "ltype fl = F_UNLCK \<or> file_lock_find_conflict ls fl = None" "lock_set M fl (ls, k) = (ret, ls', k')"
  shows "posix_ok ls' \<and> no_conflicts ls' \<and> set_result M fl ret ls ls'"
proof -
  obtain k1 k2 where u: "u_posix_lock_set (M k1) (M k2) fl ls = (ret, ls')"
    using assms(4,6) by (auto simp: lock_set_def Let_def split: prod.splits)
  note r = posix_set_result [OF assms(1,3) u]
  have ok: "posix_ok ls'" using r by simp
  have "set_result M fl ret ls ls'"
  proof (cases "M k2 \<and> (ltype fl = F_UNLCK \<or> M k1)")
    case True
    then show ?thesis using r assms(4) posix_holds [OF assms(1)] posix_holds [OF ok]
      by (auto simp: set_result_def fun_eq_iff give_bytes_def give_file_def)
  next
    case False
    then have "ret = - ENOMEM" "ls' = ls" using r by auto
    then show ?thesis using False by (auto simp: set_result_def)
  qed
  then show ?thesis using posix_set_no_conflicts [OF assms(1,3,4,2,5) u] ok by simp
qed

lemma lock_set_flock:
  assumes "flock_ok ls" "no_conflicts ls" "family fl = FILE_LOCK_FLOCK"
    "ltype fl = F_UNLCK \<or> file_lock_find_conflict ls fl = None" "lock_set M fl (ls, k) = (ret, ls', k')"
  shows "flock_ok ls' \<and> no_conflicts ls' \<and> set_result M fl ret ls ls'"
proof -
  have u: "u_flock_lock_set (M k) fl ls = (ret, ls')"
    using assms(3,5) by (auto simp: lock_set_def Let_def split: prod.splits)
  note r = flock_set_result [OF assms(1,3,2,4) u]
  have ok: "flock_ok ls'" using r by simp
  have "set_result M fl ret ls ls'"
  proof (cases "ltype fl = F_UNLCK \<or> M k")
    case True
    then show ?thesis using r assms(3) flock_holds [OF assms(1)] flock_holds [OF ok]
      by (auto simp: set_result_def fun_eq_iff give_bytes_def give_file_def)
  next
    case False
    then have "ret = - ENOMEM" "ls' = ls" using r by auto
    then show ?thesis using False by (auto simp: set_result_def)
  qed
  then show ?thesis using r by simp
qed

interpretation posix: lock_mode "table_ok FILE_LOCK_POSIX" "request_ok FILE_LOCK_POSIX"
proof
  fix ls fl M k ret ls' k'
  assume "table_ok FILE_LOCK_POSIX ls" "request_ok FILE_LOCK_POSIX fl" "file_lock_find_conflict ls fl = None"
    "lock_set M fl (ls, k) = (ret, ls', k')"
  then show "table_ok FILE_LOCK_POSIX ls' \<and> set_result M fl ret ls ls'"
    using lock_set_posix [of ls fl M k ret ls' k'] by (simp add: request_ok_def lock_ok_def)
qed

interpretation flock: lock_mode "table_ok FILE_LOCK_FLOCK" "request_ok FILE_LOCK_FLOCK"
proof
  fix ls fl M k ret ls' k'
  assume "table_ok FILE_LOCK_FLOCK ls" "request_ok FILE_LOCK_FLOCK fl" "file_lock_find_conflict ls fl = None"
    "lock_set M fl (ls, k) = (ret, ls', k')"
  then show "table_ok FILE_LOCK_FLOCK ls' \<and> set_result M fl ret ls ls'"
    using lock_set_flock [of ls fl M k ret ls' k'] by (simp add: request_ok_def)
qed

text \<open>An unlock of the other family finds nothing to do.\<close>

lemma scan_flock: "list_all flock_lock ls \<Longrightarrow> posix_scan fl st en pre mid ls = (st, en, pre, mid @ ls)"
  by (induction ls arbitrary: mid) (simp_all add: flock_lock_def)

lemma flock_remove_posix: "list_all posix_lock ls \<Longrightarrow> flock_remove h ls = ls"
  by (induction ls) (simp_all add: posix_lock_def)

lemma foreign_unlock:
  assumes "table_ok fam ls" "lock_ok fl" "ltype fl = F_UNLCK" "family fl \<noteq> fam" "lock_set M fl (ls, k) = (ret, ls', k')"
  shows "ls' = ls \<and> set_result M fl ret ls ls'"
proof -
  have "fam = FILE_LOCK_POSIX \<and> family fl = FILE_LOCK_FLOCK \<or> fam = FILE_LOCK_FLOCK \<and> family fl = FILE_LOCK_POSIX"
    using assms(1,2,4) by (cases fam) (auto simp: lock_ok_def assert_owner_def)
  then show ?thesis
  proof
    assume f: "fam = FILE_LOCK_POSIX \<and> family fl = FILE_LOCK_FLOCK"
    then have p: "posix_ok ls" using assms(1) by simp
    then have "flock_remove (handle_id fl) ls = ls" using flock_remove_posix by (simp add: posix_ok_def)
    then have "ret = 0 \<and> ls' = ls" using f assms(3,5) by (auto simp: lock_set_def u_flock_lock_set_def Let_def)
    then show ?thesis using f assms(3) posix_holds [OF p] by (simp add: set_result_def fun_eq_iff give_bytes_def give_file_def)
  next
    assume f: "fam = FILE_LOCK_FLOCK \<and> family fl = FILE_LOCK_POSIX"
    then have p: "flock_ok ls" using assms(1) by simp
    then have "posix_scan fl (l_start fl) (l_end fl) [] [] ls = (l_start fl, l_end fl, [], ls)"
      using scan_flock by (simp add: flock_ok_def)
    then have "ls' = ls \<and> (ret = 0 \<or> ret = - ENOMEM \<and> (\<exists>n. \<not> M n))" using f assms(3,5)
      by (auto simp: lock_set_def u_posix_lock_set_def Let_def split: if_splits)
    then show ?thesis using f assms(3) flock_holds [OF p] by (auto simp: set_result_def fun_eq_iff give_bytes_def give_file_def)
  qed
qed

lemma lock_set_table:
  assumes "table_ok fam ls" "lock_ok fl" "ltype fl = F_UNLCK \<or> family fl = fam \<and> file_lock_find_conflict ls fl = None"
    "lock_set M fl (ls, k) = (ret, ls', k')"
  shows "table_ok fam ls' \<and> set_result M fl ret ls ls'"
proof (cases "family fl = fam")
  case True
  show ?thesis
  proof (cases fam)
    case FILE_LOCK_POSIX
    with assms True show ?thesis using lock_set_posix [OF _ _ _ _ _ assms(4)] by (auto simp: lock_ok_def)
  next
    case FILE_LOCK_FLOCK
    with assms True show ?thesis using lock_set_flock [OF _ _ _ _ assms(4)] by auto
  qed (use assms(1) in simp)
next
  case False
  with assms(3) have "ltype fl = F_UNLCK" by simp
  then show ?thesis using foreign_unlock [OF assms(1,2) _ False assms(4)] assms(1) by auto
qed

lemma process_requests_table:
  assumes "table_ok fam (w_locks w)" "\<forall>req\<in>set reqs. request_ok fam (req_lock req)"
  shows "case process_requests M reqs w of
      None \<Rightarrow> \<not> all_notified reqs
    | Some (reqs', w') \<Rightarrow> table_ok fam (w_locks w') \<and> worked M reqs w reqs' w' \<and> all_blocked (w_locks w') reqs'"
proof (cases fam)
  case FILE_LOCK_POSIX
  with assms posix.process_complete show ?thesis by blast
next
  case FILE_LOCK_FLOCK
  with assms flock.process_complete show ?thesis by blast
qed (use assms(1) in simp)

text \<open>On views: what is held after a run of answers is what each successful one gives, in their order.\<close>

definition granted :: "(file_lock_request \<times> int) list \<Rightarrow> libos_file_lock list" where
  "granted gs = map (req_lock \<circ> fst) (filter (\<lambda>g. snd g = 0) gs)"

lemma answered_view: "answered M ls gs ls' \<Longrightarrow>
   pholds ls' = fold give_bytes (granted gs) (pholds ls) \<and> bholds ls' = fold give_file (granted gs) (bholds ls)"
  by (induction rule: answered.induct) (auto simp: granted_def set_result_def ENOMEM_def)

lemma answered_memory: "answered M ls gs ls' \<Longrightarrow> (\<And>n. M n) \<Longrightarrow> \<forall>g\<in>set gs. snd g = 0"
  by (induction rule: answered.induct) (auto simp: set_result_def)

end
