(* ===== verification/File_Lock_Ops.thy ===== *)
theory File_Lock_Ops
  imports File_Lock_Requests
begin

text \<open>
  The invariant of the file-lock subsystem over all files, its preservation by the operations of
  \<^verbatim>\<open>libos_fs_lock.c\<close>, and what the operations return.
\<close>

section \<open>Invariant\<close>

definition mode_ok :: "lock_family \<Rightarrow> dent_file_locks \<Rightarrow> bool" where
  "mode_ok fam f \<longleftrightarrow> table_ok fam (file_locks f) \<and> (\<forall>req\<in>set (file_lock_requests f). request_ok fam (req_lock req)) \<and>
     all_blocked (file_locks f) (file_lock_requests f)"

definition flags_ok :: "lock_family \<Rightarrow> dent_file_locks \<Rightarrow> bool" where
  "flags_ok fam f \<longleftrightarrow> posix_used f = (fam = FILE_LOCK_POSIX) \<and> flock_used f = (fam = FILE_LOCK_FLOCK)"

text \<open>
  A file with a table holds locks of one family, and every pending request waits for one of them.
  The list of tables has each of them once, and each holds one reference to its file, beside those
  (\<open>x\<close>) held by others.
\<close>

definition dfl_ok :: "dent_file_locks \<Rightarrow> bool" where
  "dfl_ok f \<longleftrightarrow> file_locks f \<noteq> [] \<and> (\<exists>fam. flags_ok fam f \<and> mode_ok fam f)"

definition dfl_mode :: "dent_file_locks \<Rightarrow> bool" where
  "dfl_mode f \<longleftrightarrow> file_locks f = [] \<and> file_lock_requests f = [] \<or> (\<exists>fam. flags_ok fam f \<and> mode_ok fam f)"

definition rest_ok :: "('d \<Rightarrow> nat) \<Rightarrow> 'd \<Rightarrow> 'd fs_locks \<Rightarrow> bool" where
  "rest_ok x d s \<longleftrightarrow> (\<forall>d' f. d' \<noteq> d \<and> dents s d' = Some f \<longrightarrow> dfl_ok f) \<and>
     distinct (dent_file_locks_list s) \<and> set (dent_file_locks_list s) = dom (dents s) \<and>
     (\<forall>d'. dent_refs s d' = x d' + (if dents s d' = None then 0 else 1))"

definition state_ok :: "('d \<Rightarrow> nat) \<Rightarrow> 'd fs_locks \<Rightarrow> bool" where
  "state_ok x s \<longleftrightarrow> (\<forall>d f. dents s d = Some f \<longrightarrow> dfl_ok f) \<and>
     distinct (dent_file_locks_list s) \<and> set (dent_file_locks_list s) = dom (dents s) \<and>
     (\<forall>d. dent_refs s d = x d + (if dents s d = None then 0 else 1))"

lemma state_ok_rest:
  "state_ok x s \<longleftrightarrow> rest_ok x d s \<and> (\<forall>f. dents s d = Some f \<longrightarrow> dfl_ok f)"
proof -
  have "(\<forall>d' f. dents s d' = Some f \<longrightarrow> P f) \<longleftrightarrow>
      (\<forall>d' f. d' \<noteq> d \<and> dents s d' = Some f \<longrightarrow> P f) \<and> (\<forall>f. dents s d = Some f \<longrightarrow> P f)" for P
    by (metis (no_types))
  then show ?thesis unfolding state_ok_def rest_ok_def by (simp only: conj_ac)
qed

lemma dfl_ok_mode: "dfl_ok f \<Longrightarrow> dfl_mode f"
  by (auto simp: dfl_ok_def dfl_mode_def)

lemma state_ok_frame [simp]:
  "state_ok x (s\<lparr>mallocs := k\<rparr>) = state_ok x s" "state_ok x (s\<lparr>events := k\<rparr>) = state_ok x s"
  "state_ok x (s\<lparr>responses := r\<rparr>) = state_ok x s" "state_ok x (s\<lparr>maybe_has_file_locks := m\<rparr>) = state_ok x s"
  "rest_ok x d (s\<lparr>mallocs := k\<rparr>) = rest_ok x d s"
  by (simp_all add: state_ok_def rest_ok_def)

lemma find_conflict_Nil [simp]: "file_lock_find_conflict [] fl = None"
  by (simp add: find_conflict_None)

lemma mode_nonempty: "mode_ok fam f \<Longrightarrow> file_locks f = [] \<Longrightarrow> file_lock_requests f = []"
  by (cases "file_lock_requests f") (auto simp: mode_ok_def all_blocked_def)

lemma dfl_mode_ok: "dfl_mode f \<Longrightarrow> \<not> (file_locks f = [] \<and> file_lock_requests f = []) \<Longrightarrow> dfl_ok f"
  using mode_nonempty [of _ f] by (auto simp: dfl_mode_def dfl_ok_def)

text \<open>The collection at the end of an operation restores the invariant.\<close>

lemma gc_ok:
  assumes "rest_ok x d s" "\<And>f. dents s d = Some f \<Longrightarrow> dfl_mode f"
  shows "state_ok x (dent_file_locks_gc d s)"
proof (cases "dents s d")
  case None
  with assms(1) show ?thesis by (auto simp: dent_file_locks_gc_def state_ok_rest [of x s d])
next
  case (Some f)
  show ?thesis
  proof (cases "file_locks f = [] \<and> file_lock_requests f = []")
    case True
    with Some assms(1) show ?thesis
      by (auto simp: dent_file_locks_gc_def state_ok_def rest_ok_def split: if_splits)
  next
    case False
    with assms(2) [OF Some] have "dfl_ok f" using dfl_mode_ok by blast
    with Some False assms(1) show ?thesis by (auto simp: dent_file_locks_gc_def state_ok_rest [of x s d])
  qed
qed

text \<open>Updating the table of one file.\<close>

lemma rest_ok_update:
  "rest_ok x d s \<Longrightarrow> dents s d \<noteq> None \<Longrightarrow> dents s' = (dents s)(d \<mapsto> f) \<Longrightarrow>
   dent_file_locks_list s' = dent_file_locks_list s \<Longrightarrow> dent_refs s' = dent_refs s \<Longrightarrow> rest_ok x d s'"
  by (auto simp: rest_ok_def)

lemma rest_ok_fresh:
  assumes "rest_ok x d s" "dents s d = None" "dents s' = (dents s)(d \<mapsto> f)"
    "dent_file_locks_list s' = d # dent_file_locks_list s" "dent_refs s' = (dent_refs s)(d := Suc (dent_refs s d))"
  shows "rest_ok x d s'"
proof -
  have "d \<notin> set (dent_file_locks_list s)" using assms(1,2) by (simp add: rest_ok_def domIff)
  with assms show ?thesis by (simp add: rest_ok_def)
qed

text \<open>The locks and the requests of a file.\<close>

definition file_table :: "'d fs_locks \<Rightarrow> 'd \<Rightarrow> libos_file_lock list" where
  "file_table s d = (case dents s d of None \<Rightarrow> [] | Some f \<Rightarrow> file_locks f)"

definition pending :: "'d fs_locks \<Rightarrow> 'd \<Rightarrow> file_lock_request list" where
  "pending s d = (case dents s d of None \<Rightarrow> [] | Some f \<Rightarrow> file_lock_requests f)"

lemma file_table_Some [simp]: "dents s d = Some f \<Longrightarrow> file_table s d = file_locks f \<and> pending s d = file_lock_requests f"
  by (simp add: file_table_def pending_def)

lemma file_table_None [simp]: "dents s d = None \<Longrightarrow> file_table s d = [] \<and> pending s d = []"
  by (simp add: file_table_def pending_def)

lemma file_table_gc [simp]:
  "file_table (dent_file_locks_gc d s) e = file_table s e" "pending (dent_file_locks_gc d s) e = pending s e"
  "responses (dent_file_locks_gc d s) = responses s" "events (dent_file_locks_gc d s) = events s"
  by (auto simp: file_table_def pending_def dent_file_locks_gc_def split: option.splits)

lemma file_table_mark [simp]:
  "file_table (mark_used d fl s) e = file_table s e" "pending (mark_used d fl s) e = pending s e"
  "responses (mark_used d fl s) = responses s" "events (mark_used d fl s) = events s"
  by (auto simp: file_table_def pending_def mark_used_def split: option.splits)

lemma gc_other: "e \<noteq> d \<Longrightarrow> dents (dent_file_locks_gc d s) e = dents s e"
  by (simp add: dent_file_locks_gc_def split: option.split)

lemma mark_other: "e \<noteq> d \<Longrightarrow> dents (mark_used d fl s) e = dents s e"
  by (simp add: mark_used_def split: option.split)

text \<open>The pending requests of a file processed, starting from the locks \<open>ls\<close>.\<close>

definition processed :: "malloc \<Rightarrow> 'd \<Rightarrow> libos_file_lock list \<Rightarrow> 'd fs_locks \<Rightarrow> 'd fs_locks \<Rightarrow> bool" where
  "processed M d ls s s' \<longleftrightarrow> (\<exists>gs. served (pending s d) gs (pending s' d) \<and> responses s' = responses s @ map answer gs \<and>
     answered M ls gs (file_table s' d))"

lemma processed_cong:
  "pending s1 d = pending s2 d \<Longrightarrow> responses s1 = responses s2 \<Longrightarrow> pending s1' d = pending s2' d \<Longrightarrow>
   responses s1' = responses s2' \<Longrightarrow> file_table s1' d = file_table s2' d \<Longrightarrow> processed M d ls s1 s1' = processed M d ls s2 s2'"
  by (simp add: processed_def)

lemma process_state:
  assumes "dents s d = Some f" "table_ok fam (file_locks f)" "\<forall>req\<in>set (file_lock_requests f). request_ok fam (req_lock req)"
  shows "case file_lock_process_requests M d s of
      None \<Rightarrow> \<not> all_notified (file_lock_requests f)
    | Some s' \<Rightarrow> \<exists>f'. dents s' = (dents s)(d \<mapsto> f') \<and>
        dent_file_locks_list s' = dent_file_locks_list s \<and> dent_refs s' = dent_refs s \<and> events s' = events s \<and>
        mode_ok fam f' \<and> posix_used f' = posix_used f \<and> flock_used f' = flock_used f \<and> processed M d (file_locks f) s s'"
proof -
  let ?w = "\<lparr>w_locks = file_locks f, w_mallocs = mallocs s, w_responses = responses s\<rparr>"
  have "table_ok fam (w_locks ?w)" using assms(2) by simp
  note p = process_requests_table [OF this assms(3), of M]
  show ?thesis
  proof (cases "process_requests M (file_lock_requests f) ?w")
    case None
    then show ?thesis using p assms(1) by (simp add: file_lock_process_requests_def)
  next
    case (Some r)
    then obtain reqs' w' where r: "process_requests M (file_lock_requests f) ?w = Some (reqs', w')" by (cases r) simp
    then have q: "table_ok fam (w_locks w')" "worked M (file_lock_requests f) ?w reqs' w'" "all_blocked (w_locks w') reqs'"
      using p by simp_all
    let ?f' = "f\<lparr>file_locks := w_locks w', file_lock_requests := reqs'\<rparr>"
    let ?s' = "s\<lparr>dents := (dents s)(d \<mapsto> ?f'), mallocs := w_mallocs w', responses := w_responses w'\<rparr>"
    have "mode_ok fam ?f'" using q(1,3) worked_set [OF q(2)] assms(3) by (auto simp: mode_ok_def)
    moreover have "processed M d (file_locks f) s ?s'" using q(2) assms(1) by (simp add: processed_def worked_def)
    ultimately show ?thesis using r assms(1) by (auto simp: file_lock_process_requests_def intro: exI [of _ ?f'])
  qed
qed

section \<open>Setting a lock\<close>

text \<open>The table an operation works on: the one of the file, or a new and empty one.\<close>

definition work_table :: "('d \<Rightarrow> nat) \<Rightarrow> 'd \<Rightarrow> dent_file_locks \<Rightarrow> 'd fs_locks \<Rightarrow> bool" where
  "work_table x d f s \<longleftrightarrow> rest_ok x d s \<and> dents s d = Some f \<and>
     (dfl_ok f \<or> file_locks f = [] \<and> file_lock_requests f = [] \<and> \<not> posix_used f \<and> \<not> flock_used f)"

lemma find_dent_cases:
  assumes "state_ok x s" "find_dent_file_locks M d create s = (ret, s')"
  shows "(\<forall>e. e \<noteq> d \<longrightarrow> dents s' e = dents s e) \<and> responses s' = responses s \<and> events s' = events s \<and>
    (ret = - ENOMEM \<and> create \<and> dents s d = None \<and> state_ok x s' \<and> dents s' = dents s \<or>
     ret = 0 \<and> (if dents s d = None \<and> \<not> create then s' = s
                else (\<exists>f. work_table x d f s' \<and> (case dents s d of None \<Rightarrow> file_locks f = [] | Some g \<Rightarrow> f = g \<and> s' = s))))"
proof (cases "dents s d = None \<and> create")
  case True
  show ?thesis
  proof (cases "M (mallocs s)")
    case False
    with True assms(2) have "ret = - ENOMEM" "s' = s\<lparr>mallocs := mallocs s + 1\<rparr>"
      by (simp_all add: find_dent_file_locks_def Let_def)
    with True assms(1) show ?thesis by simp
  next
    case m: True
    have r: "rest_ok x d s" using assms(1) state_ok_rest [of x s d] by simp
    let ?f = "\<lparr>posix_used = False, flock_used = False, file_locks = [], file_lock_requests = []\<rparr>"
    from m True assms(2) have "ret = 0" "s' = s\<lparr>mallocs := mallocs s + 1, dents := (dents s)(d \<mapsto> ?f),
        dent_refs := (dent_refs s)(d := dent_refs s d + 1), dent_file_locks_list := d # dent_file_locks_list s\<rparr>"
      by (auto simp: find_dent_file_locks_def Let_def)
    moreover from r True have "rest_ok x d s'"
      by (intro rest_ok_fresh [of x d s s' ?f]) (simp_all add: calculation(2))
    ultimately show ?thesis using True by (simp add: work_table_def)
  qed
next
  case False
  then have s': "s' = s" "ret = 0" using assms(2) by (auto simp: find_dent_file_locks_def)
  show ?thesis
  proof (cases "dents s d")
    case None
    with s' False show ?thesis by auto
  next
    case (Some g)
    with assms(1) have "work_table x d g s" using state_ok_rest [of x s d] by (auto simp: work_table_def)
    with s' Some show ?thesis by auto
  qed
qed

lemma find_dent_table:
  assumes "state_ok x s" "find_dent_file_locks M d create s = (ret, s')"
  shows "ret < 0 \<Longrightarrow> state_ok x s'" "\<not> ret < 0 \<Longrightarrow> dents s' d = None \<Longrightarrow> \<not> create \<and> state_ok x s'"
    "0 \<le> ret \<Longrightarrow> dents s' d = Some f \<Longrightarrow> work_table x d f s'" "0 \<le> ret \<Longrightarrow> dents s' d = Some f \<Longrightarrow> \<not> create \<Longrightarrow> dfl_ok f"
proof -
  note c = find_dent_cases [OF assms]
  show "ret < 0 \<Longrightarrow> state_ok x s'" using c by auto
  show "\<not> ret < 0 \<Longrightarrow> dents s' d = None \<Longrightarrow> \<not> create \<and> state_ok x s'"
    using c assms(1) by (auto simp: work_table_def split: if_splits)
  show "0 \<le> ret \<Longrightarrow> dents s' d = Some f \<Longrightarrow> work_table x d f s'"
    using c by (auto simp: work_table_def split: if_splits)
  show "0 \<le> ret \<Longrightarrow> dents s' d = Some f \<Longrightarrow> \<not> create \<Longrightarrow> dfl_ok f"
    using c assms(1) by (auto simp: state_ok_def split: if_splits option.splits)
qed

text \<open>The family an accepted lock belongs to.\<close>

lemma work_mode:
  assumes "work_table x d f s" "lock_ok fl"
    "\<not> (ltype fl \<noteq> F_UNLCK \<and> (family fl = FILE_LOCK_FLOCK \<and> posix_used f \<or> family fl = FILE_LOCK_POSIX \<and> flock_used f))"
  obtains fam where "mode_ok fam f" "ltype fl \<noteq> F_UNLCK \<Longrightarrow> family fl = fam"
    "flags_ok fam f \<or> file_locks f = [] \<and> file_lock_requests f = [] \<and> \<not> posix_used f \<and> \<not> flock_used f"
proof -
  have fl: "family fl = FILE_LOCK_POSIX \<or> family fl = FILE_LOCK_FLOCK" using assms(2) by (simp add: lock_ok_def assert_owner_def)
  show thesis
  proof (cases "dfl_ok f")
    case True
    then obtain fam where m: "flags_ok fam f" "mode_ok fam f" by (auto simp: dfl_ok_def)
    then have "fam = FILE_LOCK_POSIX \<or> fam = FILE_LOCK_FLOCK" by (cases fam) (auto simp: mode_ok_def)
    with m fl assms(3) have "ltype fl \<noteq> F_UNLCK \<Longrightarrow> family fl = fam" by (auto simp: flags_ok_def)
    with m that show thesis by blast
  next
    case False
    then have e: "file_locks f = []" "file_lock_requests f = []" "\<not> posix_used f" "\<not> flock_used f"
      using assms(1) by (auto simp: work_table_def)
    have "table_ok (family fl) []" using fl by (auto simp: flock_ok_def no_conflicts_def)
    then have "mode_ok (family fl) f" using e by (simp add: mode_ok_def all_blocked_def)
    with e that [of "family fl"] show thesis by blast
  qed
qed

text \<open>Marking the family and collecting: the last steps of the successful paths.\<close>

lemma mark_gc_ok:
  assumes "rest_ok x d s" "dents s d = Some f" "mode_ok fam f"
    "ltype fl \<noteq> F_UNLCK \<Longrightarrow> family fl = fam"
    "flags_ok fam f \<or> \<not> posix_used f \<and> \<not> flock_used f \<and>
       (ltype fl \<noteq> F_UNLCK \<or> file_locks f = [] \<and> file_lock_requests f = [])"
  shows "state_ok x (dent_file_locks_gc d (mark_used d fl s))"
proof (rule gc_ok)
  show "rest_ok x d (mark_used d fl s)" using assms(1,2) by (auto simp: mark_used_def rest_ok_def)
  fix g assume g: "dents (mark_used d fl s) d = Some g"
  have fam: "fam = FILE_LOCK_POSIX \<or> fam = FILE_LOCK_FLOCK" using assms(3) by (cases fam) (auto simp: mode_ok_def)
  have same: "file_locks g = file_locks f" "file_lock_requests g = file_lock_requests f"
    using g assms(2) by (auto simp: mark_used_def split: if_splits)
  then have "mode_ok fam g" using assms(3) by (simp add: mode_ok_def)
  moreover have "flags_ok fam g \<or> file_locks g = [] \<and> file_lock_requests g = []"
    using g assms(2,4,5) fam same by (auto simp: mark_used_def flags_ok_def split: if_splits)
  ultimately show "dfl_mode g" by (auto simp: dfl_mode_def)
qed

lemma lock_set_error: "lock_set M fl lk = (ret, ls, k) \<Longrightarrow> ret < 0 \<or> ret = 0"
  by (auto simp: lock_set_def u_posix_lock_set_def u_flock_lock_set_def Let_def split: prod.splits if_splits)

text \<open>What a call does to a file: the specification of \<^verbatim>\<open>file_lock_set_or_add_request\<close> for both families.\<close>

definition same_file :: "'d \<Rightarrow> 'd fs_locks \<Rightarrow> 'd fs_locks \<Rightarrow> bool" where
  "same_file d s s' \<longleftrightarrow> file_table s' d = file_table s d \<and> pending s' d = pending s d \<and> responses s' = responses s"

definition mixed_families :: "libos_file_lock \<Rightarrow> 'd fs_locks \<Rightarrow> 'd \<Rightarrow> bool" where
  "mixed_families fl s d \<longleftrightarrow> ltype fl \<noteq> F_UNLCK \<and> (\<exists>f. dents s d = Some f \<and>
     (family fl = FILE_LOCK_FLOCK \<and> posix_used f \<or> family fl = FILE_LOCK_POSIX \<and> flock_used f))"

definition blocked :: "libos_file_lock \<Rightarrow> 'd fs_locks \<Rightarrow> 'd \<Rightarrow> bool" where
  "blocked fl s d \<longleftrightarrow> ltype fl \<noteq> F_UNLCK \<and> (\<exists>c\<in>set (file_table s d). lock_conflict fl c)"

definition done_now :: "malloc \<Rightarrow> 'd \<Rightarrow> libos_file_lock \<Rightarrow> 'd fs_locks \<Rightarrow> int \<Rightarrow> 'd fs_locks \<Rightarrow> bool" where
  "done_now M d fl s ret s' \<longleftrightarrow>
     ret = 0 \<and> (\<exists>ls. set_result M fl 0 (file_table s d) ls \<and> processed M d ls s s') \<or>
     ret = - ENOMEM \<and> (\<exists>n. \<not> M n) \<and> same_file d s s'"

definition queued :: "'d \<Rightarrow> libos_file_lock \<Rightarrow> 'd fs_locks \<Rightarrow> nat \<Rightarrow> 'd fs_locks \<Rightarrow> bool" where
  "queued d fl s i s' \<longleftrightarrow> file_table s' d = file_table s d \<and> responses s' = responses s \<and>
     pending s' d = \<lparr>req_lock = fl, notify = None, req_id = i\<rparr> # pending s d"

definition set_effect :: "malloc \<Rightarrow> 'd \<Rightarrow> libos_file_lock \<Rightarrow> bool \<Rightarrow> 'd fs_locks \<Rightarrow> int \<Rightarrow> nat option \<Rightarrow> 'd fs_locks \<Rightarrow> bool" where
  "set_effect M d fl wait s ret req s' \<longleftrightarrow>
     (if mixed_families fl s d then ret = - EPERM \<and> req = None \<and> same_file d s s'
      else if blocked fl s d
      then (if \<not> wait then ret = - EAGAIN \<and> req = None \<and> same_file d s s'
            else ret = 0 \<and> (\<exists>i. req = Some i \<and> queued d fl s i s') \<or>
                 ret = - ENOMEM \<and> req = None \<and> (\<exists>n. \<not> M n) \<and> same_file d s s')
      else req = None \<and> done_now M d fl s ret s')"

definition others_same :: "'d \<Rightarrow> 'd fs_locks \<Rightarrow> 'd fs_locks \<Rightarrow> bool" where
  "others_same d s s' \<longleftrightarrow> (\<forall>e. e \<noteq> d \<longrightarrow> dents s' e = dents s e) \<and> events s' = events s"

lemma set_now_ok:
  assumes "work_table x d f s" "lock_ok fl" "mode_ok fam f" "ltype fl \<noteq> F_UNLCK \<Longrightarrow> family fl = fam"
    "flags_ok fam f \<or> ltype fl \<noteq> F_UNLCK \<and> file_locks f = [] \<and> file_lock_requests f = [] \<and> \<not> posix_used f \<and> \<not> flock_used f"
    "ltype fl = F_UNLCK \<or> file_lock_find_conflict (file_locks f) fl = None"
  shows "case set_now M d f fl s of
      None \<Rightarrow> \<not> all_notified (file_lock_requests f)
    | Some (ret, req, s') \<Rightarrow> state_ok x s' \<and> req = None \<and> done_now M d fl s ret s' \<and> others_same d s s'"
proof -
  obtain ret ls k where set: "lock_set M fl (file_locks f, mallocs s) = (ret, ls, k)" by (metis prod_cases3)
  have table: "table_ok fam (file_locks f)" and reqs: "\<forall>req\<in>set (file_lock_requests f). request_ok fam (req_lock req)"
    using assms(3) by (simp_all add: mode_ok_def)
  have wt: "rest_ok x d s" "dents s d = Some f" using assms(1) by (simp_all add: work_table_def)
  have res: "table_ok fam ls" "set_result M fl ret (file_locks f) ls"
    using lock_set_table [OF table assms(2) _ set] assms(4,6) by auto
  let ?g = "f\<lparr>file_locks := ls\<rparr>"
  let ?s = "s\<lparr>mallocs := k, dents := (dents s)(d \<mapsto> ?g)\<rparr>"
  have rest: "rest_ok x d ?s" using wt by (intro rest_ok_update [of x d s ?s ?g]) simp_all
  have s: "dents ?s d = Some ?g" "pending ?s d = pending s d" "responses ?s = responses s" using wt(2) by simp_all
  show ?thesis
  proof (cases "ret < 0")
    case True
    then have nomem: "ret = - ENOMEM" "ls = file_locks f" "\<exists>n. \<not> M n" using res(2) by (auto simp: set_result_def)
    then have "dfl_mode ?g" using assms(1,3) by (auto simp: work_table_def dfl_mode_def dfl_ok_def)
    with rest have "state_ok x (dent_file_locks_gc d ?s)" by (intro gc_ok) auto
    moreover have "done_now M d fl s ret (dent_file_locks_gc d ?s)" using nomem wt(2) by (simp add: done_now_def same_file_def)
    moreover have "others_same d s (dent_file_locks_gc d ?s)" by (simp add: others_same_def gc_other)
    ultimately show ?thesis using set True by (simp add: set_now_def)
  next
    case False
    then have ok: "ret = 0" using res(2) by (auto simp: set_result_def)
    have "table_ok fam (file_locks ?g)" "\<forall>req\<in>set (file_lock_requests ?g). request_ok fam (req_lock req)" using res(1) reqs by simp_all
    note p = process_state [OF s(1) this, of M]
    show ?thesis
    proof (cases "file_lock_process_requests M d ?s")
      case None
      then show ?thesis using p set False by (simp add: set_now_def)
    next
      case (Some s')
      then obtain f' where q: "dents s' = (dents ?s)(d \<mapsto> f')" "dent_file_locks_list s' = dent_file_locks_list ?s"
        "dent_refs s' = dent_refs ?s" "events s' = events ?s" "mode_ok fam f'" "posix_used f' = posix_used ?g"
        "flock_used f' = flock_used ?g" "processed M d ls ?s s'" using p by auto
      let ?t = "dent_file_locks_gc d (mark_used d fl s')"
      have "rest_ok x d s'" using rest q(1,2,3) by (intro rest_ok_update [of x d ?s s' f']) simp_all
      moreover have "flags_ok fam f' \<or> \<not> posix_used f' \<and> \<not> flock_used f' \<and>
          (ltype fl \<noteq> F_UNLCK \<or> file_locks f' = [] \<and> file_lock_requests f' = [])"
        using assms(5) q(6,7) by (auto simp: flags_ok_def)
      ultimately have "state_ok x ?t" using q(1,5) assms(4) by (intro mark_gc_ok) auto
      moreover have "processed M d ls s ?t" using q(8) processed_cong [of s d ?s ?t s' M ls] s(2) by simp
      then have "done_now M d fl s 0 ?t" using res(2) ok wt(2) by (auto simp: done_now_def)
      moreover have "others_same d s ?t" using q(1,4) by (simp add: others_same_def gc_other mark_other)
      ultimately show ?thesis using set False ok Some by (simp add: set_now_def)
    qed
  qed
qed

text \<open>An added request has no \<^verbatim>\<open>notify\<close> yet.\<close>

lemma set_later_ok:
  assumes "work_table x d f s" "lock_ok fl" "mode_ok fam f" "family fl = fam" "ltype fl \<noteq> F_UNLCK"
    "flags_ok fam f" "file_lock_find_conflict (file_locks f) fl \<noteq> None" "set_later M d f fl s = (ret, req, s')"
  shows "state_ok x s' \<and> others_same d s s' \<and>
    (if M (mallocs s) then ret = 0 \<and> req = Some (mallocs s) \<and> queued d fl s (mallocs s) s'
     else ret = - ENOMEM \<and> req = None \<and> same_file d s s')"
proof -
  have wt: "rest_ok x d s" "dents s d = Some f" using assms(1) by (simp_all add: work_table_def)
  have ne: "file_locks f \<noteq> []" using assms(7) by auto
  have dfl: "dfl_ok f" using assms(3,6) ne by (auto simp: dfl_ok_def)
  have fam: "fam = FILE_LOCK_POSIX \<or> fam = FILE_LOCK_FLOCK" using assms(3) by (cases fam) (auto simp: mode_ok_def)
  show ?thesis
  proof (cases "M (mallocs s)")
    case False
    have "state_ok x (s\<lparr>mallocs := mallocs s + 1\<rparr>)" using wt dfl state_ok_rest [of x s d] by simp
    with False assms(8) wt(2) ne show ?thesis
      by (auto simp: set_later_def file_lock_add_request_def dent_file_locks_gc_def same_file_def others_same_def Let_def)
  next
    case True
    let ?f' = "f\<lparr>file_lock_requests := \<lparr>req_lock = fl, notify = None, req_id = mallocs s\<rparr> # file_lock_requests f\<rparr>"
    have flags: "posix_used f \<or> family fl = FILE_LOCK_POSIX \<longleftrightarrow> posix_used f"
      "flock_used f \<or> family fl = FILE_LOCK_FLOCK \<longleftrightarrow> flock_used f" using assms(4,6) fam by (auto simp: flags_ok_def)
    have s': "ret = 0" "req = Some (mallocs s)" "s' = s\<lparr>mallocs := mallocs s + 1, dents := (dents s)(d \<mapsto> ?f')\<rparr>"
      using assms(5,8) True ne flags
      by (auto simp: set_later_def file_lock_add_request_def mark_used_def dent_file_locks_gc_def Let_def)
    have "dfl_ok ?f'" using assms(2-7) ne by (auto simp: dfl_ok_def mode_ok_def flags_ok_def request_ok_def all_blocked_def)
    then have "state_ok x s'" using wt by (auto simp: s'(3) state_ok_rest [of x _ d] rest_ok_def)
    with s' True wt(2) show ?thesis by (simp add: queued_def others_same_def)
  qed
qed

text \<open>Looking up the table of the file does not change what the file holds.\<close>

lemma find_dent_same:
  assumes "state_ok x s" "find_dent_file_locks M d create s = (ret, s')"
  shows "same_file d s s' \<and> others_same d s s' \<and> (ret = 0 \<or> ret = - ENOMEM \<and> (\<exists>n. \<not> M n)) \<and>
    (\<forall>f. dents s' d = Some f \<longrightarrow> (\<forall>fl. mixed_families fl s d \<longleftrightarrow>
       ltype fl \<noteq> F_UNLCK \<and> (family fl = FILE_LOCK_FLOCK \<and> posix_used f \<or> family fl = FILE_LOCK_POSIX \<and> flock_used f)))"
  using assms(2)
  by (auto simp: find_dent_file_locks_def same_file_def others_same_def file_table_def pending_def mixed_families_def Let_def
      split: if_splits)

lemma effect_same:
  "same_file d s s1 \<Longrightarrow> queued d fl s1 i s' = queued d fl s i s'" "same_file d s s1 \<Longrightarrow> same_file d s1 s' = same_file d s s'"
  "same_file d s s1 \<Longrightarrow> done_now M d fl s1 ret s' = done_now M d fl s ret s'"
  "others_same d s s1 \<Longrightarrow> others_same d s1 s' = others_same d s s'"
  by (simp_all add: queued_def same_file_def done_now_def processed_def others_same_def)

lemma find_conflict_Some: "file_lock_find_conflict ls fl \<noteq> None \<longleftrightarrow> (\<exists>c\<in>set ls. lock_conflict fl c)"
  by (simp add: find_conflict_None)

lemma set_or_add_ok:
  assumes ok: "state_ok x s" "lock_ok fl"
  shows "case file_lock_set_or_add_request M d fl wait s of
      None \<Rightarrow> \<not> all_notified (pending s d)
    | Some (ret, req, s') \<Rightarrow> state_ok x s' \<and> set_effect M d fl wait s ret req s' \<and> others_same d s s'"
proof -
  obtain ret s1 where find: "find_dent_file_locks M d (ltype fl \<noteq> F_UNLCK) s = (ret, s1)" by fastforce
  note fc = find_dent_table [OF ok(1) find] and fs = find_dent_same [OF ok(1) find]
  have sm: "same_file d s s1" "others_same d s s1" using fs by simp_all
  note eff = effect_same(1-3) [OF sm(1)] effect_same(4) [OF sm(2)]
  show ?thesis
  proof (cases "dents s1 d")
    case None
    then have "\<not> mixed_families fl s d" "\<not> blocked fl s d"
      using sm(1) find by (auto simp: mixed_families_def blocked_def same_file_def find_dent_file_locks_def Let_def split: if_splits)
    moreover have "done_now M d fl s ret s1"
    proof (cases "ret < 0")
      case True
      then show ?thesis using fs sm(1) by (auto simp: done_now_def)
    next
      case False
      then have r: "ret = 0" "ltype fl = F_UNLCK" using fs fc(2) None by auto
      have e: "file_table s d = []" "pending s d = []" "file_table s1 d = []" "pending s1 d = []" "responses s1 = responses s"
        using sm(1) None by (simp_all add: same_file_def)
      have "set_result M fl 0 [] []" using r(2) by (simp add: set_result_def fun_eq_iff give_bytes_def give_file_def pholds_def bholds_def)
      moreover have "processed M d [] s s1" using e by (auto simp: processed_def served_def intro: exI [of _ "[]"] answered_Nil)
      ultimately show ?thesis using r(1) e(1) by (auto simp: done_now_def)
    qed
    ultimately show ?thesis using find fc(1,2) None sm(2) fs
      by (auto simp: file_lock_set_or_add_request_def set_effect_def)
  next
    case (Some f)
    then have r: "ret = 0" using fs find by (auto simp: find_dent_file_locks_def Let_def split: if_splits)
    note old = fc(4) [OF _ Some]
    have wt: "work_table x d f s1" using fc(3) [OF _ Some] r by simp
    have gc: "state_ok x (dent_file_locks_gc d s1)" "same_file d s (dent_file_locks_gc d s1)" "others_same d s (dent_file_locks_gc d s1)"
      using wt dfl_ok_mode [of f] Some sm
      by (auto intro!: gc_ok simp: work_table_def dfl_mode_def same_file_def others_same_def gc_other)
    have mixed: "mixed_families fl s d \<longleftrightarrow>
        ltype fl \<noteq> F_UNLCK \<and> (family fl = FILE_LOCK_FLOCK \<and> posix_used f \<or> family fl = FILE_LOCK_POSIX \<and> flock_used f)"
      using fs Some by blast
    have conflict: "blocked fl s d \<longleftrightarrow> ltype fl \<noteq> F_UNLCK \<and> file_lock_find_conflict (file_locks f) fl \<noteq> None"
      unfolding find_conflict_Some blocked_def using sm(1) Some by (simp add: same_file_def)
    have run: "file_lock_set_or_add_request M d fl wait s =
        (if mixed_families fl s d then Some (- EPERM, None, dent_file_locks_gc d s1)
         else if blocked fl s d
         then (if \<not> wait then Some (- EAGAIN, None, dent_file_locks_gc d s1) else Some (set_later M d f fl s1))
         else set_now M d f fl s1)"
      using find r Some unfolding mixed conflict by (simp add: file_lock_set_or_add_request_def)
    show ?thesis
    proof (cases "mixed_families fl s d \<or> blocked fl s d \<and> \<not> wait")
      case True
      then show ?thesis using run gc by (auto simp: set_effect_def)
    next
      case nm: False
      then have "\<not> (ltype fl \<noteq> F_UNLCK \<and> (family fl = FILE_LOCK_FLOCK \<and> posix_used f \<or> family fl = FILE_LOCK_POSIX \<and> flock_used f))"
        using mixed by blast
      from work_mode [OF wt ok(2) this] obtain fam where
        m: "mode_ok fam f" "ltype fl \<noteq> F_UNLCK \<Longrightarrow> family fl = fam"
          "flags_ok fam f \<or> file_locks f = [] \<and> file_lock_requests f = [] \<and> \<not> posix_used f \<and> \<not> flock_used f" by blast
      show ?thesis
      proof (cases "blocked fl s d")
        case True
        then have c: "ltype fl \<noteq> F_UNLCK" "file_lock_find_conflict (file_locks f) fl \<noteq> None" using conflict by simp_all
        then have "flags_ok fam f" using m(3) by auto
        obtain r q s' where l: "set_later M d f fl s1 = (r, q, s')" by (metis prod_cases3)
        note later = set_later_ok [OF wt ok(2) m(1,2) c(1) \<open>flags_ok fam f\<close> c(2) l]
        then have "state_ok x s' \<and> set_effect M d fl wait s r q s' \<and> others_same d s s'"
          using True nm c(1) by (auto simp: set_effect_def eff split: if_splits)
        then show ?thesis using run True nm l by simp
      next
        case False
        have "flags_ok fam f \<or> ltype fl \<noteq> F_UNLCK \<and> file_locks f = [] \<and> file_lock_requests f = [] \<and>
            \<not> posix_used f \<and> \<not> flock_used f" using m(3) old r by (auto simp: dfl_ok_def)
        note now = set_now_ok [OF wt ok(2) m(1,2) this, of M]
        have "pending s d = file_lock_requests f" using sm(1) Some by (simp add: same_file_def)
        then show ?thesis using now run False nm conflict
          by (auto simp: set_effect_def eff split: option.splits prod.splits)
      qed
    qed
  qed
qed

section \<open>The operations keep the invariant\<close>

text \<open>Writing and losing the \<^verbatim>\<open>notify\<close> fields of requests.\<close>

lemma dfl_ok_map:
  assumes "\<And>req. req_lock (g req) = req_lock req"
  shows "dfl_ok (f\<lparr>file_lock_requests := map g (file_lock_requests f)\<rparr>) = dfl_ok f"
  using assms by (simp add: dfl_ok_def mode_ok_def flags_ok_def all_blocked_def)

lemma state_ok_map:
  assumes "\<And>req. req_lock (g req) = req_lock req" "dents s d = Some f"
  shows "state_ok x (s\<lparr>dents := (dents s)(d \<mapsto> f\<lparr>file_lock_requests := map g (file_lock_requests f)\<rparr>)\<rparr>) = state_ok x s"
proof -
  let ?s = "s\<lparr>dents := (dents s)(d \<mapsto> f\<lparr>file_lock_requests := map g (file_lock_requests f)\<rparr>)\<rparr>"
  have "rest_ok x d ?s" if "rest_ok x d s" by (rule rest_ok_update [OF that]) (use assms(2) in simp_all)
  moreover have "rest_ok x d s" if "rest_ok x d ?s" by (rule rest_ok_update [OF that, where f = f]) (use assms(2) in \<open>auto simp: fun_eq_iff\<close>)
  ultimately have "rest_ok x d ?s = rest_ok x d s" by blast
  then show ?thesis using assms dfl_ok_map [of g f] state_ok_rest [of x ?s d] state_ok_rest [of x s d] by simp
qed

lemma state_ok_notify [simp]:
  "state_ok x (set_notify n d i s) = state_ok x s" "state_ok x (forget_event d e s) = state_ok x s"
  by (simp_all add: set_notify_def forget_event_def state_ok_map split: option.split)

lemma set_notify_frame [simp]:
  "file_table (set_notify n d i s) e = file_table s e" "responses (set_notify n d i s) = responses s"
  "events (set_notify n d i s) = events s" "dent_refs (set_notify n d i s) = dent_refs s"
  "file_table (forget_event d k s) e = file_table s e" "responses (forget_event d k s) = responses s"
  by (auto simp: set_notify_def forget_event_def file_table_def split: option.splits)

lemma pending_notify:
  "pending (set_notify n d i s) e =
     (if e = d then map (\<lambda>req. if req_id req = i then req\<lparr>notify := Some n\<rparr> else req) (pending s e) else pending s e)"
  by (auto simp: set_notify_def pending_def split: option.splits)

lemma pending_frame [simp]:
  "pending (s\<lparr>events := k\<rparr>) = pending s" "pending (s\<lparr>responses := r\<rparr>) = pending s" "pending (s\<lparr>dent_refs := q\<rparr>) = pending s"
  "pending (s\<lparr>maybe_has_file_locks := b\<rparr>) = pending s" "file_table (s\<lparr>events := k\<rparr>) = file_table s"
  "file_table (s\<lparr>responses := r\<rparr>) = file_table s" "file_table (s\<lparr>dent_refs := q\<rparr>) = file_table s"
  "file_table (s\<lparr>maybe_has_file_locks := b\<rparr>) = file_table s"
  by (simp_all add: pending_def file_table_def fun_eq_iff)

text \<open>A request that lacks its waiter after a call lacked it before, or is the one the call has added.\<close>

lemma effect_pending:
  assumes "set_effect M d fl wait s ret req s'" "others_same d s s'" "r \<in> set (pending s' e)"
  shows "r \<in> set (pending s e) \<or> e = d \<and> ret = 0 \<and> (\<exists>i. req = Some i \<and> r = \<lparr>req_lock = fl, notify = None, req_id = i\<rparr>)"
proof (cases "e = d")
  case False
  then show ?thesis using assms(2,3) by (simp add: others_same_def pending_def)
next
  case True
  show ?thesis
  proof (cases "done_now M d fl s ret s'")
    case True
    then have "r \<in> set (pending s d)"
      using assms(3) \<open>e = d\<close> served_subset by (auto simp: done_now_def processed_def same_file_def)
    then show ?thesis using \<open>e = d\<close> by simp
  next
    case False
    then show ?thesis using assms(1,3) \<open>e = d\<close>
      by (auto simp: set_effect_def queued_def same_file_def split: if_splits)
  qed
qed

lemma effect_request:
  assumes "set_effect M d fl wait s ret req s'"
  shows "(ret < 0 \<longrightarrow> req = None) \<and> (ret < 0 \<or> ret = 0) \<and>
    (\<forall>i. req = Some i \<longrightarrow> wait \<and> ret = 0 \<and> queued d fl s i s')"
  using assms by (auto simp: set_effect_def done_now_def split: if_splits)

lemma file_lock_set_run:
  assumes "state_ok x s" "lock_ok fl" "leader_vmid E = 0"
  shows "case file_lock_set E M d fl wait s of
      None \<Rightarrow> \<not> all_notified (pending s d)
    | Some (r, s') \<Rightarrow> \<exists>ret req s1. state_ok x s1 \<and> set_effect M d fl wait s ret req s1 \<and> others_same d s s1 \<and>
        (case req of
           None \<Rightarrow> r = Returns ret \<and> s' = s1
         | Some i \<Rightarrow> (if event_create E (events s) < 0
                      then r = Returns (event_create E (events s)) \<and> s' = s1\<lparr>events := events s + 1\<rparr>
                      else r = Waits (events s) \<and> s' = set_notify (Event (events s)) d i (s1\<lparr>events := events s + 1\<rparr>)))"
proof (cases "file_lock_set_or_add_request M d fl wait s")
  case None
  then show ?thesis using set_or_add_ok [OF assms(1,2), where M = M and d = d and wait = wait] assms(2,3)
    by (simp add: file_lock_set_def lock_ok_def)
next
  case (Some out)
  then obtain ret req s1 where run: "file_lock_set_or_add_request M d fl wait s = Some (ret, req, s1)" by (cases out) auto
  then have ok: "state_ok x s1" "set_effect M d fl wait s ret req s1" "others_same d s s1"
    using set_or_add_ok [OF assms(1,2), where M = M and d = d and wait = wait] by simp_all
  note req = effect_request [OF ok(2)]
  have "events s1 = events s" using ok(3) by (simp add: others_same_def)
  then show ?thesis using run ok req assms(2,3)
    by (cases req) (auto simp: file_lock_set_def lock_ok_def Let_def intro!: exI [of _ ret] exI [of _ req] exI [of _ s1])
qed

lemma file_lock_set_forward:
  assumes "lock_ok fl" "leader_vmid E \<noteq> 0"
  shows "\<exists>ret m. file_lock_set E M d fl wait s = Some (Returns ret, s\<lparr>maybe_has_file_locks := m\<rparr>)"
proof -
  have "snd (file_lock_set_ipc E d fl wait s) = s\<lparr>maybe_has_file_locks :=
      if ltype fl = F_RDLCK \<or> ltype fl = F_WRLCK then (maybe_has_file_locks s)(d := True) else maybe_has_file_locks s\<rparr>"
    by (auto simp: file_lock_set_ipc_def Let_def split: sum.split)
  moreover have "file_lock_set E M d fl wait s =
      Some (Returns (fst (file_lock_set_ipc E d fl wait s)), snd (file_lock_set_ipc E d fl wait s))"
    using assms by (simp add: file_lock_set_def lock_ok_def apfst_def map_prod_def split_beta)
  ultimately show ?thesis by metis
qed

lemma file_lock_set_ok:
  assumes "state_ok x s" "lock_ok fl"
  shows "case file_lock_set E M d fl wait s of
      None \<Rightarrow> leader_vmid E = 0 \<and> \<not> all_notified (pending s d)
    | Some (r, s') \<Rightarrow> state_ok x s'"
proof (cases "leader_vmid E = 0")
  case True
  then show ?thesis using file_lock_set_run [OF assms True, where M = M and d = d and wait = wait]
    by (auto split: option.splits prod.splits if_splits)
next
  case False
  then show ?thesis using file_lock_set_forward [OF assms(2) False, of M d wait s] assms(1) by auto
qed

lemma file_lock_set_pending:
  assumes "state_ok x s" "lock_ok fl" "file_lock_set E M d fl wait s = Some (r, s')" "req \<in> set (pending s' e)"
    "notify req = None"
  shows "req \<in> set (pending s e) \<or> (\<exists>n. event_create E n < 0)"
proof (cases "leader_vmid E = 0")
  case False
  then obtain m where "s' = s\<lparr>maybe_has_file_locks := m\<rparr>" using file_lock_set_forward [OF assms(2) False, of M d wait s] assms(3) by auto
  then show ?thesis using assms(4) by simp
next
  case True
  obtain ret q s1 where s1: "set_effect M d fl wait s ret q s1" "others_same d s s1"
    "case q of None \<Rightarrow> r = Returns ret \<and> s' = s1
     | Some i \<Rightarrow> (if event_create E (events s) < 0 then r = Returns (event_create E (events s)) \<and> s' = s1\<lparr>events := events s + 1\<rparr>
                  else r = Waits (events s) \<and> s' = set_notify (Event (events s)) d i (s1\<lparr>events := events s + 1\<rparr>))"
    using file_lock_set_run [OF assms(1,2) True, where M = M and d = d and wait = wait] assms(3) by auto
  show ?thesis
  proof (cases q)
    case None
    then show ?thesis using effect_pending [OF s1(1,2), of req e] s1(3) assms(4) by auto
  next
    case (Some i)
    have "req \<in> set (pending s1 e) \<and> (e = d \<longrightarrow> req_id req \<noteq> i)" if "0 \<le> event_create E (events s)"
      using that s1(3) Some assms(4,5) by (auto simp: pending_notify split: if_splits)
    then show ?thesis using effect_pending [OF s1(1,2), of req e] Some by (cases "event_create E (events s) < 0") auto
  qed
qed

text \<open>A reference to the file held during a call.\<close>

lemma state_ok_hold:
  "state_ok x s \<Longrightarrow> state_ok (x(d := x d + 1)) (s\<lparr>dent_refs := (dent_refs s)(d := dent_refs s d + 1)\<rparr>)"
  "state_ok (x(d := x d + 1)) s \<Longrightarrow> state_ok x (s\<lparr>dent_refs := (dent_refs s)(d := dent_refs s d - 1)\<rparr>)"
  by (simp_all add: state_ok_def)

text \<open>The first half of the IPC handler.\<close>

lemma set_from_ipc_locked_ok:
  assumes "state_ok x s" "lock_ok fl" "leader_vmid E = 0"
  shows "case set_from_ipc_locked E M path fl wait s of
      None \<Rightarrow> \<exists>d. path_lookupat E path = Inr d \<and> \<not> all_notified (pending s d)
    | Some (Inl err, ret, req, s') \<Rightarrow> path_lookupat E path = Inl err \<and> ret = err \<and> req = None \<and> s' = s
    | Some (Inr d, ret, req, s') \<Rightarrow> path_lookupat E path = Inr d \<and> state_ok (x(d := x d + 1)) s' \<and>
        set_effect M d fl wait s ret req s' \<and> others_same d s s'"
proof (cases "path_lookupat E path")
  case (Inl err)
  then show ?thesis using assms by (simp add: set_from_ipc_locked_def lock_ok_def)
next
  case (Inr d)
  let ?s = "s\<lparr>dent_refs := (dent_refs s)(d := dent_refs s d + 1)\<rparr>"
  note run = set_or_add_ok [OF state_ok_hold(1) [OF assms(1), of d] assms(2), where M = M and d = d and wait = wait]
  have same: "set_effect M d fl wait ?s ret req s' = set_effect M d fl wait s ret req s'" "others_same d ?s s' = others_same d s s'"
    for ret req s'
  proof -
    have "mixed_families fl ?s d = mixed_families fl s d" "blocked fl ?s d = blocked fl s d" "same_file d ?s s' = same_file d s s'"
      "done_now M d fl ?s ret s' = done_now M d fl s ret s'" "queued d fl ?s i s' = queued d fl s i s'" for i
      by (simp_all add: mixed_families_def blocked_def same_file_def done_now_def processed_def queued_def)
    then show "set_effect M d fl wait ?s ret req s' = set_effect M d fl wait s ret req s'" by (simp only: set_effect_def)
    show "others_same d ?s s' = others_same d s s'" by (simp add: others_same_def)
  qed
  show ?thesis using run Inr assms(2,3) unfolding same
    by (auto simp: set_from_ipc_locked_def lock_ok_def split: option.splits)
qed

end
