(* ===== verification/File_Lock_Spec.thy ===== *)
theory File_Lock_Spec
  imports File_Lock_Ops
begin

text \<open>
  What the file-lock operations promise: queries, the clearing of a process, the invariant of all operations
  interleaved, the result of setting a lock, the processing of requests, and the paths that leave a request
  without its waiter.
\<close>

section \<open>Queries\<close>

lemma file_lock_get_result:
  assumes "state_ok x s" "assert_owner fl" "ltype fl \<noteq> F_UNLCK" "leader_vmid E = 0"
  shows "file_lock_get E M d fl out s =
    Some (0, case dents s d of None \<Rightarrow> out\<lparr>ltype := F_UNLCK\<rparr>
             | Some f \<Rightarrow> (case file_lock_find_conflict (file_locks f) fl of
                 None \<Rightarrow> out\<lparr>ltype := F_UNLCK\<rparr> | Some conflict \<Rightarrow> conflict), s)"
proof (cases "dents s d")
  case None
  with assms show ?thesis by (simp add: file_lock_get_def find_dent_file_locks_def)
next
  case (Some f)
  then have "file_locks f \<noteq> []" using assms(1) by (auto simp: state_ok_def dfl_ok_def)
  with Some assms show ?thesis by (simp add: file_lock_get_def find_dent_file_locks_def dent_file_locks_gc_def)
qed

lemma file_lock_get_same:
  assumes "state_ok x s" "file_lock_get E M d fl out s = Some (ret, out', s')"
  shows "s' = s"
proof (cases "leader_vmid E = 0")
  case True
  then have "assert_owner fl" "ltype fl \<noteq> F_UNLCK" using assms(2) by (auto simp: file_lock_get_def split: if_splits)
  then show ?thesis using file_lock_get_result [OF assms(1) _ _ True, of fl M d out] assms(2) by simp
next
  case False
  then show ?thesis using assms(2) by (auto simp: file_lock_get_def split: if_splits sum.splits prod.splits)
qed

lemma file_lock_get_from_ipc_same:
  assumes "state_ok x s" "file_lock_get_from_ipc E M path fl out s = Some (ret, out', s')"
  shows "s' = s"
proof (cases "path_lookupat E path")
  case (Inl err)
  then show ?thesis using assms(2) by (auto simp: file_lock_get_from_ipc_def split: if_splits)
next
  case (Inr d)
  let ?s = "s\<lparr>dent_refs := (dent_refs s)(d := dent_refs s d + 1)\<rparr>"
  obtain t where t: "file_lock_get E M d fl out ?s = Some (ret, out', t)" "s' = t\<lparr>dent_refs := (dent_refs t)(d := dent_refs t d - 1)\<rparr>"
    using Inr assms(2) by (auto simp: file_lock_get_from_ipc_def split: if_splits)
  have "t = ?s" by (rule file_lock_get_same [OF state_ok_hold(1) [OF assms(1), of d] t(1)])
  then show ?thesis using t(2) by simp
qed

section \<open>Clearing a process\<close>

text \<open>
  The queue lemmas once more, for a table without locks of one process and requests of others: after
  clearing, processing the other requests brings none back.
\<close>

definition without_pid :: "nat \<Rightarrow> lock_family \<Rightarrow> libos_file_lock list \<Rightarrow> bool" where
  "without_pid pid fam ls \<longleftrightarrow> table_ok fam ls \<and> (\<forall>l\<in>set ls. \<not> of_pid pid l)"

definition other_request :: "nat \<Rightarrow> lock_family \<Rightarrow> libos_file_lock \<Rightarrow> bool" where
  "other_request pid fam fl \<longleftrightarrow> request_ok fam fl \<and> \<not> of_pid pid fl"

lemma posix_without:
  assumes "posix_ok ls"
  shows "(\<forall>l\<in>set ls. \<not> of_pid pid l) \<longleftrightarrow> (\<forall>b t. \<not> holds ls pid b t)"
proof
  show "\<forall>l\<in>set ls. \<not> of_pid pid l \<Longrightarrow> \<forall>b t. \<not> holds ls pid b t"
    using assms by (auto simp: holds_def covers_def of_pid_def posix_ok_def list_all_iff posix_lock_def)
next
  assume none: "\<forall>b t. \<not> holds ls pid b t"
  show "\<forall>l\<in>set ls. \<not> of_pid pid l"
  proof
    fix l assume l: "l \<in> set ls"
    then have "l_start l \<le> l_end l" using assms by (auto simp: posix_ok_def list_all_iff posix_lock_def range_ok_def)
    then have "covers l (l_pid l) (l_start l) (ltype l)" by (simp add: covers_def)
    with l none show "\<not> of_pid pid l" by (auto simp: holds_def of_pid_def)
  qed
qed

lemma without_grant:
  assumes "without_pid pid fam ls" "other_request pid fam fl" "file_lock_find_conflict ls fl = None"
    "lock_set M fl (ls, k) = (ret, ls', k')"
  shows "without_pid pid fam ls' \<and> set_result M fl ret ls ls'"
proof -
  have ok: "table_ok fam ls" "lock_ok fl" "family fl = fam" "\<not> of_pid pid fl"
    using assms(1,2) by (auto simp: without_pid_def other_request_def request_ok_def)
  have r: "table_ok fam ls'" "set_result M fl ret ls ls'" using lock_set_table [OF ok(1,2) _ assms(4)] ok(3) assms(3) by simp_all
  have "\<forall>l\<in>set ls'. \<not> of_pid pid l"
  proof (cases fam)
    case FILE_LOCK_POSIX
    then have p: "posix_ok ls" "posix_ok ls'" using ok(1) r(1) by simp_all
    have "l_pid fl \<noteq> pid" using ok(3,4) FILE_LOCK_POSIX by (simp add: of_pid_def)
    then have "pholds ls' pid b t \<Longrightarrow> pholds ls pid b t" for b t
      using r(2) by (auto simp: set_result_def give_bytes_def in_range_def split: if_splits)
    with p assms(1) posix_holds [OF p(1)] posix_holds [OF p(2)] show ?thesis
      by (auto simp: posix_without [of _ pid] without_pid_def)
  next
    case FILE_LOCK_FLOCK
    then show ?thesis using r(1) by (auto simp: flock_ok_def list_all_iff flock_lock_def of_pid_def)
  qed (use ok(1) in simp)
  with r show ?thesis by (simp add: without_pid_def)
qed

interpretation cleared: lock_mode "without_pid pid fam" "other_request pid fam" for pid fam
  by unfold_locales (rule without_grant)

lemma table_ok_filter: "table_ok fam ls \<Longrightarrow> table_ok fam (filter P ls)"
  by (cases fam) (auto simp: posix_ok_def sorted_wrt_filter list_all_iff no_conflicts_def flock_ok_filter)

definition pid_gone :: "nat \<Rightarrow> dent_file_locks \<Rightarrow> bool" where
  "pid_gone pid f \<longleftrightarrow> (\<forall>l\<in>set (file_locks f). \<not> of_pid pid l) \<and>
     (\<forall>req\<in>set (file_lock_requests f). \<not> of_pid pid (req_lock req))"

text \<open>Clearing fails on a request of the process that waits in this process, and on one without a waiter.\<close>

definition unclearable :: "nat \<Rightarrow> file_lock_request \<Rightarrow> bool" where
  "unclearable pid req \<longleftrightarrow> notify req = None \<or> of_pid pid (req_lock req) \<and> \<not> remote (notify req)"

lemma process_cleared:
  assumes "dents s d = Some f" "without_pid pid fam (file_locks f)"
    "\<forall>req\<in>set (file_lock_requests f). other_request pid fam (req_lock req)"
  shows "case file_lock_process_requests M d s of
      None \<Rightarrow> \<not> all_notified (file_lock_requests f)
    | Some s' \<Rightarrow> \<exists>f'. dents s' = (dents s)(d \<mapsto> f') \<and>
        dent_file_locks_list s' = dent_file_locks_list s \<and> dent_refs s' = dent_refs s \<and>
        mode_ok fam f' \<and> posix_used f' = posix_used f \<and> flock_used f' = flock_used f \<and>
        pid_gone pid f' \<and> set (file_lock_requests f') \<subseteq> set (file_lock_requests f)"
proof -
  let ?w = "\<lparr>w_locks = file_locks f, w_mallocs = mallocs s, w_responses = responses s\<rparr>"
  have "without_pid pid fam (w_locks ?w)" using assms(2) by simp
  note p = cleared.process_complete [OF this assms(3), of M]
  show ?thesis
  proof (cases "process_requests M (file_lock_requests f) ?w")
    case None
    then show ?thesis using p assms(1) by (simp add: file_lock_process_requests_def)
  next
    case (Some r)
    then obtain reqs' w' where r: "process_requests M (file_lock_requests f) ?w = Some (reqs', w')" by (cases r) simp
    then have q: "without_pid pid fam (w_locks w')" "worked M (file_lock_requests f) ?w reqs' w'" "all_blocked (w_locks w') reqs'"
      using p by simp_all
    let ?f' = "f\<lparr>file_locks := w_locks w', file_lock_requests := reqs'\<rparr>"
    have sub: "set reqs' \<subseteq> set (file_lock_requests f)" using worked_set [OF q(2)] .
    have "mode_ok fam ?f'" "pid_gone pid ?f'"
      using q(1,3) sub assms(3) by (auto simp: mode_ok_def pid_gone_def without_pid_def other_request_def)
    then show ?thesis using r sub assms(1) by (simp add: file_lock_process_requests_def) (rule exI [of _ ?f'], simp)
  qed
qed

lemma gc_same: "dents (dent_file_locks_gc d s) d = Some f \<Longrightarrow> dents s d = Some f"
  by (auto simp: dent_file_locks_gc_def split: option.splits if_splits)

definition clear_done :: "(('d \<Rightarrow> nat)) \<Rightarrow> nat \<Rightarrow> 'd set \<Rightarrow> 'd fs_locks \<Rightarrow> 'd fs_locks \<Rightarrow> bool" where
  "clear_done x pid D s s' \<longleftrightarrow> state_ok x s' \<and> (\<forall>e. e \<notin> D \<longrightarrow> dents s' e = dents s e) \<and>
     (\<forall>d. set (pending s' d) \<subseteq> set (pending s d)) \<and> (\<forall>d\<in>D. \<forall>f. dents s' d = Some f \<longrightarrow> pid_gone pid f)"

lemma clear_dentry_ok:
  assumes ok: "state_ok x s"
  shows "case file_lock_clear_pid_from_dentry M d pid s of
      None \<Rightarrow> \<exists>req\<in>set (pending s d). unclearable pid req
    | Some s' \<Rightarrow> clear_done x pid {d} s s'"
proof (cases "dents s d")
  case None
  with ok show ?thesis by (simp add: file_lock_clear_pid_from_dentry_def clear_done_def)
next
  case (Some f)
  have f: "dfl_ok f" "rest_ok x d s" using ok Some state_ok_rest [of x s d] by auto
  then obtain fam where m: "flags_ok fam f" "mode_ok fam f" by (auto simp: dfl_ok_def)
  define g where "g = f\<lparr>file_locks := filter (\<lambda>l. \<not> of_pid pid l) (file_locks f),
    file_lock_requests := filter (\<lambda>req. \<not> of_pid pid (req_lock req)) (file_lock_requests f)\<rparr>"
  let ?s = "s\<lparr>dents := (dents s)(d \<mapsto> g)\<rparr>"
  have rest: "rest_ok x d ?s" using f(2) Some by (intro rest_ok_update [of x d s ?s g]) simp_all
  have g: "without_pid pid fam (file_locks g)" "\<forall>req\<in>set (file_lock_requests g). other_request pid fam (req_lock req)"
    "pid_gone pid g" "set (file_lock_requests g) \<subseteq> set (pending s d)"
    using m(2) table_ok_filter Some by (auto simp: g_def without_pid_def mode_ok_def other_request_def pid_gone_def)
  have other: "pending ?s e = pending s e" if "e \<noteq> d" for e using that by (simp add: pending_def)
  let ?bad = "list_ex (\<lambda>req. of_pid pid (req_lock req) \<and> \<not> remote (notify req)) (file_lock_requests f)"
  have run: "file_lock_clear_pid_from_dentry M d pid s =
      (if ?bad then None else if list_ex (of_pid pid) (file_locks f)
       then map_option (dent_file_locks_gc d) (file_lock_process_requests M d ?s) else Some ?s)"
    using Some by (simp add: file_lock_clear_pid_from_dentry_def g_def Let_def)
  show ?thesis
  proof (cases ?bad)
    case True
    then show ?thesis using run Some by (auto simp: list_ex_iff unclearable_def)
  next
    case nb: False
    show ?thesis
    proof (cases "list_ex (of_pid pid) (file_locks f)")
      case False
      then have "file_locks g = file_locks f" by (auto simp: g_def list_ex_iff filter_id_conv)
      then have "dfl_ok g" using f(1) m by (auto simp: dfl_ok_def mode_ok_def flags_ok_def all_blocked_def g_def)
      then have "state_ok x ?s" using rest state_ok_rest [of x ?s d] by simp
      moreover have "set (pending ?s e) \<subseteq> set (pending s e)" for e using g(4) other [of e] by (cases "e = d") simp_all
      ultimately have "clear_done x pid {d} s ?s" using g(3) by (simp add: clear_done_def)
      then show ?thesis using run nb False by simp
    next
      case True
      have gd: "dents ?s d = Some g" by simp
      note p = process_cleared [OF gd g(1,2), of M]
      show ?thesis
      proof (cases "file_lock_process_requests M d ?s")
        case None
        then have "\<not> all_notified (file_lock_requests g)" using p by simp
        then have "\<exists>req\<in>set (pending s d). unclearable pid req" using g(4) by (auto simp: all_notified_def unclearable_def)
        then show ?thesis using run nb True None by simp
      next
        case (Some s')
        then obtain f' where q: "dents s' = (dents ?s)(d \<mapsto> f')" "dent_file_locks_list s' = dent_file_locks_list ?s"
          "dent_refs s' = dent_refs ?s" "mode_ok fam f'" "posix_used f' = posix_used g" "flock_used f' = flock_used g"
          "pid_gone pid f'" "set (file_lock_requests f') \<subseteq> set (file_lock_requests g)" using p by auto
        have "rest_ok x d s'" using rest q(1,2,3) by (intro rest_ok_update [of x d ?s s' f']) simp_all
        moreover have "dfl_mode f'" using m(1) q(4,5,6) by (auto simp: dfl_mode_def flags_ok_def g_def)
        ultimately have "state_ok x (dent_file_locks_gc d s')" using q(1) by (intro gc_ok) auto
        moreover have "dents (dent_file_locks_gc d s') e = dents s e" if "e \<noteq> d" for e using that q(1) gc_other [OF that, of s'] by simp
        moreover have "pid_gone pid h" if "dents (dent_file_locks_gc d s') d = Some h" for h using gc_same [OF that] q(1,7) by simp
        moreover have "set (pending (dent_file_locks_gc d s') e) \<subseteq> set (pending s e)" for e
        proof (cases "e = d")
          case True
          then show ?thesis using q(1,8) g(4) by simp
        next
          case False
          then show ?thesis using q(1) by (simp add: pending_def gc_other)
        qed
        ultimately have "clear_done x pid {d} s (dent_file_locks_gc d s')" by (simp add: clear_done_def)
        then show ?thesis using run nb True Some by simp
      qed
    qed
  qed
qed

lemma clear_dentries_ok:
  "state_ok x s \<Longrightarrow> distinct ds \<Longrightarrow>
     (case clear_dentries M pid ds s of
        None \<Rightarrow> \<exists>d. \<exists>req\<in>set (pending s d). unclearable pid req
      | Some s' \<Rightarrow> clear_done x pid (set ds) s s')"
proof (induction ds arbitrary: s)
  case Nil
  then show ?case by (simp add: clear_done_def)
next
  case (Cons d ds)
  note head = clear_dentry_ok [OF Cons.prems(1), where M = M and d = d and pid = pid]
  show ?case
  proof (cases "file_lock_clear_pid_from_dentry M d pid s")
    case None
    then show ?thesis using head by auto
  next
    case (Some s1)
    then have s1: "clear_done x pid {d} s s1" using head by simp
    then have "state_ok x s1" "\<And>e. set (pending s1 e) \<subseteq> set (pending s e)" by (simp_all add: clear_done_def)
    moreover have "clear_done x pid (set (d # ds)) s s2" if "clear_done x pid (set ds) s1 s2" for s2
    proof -
      have "d \<notin> set ds" using Cons.prems(2) by simp
      moreover have "set (pending s2 e) \<subseteq> set (pending s e)" for e
        using s1 that unfolding clear_done_def by (meson subset_trans)
      ultimately show ?thesis using s1 that unfolding clear_done_def by auto
    qed
    ultimately show ?thesis using Cons.IH [of s1] Cons.prems(2) Some by (fastforce split: option.splits)
  qed
qed

lemma file_lock_clear_pid_ok:
  assumes "state_ok x s"
  shows "case file_lock_clear_pid E M pid s of
      None \<Rightarrow> \<exists>d. \<exists>req\<in>set (pending s d). unclearable pid req
    | Some (ret, s') \<Rightarrow> state_ok x s' \<and> (\<forall>d. set (pending s' d) \<subseteq> set (pending s d)) \<and>
        (leader_vmid E = 0 \<longrightarrow> ret = 0 \<and> (\<forall>d f. dents s' d = Some f \<longrightarrow> pid_gone pid f))"
proof (cases "leader_vmid E = 0")
  case False
  then show ?thesis using assms by (simp add: file_lock_clear_pid_def)
next
  case True
  have list: "distinct (dent_file_locks_list s)" "set (dent_file_locks_list s) = dom (dents s)"
    using assms by (simp_all add: state_ok_def)
  have "pid_gone pid f" if "clear_done x pid (dom (dents s)) s s'" "dents s' d = Some f" for s' d f
  proof (cases "d \<in> dom (dents s)")
    case True
    with that show ?thesis unfolding clear_done_def by blast
  next
    case False
    then have "dents s' d = dents s d" using that(1) by (simp add: clear_done_def)
    with False that(2) show ?thesis by (simp add: domIff)
  qed
  then show ?thesis using clear_dentries_ok [OF assms list(1), where M = M and pid = pid] True list(2)
    by (auto simp: file_lock_clear_pid_def clear_done_def split: option.splits)
qed

section \<open>The operations interleaved\<close>

text \<open>
  The subsystem with everything that may happen to it, in any order: calls of this process and their returns from a
  wait, the two halves of handlers of IPC requests, queries, and the clearing of processes. \<open>handlers\<close> are the
  handlers between their halves, each with the file it looked up, the result so far and the request it added. \<open>E\<close>
  says whether this process is the leader and whether events can be created, \<open>M\<close> which allocations succeed and \<open>W\<close>
  how the waits end; nothing is assumed of them.
\<close>

record 'd ipc_handler =
  ih_dent :: "int + 'd"
  ih_ret :: int
  ih_req :: "nat option"

record 'd lock_system =
  fs :: "'d fs_locks"
  handlers :: "'d ipc_handler list"

inductive lock_step :: "'d lock_env \<Rightarrow> malloc \<Rightarrow> (nat \<Rightarrow> int) \<Rightarrow> 'd lock_system \<Rightarrow> 'd lock_system \<Rightarrow> bool" for E M W where
  step_set: "lock_step E M W s (s\<lparr>fs := l\<rparr>)"
    if "lock_ok fl" "file_lock_set E M d fl wait (fs s) = Some (r, l)"
| step_woken: "lock_step E M W s (s\<lparr>fs := l\<rparr>)"
    if "file_lock_set_woken d e (W e) (fs s) = Some (r, l)"
| step_ipc: "lock_step E M W s (s\<lparr>fs := l, handlers := \<lparr>ih_dent = dent, ih_ret = ret, ih_req = req\<rparr> # handlers s\<rparr>)"
    if "lock_ok fl" "set_from_ipc_locked E M path fl wait (fs s) = Some (dent, ret, req, l)"
| step_answer: "lock_step E M W s (s\<lparr>fs := set_from_ipc_answer vmid seq (ih_dent h, ih_ret h, ih_req h, fs s),
      handlers := remove1 h (handlers s)\<rparr>)"
    if "h \<in> set (handlers s)"
| step_get: "lock_step E M W s (s\<lparr>fs := l\<rparr>)"
    if "file_lock_get E M d fl out (fs s) = Some (r, res, l)"
| step_get_ipc: "lock_step E M W s (s\<lparr>fs := l\<rparr>)"
    if "file_lock_get_from_ipc E M path fl out (fs s) = Some (r, res, l)"
| step_clear: "lock_step E M W s (s\<lparr>fs := l\<rparr>)"
    if "file_lock_clear_pid E M pid (fs s) = Some (r, l)"

text \<open>
  The invariant. Handlers between their halves hold one reference each to the file they looked up. As long as events
  can be created and waited for, a request lacks its waiter only while the handler that added it is between its
  halves.
\<close>

definition in_flight :: "'d ipc_handler list \<Rightarrow> 'd \<Rightarrow> nat" where
  "in_flight hs d = length (filter (\<lambda>h. ih_dent h = Inr d) hs)"

definition waiters_known :: "'d lock_system \<Rightarrow> bool" where
  "waiters_known s \<longleftrightarrow> (\<forall>d. \<forall>req\<in>set (pending (fs s) d). notify req = None \<longrightarrow>
     (\<exists>h\<in>set (handlers s). ih_dent h = Inr d \<and> ih_req h = Some (req_id req)))"

definition events_work :: "'d lock_env \<Rightarrow> (nat \<Rightarrow> int) \<Rightarrow> bool" where
  "events_work E W \<longleftrightarrow> (\<forall>n. 0 \<le> event_create E n) \<and> (\<forall>e. 0 \<le> W e)"

definition system_ok :: "'d lock_env \<Rightarrow> (nat \<Rightarrow> int) \<Rightarrow> ('d \<Rightarrow> nat) \<Rightarrow> 'd lock_system \<Rightarrow> bool" where
  "system_ok E W x s \<longleftrightarrow> state_ok (\<lambda>d. x d + in_flight (handlers s) d) (fs s) \<and>
     (\<forall>h\<in>set (handlers s). ih_req h \<noteq> None \<longrightarrow> 0 \<le> ih_ret h) \<and> (events_work E W \<longrightarrow> waiters_known s)"

lemma system_okD:
  assumes "system_ok E W x s"
  shows "state_ok (\<lambda>d. x d + in_flight (handlers s) d) (fs s)" "h \<in> set (handlers s) \<Longrightarrow> ih_req h \<noteq> None \<Longrightarrow> 0 \<le> ih_ret h"
    "events_work E W \<Longrightarrow> waiters_known s"
  using assms by (auto simp: system_ok_def)

lemma system_ok_fs:
  assumes "system_ok E W x s" "state_ok (\<lambda>d. x d + in_flight (handlers s) d) l"
    "\<And>d req. events_work E W \<Longrightarrow> req \<in> set (pending l d) \<Longrightarrow> notify req = None \<Longrightarrow> req \<in> set (pending (fs s) d)"
  shows "system_ok E W x (s\<lparr>fs := l\<rparr>)"
proof -
  have "waiters_known (s\<lparr>fs := l\<rparr>)" if "events_work E W"
    using system_okD(3) [OF assms(1) that] assms(3) [OF that] by (fastforce simp: waiters_known_def)
  then show ?thesis using system_okD(2) [OF assms(1)] assms(2) by (simp add: system_ok_def)
qed

lemma in_flight_Cons: "(\<lambda>d. x d + in_flight (\<lparr>ih_dent = Inr e, ih_ret = ret, ih_req = req\<rparr> # hs) d) =
    (\<lambda>d. x d + in_flight hs d)(e := x e + in_flight hs e + 1)"
  by (auto simp: in_flight_def fun_eq_iff)

lemma in_flight_remove:
  assumes "h \<in> set hs"
  shows "in_flight hs d = in_flight (remove1 h hs) d + (if ih_dent h = Inr d then 1 else 0)"
  using assms by (induction hs) (auto simp: in_flight_def)

lemma step_ipc_ok:
  assumes "system_ok E W x s" "lock_ok fl" "set_from_ipc_locked E M path fl wait (fs s) = Some (dent, ret, req, l)"
  shows "system_ok E W x (s\<lparr>fs := l, handlers := \<lparr>ih_dent = dent, ih_ret = ret, ih_req = req\<rparr> # handlers s\<rparr>)"
proof -
  note ok = system_okD [OF assms(1)]
  have lead: "leader_vmid E = 0" using assms(3) by (auto simp: set_from_ipc_locked_def split: if_splits)
  note run = set_from_ipc_locked_ok [OF ok(1) assms(2) lead, where M = M and path = path and wait = wait]
  show ?thesis
  proof (cases dent)
    case (Inl err)
    then have "req = None" "l = fs s" using run assms(3) by simp_all
    then show ?thesis using ok Inl by (simp add: system_ok_def waiters_known_def in_flight_def)
  next
    case (Inr d)
    then have r: "state_ok ((\<lambda>d. x d + in_flight (handlers s) d)(d := x d + in_flight (handlers s) d + 1)) l"
      "set_effect M d fl wait (fs s) ret req l" "others_same d (fs s) l" using run assms(3) by simp_all
    let ?h = "\<lparr>ih_dent = Inr d, ih_ret = ret, ih_req = req\<rparr>"
    let ?s = "s\<lparr>fs := l, handlers := ?h # handlers s\<rparr>"
    have "waiters_known ?s" if "events_work E W"
      unfolding waiters_known_def
    proof (intro allI ballI impI)
      fix e q
      assume q: "q \<in> set (pending (fs ?s) e)" "notify q = None"
      consider "q \<in> set (pending (fs s) e)" | "e = d" "req = Some (req_id q)"
        using effect_pending [OF r(2,3), of q e] q(1) by auto
      then show "\<exists>h\<in>set (handlers ?s). ih_dent h = Inr e \<and> ih_req h = Some (req_id q)"
      proof cases
        case 1
        then show ?thesis using ok(3) [OF that] q(2) by (fastforce simp: waiters_known_def)
      qed simp
    qed
    moreover have "req \<noteq> None \<longrightarrow> 0 \<le> ret" using effect_request [OF r(2)] by auto
    ultimately show ?thesis using r(1) ok(2) Inr in_flight_Cons [of x d ret req "handlers s"] by (simp add: system_ok_def)
  qed
qed

lemma answer_ok:
  assumes "state_ok x s" "\<And>d. h = Inr d \<Longrightarrow> 0 < x d"
  shows "state_ok (\<lambda>d. x d - (if h = Inr d then 1 else 0)) (set_from_ipc_answer vmid seq (h, ret, req, s))"
proof (cases h)
  case (Inl e)
  then show ?thesis using assms(1) by (simp add: set_from_ipc_answer_def Let_def)
next
  case (Inr d)
  let ?y = "\<lambda>e. x e - (if Inr d = (Inr e :: int + 'a) then 1 else 0)"
  have y: "?y(d := ?y d + 1) = x" using assms(2) [OF Inr] by (auto simp: fun_eq_iff)
  define t where "t = (case req of Some i \<Rightarrow> if ret \<ge> 0 then set_notify (Remote vmid seq) d i s else s | None \<Rightarrow> s)"
  have "state_ok x t" using assms(1) by (auto simp: t_def split: option.split)
  then have "state_ok ?y (t\<lparr>dent_refs := (dent_refs t)(d := dent_refs t d - 1)\<rparr>)" using state_ok_hold(2) [of ?y d t] y by simp
  then show ?thesis using Inr by (cases req) (simp_all add: set_from_ipc_answer_def t_def Let_def)
qed

lemma pending_answer:
  "pending (set_from_ipc_answer vmid seq (dent, ret, req, s)) d =
     (case req of Some i \<Rightarrow> if 0 \<le> ret \<and> dent = Inr d then pending (set_notify (Remote vmid seq) d i s) d else pending s d
                | None \<Rightarrow> pending s d)"
  by (auto simp: set_from_ipc_answer_def pending_notify Let_def split: option.split sum.split)

lemma answer_unwritten:
  assumes "req \<in> set (pending (set_from_ipc_answer vmid seq (dent, ret, q, s)) d)" "notify req = None" "q \<noteq> None \<Longrightarrow> 0 \<le> ret"
  shows "req \<in> set (pending s d) \<and> \<not> (dent = Inr d \<and> q = Some (req_id req))"
proof (cases q)
  case None
  then show ?thesis using assms(1) by (simp add: pending_answer)
next
  case (Some i)
  show ?thesis
  proof (cases "dent = Inr d")
    case True
    then have "req \<in> set (pending (set_notify (Remote vmid seq) d i s) d)" using assms(1,3) Some by (simp add: pending_answer)
    then obtain r where r: "r \<in> set (pending s d)" "req = (if req_id r = i then r\<lparr>notify := Some (Remote vmid seq)\<rparr> else r)"
      unfolding pending_notify by auto
    then have "req_id r \<noteq> i" using assms(2) by auto
    then show ?thesis using r Some by simp
  next
    case False
    then show ?thesis using assms(1) Some by (simp add: pending_answer)
  qed
qed

lemma step_answer_ok:
  assumes "system_ok E W x s" "h \<in> set (handlers s)"
  shows "system_ok E W x (s\<lparr>fs := set_from_ipc_answer vmid seq (ih_dent h, ih_ret h, ih_req h, fs s),
    handlers := remove1 h (handlers s)\<rparr>)" (is "system_ok E W x ?s")
proof -
  note ok = system_okD [OF assms(1)]
  have fl: "x d + in_flight (handlers s) d - (if ih_dent h = Inr d then 1 else 0) = x d + in_flight (remove1 h (handlers s)) d" for d
    using in_flight_remove [OF assms(2), of d] by simp
  have pos: "0 < x d + in_flight (handlers s) d" if "ih_dent h = Inr d" for d using in_flight_remove [OF assms(2), of d] that by simp
  let ?a = "set_from_ipc_answer vmid seq (ih_dent h, ih_ret h, ih_req h, fs s)"
  have "state_ok (\<lambda>d. x d + in_flight (handlers s) d - (if ih_dent h = Inr d then 1 else 0)) ?a"
    using ok(1) pos by (rule answer_ok)
  then have st: "state_ok (\<lambda>d. x d + in_flight (remove1 h (handlers s)) d) ?a" by (simp only: fl)
  have "waiters_known ?s" if ev: "events_work E W"
    unfolding waiters_known_def
  proof (intro allI ballI impI)
    fix d req
    assume q: "req \<in> set (pending (fs ?s) d)" "notify req = None"
    have p: "req \<in> set (pending (fs s) d) \<and> \<not> (ih_dent h = Inr d \<and> ih_req h = Some (req_id req))"
      using answer_unwritten [of req vmid seq "ih_dent h" "ih_ret h" "ih_req h" "fs s" d] q ok(2) [OF assms(2)] by simp
    then obtain g where g: "g \<in> set (handlers s)" "ih_dent g = Inr d" "ih_req g = Some (req_id req)"
      using ok(3) [OF ev] q(2) unfolding waiters_known_def by blast
    then have "g \<noteq> h" using p by auto
    then have "g \<in> set (handlers ?s)" using g(1) by (simp add: in_set_remove1)
    then show "\<exists>g\<in>set (handlers ?s). ih_dent g = Inr d \<and> ih_req g = Some (req_id req)" using g(2,3) by blast
  qed
  moreover have "\<forall>g\<in>set (handlers ?s). ih_req g \<noteq> None \<longrightarrow> 0 \<le> ih_ret g" using ok(2) by (auto dest: notin_set_remove1)
  ultimately show ?thesis using st by (simp add: system_ok_def)
qed

lemma woken_ok:
  assumes "state_ok x s" "file_lock_set_woken d e w s = Some (r, l)"
  shows "state_ok x l \<and> (0 \<le> w \<longrightarrow> l = s)"
  using assms by (auto simp: file_lock_set_woken_def split: if_splits)

lemma lock_step_ok:
  assumes "lock_step E M W s s'" "system_ok E W x s"
  shows "system_ok E W x s'"
  using assms(1)
proof cases
  case (step_set fl d wait r l)
  note ok = system_okD(1) [OF assms(2)]
  have "state_ok (\<lambda>d. x d + in_flight (handlers s) d) l"
    using file_lock_set_ok [OF ok step_set(2), where E = E and M = M and d = d and wait = wait] step_set(3) by simp
  moreover have "req \<in> set (pending (fs s) c)" if "events_work E W" "req \<in> set (pending l c)" "notify req = None" for c req
    using file_lock_set_pending [OF ok step_set(2,3) that(2,3)] that(1) unfolding events_work_def by (meson not_less)
  ultimately show ?thesis unfolding step_set(1) by (rule system_ok_fs [OF assms(2)])
next
  case (step_woken d e r l)
  have "state_ok (\<lambda>d. x d + in_flight (handlers s) d) l \<and> (0 \<le> W e \<longrightarrow> l = fs s)"
    using woken_ok [OF system_okD(1) [OF assms(2)] step_woken(2)] .
  then show ?thesis unfolding step_woken(1) by (intro system_ok_fs [OF assms(2)]) (auto simp: events_work_def)
next
  case (step_ipc fl path wait dent ret req l)
  then show ?thesis using step_ipc_ok [OF assms(2)] by simp
next
  case (step_answer h vmid seq)
  then show ?thesis using step_answer_ok [OF assms(2)] by simp
next
  case (step_get d fl out r res l)
  then show ?thesis using file_lock_get_same [OF system_okD(1) [OF assms(2)] step_get(2)] assms(2) by simp
next
  case (step_get_ipc path fl out r res l)
  then show ?thesis using file_lock_get_from_ipc_same [OF system_okD(1) [OF assms(2)] step_get_ipc(2)] assms(2) by simp
next
  case (step_clear pid r l)
  have "state_ok (\<lambda>d. x d + in_flight (handlers s) d) l \<and> (\<forall>d. set (pending l d) \<subseteq> set (pending (fs s) d))"
    using file_lock_clear_pid_ok [OF system_okD(1) [OF assms(2)], where E = E and M = M and pid = pid] step_clear(2) by simp
  then show ?thesis unfolding step_clear(1) by (intro system_ok_fs [OF assms(2)]) auto
qed

lemma lock_steps_ok: "(lock_step E M W)\<^sup>*\<^sup>* s s' \<Longrightarrow> system_ok E W x s \<Longrightarrow> system_ok E W x s'"
  by (induction rule: rtranclp_induct) (auto intro: lock_step_ok)

section \<open>Setting a POSIX lock\<close>

text \<open>Who holds which byte of a file.\<close>

definition lock_view :: "'d fs_locks \<Rightarrow> 'd \<Rightarrow> nat \<Rightarrow> nat \<Rightarrow> lock_type \<Rightarrow> bool" where
  "lock_view s d = pholds (file_table s d)"

definition byte_conflict :: "libos_file_lock \<Rightarrow> (nat \<Rightarrow> nat \<Rightarrow> lock_type \<Rightarrow> bool) \<Rightarrow> bool" where
  "byte_conflict fl V \<longleftrightarrow> (\<exists>q b u. q \<noteq> l_pid fl \<and> l_start fl \<le> b \<and> b \<le> l_end fl \<and> V q b u \<and>
     (u = F_WRLCK \<or> ltype fl = F_WRLCK))"

lemma conflict_bytes:
  assumes "posix_ok ls" "range_ok fl" "family fl = FILE_LOCK_POSIX"
  shows "(\<exists>c\<in>set ls. lock_conflict fl c) \<longleftrightarrow> byte_conflict fl (pholds ls)"
proof -
  have "range_ok c" if "c \<in> set ls" for c using that assms(1) by (auto simp: posix_ok_def list_all_iff posix_lock_def)
  then have "(\<exists>c\<in>set ls. lock_conflict fl c) \<longleftrightarrow> (\<exists>c\<in>set ls. l_pid c \<noteq> l_pid fl \<and> write_involved c fl \<and>
      (\<exists>b. covers fl (l_pid fl) b (ltype fl) \<and> covers c (l_pid c) b (ltype c)))"
    using posix_conflict_covers [OF assms(2)] assms(3) unfolding lock_conflict_def by auto
  also have "\<dots> \<longleftrightarrow> byte_conflict fl (holds ls)"
    by (auto simp: byte_conflict_def holds_def covers_def write_involved_def)
  finally show ?thesis using posix_holds [OF assms(1)] by simp
qed

lemma posix_table:
  assumes "state_ok x s" "\<And>f. dents s d = Some f \<Longrightarrow> \<not> flock_used f"
  shows "posix_ok (file_table s d)"
proof (cases "dents s d")
  case (Some f)
  then have "dfl_ok f" using assms(1) by (auto simp: state_ok_def)
  then obtain fam where "flags_ok fam f" "table_ok fam (file_locks f)" by (auto simp: dfl_ok_def mode_ok_def)
  then show ?thesis using assms(2) [OF Some] Some by (cases fam) (auto simp: flags_ok_def)
qed simp

lemma blocked_bytes:
  assumes "state_ok x s" "lock_ok fl" "family fl = FILE_LOCK_POSIX" "\<not> mixed_families fl s d"
  shows "blocked fl s d \<longleftrightarrow> ltype fl \<noteq> F_UNLCK \<and> byte_conflict fl (lock_view s d)"
proof (cases "ltype fl = F_UNLCK")
  case False
  then have "posix_ok (file_table s d)" using posix_table [OF assms(1), of d] assms(3,4) by (auto simp: mixed_families_def)
  then show ?thesis using conflict_bytes [of "file_table s d" fl] assms(2,3) by (simp add: blocked_def lock_view_def lock_ok_def)
qed (simp add: blocked_def)

text \<open>
  What processing gives to the requests it grants: \<open>later\<close> are their locks, in the order they are granted.
\<close>

definition from_pending :: "libos_file_lock list \<Rightarrow> file_lock_request list \<Rightarrow> bool" where
  "from_pending later reqs \<longleftrightarrow> mset later \<subseteq># mset (map req_lock reqs)"

lemma from_pending_Nil [simp]: "from_pending later [] \<longleftrightarrow> later = []" "from_pending [] reqs"
  by (simp_all add: from_pending_def)

lemma granted_pending:
  assumes "served reqs gs reqs'"
  shows "from_pending (granted gs) reqs"
proof -
  have "mset (map fst (filter (\<lambda>g. snd g = 0) gs)) \<subseteq># mset (map fst gs)"
    using image_mset_subseteq_mono [OF multiset_filter_subset [of "\<lambda>g. snd g = 0" "mset gs"]] by simp
  also have "\<dots> \<subseteq># mset reqs" using assms by (simp add: served_def)
  finally have "image_mset req_lock (mset (map fst (filter (\<lambda>g. snd g = 0) gs))) \<subseteq># image_mset req_lock (mset reqs)"
    by (rule image_mset_subseteq_mono)
  then show ?thesis by (simp add: from_pending_def granted_def image_mset.compositionality comp_def)
qed

lemma processed_view:
  assumes "processed M d ls s s'"
  shows "\<exists>later. from_pending later (pending s d) \<and> pholds (file_table s' d) = fold give_bytes later (pholds ls)"
  using assms granted_pending answered_view unfolding processed_def by blast

definition set_spec :: "malloc \<Rightarrow> libos_file_lock \<Rightarrow> 'd fs_locks \<Rightarrow> 'd \<Rightarrow> int \<Rightarrow> 'd fs_locks \<Rightarrow> bool" where
  "set_spec M fl s d ret s' \<longleftrightarrow>
     (if mixed_families fl s d then ret = - EPERM \<and> lock_view s' d = lock_view s d
      else if ltype fl \<noteq> F_UNLCK \<and> byte_conflict fl (lock_view s d)
      then ret = - EAGAIN \<and> lock_view s' d = lock_view s d
      else ret = 0 \<and> (\<exists>later. from_pending later (pending s d) \<and>
               lock_view s' d = fold give_bytes later (give_bytes fl (lock_view s d))) \<or>
           ret = - ENOMEM \<and> (\<exists>n. \<not> M n) \<and> lock_view s' d = lock_view s d)"

lemma done_now_view:
  assumes "done_now M d fl s ret s'"
  shows "ret = 0 \<and> (\<exists>later. from_pending later (pending s d) \<and>
      lock_view s' d = fold give_bytes later (give_bytes fl (lock_view s d))) \<or>
    ret = - ENOMEM \<and> (\<exists>n. \<not> M n) \<and> lock_view s' d = lock_view s d"
proof (cases "ret = 0")
  case True
  then obtain ls where ls: "set_result M fl 0 (file_table s d) ls" "processed M d ls s s'" using assms by (auto simp: done_now_def)
  then have "pholds ls = give_bytes fl (pholds (file_table s d))" by (simp add: set_result_def)
  then show ?thesis using processed_view [OF ls(2)] True by (simp add: lock_view_def)
next
  case False
  then show ?thesis using assms by (auto simp: done_now_def same_file_def lock_view_def)
qed

lemma effect_spec:
  assumes "state_ok x s" "lock_ok fl" "family fl = FILE_LOCK_POSIX" "set_effect M d fl False s ret req s'"
  shows "set_spec M fl s d ret s'"
proof (cases "mixed_families fl s d")
  case True
  then show ?thesis using assms(4) by (simp add: set_effect_def set_spec_def same_file_def lock_view_def)
next
  case False
  note b = blocked_bytes [OF assms(1-3) False]
  show ?thesis
  proof (cases "blocked fl s d")
    case True
    then show ?thesis using assms(4) False b by (simp add: set_effect_def set_spec_def same_file_def lock_view_def)
  next
    case nb: False
    then have "done_now M d fl s ret s'" using assms(4) False by (simp add: set_effect_def)
    note v = done_now_view [OF this]
    have n: "\<not> (ltype fl \<noteq> F_UNLCK \<and> byte_conflict fl (lock_view s d))" using nb b by simp
    show ?thesis unfolding set_spec_def if_not_P [OF False] if_not_P [OF n] by (rule v)
  qed
qed

text \<open>A call that does not wait, in the leader, when every request of the file has its waiter.\<close>

lemma file_lock_set_now:
  assumes "state_ok x s" "lock_ok fl" "leader_vmid E = 0" "all_notified (pending s d)"
  obtains ret s' where "file_lock_set E M d fl False s = Some (Returns ret, s')" "state_ok x s'"
    "set_effect M d fl False s ret None s'" "others_same d s s'"
proof -
  note run = file_lock_set_run [OF assms(1-3), where M = M and d = d and wait = False]
  then obtain r s' ret req where r: "file_lock_set E M d fl False s = Some (r, s')"
    "set_effect M d fl False s ret req s' \<and> req = None \<and> r = Returns ret \<and> state_ok x s' \<and> others_same d s s'"
    using assms(4) effect_request by (fastforce split: option.splits)
  then show thesis using that by blast
qed

section \<open>A request without a waiter\<close>

text \<open>
  The first pending request of the file is one for the lock \<open>fl\<close>, without a waiter; and every unlock that leaves nothing
  in the way of \<open>fl\<close> ends in the use of the missing fields, while with the fields written it would return.
\<close>

definition waiterless :: "'d \<Rightarrow> libos_file_lock \<Rightarrow> 'd fs_locks \<Rightarrow> bool" where
  "waiterless d fl s \<longleftrightarrow> (\<exists>i rest. pending s d = \<lparr>req_lock = fl, notify = None, req_id = i\<rparr> # rest \<and>
     (\<forall>(E::'d lock_env) M ul ls k. leader_vmid E = 0 \<and> lock_ok ul \<and> ltype ul = F_UNLCK \<and>
        lock_set M ul (file_table s d, mallocs s) = (0, ls, k) \<and> (\<forall>c\<in>set ls. \<not> lock_conflict fl c) \<longrightarrow>
        file_lock_set E M d ul False s = None \<and>
        (all_notified rest \<longrightarrow> (\<forall>n. file_lock_set E M d ul False (set_notify n d i s) \<noteq> None))))"

lemma unlock_unwritten:
  assumes "pending s d = \<lparr>req_lock = fl, notify = None, req_id = i\<rparr> # rest" "leader_vmid E = 0" "lock_ok ul" "ltype ul = F_UNLCK"
    "lock_set M ul (file_table s d, mallocs s) = (0, ls, k)" "\<forall>c\<in>set ls. \<not> lock_conflict fl c"
  shows "file_lock_set E M d ul False s = None"
proof -
  obtain f where f: "dents s d = Some f" using assms(1) by (cases "dents s d") simp_all
  have "file_lock_find_conflict ls fl = None" using assms(6) by (simp add: find_conflict_None)
  then have "file_lock_set_or_add_request M d ul False s = None"
    using f assms(1,4,5)
    by (simp add: file_lock_set_or_add_request_def find_dent_file_locks_def set_now_def file_lock_process_requests_def
        process_requests.simps)
  then show ?thesis using assms(2,3) by (simp add: file_lock_set_def lock_ok_def)
qed

lemma waiterless_intro:
  assumes "state_ok x s" "pending s d = \<lparr>req_lock = fl, notify = None, req_id = i\<rparr> # rest"
  shows "waiterless d fl s"
proof -
  have "file_lock_set E M d ul False (set_notify n d i s) \<noteq> None"
    if "leader_vmid E = 0" "lock_ok ul" "all_notified rest" for E :: "'a lock_env" and M ul n
  proof -
    have st: "state_ok x (set_notify n d i s)" using assms(1) by simp
    have "all_notified (pending (set_notify n d i s) d)"
      using that(3) assms(2) by (auto simp: pending_notify all_notified_def)
    then show ?thesis using file_lock_set_ok [OF st that(2), where E = E and M = M and d = d and wait = False]
      by (intro notI) simp
  qed
  then show ?thesis using unlock_unwritten [OF assms(2)] assms(2) unfolding waiterless_def by blast
qed

lemma blocked_queues:
  assumes "set_effect M d fl True s ret req s'" "blocked fl s d" "\<not> mixed_families fl s d" "\<And>n. M n"
  shows "\<exists>i. req = Some i \<and> ret = 0 \<and> queued d fl s i s'"
  using assms by (auto simp: set_effect_def)

section \<open>Properties\<close>

text \<open>C3: the invariant of the file-lock subsystem, in every state that any interleaving of its operations reaches,
  whatever allocations, event creations and waits do, in the leader and in other processes: every file with a table
  holds locks of one family only, in order and pairwise compatible; every pending request is blocked by a held lock;
  each table is listed once and holds one reference to its file, and each handler of an IPC request between its two
  halves one more. If events can be created and waited for, a request lacks its waiter only while the handler that
  added it is between its halves. In these states setting a lock with an owner and a well-formed range, directly or by
  the handler, fails an assertion only when a request of the file lacks its waiter.\<close>

theorem file_lock_ops_invariant:
  assumes "system_ok E W x s" "(lock_step E M W)\<^sup>*\<^sup>* s s'"
  shows "system_ok E W x s' \<and>
    (\<forall>fl d wait. lock_ok fl \<and> all_notified (pending (fs s') d) \<longrightarrow> file_lock_set E M d fl wait (fs s') \<noteq> None) \<and>
    (\<forall>fl path d wait. lock_ok fl \<and> leader_vmid E = 0 \<and> path_lookupat E path = Inr d \<and> all_notified (pending (fs s') d) \<longrightarrow>
       set_from_ipc_locked E M path fl wait (fs s') \<noteq> None)"
proof -
  have ok: "system_ok E W x s'" using lock_steps_ok [OF assms(2,1)] .
  have "file_lock_set E M d fl wait (fs s') \<noteq> None" if "lock_ok fl" "all_notified (pending (fs s') d)" for fl d wait
    using file_lock_set_ok [OF system_okD(1) [OF ok] that(1), where E = E and M = M and d = d and wait = wait] that(2)
    by (intro notI) simp
  moreover have "set_from_ipc_locked E M path fl wait (fs s') \<noteq> None"
    if "lock_ok fl" "leader_vmid E = 0" "path_lookupat E path = Inr d" "all_notified (pending (fs s') d)" for fl path d wait
    using set_from_ipc_locked_ok [OF system_okD(1) [OF ok] that(1,2), where M = M and path = path and wait = wait] that(3,4)
    by (intro notI) simp
  ultimately show ?thesis using ok by blast
qed

definition demo_env :: "int \<Rightarrow> nat lock_env" where
  "demo_env e = \<lparr>leader_vmid = 0, event_create = (\<lambda>_. e), dentry_abs_path = (\<lambda>d. Inr ''/f''),
     path_lookupat = (\<lambda>p. Inr 7), ipc_file_lock_set = (\<lambda>p fl w. 0), ipc_file_lock_get = (\<lambda>p fl. (0, fl)),
     ipc_file_lock_clear_pid = (\<lambda>pid. 0)\<rparr>"

definition demo_locks :: "nat fs_locks" where
  "demo_locks = \<lparr>dents = [7 \<mapsto> \<lparr>posix_used = True, flock_used = False, file_locks = [demo_lock F_WRLCK 0 99 1],
       file_lock_requests = []\<rparr>], dent_file_locks_list = [7], dent_refs = (\<lambda>d. if d = 7 then 1 else 0),
     maybe_has_file_locks = (\<lambda>d. False), mallocs = 0, events = 0, responses = []\<rparr>"

lemma demo_locks_state: "state_ok (\<lambda>d. 0) demo_locks"
proof -
  have "flags_ok FILE_LOCK_POSIX \<lparr>posix_used = True, flock_used = False, file_locks = [demo_lock F_WRLCK 0 99 1],
      file_lock_requests = []\<rparr>" by (simp add: flags_ok_def)
  moreover have "mode_ok FILE_LOCK_POSIX \<lparr>posix_used = True, flock_used = False, file_locks = [demo_lock F_WRLCK 0 99 1],
      file_lock_requests = []\<rparr>"
    by (simp add: mode_ok_def all_blocked_def posix_ok_def posix_lock_def range_ok_def demo_lock_def FS_LOCK_EOF_def
        no_conflicts_def lock_conflict_def posix_conflict_def)
  ultimately show ?thesis
    by (auto simp: state_ok_def demo_locks_def dfl_ok_def split: if_splits)
qed

lemma demo_lock_ok: "a \<le> b \<Longrightarrow> b < 2 ^ 64 \<Longrightarrow> 0 < p \<Longrightarrow> lock_ok (demo_lock t a b p)"
  by (simp add: lock_ok_def assert_owner_def demo_lock_def range_ok_def FS_LOCK_EOF_def)

lemmas demo_run = file_lock_set_def assert_owner_def demo_lock_def demo_env_def demo_locks_def Let_def
  file_lock_set_or_add_request_def find_dent_file_locks_def file_lock_find_conflict_def posix_conflict_def
  write_involved_def set_later_def file_lock_add_request_def dent_file_locks_gc_def mark_used_def set_from_ipc_locked_def

text \<open>A handler between its halves: the request it has added lacks its waiter.\<close>

theorem file_lock_ops_invariant_witness:
  "\<exists>s'. lock_step (demo_env 0) (\<lambda>_. True) (\<lambda>_. 0) \<lparr>fs = demo_locks, handlers = []\<rparr> s' \<and>
     system_ok (demo_env 0) (\<lambda>_. 0) (\<lambda>d. 0) s' \<and> handlers s' \<noteq> [] \<and> \<not> all_notified (pending (fs s') 7)"
proof -
  let ?s = "\<lparr>fs = demo_locks, handlers = []\<rparr>" and ?fl = "demo_lock F_RDLCK 50 60 2"
  obtain req l where l: "set_from_ipc_locked (demo_env 0) (\<lambda>_. True) ''/f'' ?fl True demo_locks = Some (Inr 7, 0, req, l)"
    "\<not> all_notified (pending l 7)"
    by (simp add: demo_run pending_def all_notified_def)
  have ok: "lock_ok ?fl" by (rule demo_lock_ok) simp_all
  let ?s' = "\<lparr>fs = l, handlers = [\<lparr>ih_dent = Inr 7, ih_ret = 0, ih_req = req\<rparr>]\<rparr>"
  have step: "lock_step (demo_env 0) (\<lambda>_. True) (\<lambda>_. 0) ?s ?s'"
    using step_ipc [OF ok, where E = "demo_env 0" and s = ?s and W = "\<lambda>_. 0"] l(1) by fastforce
  have "system_ok (demo_env 0) (\<lambda>_. 0) (\<lambda>d. 0) ?s"
    using demo_locks_state by (simp add: system_ok_def in_flight_def waiters_known_def demo_locks_def pending_def)
  then have "system_ok (demo_env 0) (\<lambda>_. 0) (\<lambda>d. 0) ?s'"
    using file_lock_ops_invariant [of "demo_env 0" "\<lambda>_. 0" "\<lambda>d. 0" ?s "\<lambda>_. True" ?s'] step by blast
  then show ?thesis using step l(2) by (intro exI [of _ ?s']) simp
qed

text \<open>C33: processing the pending requests of a file ends, or uses the missing fields of a request without a waiter.
  When it ends, every request still pending is blocked by a held lock; the others, \<open>gs\<close>, have been answered once each,
  in some order, each at a moment when no held lock was in its way; and the number each was answered with is the
  result of setting its lock: 0, and the lock holds exactly what it asked for, or ENOMEM without a change.\<close>

theorem file_lock_process_complete:
  assumes "dents s d = Some f" "table_ok fam (file_locks f)" "\<forall>req\<in>set (file_lock_requests f). request_ok fam (req_lock req)"
  shows "case file_lock_process_requests M d s of
      None \<Rightarrow> \<not> all_notified (file_lock_requests f)
    | Some s' \<Rightarrow> \<exists>f' gs. dents s' = (dents s)(d \<mapsto> f') \<and> table_ok fam (file_locks f') \<and>
        all_blocked (file_locks f') (file_lock_requests f') \<and>
        mset (file_lock_requests f) = mset (file_lock_requests f') + mset (map fst gs) \<and>
        (\<forall>g\<in>set gs. notify (fst g) \<noteq> None) \<and> responses s' = responses s @ map answer gs \<and>
        answered M (file_locks f) gs (file_locks f')"
proof (cases "file_lock_process_requests M d s")
  case None
  then show ?thesis using process_state [OF assms, where M = M] by simp
next
  case (Some s')
  then obtain f' where f': "dents s' = (dents s)(d \<mapsto> f')" "mode_ok fam f'" "processed M d (file_locks f) s s'"
    using process_state [OF assms, where M = M] by auto
  then obtain gs where "served (file_lock_requests f) gs (file_lock_requests f')" "responses s' = responses s @ map answer gs"
    "answered M (file_locks f) gs (file_locks f')" using assms(1) by (auto simp: processed_def)
  then show ?thesis using Some f'(1,2) unfolding served_def mode_ok_def by auto
qed

text \<open>Two requests wait, one of them for bytes that are free by now.\<close>

definition demo_queue :: "nat fs_locks" where
  "demo_queue = demo_locks\<lparr>dents := [7 \<mapsto> \<lparr>posix_used = True, flock_used = False, file_locks = [demo_lock F_WRLCK 0 99 1],
     file_lock_requests = [\<lparr>req_lock = demo_lock F_RDLCK 50 60 2, notify = Some (Event 0), req_id = 0\<rparr>,
       \<lparr>req_lock = demo_lock F_WRLCK 200 210 3, notify = Some (Remote 5 9), req_id = 1\<rparr>]\<rparr>]\<rparr>"

theorem file_lock_process_complete_witness:
  "\<exists>s' f'. file_lock_process_requests (\<lambda>_. True) 7 demo_queue = Some s' \<and> dents s' = (dents demo_queue)(7 \<mapsto> f') \<and>
     all_blocked (file_locks f') (file_lock_requests f') \<and> responses s' = [(Remote 5 9, 0)] \<and>
     length (file_lock_requests f') = 1 \<and> pholds (file_locks f') 3 205 F_WRLCK"
proof -
  let ?reqs = "[\<lparr>req_lock = demo_lock F_RDLCK 50 60 2, notify = Some (Event 0), req_id = 0\<rparr>,
    \<lparr>req_lock = demo_lock F_WRLCK 200 210 3, notify = Some (Remote 5 9), req_id = 1\<rparr>]"
  let ?f = "\<lparr>posix_used = True, flock_used = False, file_locks = [demo_lock F_WRLCK 0 99 1], file_lock_requests = ?reqs\<rparr>"
  have h: "dents demo_queue 7 = Some ?f" "table_ok FILE_LOCK_POSIX (file_locks ?f)"
    "\<forall>req\<in>set (file_lock_requests ?f). request_ok FILE_LOCK_POSIX (req_lock req)"
    by (simp_all add: demo_queue_def posix_ok_def posix_lock_def range_ok_def demo_lock_def FS_LOCK_EOF_def no_conflicts_def
        lock_conflict_def posix_conflict_def request_ok_def lock_ok_def assert_owner_def)
  obtain s' where s': "file_lock_process_requests (\<lambda>_. True) 7 demo_queue = Some s'" "responses s' = [(Remote 5 9, 0)]"
    "length (pending s' 7) = 1"
    by (simp add: demo_queue_def demo_locks_def file_lock_process_requests_def process_requests.simps file_lock_find_conflict_def
        posix_conflict_def write_involved_def demo_lock_def grant_def lock_set_def u_posix_lock_set_def pending_def)
  obtain f' gs where g: "dents s' = (dents demo_queue)(7 \<mapsto> f')" "all_blocked (file_locks f') (file_lock_requests f')"
    "mset ?reqs = mset (file_lock_requests f') + mset (map fst gs)" "responses s' = responses demo_queue @ map answer gs"
    "answered (\<lambda>_. True) (file_locks ?f) gs (file_locks f')"
    using file_lock_process_complete [OF h, where M = "\<lambda>_. True"] s'(1) by auto
  have "map answer gs = [(Remote 5 9, 0)]" using g(4) s'(2) by (simp add: demo_queue_def demo_locks_def)
  then obtain q where q: "gs = [q]" "answer q = (Remote 5 9, 0)" by auto
  then have "fst q \<in># mset ?reqs" "the (notify (fst q)) = Remote 5 9" "snd q = 0" using g(3) by (simp_all add: answer_def)
  then have "req_lock (fst q) = demo_lock F_WRLCK 200 210 3" by auto
  then have "pholds (file_locks f') = give_bytes (demo_lock F_WRLCK 200 210 3) (pholds (file_locks ?f))"
    using answered_view [OF g(5)] q(1) \<open>snd q = 0\<close> by (simp add: granted_def)
  then have "pholds (file_locks f') 3 205 F_WRLCK" by (simp add: give_bytes_def demo_lock_def in_range_def)
  then show ?thesis using s' g(1,2) by (intro exI [of _ s'] exI [of _ f']) (simp add: pending_def)
qed

text \<open>Clearing a process in the leader, when none of its threads is waiting here and every request has its waiter, ends
  without a failing assertion, keeps the invariant, and leaves no lock and no request of the process in any file.\<close>

theorem file_lock_clear_pid_correct:
  assumes "state_ok x s" "leader_vmid E = 0" "\<forall>d. \<forall>req\<in>set (pending s d). \<not> unclearable pid req"
  shows "\<exists>s'. file_lock_clear_pid E M pid s = Some (0, s') \<and> state_ok x s' \<and>
    (\<forall>d f. dents s' d = Some f \<longrightarrow> pid_gone pid f)"
proof (cases "file_lock_clear_pid E M pid s")
  case None
  then show ?thesis using file_lock_clear_pid_ok [OF assms(1), where E = E and M = M and pid = pid] assms(3) by auto
next
  case (Some r)
  then show ?thesis using file_lock_clear_pid_ok [OF assms(1), where E = E and M = M and pid = pid] assms(2) by (cases r) auto
qed

theorem file_lock_clear_pid_correct_witness:
  "\<exists>s'. file_lock_clear_pid (demo_env 0) (\<lambda>_. True) 1 demo_locks = Some (0, s') \<and> state_ok (\<lambda>d. 0) s'"
proof -
  have r: "\<forall>d. \<forall>req\<in>set (pending demo_locks d). \<not> unclearable 1 req" by (simp add: demo_locks_def pending_def)
  have "leader_vmid (demo_env 0) = 0" by (simp add: demo_env_def)
  from file_lock_clear_pid_correct [OF demo_locks_state this r] show ?thesis by blast
qed

text \<open>C40: three paths leave a request without a waiter, for any lock that is refused for the moment, given memory for
  the request and waiters for the requests before it. When the event cannot be created, the call returns that error but
  leaves its request pending; when the wait for the event fails, the call returns that error, destroys the event and
  leaves the request pointing to it; and the handler of an IPC request writes the waiter only after it has released
  the lock. In each of these states every unlock that takes the last obstacle out of the way of the request uses the
  missing fields, where it would return if they were there.\<close>

theorem file_lock_request_without_waiter:
  assumes "state_ok x s" "lock_ok fl" "leader_vmid E = 0" "blocked fl s d" "\<not> mixed_families fl s d" "\<And>n. M n"
    "all_notified (pending s d)"
  shows "(event_create E (events s) < 0 \<longrightarrow>
      (\<exists>s'. file_lock_set E M d fl True s = Some (Returns (event_create E (events s)), s') \<and> waiterless d fl s')) \<and>
    (0 \<le> event_create E (events s) \<and> w < 0 \<longrightarrow>
      (\<exists>s1 s'. file_lock_set E M d fl True s = Some (Waits (events s), s1) \<and>
         file_lock_set_woken d (events s) w s1 = Some (w, s') \<and> waiterless d fl s')) \<and>
    (path_lookupat E path = Inr d \<longrightarrow>
      (\<exists>i s'. set_from_ipc_locked E M path fl True s = Some (Inr d, 0, Some i, s') \<and> waiterless d fl s'))"
proof (intro conjI impI)
  let ?e = "events s"
  let ?outcome = "\<lambda>i s1 r s'. if event_create E ?e < 0 then r = Returns (event_create E ?e) \<and> s' = s1\<lparr>events := ?e + 1\<rparr>
    else r = Waits ?e \<and> s' = set_notify (Event ?e) d i (s1\<lparr>events := ?e + 1\<rparr>)"
  note set_run = file_lock_set_run [OF assms(1-3), where M = M and d = d and wait = True]
  then have "file_lock_set E M d fl True s \<noteq> None" using assms(7) by (intro notI) simp
  then obtain r s' where set: "file_lock_set E M d fl True s = Some (r, s')" by auto
  obtain ret req s1 where run: "file_lock_set E M d fl True s = Some (r, s')" "state_ok x s1"
    "set_effect M d fl True s ret req s1" "case req of None \<Rightarrow> r = Returns ret \<and> s' = s1 | Some i \<Rightarrow> ?outcome i s1 r s'"
    using set_run set unfolding set option.case prod.case by blast
  obtain i where i: "req = Some i" "queued d fl s i s1" using blocked_queues [OF run(3) assms(4-6)] by blast
  then have out: "?outcome i s1 r s'" and p1: "pending s1 d = \<lparr>req_lock = fl, notify = None, req_id = i\<rparr> # pending s d"
    using run(4) by (simp_all add: queued_def)
  { assume "event_create E ?e < 0"
    then have r: "r = Returns (event_create E ?e)" "s' = s1\<lparr>events := ?e + 1\<rparr>" using out by simp_all
    have "waiterless d fl s'" by (rule waiterless_intro [of x]) (use r(2) run(2) p1 in simp_all)
    then show "\<exists>s'. file_lock_set E M d fl True s = Some (Returns (event_create E ?e), s') \<and> waiterless d fl s'"
      using run(1) r(1) by blast }
  { assume w: "0 \<le> event_create E ?e \<and> w < 0"
    then have r: "r = Waits ?e" "s' = set_notify (Event ?e) d i (s1\<lparr>events := ?e + 1\<rparr>)" using out by simp_all
    let ?t = "forget_event d ?e s'"
    obtain rest where "pending ?t d = \<lparr>req_lock = fl, notify = None, req_id = i\<rparr> # rest"
      using p1 r(2) by (cases "dents s1 d") (simp_all add: forget_event_def set_notify_def)
    moreover have "state_ok x ?t" using r(2) run(2) by simp
    ultimately have "waiterless d fl ?t" by (intro waiterless_intro [of x])
    then show "\<exists>s1 s'. file_lock_set E M d fl True s = Some (Waits ?e, s1) \<and>
        file_lock_set_woken d ?e w s1 = Some (w, s') \<and> waiterless d fl s'"
      using run(1) r(1) w by (auto simp: file_lock_set_woken_def) }
  { assume path: "path_lookupat E path = Inr d"
    note ipc = set_from_ipc_locked_ok [OF assms(1-3), where M = M and path = path and wait = True]
    then have "set_from_ipc_locked E M path fl True s \<noteq> None" using path assms(7) by (intro notI) simp
    then obtain dent ret req s2 where eq: "set_from_ipc_locked E M path fl True s = Some (dent, ret, req, s2)" by auto
    then have "dent = Inr d" using ipc path by (cases dent) simp_all
    then have s2: "set_from_ipc_locked E M path fl True s = Some (Inr d, ret, req, s2)"
      "state_ok (x(d := x d + 1)) s2" "set_effect M d fl True s ret req s2" using ipc eq by simp_all
    obtain j where j: "req = Some j" "ret = 0" "queued d fl s j s2" using blocked_queues [OF s2(3) assms(4-6)] by blast
    then have "pending s2 d = \<lparr>req_lock = fl, notify = None, req_id = j\<rparr> # pending s d" by (simp add: queued_def)
    then have "waiterless d fl s2" by (rule waiterless_intro [OF s2(2)])
    then show "\<exists>i s'. set_from_ipc_locked E M path fl True s = Some (Inr d, 0, Some i, s') \<and> waiterless d fl s'"
      using s2(1) j(1,2) by blast }
qed

theorem file_lock_request_without_waiter_witness:
  "\<exists>s'. file_lock_set (demo_env (- 12)) (\<lambda>_. True) 7 (demo_lock F_RDLCK 50 60 2) True demo_locks = Some (Returns (- 12), s') \<and>
     file_lock_set (demo_env (- 12)) (\<lambda>_. True) 7 (demo_lock F_UNLCK 0 99 1) False s' = None"
proof -
  let ?fl = "demo_lock F_RDLCK 50 60 2" and ?ul = "demo_lock F_UNLCK 0 99 1"
  have h: "lock_ok ?fl" "leader_vmid (demo_env (- 12)) = 0" "blocked ?fl demo_locks 7" "\<not> mixed_families ?fl demo_locks 7"
    "all_notified (pending demo_locks 7)" "event_create (demo_env (- 12)) (events demo_locks) = - 12"
    by (simp_all add: demo_lock_ok demo_env_def blocked_def file_table_def demo_locks_def mixed_families_def pending_def
        all_notified_def lock_conflict_def posix_conflict_def write_involved_def demo_lock_def lock_ok_def assert_owner_def
        range_ok_def FS_LOCK_EOF_def)
  obtain s' where s': "file_lock_set (demo_env (- 12)) (\<lambda>_. True) 7 ?fl True demo_locks = Some (Returns (- 12), s')" "waiterless 7 ?fl s'"
    using file_lock_request_without_waiter [OF demo_locks_state h(1-4) _ h(5), of "\<lambda>_. True"] h(6) by auto
  have t: "file_table s' 7 = [demo_lock F_WRLCK 0 99 1]"
    using s'(1) by (auto simp: demo_run file_table_def)
  have "lock_set (\<lambda>_. True) ?ul (file_table s' 7, mallocs s') = (0, [], mallocs s' + 1)"
    unfolding t by (simp add: lock_set_def u_posix_lock_set_def demo_lock_def)
  moreover have "lock_ok ?ul" "ltype ?ul = F_UNLCK" by (rule demo_lock_ok) (simp_all add: demo_lock_def)
  ultimately have "file_lock_set (demo_env (- 12)) (\<lambda>_. True) 7 ?ul False s' = None"
    using s'(2) h(2) unfolding waiterless_def by fastforce
  then show ?thesis using s'(1) by blast
qed

end
