(* ===== verification/Path_Norm.thy ===== *)
theory Path_Norm
  imports Prelude
begin

text \<open>
  Path normalisation, \<^verbatim>\<open>common/src/path_utils.c\<close>. A C string is the list of its characters without the
  final zero. The output buffer of \<^verbatim>\<open>get_norm_path\<close> is in two parts, as the code moves \<^verbatim>\<open>buf\<close> past
  the bytes it will not discard: \<open>fixed\<close> is in front of \<^verbatim>\<open>buf\<close>, \<open>out\<close> the first \<^verbatim>\<open>offset\<close> bytes at \<^verbatim>\<open>buf\<close>.
\<close>

section \<open>Operations\<close>

definition slash :: char where "slash = CHR ''/''"

text \<open>The part of the path before the next slash, and the rest from there.\<close>

definition token :: "string \<Rightarrow> string" where
  "token path = takeWhile (\<lambda>c. c \<noteq> slash) path"

definition find_next_slash :: "string \<Rightarrow> string" where
  "find_next_slash path = dropWhile (\<lambda>c. c \<noteq> slash) path"

text \<open>The loop of \<^verbatim>\<open>find_prev_slash_offset\<close> that moves the offset back to a slash or to 0.\<close>

fun back_to_slash :: "string \<Rightarrow> nat \<Rightarrow> nat" where
  "back_to_slash path 0 = 0"
| "back_to_slash path (Suc off) = (if path ! Suc off \<noteq> slash then back_to_slash path off else Suc off)"

definition find_prev_slash_offset :: "string \<Rightarrow> nat \<Rightarrow> bool \<times> nat" where
  "find_prev_slash_offset path offset =
     (if offset = 0 then (False, offset)
      else let off = offset - 1;
               off = (if off \<noteq> 0 \<and> path ! off = slash then off - 1 else off);
               off = back_to_slash path off
           in (path ! off = slash, off))"

record norm_state =
  fixed :: string
  out :: string
  size_left :: nat
  need_slash :: bool

definition slash_if :: "bool \<Rightarrow> string" where
  "slash_if b = (if b then [slash] else [])"

definition norm_token :: "bool \<Rightarrow> string \<Rightarrow> norm_state \<Rightarrow> norm_state option" where
  "norm_token is_absolute_path tok s =
     (let n = length (slash_if (need_slash s))
      in if tok = ''..'' then
           (if length (out s) \<noteq> 0
            then (let (found, offset) = find_prev_slash_offset (out s) (length (out s))
                  in Some (s\<lparr>out := take offset (out s), need_slash := found\<rparr>))
            else if \<not> is_absolute_path
            then (if n + 2 > size_left s then None
                  else Some (s\<lparr>fixed := fixed s @ slash_if (need_slash s) @ ''..'',
                               size_left := size_left s - (n + 2), need_slash := True\<rparr>))
            else Some s)
         else if tok = [] \<or> tok = ''.'' then Some s
         else if n + length tok > size_left s - length (out s) then None
         else Some (s\<lparr>out := out s @ slash_if (need_slash s) @ tok, need_slash := True\<rparr>))"

function norm_loop :: "bool \<Rightarrow> string \<Rightarrow> norm_state \<Rightarrow> norm_state option" where
  "norm_loop is_absolute_path path s =
     (case norm_token is_absolute_path (token path) s of
        None \<Rightarrow> None
      | Some s' \<Rightarrow> (case find_next_slash path of
            [] \<Rightarrow> Some s'
          | c # path' \<Rightarrow> norm_loop is_absolute_path path' s'))"
  by pat_completeness auto
termination
proof (relation "measure (\<lambda>(a, path, s). length path)")
  fix a path s s' c path'
  assume "find_next_slash path = c # path'"
  then have "length (c # path') \<le> length path" by (metis find_next_slash_def length_dropWhile_le)
  then show "((a, path', s'), (a, path, s)) \<in> measure (\<lambda>(a, path, s). length path)" by simp
qed simp

declare norm_loop.simps [simp del]

text \<open>The result is the content of the buffer, without the final zero; the returned size is one more.\<close>

definition get_norm_path :: "string \<Rightarrow> nat \<Rightarrow> string option" where
  "get_norm_path path sz =
     (if sz = 0 then None
      else let is_absolute_path = (path \<noteq> [] \<and> hd path = slash)
      in if is_absolute_path
         then (if sz - 1 < 1 then None
               else map_option (\<lambda>s. fixed s @ out s) (norm_loop True (tl path)
                      \<lparr>fixed = [slash], out = [], size_left = sz - 2, need_slash = False\<rparr>))
         else map_option (\<lambda>s. fixed s @ out s) (norm_loop False path
                \<lparr>fixed = [], out = [], size_left = sz - 1, need_slash = False\<rparr>))"

function base_name :: "string \<Rightarrow> string" where
  "base_name path = (case find_next_slash path of [] \<Rightarrow> path | c # path' \<Rightarrow> base_name path')"
  by pat_completeness auto
termination
proof (relation "measure length")
  fix path :: string and c path'
  assume "find_next_slash path = c # path'"
  then have "length (c # path') \<le> length path" by (metis find_next_slash_def length_dropWhile_le)
  then show "(path', path) \<in> measure length" by simp
qed simp

declare base_name.simps [simp del]

definition get_base_name :: "string \<Rightarrow> nat \<Rightarrow> string option" where
  "get_base_name path sz = (let b = base_name path in if length b + 1 > sz then None else Some b)"

definition is_dot_or_dotdot :: "string \<Rightarrow> bool" where
  "is_dot_or_dotdot name \<longleftrightarrow> name = ''.'' \<or> name = ''..''"

section \<open>Specification\<close>

text \<open>A path as its list of components, and the stack of components that remains.\<close>

fun join_path :: "string list \<Rightarrow> string" where
  "join_path [] = []"
| "join_path [x] = x"
| "join_path (x # y # ys) = x @ slash # join_path (y # ys)"

function split_path :: "string \<Rightarrow> string list" where
  "split_path path = token path # (case find_next_slash path of [] \<Rightarrow> [] | c # path' \<Rightarrow> split_path path')"
  by pat_completeness auto
termination
proof (relation "measure length")
  fix path :: string and c path'
  assume "find_next_slash path = c # path'"
  then have "length (c # path') \<le> length path" by (metis find_next_slash_def length_dropWhile_le)
  then show "(path', path) \<in> measure length" by simp
qed simp

declare split_path.simps [simp del]

definition push :: "bool \<Rightarrow> string list \<Rightarrow> string \<Rightarrow> string list" where
  "push is_absolute st c =
     (if c = [] \<or> c = ''.'' then st
      else if c = ''..''
      then (if st \<noteq> [] \<and> last st \<noteq> ''..'' then butlast st else if is_absolute then st else st @ [''..''])
      else st @ [c])"

definition norm_spec :: "string \<Rightarrow> string" where
  "norm_spec path =
     (let is_absolute = (path \<noteq> [] \<and> hd path = slash)
      in slash_if is_absolute @ join_path (foldl (push is_absolute) [] (split_path path)))"

section \<open>Components in the buffer\<close>

definition component :: "string \<Rightarrow> bool" where
  "component c \<longleftrightarrow> c \<noteq> [] \<and> slash \<notin> set c \<and> c \<noteq> ''.'' \<and> c \<noteq> ''..''"

lemma join_path_snoc: "join_path (xs @ [x]) = (if xs = [] then x else join_path xs @ slash # x)"
  by (induction xs rule: join_path.induct) auto

lemma join_path_append:
  "xs \<noteq> [] \<Longrightarrow> ys \<noteq> [] \<Longrightarrow> join_path (xs @ ys) = join_path xs @ slash # join_path ys"
proof (induction xs rule: join_path.induct)
  case (2 x)
  then show ?case by (cases ys) auto
qed auto

lemma join_path_nonempty: "xs \<noteq> [] \<Longrightarrow> \<forall>x \<in> set xs. x \<noteq> [] \<Longrightarrow> join_path xs \<noteq> []"
  by (cases xs rule: join_path.cases) auto

lemma back_to_slash_skips:
  "slash \<notin> set x \<Longrightarrow> k \<le> length x \<Longrightarrow> back_to_slash (p @ slash # x) (length p + k) = length p"
proof (induction k)
  case 0
  then show ?case by (cases "length p") (auto simp: nth_append)
next
  case (Suc k)
  then have "x ! k \<noteq> slash" by (metis Suc_le_eq nth_mem)
  then show ?case using Suc by (simp add: nth_append)
qed

lemma back_to_slash_start: "slash \<notin> set x \<Longrightarrow> k < length x \<Longrightarrow> back_to_slash x k = 0"
  by (induction k) (auto dest: nth_mem)

lemma find_prev_slash_found:
  assumes "x \<noteq> []" "slash \<notin> set x"
  shows "find_prev_slash_offset (p @ slash # x) (length (p @ slash # x)) = (True, length p)"
proof -
  have last: "(p @ slash # x) ! (length p + length x) \<noteq> slash"
    using assms by (cases x rule: rev_cases) (auto simp: nth_append)
  then show ?thesis
    using back_to_slash_skips [of x "length x" p] assms
    by (simp add: find_prev_slash_offset_def nth_append)
qed

lemma find_prev_slash_none:
  assumes "x \<noteq> []" "slash \<notin> set x"
  shows "find_prev_slash_offset x (length x) = (False, 0)"
proof -
  have no: "x ! k \<noteq> slash" if "k < length x" for k using assms that by (metis nth_mem)
  then have "back_to_slash x (length x - 1) = 0" using assms by (simp add: back_to_slash_start)
  then show ?thesis using no [of "length x - 1"] no [of 0] assms
    by (simp add: find_prev_slash_offset_def Let_def)
qed

section \<open>The stack in the buffer\<close>

text \<open>
  The stack is a number of components \<^verbatim>\<open>..\<close> that stay, the undiscardable bytes of the buffer, and the
  ordinary components after them, which a later \<^verbatim>\<open>..\<close> removes from the end.
\<close>

definition stack_of :: "nat \<Rightarrow> string list \<Rightarrow> string list" where
  "stack_of ups cs = replicate ups ''..'' @ cs"

definition holds :: "bool \<Rightarrow> nat \<Rightarrow> string list \<Rightarrow> norm_state \<Rightarrow> bool" where
  "holds is_absolute ups cs s \<longleftrightarrow>
     list_all component cs \<and> (is_absolute \<longrightarrow> ups = 0) \<and>
     fixed s = slash_if is_absolute @ join_path (replicate ups ''..'') \<and>
     out s = slash_if (ups \<noteq> 0 \<and> cs \<noteq> []) @ join_path cs \<and>
     need_slash s = (ups \<noteq> 0 \<or> cs \<noteq> [])"

lemma holds_render:
  "holds a ups cs s \<Longrightarrow> fixed s @ out s = slash_if a @ join_path (stack_of ups cs)"
  by (cases "ups = 0"; cases "cs = []")
     (auto simp: holds_def stack_of_def join_path_append slash_if_def)

lemma holds_out_empty: "holds a ups cs s \<Longrightarrow> out s = [] \<longleftrightarrow> cs = []"
proof -
  assume h: "holds a ups cs s"
  then have "\<forall>x \<in> set cs. x \<noteq> []" by (simp add: holds_def list_all_iff component_def)
  then have "join_path cs = [] \<longleftrightarrow> cs = []" using join_path_nonempty [of cs] by auto
  then show ?thesis using h by (simp add: holds_def slash_if_def)
qed

lemma holds_pop:
  assumes "holds a ups (cs @ [x]) s"
  shows "\<exists>found offset. find_prev_slash_offset (out s) (length (out s)) = (found, offset) \<and>
           offset < length (out s) \<and>
           holds a ups cs (s\<lparr>out := take offset (out s), need_slash := found\<rparr>)"
proof -
  have x: "x \<noteq> []" "slash \<notin> set x" using assms by (auto simp: holds_def component_def)
  show ?thesis
  proof (cases "cs = [] \<and> ups = 0")
    case True
    then have "out s = x" using assms by (simp add: holds_def slash_if_def)
    then show ?thesis using True x assms find_prev_slash_none [OF x]
      by (intro exI [of _ False] exI [of _ 0]) (simp add: holds_def slash_if_def)
  next
    case False
    define p where "p = slash_if (ups \<noteq> 0 \<and> cs \<noteq> []) @ join_path cs"
    have "out s = p @ slash # x"
      using assms False by (auto simp: holds_def p_def join_path_snoc slash_if_def)
    then have f: "find_prev_slash_offset (out s) (length (out s)) = (True, length p)"
        "length p < length (out s)" "take (length p) (out s) = p"
      using find_prev_slash_found [OF x, of p] by simp_all
    have "holds a ups cs (s\<lparr>out := p, need_slash := True\<rparr>)"
      using assms False unfolding holds_def p_def by auto
    then show ?thesis using f by auto
  qed
qed

definition fits :: "nat \<Rightarrow> norm_state \<Rightarrow> bool" where
  "fits sz s \<longleftrightarrow> length (fixed s) + size_left s + 1 = sz \<and> length (out s) \<le> size_left s"

lemma norm_token_up:
  assumes "holds a ups cs s" "fits sz s" "norm_token a ''..'' s = Some s'"
  shows "\<exists>ups' cs'. holds a ups' cs' s' \<and> stack_of ups' cs' = push a (stack_of ups cs) ''..'' \<and> fits sz s'"
proof (cases cs rule: rev_cases)
  case Nil
  have e: "out s = []" using holds_out_empty [OF assms(1)] Nil by simp
  show ?thesis
  proof (cases a)
    case True
    then have "s' = s" using assms(3) e by (simp add: norm_token_def)
    then show ?thesis using assms Nil True by (intro exI [of _ 0] exI [of _ cs]) (auto simp: holds_def push_def stack_of_def)
  next
    case False
    then have s': "s' = s\<lparr>fixed := fixed s @ slash_if (need_slash s) @ ''..'',
                     size_left := size_left s - (length (slash_if (need_slash s)) + 2), need_slash := True\<rparr>"
      and sz: "length (slash_if (need_slash s)) + 2 \<le> size_left s"
      using assms(3) e by (auto simp: norm_token_def Let_def split: if_splits)
    have j: "join_path (replicate (Suc ups) ''..'') = join_path (replicate ups ''..'') @ slash_if (ups \<noteq> 0) @ ''..''"
      using join_path_snoc [of "replicate ups ''..''" "''..''"] by (auto simp: replicate_append_same slash_if_def)
    have "holds a (Suc ups) [] s'" using assms(1) Nil False s' e j
      by (auto simp: holds_def slash_if_def simp del: replicate_Suc)
    moreover have "fits sz s'" using assms(2) s' sz e by (simp add: fits_def)
    moreover have "stack_of (Suc ups) [] = push a (stack_of ups cs) ''..''"
      using Nil False by (auto simp: stack_of_def push_def replicate_append_same)
    ultimately show ?thesis by blast
  qed
next
  case (snoc ds x)
  have ne: "out s \<noteq> []" using holds_out_empty [OF assms(1)] snoc by simp
  obtain found offset where f: "find_prev_slash_offset (out s) (length (out s)) = (found, offset)"
      "holds a ups ds (s\<lparr>out := take offset (out s), need_slash := found\<rparr>)"
    using holds_pop assms(1) snoc by blast
  then have s': "s' = s\<lparr>out := take offset (out s), need_slash := found\<rparr>"
    using assms(3) ne by (simp add: norm_token_def)
  have "x \<noteq> ''..''" using assms(1) snoc by (auto simp: holds_def component_def)
  then have "stack_of ups ds = push a (stack_of ups cs) ''..''" using snoc
    by (simp add: stack_of_def push_def butlast_append)
  then show ?thesis using f(2) s' assms(2) by (intro exI [of _ ups] exI [of _ ds]) (auto simp: fits_def)
qed


lemma norm_token_plain:
  assumes "holds a ups cs s" "fits sz s" "component tok" "norm_token a tok s = Some s'"
  shows "holds a ups (cs @ [tok]) s' \<and> stack_of ups (cs @ [tok]) = push a (stack_of ups cs) tok \<and> fits sz s'"
proof -
  have s': "s' = s\<lparr>out := out s @ slash_if (need_slash s) @ tok, need_slash := True\<rparr>"
    and sz: "length (slash_if (need_slash s)) + length tok \<le> size_left s - length (out s)"
    using assms(3,4) by (auto simp: norm_token_def component_def Let_def split: if_splits)
  have "holds a ups (cs @ [tok]) s'" using assms(1,3) s'
    by (auto simp: holds_def join_path_snoc slash_if_def)
  moreover have "stack_of ups (cs @ [tok]) = push a (stack_of ups cs) tok"
    using assms(3) by (simp add: push_def component_def stack_of_def)
  moreover have "fits sz s'" using assms(2) s' sz by (auto simp: fits_def)
  ultimately show ?thesis by blast
qed

text \<open>One token of the path is one step of the stack.\<close>

lemma norm_token_push:
  assumes "holds a ups cs s" "fits sz s" "slash \<notin> set tok" "norm_token a tok s = Some s'"
  shows "\<exists>ups' cs'. holds a ups' cs' s' \<and> stack_of ups' cs' = push a (stack_of ups cs) tok \<and> fits sz s'"
proof -
  consider "tok = ''..''" | "tok = [] \<or> tok = ''.''" | "component tok"
    using assms(3) by (auto simp: component_def)
  then show ?thesis
  proof cases
    case 1
    then show ?thesis using norm_token_up assms by blast
  next
    case 2
    then have "s' = s" using assms(4) by (auto simp: norm_token_def Let_def)
    then show ?thesis using 2 assms by (auto simp: push_def)
  next
    case 3
    then show ?thesis using norm_token_plain assms by blast
  qed
qed

lemma slash_not_in_token: "slash \<notin> set (token path)"
  by (auto simp: token_def dest: set_takeWhileD)

lemma norm_loop_folds:
  "norm_loop a path s = Some s' \<Longrightarrow> holds a ups cs s \<Longrightarrow> fits sz s \<Longrightarrow>
   \<exists>ups' cs'. holds a ups' cs' s' \<and> fits sz s' \<and>
     stack_of ups' cs' = foldl (push a) (stack_of ups cs) (split_path path)"
proof (induction a path s arbitrary: ups cs s' rule: norm_loop.induct)
  case (1 a path s)
  obtain t where t: "norm_token a (token path) s = Some t"
    using "1.prems"(1) by (subst (asm) norm_loop.simps) (auto split: option.splits)
  obtain u c where u: "holds a u c t" "stack_of u c = push a (stack_of ups cs) (token path)" "fits sz t"
    using norm_token_push [OF "1.prems"(2,3) slash_not_in_token t] by blast
  show ?case
  proof (cases "find_next_slash path")
    case Nil
    then have "t = s'" "split_path path = [token path]"
      using "1.prems"(1) t by (auto simp: norm_loop.simps [of a path] split_path.simps [of path])
    then show ?thesis using u by auto
  next
    case (Cons d path')
    then have "norm_loop a path' t = Some s'" "split_path path = token path # split_path path'"
      using "1.prems"(1) t by (auto simp: norm_loop.simps [of a path] split_path.simps [of path])
    then show ?thesis using "1.IH" [OF t Cons _ u(1,3)] u(2) by simp
  qed
qed

section \<open>Room in the buffer\<close>

text \<open>What has been written, with the slash that the next token needs, is no longer than what has been read.\<close>

definition written :: "norm_state \<Rightarrow> nat" where
  "written s = length (fixed s) + length (out s) + length (slash_if (need_slash s))"

lemma token_length: "length (token path) + length (find_next_slash path) = length path"
  unfolding token_def find_next_slash_def by (metis length_append takeWhile_dropWhile_id)

lemma norm_token_room:
  assumes "holds a ups cs s" "fits sz s" "written s + length tok < sz" "slash \<notin> set tok"
  shows "\<exists>s'. norm_token a tok s = Some s' \<and> length (fixed s') + length (out s') \<le> written s + length tok \<and>
           written s' \<le> written s + length tok + 1"
proof (cases "tok = ''..'' \<and> cs \<noteq> []")
  case True
  then obtain ds x where d: "cs = ds @ [x]" by (metis rev_exhaust)
  obtain found offset where f: "find_prev_slash_offset (out s) (length (out s)) = (found, offset)"
      "offset < length (out s)"
    using holds_pop assms(1) d by blast
  have "out s \<noteq> []" using f(2) by auto
  then show ?thesis using True f by (auto simp: norm_token_def written_def slash_if_def)
next
  case False
  then show ?thesis using assms holds_out_empty [OF assms(1)]
    by (auto simp: norm_token_def written_def fits_def slash_if_def Let_def)
qed

lemma norm_loop_room:
  "holds a ups cs s \<Longrightarrow> fits sz s \<Longrightarrow> written s + length path < sz \<Longrightarrow>
   \<exists>s'. norm_loop a path s = Some s' \<and> length (fixed s') + length (out s') \<le> written s + length path"
proof (induction a path s arbitrary: ups cs rule: norm_loop.induct)
  case (1 a path s)
  have len: "length (token path) \<le> length path" using token_length [of path] by simp
  then obtain t where t: "norm_token a (token path) s = Some t"
      "length (fixed t) + length (out t) \<le> written s + length (token path)"
      "written t \<le> written s + length (token path) + 1"
    using norm_token_room [OF "1.prems"(1,2) _ slash_not_in_token, of path] "1.prems"(3) by auto
  obtain u c where u: "holds a u c t" "fits sz t"
    using norm_token_push [OF "1.prems"(1,2) slash_not_in_token t(1)] by blast
  show ?case
  proof (cases "find_next_slash path")
    case Nil
    then show ?thesis using t len by (simp add: norm_loop.simps [of a path])
  next
    case (Cons d path')
    then have l: "length (token path) + 1 + length path' = length path" using token_length [of path] by simp
    then obtain s' where "norm_loop a path' t = Some s'"
        "length (fixed s') + length (out s') \<le> written t + length path'"
      using "1.IH" [OF t(1) Cons u] t(3) "1.prems"(3) by auto
    then show ?thesis using t(1,3) l Cons by (simp add: norm_loop.simps [of a path])
  qed
qed

section \<open>Whole paths\<close>

lemma norm_fold_absolute:
  "path \<noteq> [] \<Longrightarrow> hd path = slash \<Longrightarrow>
   foldl (push a) [] (split_path path) = foldl (push a) [] (split_path (tl path))"
  by (cases path) (simp_all add: split_path.simps [of "slash # _"] token_def find_next_slash_def push_def)

lemma get_norm_path_room:
  assumes "length path < sz"
  shows "\<exists>r. get_norm_path path sz = Some r \<and> length r \<le> length path"
proof (cases "path \<noteq> [] \<and> hd path = slash")
  case True
  let ?s = "\<lparr>fixed = [slash], out = [], size_left = sz - 2, need_slash = False\<rparr>"
  obtain p where p: "path = slash # p" using True by (cases path) auto
  have "\<exists>s'. norm_loop True p ?s = Some s' \<and> length (fixed s') + length (out s') \<le> written ?s + length p"
    using assms p by (intro norm_loop_room [of True 0 "[]" _ sz]) (auto simp: holds_def fits_def written_def slash_if_def)
  then show ?thesis using assms p by (auto simp: get_norm_path_def written_def slash_if_def)
next
  case False
  let ?s = "\<lparr>fixed = [], out = [], size_left = sz - 1, need_slash = False\<rparr>"
  have "\<exists>s'. norm_loop False path ?s = Some s' \<and>
      length (fixed s') + length (out s') \<le> written ?s + length path"
    using assms by (intro norm_loop_room [of False 0 "[]" _ sz]) (auto simp: holds_def fits_def written_def slash_if_def)
  then show ?thesis using False assms by (auto simp: get_norm_path_def written_def slash_if_def)
qed

lemma get_norm_path_stack:
  assumes "get_norm_path path sz = Some r"
  defines "a \<equiv> path \<noteq> [] \<and> hd path = slash"
  shows "\<exists>ups cs. list_all component cs \<and> (a \<longrightarrow> ups = 0) \<and> length r < sz \<and>
           stack_of ups cs = foldl (push a) [] (split_path path) \<and> r = slash_if a @ join_path (stack_of ups cs)"
proof -
  define s where "s = \<lparr>fixed = slash_if a, out = [], size_left = sz - 1 - length (slash_if a), need_slash = False\<rparr>"
  obtain s' where s': "norm_loop a (if a then tl path else path) s = Some s'" "r = fixed s' @ out s'"
    and sz: "length (slash_if a) < sz"
    using assms(1) by (cases a) (auto simp: get_norm_path_def a_def [symmetric] s_def slash_if_def numeral_2_eq_2 split: if_splits)
  have h: "holds a 0 [] s" "fits sz s" using sz by (auto simp: s_def holds_def fits_def slash_if_def)
  obtain ups cs where u: "holds a ups cs s'" "fits sz s'"
      "stack_of ups cs = foldl (push a) [] (split_path (if a then tl path else path))"
    using norm_loop_folds [OF s'(1) h] by (auto simp: stack_of_def)
  have "foldl (push a) [] (split_path (if a then tl path else path)) = foldl (push a) [] (split_path path)"
    using norm_fold_absolute [of path a] by (auto simp: a_def)
  moreover have "length r < sz" using u(2) s'(2) by (auto simp: fits_def)
  moreover have "list_all component cs" "a \<longrightarrow> ups = 0" using u(1) by (simp_all add: holds_def)
  ultimately show ?thesis using u(3) holds_render [OF u(1)] s'(2) by metis
qed

lemma split_join:
  "cs \<noteq> [] \<Longrightarrow> \<forall>c \<in> set cs. slash \<notin> set c \<Longrightarrow> split_path (join_path cs) = cs"
proof (induction cs rule: join_path.induct)
  case (2 x)
  then have "token x = x" "find_next_slash x = []"
    by (auto simp: token_def find_next_slash_def takeWhile_eq_all_conv)
  then show ?case by (simp add: split_path.simps [of x])
next
  case (3 x y ys)
  have "token (x @ slash # z) = x" "find_next_slash (x @ slash # z) = slash # z" for z
    using "3.prems" by (auto simp: token_def find_next_slash_def takeWhile_tail dropWhile_append)
  then show ?case using 3 by (simp add: split_path.simps [of "x @ slash # _"])
qed simp

lemma push_components: "list_all component cs \<Longrightarrow> foldl (push a) st cs = st @ cs"
  by (induction cs arbitrary: st) (auto simp: push_def component_def)

lemma push_ups: "foldl (push False) [] (replicate n ''..'') = replicate n ''..''"
proof (induction n)
  case (Suc n)
  have "replicate (Suc n) ''..'' = replicate n ''..'' @ [''..'']" by (simp add: replicate_append_same)
  moreover have "push False (replicate n ''..'') ''..'' = replicate n ''..'' @ [''..'']"
    by (cases n) (auto simp: push_def)
  ultimately show ?case using Suc by (simp del: replicate_Suc)
qed simp

lemma push_stack_of: "list_all component cs \<Longrightarrow> (a \<longrightarrow> n = 0) \<Longrightarrow> foldl (push a) [] (stack_of n cs) = stack_of n cs"
  by (cases a) (simp_all add: stack_of_def push_components push_ups)

lemma stack_of_no_slash: "list_all component cs \<Longrightarrow> c \<in> set (stack_of n cs) \<Longrightarrow> slash \<notin> set c"
proof -
  assume "list_all component cs" "c \<in> set (stack_of n cs)"
  then consider "c = ''..''" | "component c" by (auto simp: stack_of_def list_all_iff)
  then show ?thesis by cases (simp_all add: component_def slash_def)
qed

lemma norm_spec_stack:
  fixes path :: string
  defines "ab \<equiv> path \<noteq> [] \<and> hd path = slash"
  shows "\<exists>ups cs. list_all component cs \<and> (ab \<longrightarrow> ups = 0) \<and>
           norm_spec path = slash_if ab @ join_path (stack_of ups cs)"
proof -
  obtain r where "get_norm_path path (length path + 1) = Some r" using get_norm_path_room [of path] by fastforce
  from get_norm_path_stack [OF this] show ?thesis unfolding norm_spec_def ab_def Let_def by metis
qed

text \<open>The components of a normalised path: none for the empty path, else the stack, after an empty one for the root.\<close>

lemma split_norm:
  assumes "list_all component cs" "stack_of n cs \<noteq> []"
  shows "split_path (slash_if a @ join_path (stack_of n cs)) = (if a then [[]] else []) @ stack_of n cs"
proof -
  have "split_path (join_path (stack_of n cs)) = stack_of n cs"
    using assms stack_of_no_slash by (intro split_join) blast+
  moreover have "token (slash # z) = []" "find_next_slash (slash # z) = slash # z" for z
    by (simp_all add: token_def find_next_slash_def)
  ultimately show ?thesis by (simp add: slash_if_def split_path.simps [of "slash # _"])
qed

lemma norm_absolute_again:
  assumes "list_all component cs" "a \<longrightarrow> n = 0"
  defines "r \<equiv> slash_if a @ join_path (stack_of n cs)"
  shows "(r \<noteq> [] \<and> hd r = slash) = a"
proof (cases a)
  case False
  have h: "hd (join_path (x # xs)) \<noteq> slash" if "x \<noteq> []" "slash \<notin> set x" for x xs
    using that by (cases xs; cases x) auto
  have ne: "x \<noteq> []" if "x \<in> set (stack_of n cs)" for x
    using assms(1) that by (auto simp: stack_of_def list_all_iff component_def)
  show ?thesis
  proof (cases "stack_of n cs")
    case (Cons x xs)
    then have "hd (join_path (x # xs)) \<noteq> slash"
      using h ne [of x] stack_of_no_slash [OF assms(1), of x n] by simp
    then show ?thesis using False Cons by (simp add: r_def slash_if_def)
  qed (simp add: r_def slash_if_def False)
qed (simp add: r_def slash_if_def)

lemma norm_spec_idem: "norm_spec (norm_spec path) = norm_spec path"
proof -
  define a where "a \<longleftrightarrow> path \<noteq> [] \<and> hd path = slash"
  obtain n cs where n: "list_all component cs" "a \<longrightarrow> n = 0"
      and r: "norm_spec path = slash_if a @ join_path (stack_of n cs)"
    using norm_spec_stack [of path] unfolding a_def by blast
  have "foldl (push a) [] (split_path (norm_spec path)) = stack_of n cs"
  proof (cases "stack_of n cs = []")
    case True
    then show ?thesis by (cases a) (simp_all add: r slash_if_def split_path.simps [of "[]"] split_path.simps [of "[slash]"]
        token_def find_next_slash_def push_def)
  next
    case False
    have "push a [] [] = []" by (simp add: push_def)
    then show ?thesis using split_norm [OF n(1) False, of a] push_stack_of [OF n] by (cases a) (simp_all add: r)
  qed
  moreover have "(norm_spec path \<noteq> [] \<and> hd (norm_spec path) = slash) = a"
    using norm_absolute_again [OF n] unfolding r .
  ultimately show ?thesis unfolding norm_spec_def [of "norm_spec path"] Let_def by (simp only: r)
qed

section \<open>Properties\<close>

text \<open>C14: \<^verbatim>\<open>get_norm_path\<close> never fails on a buffer that is larger than the path. When it succeeds, the
  result is the path with the empty and \<^verbatim>\<open>.\<close> components dropped and each \<^verbatim>\<open>..\<close> resolved against the
  component before it. The result and its final zero are in the buffer and no longer than the input, the
  assertion at the end of the function. To normalise again changes nothing.\<close>

theorem get_norm_path_correct:
  "(get_norm_path path sz = Some r \<longrightarrow>
      r = norm_spec path \<and> length r + 1 \<le> sz \<and> length r + 1 \<le> length path + 1 \<and> norm_spec r = r) \<and>
   (length path < sz \<longrightarrow> get_norm_path path sz = Some (norm_spec path))"
proof -
  have spec: "q = norm_spec path \<and> length q < z" if "get_norm_path path z = Some q" for q z
    using get_norm_path_stack [OF that] unfolding norm_spec_def Let_def by metis
  have "length (norm_spec path) \<le> length path"
    using get_norm_path_room [of path "length path + 1"] spec by fastforce
  moreover have "get_norm_path path sz = Some (norm_spec path)" if "length path < sz"
    using get_norm_path_room [OF that] spec by blast
  ultimately show ?thesis using spec norm_spec_idem by (auto simp: Suc_le_eq)
qed

theorem get_norm_path_correct_witness:
  "get_norm_path ''/a/./b//../c'' 20 = Some ''/a/c'' \<and> length ''/a/c'' + 1 \<le> length ''/a/./b//../c'' + 1"
proof -
  have "get_norm_path ''/a/./b//../c'' 20 = Some ''/a/c''"
    by (simp add: get_norm_path_def norm_loop.simps norm_token_def token_def find_next_slash_def
        find_prev_slash_offset_def slash_if_def slash_def Let_def)
  then show ?thesis using get_norm_path_correct [of "''/a/./b//../c''" 20 "''/a/c''"] by blast
qed

text \<open>\<^verbatim>\<open>get_base_name\<close> is the last component, when it fits.\<close>

lemma base_name_last: "base_name path = last (split_path path)"
proof (induction path rule: base_name.induct)
  case (1 path)
  have "split_path p \<noteq> []" for p by (simp add: split_path.simps [of p])
  moreover have "token path = path" if "find_next_slash path = []"
    using that unfolding token_def find_next_slash_def by (metis append_Nil2 takeWhile_dropWhile_id)
  ultimately show ?case using 1
    by (cases "find_next_slash path") (simp_all add: base_name.simps [of path] split_path.simps [of path])
qed

lemma get_base_name_correct:
  "get_base_name path sz = (if length (last (split_path path)) < sz then Some (last (split_path path)) else None)"
  by (simp add: get_base_name_def base_name_last Let_def)

end
