(* ===== verification/Sysv_Sem.thy ===== *)
theory Sysv_Sem
  imports Prelude
begin

text \<open>
  System V semaphores, \<^verbatim>\<open>libos/src/sys/libos_sem.c\<close>, with the PAL events they wait on
  (\<^verbatim>\<open>pal/src/host/vm-common/pal_common_events.c\<close>). Each part of a call that runs under \<^verbatim>\<open>g_sysv_sem_lock\<close> is one
  function on the table of sets; the threads that run \<^verbatim>\<open>do_semop\<close> are a step relation. The answer of the
  host to a forwarded call, the process id, the success of \<^verbatim>\<open>PalEventCreate\<close> and the result of
  \<^verbatim>\<open>is_user_memory_readable\<close> are arguments.
\<close>

section \<open>Data\<close>

definition EIDRM :: int where "EIDRM = 43"
definition E2BIG :: int where "E2BIG = 7"
definition ERESTARTSYS :: int where "ERESTARTSYS = 512"

definition IPC_CREAT :: "32 word" where "IPC_CREAT = 512"
definition IPC_EXCL :: "32 word" where "IPC_EXCL = 1024"
definition IPC_NOWAIT :: "32 word" where "IPC_NOWAIT = 2048"
definition SEM_UNDO :: "32 word" where "SEM_UNDO = 4096"
definition MAX_SYSV_SEM_SETS :: nat where "MAX_SYSV_SEM_SETS = 256"
definition IPC_RMID :: "32 word" where "IPC_RMID = 0"
definition GETPID :: "32 word" where "GETPID = 11"
definition GETVAL :: "32 word" where "GETVAL = 12"
definition GETNCNT :: "32 word" where "GETNCNT = 14"
definition GETZCNT :: "32 word" where "GETZCNT = 15"
definition SETVAL :: "32 word" where "SETVAL = 16"

definition SYSV_SEMGET :: "64 word" where "SYSV_SEMGET = 34"
definition SYSV_SEMCTL :: "64 word" where "SYSV_SEMCTL = 35"
definition SYSV_SEMOP :: "64 word" where "SYSV_SEMOP = 36"

record linux_sembuf =
  sem_num :: "16 word"
  sem_op :: "16 word"
  sem_flg :: "16 word"

text \<open>An event is its flag; all events here clear themselves when a wait takes them.\<close>

type_synonym pal_event = bool

record sysv_sem_set =
  used :: bool
  removed :: bool
  sem_key :: "32 word"
  nsems :: "32 word"
  sem_value :: "16 word"
  last_pid :: "32 word"
  decrement_waiters :: "64 word"
  zero_waiters :: "64 word"
  changed_event :: "pal_event option"

definition empty_set :: sysv_sem_set where
  "empty_set = \<lparr>used = False, removed = False, sem_key = 0, nsems = 0, sem_value = 0, last_pid = 0,
     decrement_waiters = 0, zero_waiters = 0, changed_event = None\<rparr>"

definition PalEventSet :: "sysv_sem_set \<Rightarrow> sysv_sem_set" where
  "PalEventSet s = s\<lparr>changed_event := map_option (\<lambda>e. True) (changed_event s)\<rparr>"

definition PalEventClear :: "pal_event \<Rightarrow> pal_event" where
  "PalEventClear e = False"

text \<open>One round of the loop in \<^verbatim>\<open>pal_common_event_wait\<close> for an event that clears itself: the exchanged flag says
  whether the wait is over.\<close>

definition event_exchange :: "pal_event \<Rightarrow> bool \<times> pal_event" where
  "event_exchange e = (e, False)"

section \<open>semget and semctl\<close>

fun semget_scan :: "32 word \<Rightarrow> 32 word \<Rightarrow> 32 word \<Rightarrow> sysv_sem_set list \<Rightarrow> nat \<Rightarrow> nat \<Rightarrow> int + nat" where
  "semget_scan key n semflg [] i free_index = Inr free_index"
| "semget_scan key n semflg (s # ss) i free_index =
     (if \<not> used s
      then semget_scan key n semflg ss (Suc i) (if free_index = MAX_SYSV_SEM_SETS then i else free_index)
      else if key \<noteq> 0 \<and> sem_key s = key
      then (if semflg AND (IPC_CREAT OR IPC_EXCL) = IPC_CREAT OR IPC_EXCL then Inl (- EEXIST)
            else if sint n > sint (nsems s) then Inl (- EINVAL)
            else Inl (int i))
      else semget_scan key n semflg ss (Suc i) free_index)"

definition semget_create :: "bool \<Rightarrow> 32 word \<Rightarrow> 32 word \<Rightarrow> nat \<Rightarrow> sysv_sem_set list \<Rightarrow> int \<times> sysv_sem_set list" where
  "semget_create event_ok key n free_index sets =
     (case changed_event (sets ! free_index) of
        None \<Rightarrow> if event_ok
                then (int free_index, sets[free_index := empty_set\<lparr>used := True, sem_key := key, nsems := n,
                        changed_event := Some False\<rparr>])
                else (- ENOMEM, sets)
      | Some e \<Rightarrow> (int free_index, sets[free_index := empty_set\<lparr>used := True, sem_key := key, nsems := n,
                        changed_event := Some (PalEventClear e)\<rparr>]))"

definition semget_local :: "bool \<Rightarrow> 32 word \<Rightarrow> 32 word \<Rightarrow> 32 word \<Rightarrow> sysv_sem_set list \<Rightarrow> int \<times> sysv_sem_set list" where
  "semget_local event_ok key n semflg sets =
     (if n \<noteq> 1 then (- EINVAL, sets)
      else case semget_scan key n semflg sets 0 MAX_SYSV_SEM_SETS of
        Inl ret \<Rightarrow> (ret, sets)
      | Inr free_index \<Rightarrow>
          if semflg AND IPC_CREAT = 0 then (- ENOENT, sets)
          else if free_index = MAX_SYSV_SEM_SETS then (- ENOSPC, sets)
          else semget_create event_ok key n free_index sets)"

text \<open>With the host setting on, a call goes to the host through the communication page.\<close>

type_synonym host_sem = "64 word \<Rightarrow> 64 word \<Rightarrow> 64 word \<Rightarrow> 64 word \<Rightarrow> 64 word \<Rightarrow> int"

definition libos_syscall_semget :: "host_sem option \<Rightarrow> bool \<Rightarrow> 32 word \<Rightarrow> 32 word \<Rightarrow> 32 word \<Rightarrow> sysv_sem_set list \<Rightarrow>
    int \<times> sysv_sem_set list" where
  "libos_syscall_semget host event_ok key n semflg sets =
     (case host of
        Some host_sem_request \<Rightarrow> (host_sem_request SYSV_SEMGET (scast key) (scast n) (scast semflg) 0, sets)
      | None \<Rightarrow> semget_local event_ok key n semflg sets)"

definition semctl_set :: "32 word \<Rightarrow> 32 word \<Rightarrow> 32 word \<Rightarrow> 64 word \<Rightarrow> sysv_sem_set \<Rightarrow> int \<times> sysv_sem_set" where
  "semctl_set pid semnum cmd arg sm =
     (if \<not> used sm \<or> removed sm \<or> sint semnum < 0 \<or> sint semnum \<ge> sint (nsems sm) then (- EINVAL, sm)
      else if cmd = IPC_RMID then (0, PalEventSet (sm\<lparr>removed := True\<rparr>))
      else if cmd = SETVAL
      then (if arg > 32767 then (- ERANGE, sm)
            else (0, PalEventSet (sm\<lparr>sem_value := ucast arg, last_pid := pid\<rparr>)))
      else if cmd = GETVAL then (uint (sem_value sm), sm)
      else if cmd = GETPID then (sint (last_pid sm), sm)
      else if cmd = GETNCNT then (sint (decrement_waiters sm), sm)
      else if cmd = GETZCNT then (sint (zero_waiters sm), sm)
      else (- ENOSYS, sm))"

definition libos_syscall_semctl :: "host_sem option \<Rightarrow> 32 word \<Rightarrow> 32 word \<Rightarrow> 32 word \<Rightarrow> 32 word \<Rightarrow> 64 word \<Rightarrow>
    sysv_sem_set list \<Rightarrow> int \<times> sysv_sem_set list" where
  "libos_syscall_semctl host pid semid semnum cmd arg sets =
     (case host of
        Some host_sem_request \<Rightarrow> (host_sem_request SYSV_SEMCTL (scast semid) (scast semnum) (scast cmd) arg, sets)
      | None \<Rightarrow>
          if sint semid < 0 \<or> sint semid \<ge> int MAX_SYSV_SEM_SETS then (- EINVAL, sets)
          else let i = nat (sint semid); (ret, sm') = semctl_set pid semnum cmd arg (sets ! i)
               in (ret, sets[i := sm']))"

section \<open>semop\<close>

text \<open>The checks of \<^verbatim>\<open>do_semop\<close> before it looks at the setting for the host.\<close>

definition semop_check :: "32 word \<Rightarrow> 64 word \<Rightarrow> bool \<Rightarrow> linux_sembuf \<Rightarrow> int option" where
  "semop_check semid nsops readable op =
     (if nsops = 0 then Some (- EINVAL)
      else if nsops \<noteq> 1 then Some (- E2BIG)
      else if \<not> readable then Some (- EFAULT)
      else if sint semid < 0 then Some (- EINVAL)
      else if sem_num op \<noteq> 0 \<or> (scast (sem_flg op) :: 32 word) AND NOT (IPC_NOWAIT OR SEM_UNDO) \<noteq> 0
      then Some (- EINVAL)
      else None)"

definition nowait :: "linux_sembuf \<Rightarrow> bool" where
  "nowait op \<longleftrightarrow> (scast (sem_flg op) :: 32 word) AND IPC_NOWAIT \<noteq> 0"

definition add_waiter :: "linux_sembuf \<Rightarrow> sysv_sem_set \<Rightarrow> sysv_sem_set" where
  "add_waiter op sm =
     (if sint (sem_op op) < 0 then sm\<lparr>decrement_waiters := decrement_waiters sm + 1\<rparr>
      else sm\<lparr>zero_waiters := zero_waiters sm + 1\<rparr>)"

definition drop_waiter :: "linux_sembuf \<Rightarrow> sysv_sem_set \<Rightarrow> sysv_sem_set" where
  "drop_waiter op sm =
     (if sint (sem_op op) < 0 then sm\<lparr>decrement_waiters := decrement_waiters sm - 1\<rparr>
      else sm\<lparr>zero_waiters := zero_waiters sm - 1\<rparr>)"

definition can_apply :: "linux_sembuf \<Rightarrow> sysv_sem_set \<Rightarrow> bool" where
  "can_apply op sm =
     (if sint (sem_op op) < 0 then uint (sem_value sm) \<ge> - sint (sem_op op)
      else if sint (sem_op op) = 0 then sem_value sm = 0
      else uint (sem_value sm) \<le> 32767 - sint (sem_op op))"

datatype sem_outcome = Return int | Wait

definition semop_apply :: "32 word \<Rightarrow> linux_sembuf \<Rightarrow> bool \<Rightarrow> sysv_sem_set \<Rightarrow> sysv_sem_set" where
  "semop_apply pid op registered_waiter sm =
     (let s1 = (if registered_waiter then drop_waiter op sm else sm);
          s2 = s1\<lparr>sem_value := sem_value s1 + sem_op op, last_pid := pid\<rparr>
      in if sem_value s2 > 0 \<and> decrement_waiters s2 \<noteq> 0 \<or> sem_value s2 = 0 \<and> zero_waiters s2 \<noteq> 0
         then PalEventSet s2 else s2)"

text \<open>One round of the loop in \<^verbatim>\<open>do_semop\<close>, from the lock to the unlock.\<close>

definition semop_round :: "32 word \<Rightarrow> linux_sembuf \<Rightarrow> bool \<Rightarrow> sysv_sem_set \<Rightarrow> sem_outcome \<times> sysv_sem_set" where
  "semop_round pid op registered_waiter sm =
     (if \<not> used sm \<or> removed sm
      then (Return (- EIDRM),
            if registered_waiter
            then (let s1 = drop_waiter op sm
                  in if decrement_waiters s1 \<noteq> 0 \<or> zero_waiters s1 \<noteq> 0 then PalEventSet s1 else s1)
            else sm)
      else if sint (sem_op op) > 0 \<and> \<not> can_apply op sm then (Return (- ERANGE), sm)
      else if can_apply op sm then (Return 0, semop_apply pid op registered_waiter sm)
      else if nowait op then (Return (- EAGAIN), sm)
      else (Wait, if registered_waiter then sm else add_waiter op sm))"

text \<open>The loop for forwarded calls: each round takes the answer of the host and the result of the sleep. The
  result is \<open>None\<close> when the given rounds are not enough.\<close>

fun host_semop :: "linux_sembuf \<Rightarrow> nat option \<Rightarrow> (int \<times> int) list \<Rightarrow> (int \<times> nat option) option" where
  "host_semop op timeout_us [] = None"
| "host_semop op timeout_us ((ret, slept) # rounds) =
     (if ret \<noteq> - EAGAIN \<or> nowait op then Some (ret, timeout_us)
      else if timeout_us = Some 0 then Some (- EAGAIN, timeout_us)
      else let sleep_us = (case timeout_us of Some t \<Rightarrow> min t 1000 | None \<Rightarrow> 1000)
           in if slept < 0 then Some (- ERESTARTSYS, timeout_us)
              else host_semop op (map_option (\<lambda>t. t - sleep_us) timeout_us) rounds)"

record kernel_timespec =
  tv_sec :: int
  tv_nsec :: int

text \<open>The timeout that \<^verbatim>\<open>libos_syscall_semtimedop\<close> passes on, or its error.\<close>

definition semtimedop_timeout :: "kernel_timespec option \<Rightarrow> bool \<Rightarrow> int + nat option" where
  "semtimedop_timeout timeout readable =
     (case timeout of
        None \<Rightarrow> Inr None
      | Some ts \<Rightarrow>
          if \<not> readable then Inl (- EFAULT)
          else if tv_sec ts < 0 \<or> tv_nsec ts < 0 \<or> tv_nsec ts \<ge> 1000000000 then Inl (- EINVAL)
          else Inr (Some (u64 (nat (tv_sec ts) * 1000000 + nat (tv_nsec ts) div 1000))))"

definition do_semop_host :: "32 word \<Rightarrow> 64 word \<Rightarrow> bool \<Rightarrow> linux_sembuf \<Rightarrow> nat option \<Rightarrow> (int \<times> int) list \<Rightarrow>
    (int \<times> nat option) option" where
  "do_semop_host semid nsops readable op timeout_us rounds =
     (case semop_check semid nsops readable op of
        Some ret \<Rightarrow> Some (ret, timeout_us)
      | None \<Rightarrow> host_semop op timeout_us rounds)"

text \<open>The start of a local call: the checks, and the first arrival at the lock.\<close>

datatype sem_pc =
    Idle
  | At_lock nat linux_sembuf bool
  | Waiting nat linux_sembuf
  | Wait_failed nat linux_sembuf int
  | Returned int

definition semop_start :: "32 word \<Rightarrow> 64 word \<Rightarrow> bool \<Rightarrow> linux_sembuf \<Rightarrow> sem_pc" where
  "semop_start semid nsops readable op =
     (case semop_check semid nsops readable op of
        Some ret \<Rightarrow> Returned ret
      | None \<Rightarrow> if sint semid \<ge> int MAX_SYSV_SEM_SETS then Returned (- EINVAL)
               else At_lock (nat (sint semid)) op False)"

section \<open>Threads\<close>

record sem_sys =
  sets :: "sysv_sem_set list"
  pc :: "tid \<Rightarrow> sem_pc"

definition sem_init :: sem_sys where
  "sem_init = \<lparr>sets = replicate MAX_SYSV_SEM_SETS empty_set, pc = \<lambda>t. Idle\<rparr>"

datatype sem_label = Call tid | Try tid | Wake tid | Fail tid | Cleanup tid | Get tid | Ctl tid

definition outside :: "sem_pc \<Rightarrow> bool" where
  "outside p = (case p of Idle \<Rightarrow> True | Returned r \<Rightarrow> True | _ \<Rightarrow> False)"

text \<open>
  The steps of the threads; \<open>P\<close> says which operations the program uses. A wait ends when it takes the
  event, or with an error at any time: a timeout, or an interruption of the thread. Its errors are those
  after \<^verbatim>\<open>pal_to_unix_errno\<close>.
\<close>

inductive sem_step :: "(linux_sembuf \<Rightarrow> bool) \<Rightarrow> sem_label \<Rightarrow> sem_sys \<Rightarrow> sem_sys \<Rightarrow> bool" for P where
  call: "outside (pc s t) \<Longrightarrow> P op \<Longrightarrow>
     sem_step P (Call t) s (s\<lparr>pc := (pc s)(t := semop_start semid nsops readable op)\<rparr>)"
| try_return: "pc s t = At_lock i op reg \<Longrightarrow> semop_round pid op reg (sets s ! i) = (Return r, sm) \<Longrightarrow>
     sem_step P (Try t) s (s\<lparr>sets := (sets s)[i := sm], pc := (pc s)(t := Returned r)\<rparr>)"
| try_wait: "pc s t = At_lock i op reg \<Longrightarrow> semop_round pid op reg (sets s ! i) = (Wait, sm) \<Longrightarrow>
     sem_step P (Try t) s (s\<lparr>sets := (sets s)[i := sm], pc := (pc s)(t := Waiting i op)\<rparr>)"
| wake: "pc s t = Waiting i op \<Longrightarrow> changed_event (sets s ! i) = Some e \<Longrightarrow> event_exchange e = (True, e') \<Longrightarrow>
     sem_step P (Wake t) s (s\<lparr>sets := (sets s)[i := (sets s ! i)\<lparr>changed_event := Some e'\<rparr>],
                            pc := (pc s)(t := At_lock i op True)\<rparr>)"
| fail: "pc s t = Waiting i op \<Longrightarrow> r < 0 \<Longrightarrow>
     sem_step P (Fail t) s (s\<lparr>pc := (pc s)(t := Wait_failed i op r)\<rparr>)"
| cleanup: "pc s t = Wait_failed i op r \<Longrightarrow>
     sem_step P (Cleanup t) s (s\<lparr>sets := (sets s)[i := drop_waiter op (sets s ! i)],
                               pc := (pc s)(t := Returned r)\<rparr>)"
| get: "outside (pc s t) \<Longrightarrow> libos_syscall_semget None event_ok key n semflg (sets s) = (r, ss) \<Longrightarrow>
     sem_step P (Get t) s (s\<lparr>sets := ss, pc := (pc s)(t := Returned r)\<rparr>)"
| ctl: "outside (pc s t) \<Longrightarrow> libos_syscall_semctl None pid semid semnum cmd arg (sets s) = (r, ss) \<Longrightarrow>
     sem_step P (Ctl t) s (s\<lparr>sets := ss, pc := (pc s)(t := Returned r)\<rparr>)"

inductive sem_reach :: "(linux_sembuf \<Rightarrow> bool) \<Rightarrow> sem_sys \<Rightarrow> bool" for P where
  start: "sem_reach P sem_init"
| step: "sem_reach P s \<Longrightarrow> sem_step P l s s' \<Longrightarrow> sem_reach P s'"

section \<open>Values and counts\<close>

lemma uint_add_sint: "uint (v + w) = (uint v + sint w) mod 65536" for v w :: "16 word"
proof -
  have "uint (v + w) = uint (word_of_int (uint v + sint w) :: 16 word)" by simp
  also have "\<dots> = (uint v + sint w) mod 65536" unfolding uint_word_of_int by simp
  finally show ?thesis .
qed

lemma sint16_bounds: "- 32768 \<le> sint w \<and> sint w \<le> 32767" for w :: "16 word"
  using sint_ge [of w] sint_lt [of w] by simp

lemma can_apply_value:
  assumes "uint (sem_value sm) \<le> 32767" "can_apply op sm"
  shows "uint (sem_value sm + sem_op op) = uint (sem_value sm) + sint (sem_op op) \<and>
         uint (sem_value sm + sem_op op) \<le> 32767"
proof -
  have "0 \<le> uint (sem_value sm) + sint (sem_op op)" "uint (sem_value sm) + sint (sem_op op) \<le> 32767"
    using assms uint_ge_0 [of "sem_value sm"] by (auto simp: can_apply_def split: if_splits)
  then show ?thesis by (simp add: uint_add_sint)
qed

text \<open>The threads that a set has counted: those that wait, are back at the lock after a wait, or have a failed wait.\<close>

fun counted :: "nat \<Rightarrow> (linux_sembuf \<Rightarrow> bool) \<Rightarrow> sem_pc \<Rightarrow> bool" where
  "counted j Q (At_lock i op reg) = (i = j \<and> reg \<and> Q op)"
| "counted j Q (Waiting i op) = (i = j \<and> Q op)"
| "counted j Q (Wait_failed i op r) = (i = j \<and> Q op)"
| "counted j Q p = False"

definition decrements :: "linux_sembuf \<Rightarrow> bool" where "decrements op \<longleftrightarrow> sint (sem_op op) < 0"
definition tests_zero :: "linux_sembuf \<Rightarrow> bool" where "tests_zero op \<longleftrightarrow> sint (sem_op op) = 0"

definition number :: "nat \<Rightarrow> (linux_sembuf \<Rightarrow> bool) \<Rightarrow> (tid \<Rightarrow> sem_pc) \<Rightarrow> 64 word" where
  "number j Q p = of_nat (card {t. counted j Q (p t)})"

definition one_if :: "bool \<Rightarrow> 64 word" where "one_if b = (if b then 1 else 0)"

lemma number_upd:
  "number j Q (p(t := x)) = number j Q p + one_if (counted j Q x) - one_if (counted j Q (p t))"
proof -
  have "of_nat (card {u. counted j Q ((p(t := x)) u)} + (if counted j Q (p t) then 1 else 0)) =
      (of_nat (card {u. counted j Q (p u)} + (if counted j Q x then 1 else 0)) :: 64 word)"
    by (simp only: card_fun_upd)
  then show ?thesis
    unfolding number_def one_if_def by (cases "counted j Q x"; cases "counted j Q (p t)") (simp_all add: algebra_simps)
qed

section \<open>The invariant\<close>

definition set_ok :: "sysv_sem_set \<Rightarrow> bool" where
  "set_ok sm \<longleftrightarrow> uint (sem_value sm) \<le> 32767 \<and> (used sm \<longrightarrow> nsems sm = 1 \<and> changed_event sm \<noteq> None)"

text \<open>A thread that a set has counted has an operation that may wait, on a set in use.\<close>

definition may_wait :: "linux_sembuf \<Rightarrow> bool" where
  "may_wait op \<longleftrightarrow> sint (sem_op op) \<le> 0 \<and> \<not> nowait op"

fun pc_ok :: "sysv_sem_set list \<Rightarrow> sem_pc \<Rightarrow> bool" where
  "pc_ok ss (At_lock i op reg) = (i < MAX_SYSV_SEM_SETS \<and> (reg \<longrightarrow> used (ss ! i) \<and> may_wait op))"
| "pc_ok ss (Waiting i op) = (i < MAX_SYSV_SEM_SETS \<and> used (ss ! i) \<and> may_wait op)"
| "pc_ok ss (Wait_failed i op r) = (i < MAX_SYSV_SEM_SETS \<and> used (ss ! i) \<and> may_wait op)"
| "pc_ok ss p = True"

definition counts_ok :: "sem_sys \<Rightarrow> nat \<Rightarrow> bool" where
  "counts_ok s j \<longleftrightarrow> decrement_waiters (sets s ! j) = number j decrements (pc s) \<and>
                      zero_waiters (sets s ! j) = number j tests_zero (pc s)"

definition sem_ok :: "sem_sys \<Rightarrow> bool" where
  "sem_ok s \<longleftrightarrow> length (sets s) = MAX_SYSV_SEM_SETS \<and>
     (\<forall>j < MAX_SYSV_SEM_SETS. set_ok (sets s ! j) \<and> counts_ok s j) \<and> (\<forall>t. pc_ok (sets s) (pc s t))"

lemma sem_ok_init: "sem_ok sem_init"
  by (simp add: sem_ok_def sem_init_def set_ok_def counts_ok_def empty_set_def number_def)

text \<open>A step changes one set and one thread; the counts follow the thread.\<close>

definition follows :: "nat \<Rightarrow> sem_pc \<Rightarrow> sem_pc \<Rightarrow> sysv_sem_set \<Rightarrow> sysv_sem_set \<Rightarrow> bool" where
  "follows i p p' sm sm' \<longleftrightarrow>
     decrement_waiters sm' = decrement_waiters sm + one_if (counted i decrements p') - one_if (counted i decrements p) \<and>
     zero_waiters sm' = zero_waiters sm + one_if (counted i tests_zero p') - one_if (counted i tests_zero p)"

definition only_at :: "nat \<Rightarrow> sem_pc \<Rightarrow> bool" where
  "only_at i p \<longleftrightarrow> (case p of At_lock k op reg \<Rightarrow> k = i | Waiting k op \<Rightarrow> k = i | Wait_failed k op r \<Rightarrow> k = i | _ \<Rightarrow> True)"

lemma only_at_counted: "only_at i p \<Longrightarrow> j \<noteq> i \<Longrightarrow> \<not> counted j Q p"
  by (cases p) (auto simp: only_at_def)

lemma pc_ok_mono:
  "pc_ok ss p \<Longrightarrow> (\<forall>k < MAX_SYSV_SEM_SETS. used (ss ! k) \<longrightarrow> used (ss' ! k)) \<Longrightarrow> pc_ok ss' p"
  by (cases p) auto

lemma sem_ok_update:
  assumes ok: "sem_ok s" and i: "i < MAX_SYSV_SEM_SETS"
    and sm: "set_ok sm'" "used (sets s ! i) \<longrightarrow> used sm'" "follows i (pc s t) p' (sets s ! i) sm'"
    and p: "only_at i (pc s t)" "only_at i p'" "pc_ok ((sets s)[i := sm']) p'"
  shows "sem_ok (s\<lparr>sets := (sets s)[i := sm'], pc := (pc s)(t := p')\<rparr>)"
proof -
  let ?s = "s\<lparr>sets := (sets s)[i := sm'], pc := (pc s)(t := p')\<rparr>"
  have len: "length (sets s) = MAX_SYSV_SEM_SETS" using ok by (simp add: sem_ok_def)
  have "counts_ok ?s j" if j: "j < MAX_SYSV_SEM_SETS" for j
  proof -
    have c: "counts_ok s j" using ok j by (simp add: sem_ok_def)
    show ?thesis
    proof (cases "j = i")
      case True
      then show ?thesis using c sm(3) len i by (simp add: counts_ok_def number_upd follows_def)
    next
      case False
      then have "\<not> counted j Q (pc s t)" "\<not> counted j Q p'" for Q using only_at_counted p(1,2) by blast+
      then show ?thesis using c False by (simp add: counts_ok_def number_upd one_if_def)
    qed
  qed
  moreover have "set_ok ((sets s)[i := sm'] ! j)" if "j < MAX_SYSV_SEM_SETS" for j
    using ok sm(1) that len by (cases "j = i") (simp_all add: sem_ok_def)
  moreover have "pc_ok ((sets s)[i := sm']) (pc s u)" for u
  proof (rule pc_ok_mono)
    show "pc_ok (sets s) (pc s u)" using ok by (simp add: sem_ok_def)
    have "used ((sets s)[i := sm'] ! k)" if "k < MAX_SYSV_SEM_SETS" "used (sets s ! k)" for k
      using sm(2) len that by (cases "k = i") simp_all
    then show "\<forall>k < MAX_SYSV_SEM_SETS. used (sets s ! k) \<longrightarrow> used ((sets s)[i := sm'] ! k)" by blast
  qed
  ultimately show ?thesis using p(3) len by (simp add: sem_ok_def)
qed

lemma sem_ok_pc_only:
  assumes "sem_ok s" "outside (pc s t) \<or> (\<exists>i op. pc s t = Waiting i op \<and> p' = Wait_failed i op r)"
    "outside (pc s t) \<longrightarrow> (\<forall>j Q. \<not> counted j Q p') \<and> pc_ok (sets s) p'"
  shows "sem_ok (s\<lparr>pc := (pc s)(t := p')\<rparr>)"
proof -
  have "counted j Q p' = counted j Q (pc s t)" for j Q
    using assms(2,3) by (cases "pc s t") (auto simp: outside_def)
  moreover have old: "pc_ok (sets s) (pc s t)" using assms(1) by (simp add: sem_ok_def)
  have "pc_ok (sets s) p'" using assms(2)
  proof
    assume "\<exists>i op. pc s t = Waiting i op \<and> p' = Wait_failed i op r"
    then show ?thesis using old by auto
  qed (simp add: assms(3))
  ultimately show ?thesis using assms(1) by (simp add: sem_ok_def counts_ok_def number_upd)
qed

section \<open>The operations keep it\<close>

lemma PalEventSet_sel [simp]:
  "used (PalEventSet sm) = used sm" "removed (PalEventSet sm) = removed sm" "nsems (PalEventSet sm) = nsems sm"
  "sem_value (PalEventSet sm) = sem_value sm" "decrement_waiters (PalEventSet sm) = decrement_waiters sm"
  "zero_waiters (PalEventSet sm) = zero_waiters sm"
  "changed_event (PalEventSet sm) = map_option (\<lambda>e. True) (changed_event sm)"
  by (simp_all add: PalEventSet_def)

lemma drop_waiter_sel [simp]:
  "used (drop_waiter op sm) = used sm" "removed (drop_waiter op sm) = removed sm" "nsems (drop_waiter op sm) = nsems sm"
  "sem_value (drop_waiter op sm) = sem_value sm" "changed_event (drop_waiter op sm) = changed_event sm"
  "decrement_waiters (drop_waiter op sm) = decrement_waiters sm - one_if (decrements op)"
  "zero_waiters (drop_waiter op sm) = zero_waiters sm - one_if (\<not> decrements op)"
  by (simp_all add: drop_waiter_def decrements_def one_if_def)

lemma add_waiter_sel [simp]:
  "used (add_waiter op sm) = used sm" "removed (add_waiter op sm) = removed sm" "nsems (add_waiter op sm) = nsems sm"
  "sem_value (add_waiter op sm) = sem_value sm" "changed_event (add_waiter op sm) = changed_event sm"
  "decrement_waiters (add_waiter op sm) = decrement_waiters sm + one_if (decrements op)"
  "zero_waiters (add_waiter op sm) = zero_waiters sm + one_if (\<not> decrements op)"
  by (simp_all add: add_waiter_def decrements_def one_if_def)

lemma one_if_simps [simp]: "one_if True = 1" "one_if False = 0"
  by (simp_all add: one_if_def)

lemma semop_apply_sel:
  "used (semop_apply pid op reg sm) = used sm" "nsems (semop_apply pid op reg sm) = nsems sm"
  "sem_value (semop_apply pid op reg sm) = sem_value sm + sem_op op"
  "changed_event (semop_apply pid op reg sm) = None \<longleftrightarrow> changed_event sm = None"
  "decrement_waiters (semop_apply pid op reg sm) = decrement_waiters sm - one_if (reg \<and> decrements op)"
  "zero_waiters (semop_apply pid op reg sm) = zero_waiters sm - one_if (reg \<and> \<not> decrements op)"
  by (cases reg; simp add: semop_apply_def Let_def)+


lemma semop_round_keeps:
  assumes "set_ok sm" "reg \<longrightarrow> used sm \<and> may_wait op" "semop_round pid op reg sm = (out, sm')"
  shows "set_ok sm' \<and> used sm' = used sm \<and> (out = Wait \<longrightarrow> used sm \<and> may_wait op) \<and>
    follows i (At_lock i op reg) (case out of Wait \<Rightarrow> Waiting i op | Return r \<Rightarrow> Returned r) sm sm'"
proof -
  have t: "may_wait op \<Longrightarrow> tests_zero op = (\<not> decrements op)"
    by (auto simp: may_wait_def decrements_def tests_zero_def)
  consider (gone) "\<not> used sm \<or> removed sm" | (range) "\<not> (\<not> used sm \<or> removed sm)" "sint (sem_op op) > 0 \<and> \<not> can_apply op sm"
    | (app) "\<not> (\<not> used sm \<or> removed sm)" "can_apply op sm"
    | (again) "\<not> (\<not> used sm \<or> removed sm)" "\<not> can_apply op sm" "sint (sem_op op) \<le> 0" "nowait op"
    | (sleep) "\<not> (\<not> used sm \<or> removed sm)" "\<not> can_apply op sm" "sint (sem_op op) \<le> 0" "\<not> nowait op"
    by linarith
  then show ?thesis
  proof cases
    case gone
    then show ?thesis using assms t by (cases reg) (auto simp: semop_round_def Let_def set_ok_def follows_def)
  next
    case range
    then have "out = Return (- ERANGE)" "sm' = sm" "\<not> reg" using assms by (auto simp: semop_round_def may_wait_def)
    then show ?thesis using assms by (simp add: follows_def)
  next
    case app
    then have "out = Return 0" "sm' = semop_apply pid op reg sm" using assms by (auto simp: semop_round_def)
    then show ?thesis using assms t app can_apply_value [of sm op]
      by (cases reg) (simp_all add: semop_apply_sel set_ok_def follows_def)
  next
    case again
    then have "out = Return (- EAGAIN)" "sm' = sm" "\<not> reg" using assms by (auto simp: semop_round_def may_wait_def)
    then show ?thesis using assms by (simp add: follows_def)
  next
    case sleep
    then have "out = Wait" "sm' = (if reg then sm else add_waiter op sm)" "may_wait op"
      using assms by (auto simp: semop_round_def may_wait_def)
    then show ?thesis using assms t sleep(1) by (cases reg) (simp_all add: set_ok_def follows_def)
  qed
qed

lemma semctl_set_keeps:
  assumes "set_ok sm" "semctl_set pid semnum cmd arg sm = (r, sm')"
  shows "set_ok sm' \<and> used sm' = used sm \<and> decrement_waiters sm' = decrement_waiters sm \<and>
         zero_waiters sm' = zero_waiters sm"
proof -
  have "uint (ucast arg :: 16 word) \<le> 32767" if "\<not> arg > 32767"
  proof -
    have "uint arg \<le> 32767" using that by (simp add: word_less_def)
    then show ?thesis using uint_ge_0 [of arg] by (simp add: unsigned_ucast_eq take_bit_eq_mod)
  qed
  then show ?thesis using assms by (auto simp: semctl_set_def set_ok_def split: if_splits)
qed

text \<open>A new set comes from a slot that is not in use, so no thread is counted there.\<close>

lemma semget_scan_free:
  "semget_scan key n semflg ss i free_index = Inr k \<Longrightarrow>
   k = free_index \<or> i \<le> k \<and> k < i + length ss \<and> \<not> used (ss ! (k - i))"
proof (induction key n semflg ss i free_index rule: semget_scan.induct)
  case (2 key n semflg s ss i free_index)
  show ?case
  proof (cases "used s")
    case True
    then have "semget_scan key n semflg ss (Suc i) free_index = Inr k" using "2.prems" by (auto split: if_splits)
    then have "k = free_index \<or> Suc i \<le> k \<and> k < Suc i + length ss \<and> \<not> used (ss ! (k - Suc i))"
      using "2.IH"(2) True "2.prems" by (auto split: if_splits)
    then show ?thesis by (auto simp: nth_Cons' Suc_diff_le)
  next
    case False
    let ?f = "if free_index = MAX_SYSV_SEM_SETS then i else free_index"
    have "k = ?f \<or> Suc i \<le> k \<and> k < Suc i + length ss \<and> \<not> used (ss ! (k - Suc i))"
      using "2.IH"(1) [OF False] "2.prems" False by simp
    then show ?thesis using False by (auto simp: nth_Cons' split: if_splits)
  qed
qed simp

lemma semget_effect:
  assumes "length ss = MAX_SYSV_SEM_SETS" "libos_syscall_semget None event_ok key n semflg ss = (r, ss')"
  shows "ss' = ss \<or> (\<exists>k e. k < MAX_SYSV_SEM_SETS \<and> \<not> used (ss ! k) \<and>
    ss' = ss[k := empty_set\<lparr>used := True, sem_key := key, nsems := 1, changed_event := Some e\<rparr>])"
proof (cases "semget_scan key n semflg ss 0 MAX_SYSV_SEM_SETS")
  case (Inl a)
  then show ?thesis using assms(2) by (auto simp: libos_syscall_semget_def semget_local_def split: if_splits)
next
  case (Inr k)
  then have "k = MAX_SYSV_SEM_SETS \<or> k < MAX_SYSV_SEM_SETS \<and> \<not> used (ss ! k)"
    using semget_scan_free [OF Inr] assms(1) by auto
  then show ?thesis using assms(2) Inr
    by (auto simp: libos_syscall_semget_def semget_local_def semget_create_def split: if_splits option.splits)
qed


lemma only_at_simps [simp]:
  "only_at i (At_lock k op reg) = (k = i)" "only_at i (Waiting k op) = (k = i)"
  "only_at i (Wait_failed k op r) = (k = i)" "only_at i (Returned r)" "only_at i Idle"
  by (simp_all add: only_at_def)

lemma outside_simps [simp]:
  "outside Idle" "outside (Returned r)" "\<not> outside (At_lock i op reg)" "\<not> outside (Waiting i op)"
  "\<not> outside (Wait_failed i op r)"
  by (simp_all add: outside_def)

lemma outside_counted: "outside p \<Longrightarrow> \<not> counted j Q p"
  by (cases p) auto

lemma outside_only_at: "outside p \<Longrightarrow> only_at i p"
  by (cases p) auto

lemma sem_ok_round:
  assumes "sem_ok s" "pc s t = At_lock i op reg" "semop_round pid op reg (sets s ! i) = (out, sm')"
    "p' = (case out of Wait \<Rightarrow> Waiting i op | Return r \<Rightarrow> Returned r)"
  shows "sem_ok (s\<lparr>sets := (sets s)[i := sm'], pc := (pc s)(t := p')\<rparr>)"
proof -
  have len: "length (sets s) = MAX_SYSV_SEM_SETS" using assms(1) by (simp add: sem_ok_def)
  have "pc_ok (sets s) (pc s t)" using assms(1) by (simp add: sem_ok_def)
  then have i: "i < MAX_SYSV_SEM_SETS" and reg: "reg \<longrightarrow> used (sets s ! i) \<and> may_wait op"
    using assms(2) by simp_all
  have "set_ok (sets s ! i)" using assms(1) i by (simp add: sem_ok_def)
  from semop_round_keeps [OF this reg assms(3)] assms(2,4) len i show ?thesis
    by (intro sem_ok_update [OF assms(1) i]) (auto split: sem_outcome.splits)
qed

lemma counts_unused:
  assumes "sem_ok s" "i < MAX_SYSV_SEM_SETS" "\<not> used (sets s ! i)"
  shows "decrement_waiters (sets s ! i) = 0 \<and> zero_waiters (sets s ! i) = 0"
proof -
  have "\<not> counted i Q (pc s t)" for Q t
  proof -
    have "pc_ok (sets s) (pc s t)" using assms(1) by (simp add: sem_ok_def)
    then show ?thesis using assms(3) by (cases "pc s t") auto
  qed
  then show ?thesis using assms(1,2) by (simp add: sem_ok_def counts_ok_def number_def)
qed

lemma sem_ok_get:
  assumes "sem_ok s" "outside (pc s t)" "libos_syscall_semget None event_ok key n semflg (sets s) = (r, ss)"
  shows "sem_ok (s\<lparr>sets := ss, pc := (pc s)(t := Returned r)\<rparr>)"
proof -
  have len: "length (sets s) = MAX_SYSV_SEM_SETS" using assms(1) by (simp add: sem_ok_def)
  consider "ss = sets s" | k e where "k < MAX_SYSV_SEM_SETS" "\<not> used (sets s ! k)"
      "ss = (sets s)[k := empty_set\<lparr>used := True, sem_key := key, nsems := 1, changed_event := Some e\<rparr>]"
    using semget_effect [OF len assms(3)] by blast
  then show ?thesis
  proof cases
    case 1
    then show ?thesis using sem_ok_pc_only [OF assms(1), of t "Returned r"] assms(2) by simp
  next
    case 2
    then show ?thesis using counts_unused [OF assms(1) 2(1,2)] outside_counted [OF assms(2)]
      unfolding 2(3) by (intro sem_ok_update [OF assms(1) 2(1)])
        (simp_all add: set_ok_def empty_set_def follows_def outside_only_at [OF assms(2)])
  qed
qed

lemma sem_ok_ctl:
  assumes "sem_ok s" "outside (pc s t)" "libos_syscall_semctl None pid semid semnum cmd arg (sets s) = (r, ss)"
  shows "sem_ok (s\<lparr>sets := ss, pc := (pc s)(t := Returned r)\<rparr>)"
proof (cases "sint semid < 0 \<or> sint semid \<ge> int MAX_SYSV_SEM_SETS")
  case True
  then have "ss = sets s" using assms(3) by (auto simp: libos_syscall_semctl_def)
  then show ?thesis using sem_ok_pc_only [OF assms(1), of t "Returned r"] assms(2) by simp
next
  case False
  define i where "i = nat (sint semid)"
  have i: "i < MAX_SYSV_SEM_SETS" using False by (auto simp: i_def MAX_SYSV_SEM_SETS_def)
  obtain sm' where sm': "semctl_set pid semnum cmd arg (sets s ! i) = (r, sm')" "ss = (sets s)[i := sm']"
    using assms(3) False by (auto simp: libos_syscall_semctl_def i_def Let_def split: prod.splits)
  have "set_ok (sets s ! i)" using assms(1) i by (simp add: sem_ok_def)
  from semctl_set_keeps [OF this sm'(1)] show ?thesis using outside_counted [OF assms(2)]
    unfolding sm'(2) by (intro sem_ok_update [OF assms(1) i]) (simp_all add: follows_def outside_only_at [OF assms(2)])
qed

lemma sem_step_ok: "sem_step P l s s' \<Longrightarrow> sem_ok s \<Longrightarrow> sem_ok s'"
proof (induction rule: sem_step.induct)
  case (call s t op semid nsops readable)
  have "pc_ok (sets s) (semop_start semid nsops readable op)" "\<not> counted j Q (semop_start semid nsops readable op)" for j Q
    by (auto simp: semop_start_def MAX_SYSV_SEM_SETS_def split: option.splits)
  then show ?case using sem_ok_pc_only [OF call(3), of t] call(1) by simp
next
  case (try_return s t i op reg pid r sm)
  then show ?case using sem_ok_round [of s t i op reg pid "Return r" sm] by simp
next
  case (try_wait s t i op reg pid sm)
  then show ?case using sem_ok_round [of s t i op reg pid Wait sm] by simp
next
  case (wake s t i op e e')
  have p: "pc_ok (sets s) (pc s t)" and len: "length (sets s) = MAX_SYSV_SEM_SETS"
    using wake(4) unfolding sem_ok_def by blast+
  then have i: "i < MAX_SYSV_SEM_SETS" using wake(1) by simp
  have "set_ok (sets s ! i)" using wake(4) i by (simp add: sem_ok_def)
  then show ?case using p len i wake(1)
    by (intro sem_ok_update [OF wake(4) i]) (simp_all add: set_ok_def follows_def)
next
  case (fail s t i op r)
  then show ?case using sem_ok_pc_only [of s t "Wait_failed i op r" r] by simp
next
  case (cleanup s t i op r)
  have p: "pc_ok (sets s) (pc s t)" using cleanup(2) by (simp add: sem_ok_def)
  then have i: "i < MAX_SYSV_SEM_SETS" and w: "tests_zero op = (\<not> decrements op)" using cleanup(1)
    by (auto simp: may_wait_def decrements_def tests_zero_def)
  have "set_ok (sets s ! i)" using cleanup(2) i by (simp add: sem_ok_def)
  then show ?case using i w cleanup(1)
    by (intro sem_ok_update [OF cleanup(2) i]) (simp_all add: set_ok_def follows_def)
next
  case (get s t event_ok key n semflg r ss)
  then show ?case using sem_ok_get by blast
next
  case (ctl s t pid semid semnum cmd arg r ss)
  then show ?case using sem_ok_ctl by blast
qed

lemma sem_reach_ok: "sem_reach P s \<Longrightarrow> sem_ok s"
  by (induction rule: sem_reach.induct) (auto intro: sem_ok_init sem_step_ok)

lemma unat_number: "unat (number j Q p) = card {t. counted j Q (p t)}"
proof -
  have "card {t. counted j Q (p t)} \<le> card (UNIV :: tid set)" by (rule card_mono) auto
  then have "card {t. counted j Q (p t)} \<le> 2 ^ 32" by (simp add: card_word)
  then show ?thesis unfolding number_def by (simp add: unat_of_nat take_bit_nat_eq_self)
qed

lemma number_nonzero: "counted j Q (p t) \<Longrightarrow> number j Q p \<noteq> 0"
proof
  assume "counted j Q (p t)" "number j Q p = 0"
  then have "card {t. counted j Q (p t)} = 0" using unat_number [of j Q p] by simp
  then show False using \<open>counted j Q (p t)\<close> by simp
qed

section \<open>Waking the waiters\<close>

text \<open>A program that only decrements by one, and never waits for zero.\<close>

definition unit_op :: "linux_sembuf \<Rightarrow> bool" where
  "unit_op op \<longleftrightarrow> sem_op op = - 1 \<or> sint (sem_op op) > 0"

fun pc_op :: "sem_pc \<Rightarrow> linux_sembuf option" where
  "pc_op (At_lock i op reg) = Some op"
| "pc_op (Waiting i op) = Some op"
| "pc_op (Wait_failed i op r) = Some op"
| "pc_op p = None"

definition all_ops :: "(linux_sembuf \<Rightarrow> bool) \<Rightarrow> sem_sys \<Rightarrow> bool" where
  "all_ops P s \<longleftrightarrow> (\<forall>t op. pc_op (pc s t) = Some op \<longrightarrow> P op)"

lemma all_ops_upd:
  "all_ops P s \<Longrightarrow> (\<forall>op. pc_op p = Some op \<longrightarrow> P op) \<Longrightarrow> all_ops P (s\<lparr>sets := ss, pc := (pc s)(t := p)\<rparr>)"
  "all_ops P s \<Longrightarrow> (\<forall>op. pc_op p = Some op \<longrightarrow> P op) \<Longrightarrow> all_ops P (s\<lparr>pc := (pc s)(t := p)\<rparr>)"
  by (auto simp: all_ops_def)

lemma all_ops_at:
  "all_ops P s \<Longrightarrow> pc s t = At_lock i op reg \<Longrightarrow> P op"
  "all_ops P s \<Longrightarrow> pc s t = Waiting i op \<Longrightarrow> P op"
  by (metis all_ops_def pc_op.simps(1,2))+

lemma sem_reach_ops: "sem_reach P s \<Longrightarrow> all_ops P s"
proof (induction rule: sem_reach.induct)
  case start
  show ?case by (simp add: all_ops_def sem_init_def)
next
  case (step s l s')
  from step(2,3) show ?case
  proof cases
    case (call t op semid nsops readable)
    have "pc_op (semop_start semid nsops readable op) = Some op' \<longrightarrow> op' = op" for op'
      by (auto simp: semop_start_def split: option.splits)
    then show ?thesis using call step(3) by (auto intro!: all_ops_upd)
  qed (auto intro!: all_ops_upd dest: all_ops_at)
qed

definition awake :: "sem_sys \<Rightarrow> nat \<Rightarrow> bool" where
  "awake s i \<longleftrightarrow>
     (\<exists>t op. pc s t = Waiting i op) \<and> (sem_value (sets s ! i) > 0 \<or> removed (sets s ! i)) \<longrightarrow>
     changed_event (sets s ! i) = Some True \<or> (\<exists>u op. pc s u = At_lock i op True)"

lemma awakeD:
  "awake s i \<Longrightarrow> pc s t = Waiting i op \<Longrightarrow> sem_value (sets s ! i) > 0 \<or> removed (sets s ! i) \<Longrightarrow>
   changed_event (sets s ! i) = Some True \<or> (\<exists>u op. pc s u = At_lock i op True)"
  by (auto simp: awake_def)

text \<open>A step that takes no event and wakes no thread keeps it.\<close>

lemma awake_mono:
  assumes "awake s j"
    and "sem_value (sets s' ! j) = sem_value (sets s ! j)" "removed (sets s' ! j) = removed (sets s ! j)"
        "changed_event (sets s' ! j) = changed_event (sets s ! j)"
    and "\<forall>u op. pc s' u = Waiting j op \<longrightarrow> pc s u = Waiting j op"
    and "\<forall>u op. pc s u = At_lock j op True \<longrightarrow> pc s' u = At_lock j op True"
  shows "awake s' j"
  unfolding awake_def
proof
  assume a: "(\<exists>t op. pc s' t = Waiting j op) \<and> (sem_value (sets s' ! j) > 0 \<or> removed (sets s' ! j))"
  then obtain t op where "pc s t = Waiting j op" using assms(5) by blast
  then have "changed_event (sets s ! j) = Some True \<or> (\<exists>u op. pc s u = At_lock j op True)"
    using awakeD [OF assms(1)] a assms(2,3) by auto
  then show "changed_event (sets s' ! j) = Some True \<or> (\<exists>u op. pc s' u = At_lock j op True)"
    using assms(4,6) by metis
qed

lemma unit_op_dec: "unit_op op \<Longrightarrow> sint (sem_op op) \<le> 0 \<Longrightarrow> sint (sem_op op) = - 1"
  by (auto simp: unit_op_def)

lemma unit_can_apply: "unit_op op \<Longrightarrow> sint (sem_op op) \<le> 0 \<Longrightarrow> can_apply op sm \<longleftrightarrow> sem_value sm > 0"
proof -
  assume "unit_op op" "sint (sem_op op) \<le> 0"
  then have "sint (sem_op op) = - 1" by (rule unit_op_dec)
  moreover have "(1 \<le> uint (sem_value sm)) = (sem_value sm > 0)" by (simp add: word_less_def int_one_le_iff_zero_less)
  ultimately show ?thesis by (simp add: can_apply_def)
qed

text \<open>A round that leaves a value or a removed set sets the event, when a thread is counted.\<close>

lemma semop_round_signals:
  assumes "unit_op op" "set_ok sm" "used sm" "semop_round pid op reg sm = (out, sm')"
    and "decrement_waiters sm' \<noteq> 0" "sem_value sm' > 0 \<or> removed sm'" "sm' \<noteq> sm \<or> reg" "reg \<longrightarrow> may_wait op"
  shows "changed_event sm' = Some True"
proof -
  obtain e where e: "changed_event sm = Some e" using assms(2,3) by (auto simp: set_ok_def)
  consider (gone) "removed sm" | (app) "\<not> removed sm" "can_apply op sm"
    | (range) "\<not> removed sm" "\<not> can_apply op sm" "sint (sem_op op) > 0"
    | (no) "\<not> removed sm" "\<not> can_apply op sm" "sint (sem_op op) \<le> 0" by linarith
  then show ?thesis
  proof cases
    case gone
    then have "reg" using assms(4,7) by (auto simp: semop_round_def split: if_splits)
    then show ?thesis using gone assms(4,5) e by (auto simp: semop_round_def Let_def split: if_splits)
  next
    case app
    then have "sm' = semop_apply pid op reg sm" using assms(3,4) by (auto simp: semop_round_def)
    moreover have "\<not> removed sm'" using calculation app by (simp add: semop_apply_def Let_def)
    ultimately show ?thesis using assms(5,6) e by (auto simp: semop_apply_def Let_def split: if_splits)
  next
    case range
    then have "sm' = sm" "reg \<Longrightarrow> False" using assms(3,4,8) by (auto simp: semop_round_def may_wait_def)
    then show ?thesis using assms(7) by blast
  next
    case no
    then have "sem_value sm = 0" using unit_can_apply [OF assms(1), of sm] by (simp add: word_neq_0_conv [symmetric])
    moreover have "sem_value sm' = sem_value sm" "removed sm' = removed sm"
      using no assms(3,4) by (auto simp: semop_round_def split: if_splits)
    ultimately show ?thesis using assms(6) no(1) by simp
  qed
qed


lemma awake_round:
  assumes s: "sem_reach unit_op s" "awake s j" "pc s t = At_lock i op reg"
    and r: "semop_round pid op reg (sets s ! i) = (out, sm')"
    and p': "p' = (case out of Wait \<Rightarrow> Waiting i op | Return r \<Rightarrow> Returned r)"
  shows "awake (s\<lparr>sets := (sets s)[i := sm'], pc := (pc s)(t := p')\<rparr>) j"
proof -
  let ?s = "s\<lparr>sets := (sets s)[i := sm'], pc := (pc s)(t := p')\<rparr>"
  have ok: "sem_ok s" by (rule sem_reach_ok [OF s(1)])
  have ok': "sem_ok ?s" by (rule sem_ok_round [OF ok s(3) r p'])
  have op: "unit_op op" by (rule all_ops_at(1) [OF sem_reach_ops [OF s(1)] s(3)])
  have p: "pc_ok (sets s) (pc s t)" and len: "length (sets s) = MAX_SYSV_SEM_SETS" using ok unfolding sem_ok_def by blast+
  then have i: "i < MAX_SYSV_SEM_SETS" and reg: "reg \<longrightarrow> may_wait op" using s(3) by simp_all
  have sm: "set_ok (sets s ! i)" using ok i by (simp add: sem_ok_def)
  consider "j \<noteq> i" | "j = i" "sm' = sets s ! i" "\<not> reg" | "j = i" "sm' \<noteq> sets s ! i \<or> reg" by blast
  then show ?thesis
  proof cases
    case 1
    then show ?thesis by (intro awake_mono [OF s(2)]) (use s(3) p' in \<open>auto split: sem_outcome.splits\<close>)
  next
    case 2
    show ?thesis
    proof (cases out)
      case (Return x)
      then show ?thesis using 2 s(3) p' by (intro awake_mono [OF s(2)]) auto
    next
      case Wait
      then have "\<not> can_apply op sm'" "sint (sem_op op) \<le> 0" "\<not> removed sm'"
        using r 2(2) by (auto simp: semop_round_def split: if_splits)
      then show ?thesis using unit_can_apply [OF op, of sm'] 2(1) len i by (simp add: awake_def)
    qed
  next
    case 3
    show ?thesis unfolding awake_def
    proof
      assume "(\<exists>t op. pc ?s t = Waiting j op) \<and> (sem_value (sets ?s ! j) > 0 \<or> removed (sets ?s ! j))"
      then obtain u q where u: "pc ?s u = Waiting i q" and v: "sem_value sm' > 0 \<or> removed sm'"
        using 3(1) len i by auto
      have "pc_ok (sets ?s) (pc ?s u)" using ok' unfolding sem_ok_def by blast
      then have used: "used sm'" and q: "may_wait q" using u len i by simp_all
      have reach': "sem_reach unit_op ?s"
        using sem_reach.step [OF s(1)] try_return [OF s(3), of pid _ sm'] try_wait [OF s(3), of pid sm'] r p'
        by (cases out) auto
      have "unit_op q" by (rule all_ops_at(2) [OF sem_reach_ops [OF reach'] u])
      then have "decrements q" using q unit_op_dec [of q] by (simp add: decrements_def may_wait_def)
      then have "number i decrements (pc ?s) \<noteq> 0" using number_nonzero [of i decrements "pc ?s" u] u by simp
      moreover have "decrement_waiters (sets ?s ! i) = number i decrements (pc ?s)"
        using ok' i unfolding sem_ok_def counts_ok_def by blast
      ultimately have d: "decrement_waiters sm' \<noteq> 0" using len i by simp
      have "used (sets s ! i)" using used semop_round_keeps [OF sm _ r, of 0] p s(3) by auto
      then have "changed_event sm' = Some True"
        using semop_round_signals [OF op sm _ r d v] 3(2) reg by blast
      then show "changed_event (sets ?s ! j) = Some True \<or> (\<exists>u op. pc ?s u = At_lock j op True)"
        using 3(1) len i by simp
    qed
  qed
qed

lemma outside_not: "outside p \<Longrightarrow> p \<noteq> Waiting i op \<and> p \<noteq> At_lock i op reg"
  by auto

lemma semctl_set_event:
  "set_ok sm \<Longrightarrow> used sm \<Longrightarrow> semctl_set pid semnum cmd arg sm = (r, sm') \<Longrightarrow>
   sm' = sm \<or> changed_event sm' = Some True"
  by (auto simp: semctl_set_def set_ok_def split: if_splits)

lemma awake_ctl:
  assumes ok: "sem_ok s" and s: "awake s j" "outside (pc s t)"
    and c: "libos_syscall_semctl None pid semid semnum cmd arg (sets s) = (r, ss)"
  shows "awake (s\<lparr>sets := ss, pc := (pc s)(t := Returned r)\<rparr>) j"
proof (cases "ss ! j = sets s ! j")
  case True
  then show ?thesis using outside_not [OF s(2)] by (intro awake_mono [OF s(1)]) auto
next
  case False
  have len: "length (sets s) = MAX_SYSV_SEM_SETS" using ok by (simp add: sem_ok_def)
  have ir: "\<not> (sint semid < 0 \<or> sint semid \<ge> int MAX_SYSV_SEM_SETS)" using c False
    by (auto simp: libos_syscall_semctl_def)
  define i where "i = nat (sint semid)"
  obtain sm' where sm': "semctl_set pid semnum cmd arg (sets s ! i) = (r, sm')" "ss = (sets s)[i := sm']"
    using c ir by (auto simp: libos_syscall_semctl_def i_def Let_def split: prod.splits)
  have ji: "j = i" using False sm'(2) by (metis nth_list_update_neq)
  have i: "i < MAX_SYSV_SEM_SETS" using ir by (auto simp: i_def MAX_SYSV_SEM_SETS_def)
  then have sm: "set_ok (sets s ! i)" using ok by (simp add: sem_ok_def)
  have ne: "sm' \<noteq> sets s ! i" using False sm'(2) ji len i by simp
  have "used (sets s ! i)" by (rule ccontr) (use sm'(1) ne in \<open>simp add: semctl_set_def\<close>)
  then have "changed_event sm' = Some True" using semctl_set_event [OF sm _ sm'(1)] ne by blast
  then show ?thesis using sm'(2) ji len i by (simp add: awake_def)
qed

lemma awake_get:
  assumes ok: "sem_ok s" and s: "awake s j" "outside (pc s t)"
    and g: "libos_syscall_semget None event_ok key n semflg (sets s) = (r, ss)"
  shows "awake (s\<lparr>sets := ss, pc := (pc s)(t := Returned r)\<rparr>) j"
proof (cases "ss ! j = sets s ! j")
  case True
  then show ?thesis using outside_not [OF s(2)] by (intro awake_mono [OF s(1)]) auto
next
  case False
  have len: "length (sets s) = MAX_SYSV_SEM_SETS" using ok by (simp add: sem_ok_def)
  have "\<not> used (sets s ! j)" using semget_effect [OF len g] False by (metis nth_list_update_neq)
  then have "pc s u \<noteq> Waiting j op" for u op
  proof -
    have "pc_ok (sets s) (pc s u)" using ok by (simp add: sem_ok_def)
    then show ?thesis using \<open>\<not> used (sets s ! j)\<close> by auto
  qed
  then show ?thesis by (simp add: awake_def)
qed

lemma update_keeps: "f x = f (xs ! i) \<Longrightarrow> f (xs[i := x] ! j) = f (xs ! j)"
  by (cases "j = i"; cases "i < length xs") (simp_all add: list_update_beyond)

lemma awake_step: "sem_step unit_op l s s' \<Longrightarrow> sem_reach unit_op s \<Longrightarrow> awake s j \<Longrightarrow> awake s' j"
proof (induction rule: sem_step.induct)
  case (call s t op semid nsops readable)
  have "semop_start semid nsops readable op \<noteq> Waiting k q" for k q
    by (auto simp: semop_start_def split: option.splits)
  then show ?case using outside_not [OF call(1)] by (intro awake_mono [OF call(4)]) auto
next
  case (try_return s t i op reg pid r sm)
  then show ?case using awake_round [of s j t i op reg pid "Return r" sm] by simp
next
  case (try_wait s t i op reg pid sm)
  then show ?case using awake_round [of s j t i op reg pid Wait sm] by simp
next
  case (wake s t i op e e')
  show ?case
  proof (cases "j = i")
    case True
    then show ?thesis by (auto simp: awake_def intro!: exI [of _ t])
  next
    case False
    then show ?thesis using wake(1) by (intro awake_mono [OF wake(5)]) auto
  qed
next
  case (fail s t i op r)
  then show ?case by (intro awake_mono [OF fail(4)]) auto
next
  case (cleanup s t i op r)
  then show ?case by (intro awake_mono [OF cleanup(3)]) (auto simp: update_keeps)
next
  case (get s t event_ok key n semflg r ss)
  then show ?case using awake_get sem_reach_ok by blast
next
  case (ctl s t pid semid semnum cmd arg r ss)
  then show ?case using awake_ctl sem_reach_ok by blast
qed

lemma sem_reach_awake: "sem_reach unit_op s \<Longrightarrow> awake s j"
proof (induction rule: sem_reach.induct)
  case start
  show ?case by (simp add: awake_def sem_init_def)
next
  case (step s l s')
  then show ?case using awake_step by blast
qed

lemma round_returns:
  assumes "unit_op op" "may_wait op" "sem_value sm > 0 \<or> removed sm" "used sm"
  shows "\<exists>sm'. semop_round pid op reg sm = (Return (if removed sm then - EIDRM else 0), sm')"
proof (cases "removed sm")
  case False
  have "sint (sem_op op) \<le> 0" using assms(2) by (simp add: may_wait_def)
  then show ?thesis using unit_can_apply [OF assms(1), of sm] False assms(3,4) by (simp add: semop_round_def)
qed (simp add: semop_round_def)

lemma try_returns:
  assumes "pc s t = At_lock i op reg" "unit_op op" "may_wait op"
    "sem_value (sets s ! i) > 0 \<or> removed (sets s ! i)" "used (sets s ! i)"
  shows "\<exists>s'. sem_step P (Try t) s s' \<and> pc s' t = Returned (if removed (sets s ! i) then - EIDRM else 0)"
proof -
  obtain sm' where "semop_round 0 op reg (sets s ! i) = (Return (if removed (sets s ! i) then - EIDRM else 0), sm')"
    using round_returns [OF assms(2-5)] by blast
  from sem_step.try_return [OF assms(1) this, of P] show ?thesis by (intro exI conjI) (assumption, simp)
qed

section \<open>A run\<close>

definition demo_op :: "16 word \<Rightarrow> linux_sembuf" where
  "demo_op k = \<lparr>sem_num = 0, sem_op = k, sem_flg = 0\<rparr>"

definition demo_sys :: "16 word \<Rightarrow> 64 word \<Rightarrow> bool \<Rightarrow> (tid \<Rightarrow> sem_pc) \<Rightarrow> sem_sys" where
  "demo_sys v d e p = \<lparr>sets = empty_set\<lparr>used := True, nsems := 1, sem_value := v, decrement_waiters := d,
     changed_event := Some e\<rparr> # replicate 255 empty_set, pc = p\<rparr>"

lemma semget_scan_unused:
  "free_index \<noteq> MAX_SYSV_SEM_SETS \<Longrightarrow> semget_scan key n semflg (replicate k empty_set) i free_index = Inr free_index"
  by (induction k arbitrary: i) (simp_all add: empty_set_def)

lemma demo_get: "sem_reach P (demo_sys 0 0 False (\<lambda>t. if t = 0 then Returned 0 else Idle))"
proof -
  have m: "MAX_SYSV_SEM_SETS = Suc 255" by (simp add: MAX_SYSV_SEM_SETS_def)
  have r: "replicate MAX_SYSV_SEM_SETS empty_set = empty_set # replicate 255 empty_set" unfolding m by (rule replicate_Suc)
  have e: "\<not> used empty_set" "changed_event empty_set = None" by (simp_all add: empty_set_def)
  have scan: "semget_scan 0 1 IPC_CREAT (empty_set # replicate 255 empty_set) 0 MAX_SYSV_SEM_SETS = Inr 0"
    using semget_scan_unused [of 0 0 1 IPC_CREAT 255 1] by (simp add: e m)
  have ss: "sets sem_init = empty_set # replicate 255 empty_set" by (simp add: sem_init_def r)
  have c: "IPC_CREAT \<noteq> 0" "(0 :: nat) \<noteq> MAX_SYSV_SEM_SETS" by (simp_all add: IPC_CREAT_def m)
  have "semget_create True 0 1 0 (empty_set # replicate 255 empty_set) = (0, sets (demo_sys 0 0 False p))" for p
    by (simp add: semget_create_def demo_sys_def e) (simp add: empty_set_def)
  then have "libos_syscall_semget None True 0 1 IPC_CREAT (sets sem_init) = (0, sets (demo_sys 0 0 False p))" for p
    unfolding libos_syscall_semget_def semget_local_def ss scan by (simp add: c)
  from sem_step.get [OF _ this, of 0 P] have "sem_step P (Get 0) sem_init
      (sem_init\<lparr>sets := sets (demo_sys 0 0 False (\<lambda>t. Idle)), pc := (pc sem_init)(0 := Returned 0)\<rparr>)"
    by (simp add: sem_init_def)
  from sem_reach.step [OF sem_reach.start this] show ?thesis
    by (simp add: demo_sys_def sem_init_def fun_upd_def)
qed

lemma demo_call:
  assumes "sem_reach P (demo_sys v d e p)" "outside (p t)" "P (demo_op k)"
  shows "sem_reach P (demo_sys v d e (p(t := At_lock 0 (demo_op k) False)))"
proof -
  have "semop_start 0 1 True (demo_op k) = At_lock 0 (demo_op k) False"
    by (simp add: semop_start_def semop_check_def demo_op_def MAX_SYSV_SEM_SETS_def)
  then show ?thesis using sem_reach.step [OF assms(1) sem_step.call [of "demo_sys v d e p" t P "demo_op k" 0 1 True]]
    assms(2,3) by (simp add: demo_sys_def)
qed

lemma demo_not_nowait: "\<not> nowait (demo_op k)"
  by (simp add: nowait_def demo_op_def)

text \<open>A decrement that must wait, and an operation that goes through.\<close>

lemma demo_wait:
  assumes "sem_reach P (demo_sys v d e p)" "p t = At_lock 0 (demo_op k) reg" "sint k < 0" "uint v < - sint k"
  shows "sem_reach P (demo_sys v (if reg then d else d + 1) e (p(t := Waiting 0 (demo_op k))))"
proof -
  have "semop_round 0 (demo_op k) reg (sets (demo_sys v d e p) ! 0) =
      (Wait, sets (demo_sys v (if reg then d else d + 1) e p) ! 0)"
    using assms(3,4) demo_not_nowait [of k]
    by (auto simp: semop_round_def demo_sys_def can_apply_def add_waiter_def demo_op_def empty_set_def)
  then show ?thesis using sem_reach.step [OF assms(1) sem_step.try_wait [of "demo_sys v d e p" t 0 "demo_op k" reg 0]]
    assms(2) by (auto simp: demo_sys_def)
qed

lemma demo_up:
  assumes "sem_reach P (demo_sys 0 d e p)" "p t = At_lock 0 (demo_op 1) False" "d \<noteq> 0"
  shows "sem_reach P (demo_sys 1 d True (p(t := Returned 0)))"
proof -
  have "semop_round 0 (demo_op 1) False (sets (demo_sys 0 d e p) ! 0) =
      (Return 0, sets (demo_sys 1 d True p) ! 0)"
    using assms(3)
    by (simp add: semop_round_def demo_sys_def can_apply_def semop_apply_def demo_op_def empty_set_def PalEventSet_def)
  then show ?thesis using sem_reach.step [OF assms(1) sem_step.try_return [of "demo_sys 0 d e p" t 0 "demo_op 1" False 0]]
    assms(2) by (auto simp: demo_sys_def)
qed

lemma demo_wake:
  assumes "sem_reach P (demo_sys v d True p)" "p t = Waiting 0 op"
  shows "sem_reach P (demo_sys v d False (p(t := At_lock 0 op True)))"
  using sem_reach.step [OF assms(1) sem_step.wake [of "demo_sys v d True p" t 0 op True False]] assms(2)
  by (simp add: demo_sys_def event_exchange_def)

definition demo_pc :: "tid \<Rightarrow> sem_pc" where
  "demo_pc = (\<lambda>t. if t = 0 then Returned 0 else Idle)"

text \<open>Thread 1 waits for one unit and thread 2 has given it.\<close>

lemma demo_one_waiter: "sem_reach unit_op (demo_sys 1 1 True (demo_pc(1 := Waiting 0 (demo_op (- 1)), 2 := Returned 0)))"
proof -
  have u: "unit_op (demo_op (- 1))" "unit_op (demo_op 1)" by (simp_all add: unit_op_def demo_op_def)
  have "sem_reach unit_op (demo_sys 0 0 False demo_pc)" unfolding demo_pc_def by (rule demo_get)
  from demo_call [OF this _ u(1), of 1]
  have "sem_reach unit_op (demo_sys 0 0 False (demo_pc(1 := At_lock 0 (demo_op (- 1)) False)))"
    by (simp add: demo_pc_def)
  from demo_wait [OF this, of 1 "- 1" False]
  have "sem_reach unit_op (demo_sys 0 1 False (demo_pc(1 := Waiting 0 (demo_op (- 1)))))" by simp
  from demo_call [OF this _ u(2), of 2]
  have "sem_reach unit_op (demo_sys 0 1 False (demo_pc(1 := Waiting 0 (demo_op (- 1)), 2 := At_lock 0 (demo_op 1) False)))"
    by (simp add: demo_pc_def)
  from demo_up [OF this, of 2] show ?thesis by (simp add: fun_upd_twist)
qed

text \<open>Thread 1 waits for two units, thread 2 for one; thread 3 gives one, and thread 1 takes the event.\<close>

lemma demo_lost: "sem_reach (\<lambda>op. True)
    (demo_sys 1 2 False (demo_pc(1 := Waiting 0 (demo_op (- 2)), 2 := Waiting 0 (demo_op (- 1)), 3 := Returned 0)))"
proof -
  let ?R = "sem_reach (\<lambda>op. True)"
  have "?R (demo_sys 0 0 False demo_pc)" unfolding demo_pc_def by (rule demo_get)
  from demo_call [OF this, of 1 "- 2"]
  have "?R (demo_sys 0 0 False (demo_pc(1 := At_lock 0 (demo_op (- 2)) False)))" by (simp add: demo_pc_def)
  from demo_wait [OF this, of 1 "- 2" False]
  have "?R (demo_sys 0 1 False (demo_pc(1 := Waiting 0 (demo_op (- 2)))))" by simp
  from demo_call [OF this, of 2 "- 1"]
  have "?R (demo_sys 0 1 False (demo_pc(1 := Waiting 0 (demo_op (- 2)), 2 := At_lock 0 (demo_op (- 1)) False)))"
    by (simp add: demo_pc_def)
  from demo_wait [OF this, of 2 "- 1" False]
  have "?R (demo_sys 0 2 False (demo_pc(1 := Waiting 0 (demo_op (- 2)), 2 := Waiting 0 (demo_op (- 1)))))" by simp
  from demo_call [OF this, of 3 1]
  have "?R (demo_sys 0 2 False (demo_pc(1 := Waiting 0 (demo_op (- 2)), 2 := Waiting 0 (demo_op (- 1)),
      3 := At_lock 0 (demo_op 1) False)))" by (simp add: demo_pc_def)
  from demo_up [OF this, of 3]
  have "?R (demo_sys 1 2 True (demo_pc(1 := Waiting 0 (demo_op (- 2)), 2 := Waiting 0 (demo_op (- 1)), 3 := Returned 0)))"
    by simp
  from demo_wake [OF this, of 1 "demo_op (- 2)"]
  have "?R (demo_sys 1 2 False (demo_pc(1 := At_lock 0 (demo_op (- 2)) True, 2 := Waiting 0 (demo_op (- 1)), 3 := Returned 0)))"
    by (simp add: fun_upd_twist)
  from demo_wait [OF this, of 1 "- 2" True] show ?thesis by (simp add: fun_upd_twist)
qed

section \<open>The host and removed sets\<close>

text \<open>A forwarded call with a timeout ends: each round takes a millisecond or the rest of the time.\<close>

lemma host_semop_ends:
  "t div 1000 + 1 < length rounds \<Longrightarrow> \<exists>r left. host_semop op (Some t) rounds = Some (r, left)"
proof (induction rounds arbitrary: t)
  case (Cons x rounds)
  obtain ret slept where x: "x = (ret, slept)" by (cases x)
  show ?case
  proof (cases "t \<le> 1000")
    case True
    moreover obtain y ys where "rounds = y # ys" using Cons.prems by (cases rounds) auto
    ultimately show ?thesis by (cases y) (auto simp: x Let_def)
  next
    case False
    then have "(t - 1000) div 1000 + 1 < length rounds" using Cons.prems by (simp add: le_div_geq)
    then show ?thesis using Cons.IH [of "t - 1000"] False by (auto simp: x Let_def)
  qed
qed simp

text \<open>The slot of a removed set stays in use: no operation gives it back, and \<^verbatim>\<open>semget\<close> with its key returns it.\<close>

lemma semctl_set_used: "semctl_set pid semnum cmd arg sm = (r, sm') \<Longrightarrow> used sm' = used sm"
  by (auto simp: semctl_set_def split: if_splits)

lemma used_stays: "sem_step P l s s' \<Longrightarrow> sem_ok s \<Longrightarrow> i < MAX_SYSV_SEM_SETS \<Longrightarrow> used (sets s ! i) \<Longrightarrow> used (sets s' ! i)"
proof (induction rule: sem_step.induct)
  case (try_return s t k op reg pid r sm)
  have "used sm = used (sets s ! k)" using try_return(2)
    by (auto simp: semop_round_def semop_apply_sel Let_def split: if_splits)
  then show ?case using try_return(5) update_keeps [of used sm] by simp
next
  case (try_wait s t k op reg pid sm)
  have "used sm = used (sets s ! k)" using try_wait(2) by (auto simp: semop_round_def split: if_splits)
  then show ?case using try_wait(5) update_keeps [of used sm] by simp
next
  case (get s t event_ok key n semflg r ss)
  have "length (sets s) = MAX_SYSV_SEM_SETS" using get(3) by (simp add: sem_ok_def)
  from semget_effect [OF this get(2)] get(5) show ?case by (auto, metis nth_list_update_neq)
next
  case (ctl s t pid semid semnum cmd arg r ss)
  then show ?case
    by (auto simp: libos_syscall_semctl_def Let_def update_keeps dest!: semctl_set_used split: if_splits prod.splits)
qed (simp_all add: update_keeps)

section \<open>Properties\<close>

text \<open>C16: In every reachable state the value of a semaphore is at most 32767, and the two counters of a set are the
  numbers of threads that wait to decrement it and that wait for zero. No counter wraps, and no addition to the
  value does.\<close>

theorem sem_values_and_counts:
  assumes "sem_reach P s" "i < MAX_SYSV_SEM_SETS"
  shows "unat (sem_value (sets s ! i)) \<le> 32767 \<and>
    unat (decrement_waiters (sets s ! i)) = card {t. counted i decrements (pc s t)} \<and>
    unat (zero_waiters (sets s ! i)) = card {t. counted i tests_zero (pc s t)}"
proof -
  have ok: "set_ok (sets s ! i)" "counts_ok s i" using sem_reach_ok [OF assms(1)] assms(2) by (simp_all add: sem_ok_def)
  then show ?thesis using unat_number by (simp add: set_ok_def counts_ok_def nat_le_iff flip: nat_uint_eq)
qed

theorem sem_values_and_counts_witness:
  "card {t. counted 0 decrements (pc (demo_sys 1 2 False (demo_pc(1 := Waiting 0 (demo_op (- 2)),
      2 := Waiting 0 (demo_op (- 1)), 3 := Returned 0))) t)} = 2"
  using sem_values_and_counts [OF demo_lost, of 0] by (simp add: demo_sys_def MAX_SYSV_SEM_SETS_def)

text \<open>C11: In a program that decrements by one and does not wait for zero, no wake-up is lost: whenever a thread waits
  on a set that has a positive value or has been removed, some waiting thread can take the event, or is already
  back at the lock, and its next round returns.\<close>

theorem sem_unit_progress:
  assumes "sem_reach unit_op s" "pc s t = Waiting i op" "sem_value (sets s ! i) > 0 \<or> removed (sets s ! i)"
  shows "\<exists>u s1 s2. counted i unit_op (pc s u) \<and> (s1 = s \<or> sem_step unit_op (Wake u) s s1) \<and>
    sem_step unit_op (Try u) s1 s2 \<and> pc s2 u = Returned (if removed (sets s ! i) then - EIDRM else 0)"
proof -
  have ok: "sem_ok s" by (rule sem_reach_ok [OF assms(1)])
  have pcs: "pc_ok (sets s) (pc s u)" for u using ok by (simp add: sem_ok_def)
  have i: "i < MAX_SYSV_SEM_SETS" and used: "used (sets s ! i)" and len: "length (sets s) = MAX_SYSV_SEM_SETS"
    using pcs [of t] assms(2) ok by (simp_all add: sem_ok_def)
  consider (event) "changed_event (sets s ! i) = Some True" | (returned) u q where "pc s u = At_lock i q True"
    using awakeD [OF sem_reach_awake [OF assms(1)] assms(2,3)] by blast
  then show ?thesis
  proof cases
    case event
    define s1 where "s1 = s\<lparr>sets := (sets s)[i := (sets s ! i)\<lparr>changed_event := Some False\<rparr>],
        pc := (pc s)(t := At_lock i op True)\<rparr>"
    have w: "sem_step unit_op (Wake t) s s1" unfolding s1_def
      by (rule sem_step.wake [OF assms(2) event]) (simp add: event_exchange_def)
    have op: "unit_op op" "may_wait op" using all_ops_at(2) [OF sem_reach_ops [OF assms(1)] assms(2)] pcs [of t] assms(2) by simp_all
    have rm: "removed (sets s1 ! i) = removed (sets s ! i)" using len i by (simp add: s1_def)
    have "sem_value (sets s1 ! i) > 0 \<or> removed (sets s1 ! i)" "used (sets s1 ! i)" "pc s1 t = At_lock i op True"
      using assms(3) used len i by (simp_all add: s1_def)
    then obtain s2 where "sem_step unit_op (Try t) s1 s2" "pc s2 t = Returned (if removed (sets s ! i) then - EIDRM else 0)"
      using try_returns [OF _ op, of s1 t i True unit_op] rm by auto
    moreover have "counted i unit_op (pc s t)" using assms(2) op(1) by simp
    ultimately show ?thesis using w by blast
  next
    case returned
    have q: "unit_op q" "may_wait q" using all_ops_at(1) [OF sem_reach_ops [OF assms(1)] returned] pcs [of u] returned by simp_all
    moreover have "counted i unit_op (pc s u)" using returned q(1) by simp
    ultimately show ?thesis using try_returns [OF returned q assms(3) used, of unit_op] by blast
  qed
qed

theorem sem_unit_progress_witness:
  "\<exists>u s1 s2. sem_step unit_op (Try u) s1 s2 \<and> pc s2 u = Returned 0"
  using sem_unit_progress [OF demo_one_waiter, of 1 0 "demo_op (- 1)"]
  by (auto simp: demo_sys_def empty_set_def)

text \<open>C38: With decrements by more than one a wake-up is lost. A reachable state has the value 1 and a thread that waits
  to decrement by one, which could be applied, but the event is clear and no thread is on the way to the lock:
  the one event of the increment went to a thread that waits for two units, which went back to wait.\<close>

theorem sem_lost_wakeup:
  "\<exists>s. sem_reach (\<lambda>op. True) s \<and> pc s 2 = Waiting 0 (demo_op (- 1)) \<and> can_apply (demo_op (- 1)) (sets s ! 0) \<and>
     \<not> removed (sets s ! 0) \<and>
     \<not> (\<exists>t s'. sem_step (\<lambda>op. True) (Wake t) s s' \<or> sem_step (\<lambda>op. True) (Try t) s s' \<or>
               sem_step (\<lambda>op. True) (Cleanup t) s s')"
proof -
  define p where "p = demo_pc(1 := Waiting 0 (demo_op (- 2)), 2 := Waiting 0 (demo_op (- 1)), 3 := Returned 0)"
  define s where "s = demo_sys 1 2 False p"
  have e: "changed_event (sets s ! 0) = Some False" by (simp add: s_def demo_sys_def)
  have pc: "pc s t = Waiting 0 (demo_op (- 2)) \<or> pc s t = Waiting 0 (demo_op (- 1)) \<or> outside (pc s t)" for t
    by (simp add: s_def demo_sys_def p_def demo_pc_def)
  have "\<not> sem_step (\<lambda>op. True) (Wake t) s s'" for t s'
    using pc [of t] e by (auto elim!: sem_step.cases simp: event_exchange_def)
  moreover have "\<not> sem_step (\<lambda>op. True) (Try t) s s'" "\<not> sem_step (\<lambda>op. True) (Cleanup t) s s'" for t s'
    using pc [of t] by (auto elim!: sem_step.cases)
  moreover have "sem_reach (\<lambda>op. True) s" unfolding s_def p_def by (rule demo_lost)
  moreover have "pc s 2 = Waiting 0 (demo_op (- 1))" "can_apply (demo_op (- 1)) (sets s ! 0)" "\<not> removed (sets s ! 0)"
    by (simp_all add: s_def demo_sys_def p_def can_apply_def demo_op_def empty_set_def)
  ultimately show ?thesis by blast
qed

end
