(* ===== verification/Handle_Map.thy ===== *)
theory Handle_Map
  imports Prelude
begin

text \<open>
  The table of file descriptors, \<^verbatim>\<open>libos/src/bookkeep/libos_handle.c\<close>, and the system calls that change it
  (\<^verbatim>\<open>libos_dup.c\<close>, parts of \<^verbatim>\<open>libos_open.c\<close>). Descriptors are \<^verbatim>\<open>uint32_t\<close> values as naturals; a handle is its number
  \<^verbatim>\<open>hdl->id\<close>. The \<open>n\<close>-th allocation succeeds when \<open>M n\<close>; the limit of open files, the answers of the host and the
  result of \<^verbatim>\<open>open_namei\<close> are arguments. The result \<open>None\<close> stands for a failed assertion, a call of \<^verbatim>\<open>BUG\<close> or the
  dereference of a null pointer.
\<close>

section \<open>Data\<close>

type_synonym hdl = nat

definition FD_NULL :: nat where "FD_NULL = 2 ^ 32 - 1"
definition INIT_HANDLE_MAP_SIZE :: nat where "INIT_HANDLE_MAP_SIZE = 32"
definition FD_CLOEXEC :: flags where "FD_CLOEXEC = 1"
definition O_CLOEXEC :: flags where "O_CLOEXEC = 524288"
definition SG_HOST_FD_OFFSET :: int where "SG_HOST_FD_OFFSET = 500"
definition CLOSE_RANGE_UNSHARE :: flags where "CLOSE_RANGE_UNSHARE = 2"
definition CLOSE_RANGE_CLOEXEC :: flags where "CLOSE_RANGE_CLOEXEC = 4"
definition ENFILE :: int where "ENFILE = 23"

record libos_fd_handle =
  vfd :: nat
  fd_flags :: flags
  fd_hdl :: "hdl option"

record libos_handle_map =
  fd_size :: nat
  fd_top :: nat
  map_ref :: int
  fds :: "libos_fd_handle option list"

datatype libos_handle_type = TYPE_HOST | TYPE_HOST_IDENTITY | TYPE_OTHER

text \<open>All handles: reference counts and types, the counter of identities, and what has happened to them: the handles
  destroyed, and those whose POSIX locks were cleared.\<close>

record handles =
  ref_count :: "hdl \<Rightarrow> int"
  hdl_type :: "hdl \<Rightarrow> libos_handle_type"
  local_id_counter :: nat
  destroyed :: "hdl list"
  posix_cleared :: "hdl list"
  mallocs :: nat

definition malloc :: "(nat \<Rightarrow> bool) \<Rightarrow> handles \<Rightarrow> bool \<times> handles" where
  "malloc M w = (M (mallocs w), w\<lparr>mallocs := Suc (mallocs w)\<rparr>)"

definition HANDLE_ALLOCATED :: "libos_fd_handle option \<Rightarrow> bool" where
  "HANDLE_ALLOCATED f = (case f of None \<Rightarrow> False | Some g \<Rightarrow> vfd g \<noteq> FD_NULL)"

text \<open>The conversion of a \<^verbatim>\<open>uint32_t\<close> to \<^verbatim>\<open>int\<close>.\<close>

definition int_of_u32 :: "nat \<Rightarrow> int" where
  "int_of_u32 n = (if n < 2 ^ 31 then int n else int n - 2 ^ 32)"

section \<open>Handles\<close>

definition get_handle :: "hdl \<Rightarrow> handles \<Rightarrow> handles" where
  "get_handle h w = w\<lparr>ref_count := (ref_count w)(h := ref_count w h + 1)\<rparr>"

definition put_handle :: "hdl \<Rightarrow> handles \<Rightarrow> handles" where
  "put_handle h w =
     (let w1 = w\<lparr>ref_count := (ref_count w)(h := ref_count w h - 1)\<rparr>
      in if ref_count w1 h = 0 then w1\<lparr>destroyed := destroyed w1 @ [h]\<rparr> else w1)"

definition clear_posix_locks :: "hdl option \<Rightarrow> handles \<Rightarrow> handles" where
  "clear_posix_locks h w = (case h of None \<Rightarrow> w | Some k \<Rightarrow> w\<lparr>posix_cleared := posix_cleared w @ [k]\<rparr>)"

text \<open>The three allocations of \<^verbatim>\<open>get_new_handle\<close> are the object and its two locks.\<close>

definition get_new_handle :: "(nat \<Rightarrow> bool) \<Rightarrow> nat \<Rightarrow> handles \<Rightarrow> (hdl option \<times> handles) option" where
  "get_new_handle M pid w =
     (let (ok1, w1) = malloc M w
      in if \<not> ok1 then Some (None, w1)
      else let (ok2, w2) = malloc M w1
      in if \<not> ok2 then Some (None, w2)
      else let (ok3, w3) = malloc M w2
      in if \<not> ok3 then Some (None, w3)
      else let next_id_counter = (local_id_counter w3 + 1) mod 2 ^ 32
      in if next_id_counter = 0 then None
      else let h = pid * 2 ^ 32 + next_id_counter
      in Some (Some h, w3\<lparr>local_id_counter := next_id_counter, ref_count := (ref_count w3)(h := 1),
                          hdl_type := (hdl_type w3)(h := TYPE_OTHER)\<rparr>))"

section \<open>Looking up, removing and adding descriptors\<close>

definition u_get_fd_handle :: "nat \<Rightarrow> libos_handle_map \<Rightarrow> (hdl \<times> flags) option" where
  "u_get_fd_handle fd m =
     (if fd_top m \<noteq> FD_NULL \<and> fd \<le> fd_top m
      then (if HANDLE_ALLOCATED (fds m ! fd)
            then (case fds m ! fd of Some f \<Rightarrow> map_option (\<lambda>h. (h, fd_flags f)) (fd_hdl f) | None \<Rightarrow> None)
            else None)
      else None)"

definition get_fd_handle :: "nat \<Rightarrow> libos_handle_map \<Rightarrow> handles \<Rightarrow> hdl option \<times> handles" where
  "get_fd_handle fd m w =
     (case u_get_fd_handle fd m of
        Some (h, fl) \<Rightarrow> (Some h, get_handle h w)
      | None \<Rightarrow> (None, w))"

text \<open>The loop that looks for the new top below a removed one.\<close>

fun lower_top :: "libos_fd_handle option list \<Rightarrow> nat \<Rightarrow> nat" where
  "lower_top xs 0 = FD_NULL"
| "lower_top xs (Suc v) = (if HANDLE_ALLOCATED (xs ! v) then v else lower_top xs v)"

definition u_detach_fd_handle :: "nat \<Rightarrow> libos_handle_map \<Rightarrow> hdl option \<times> libos_handle_map" where
  "u_detach_fd_handle i m =
     (case fds m ! i of
        None \<Rightarrow> (None, m)
      | Some f \<Rightarrow>
          if vfd f = FD_NULL then (None, m)
          else let xs = (fds m)[i := Some \<lparr>vfd = FD_NULL, fd_flags = 0, fd_hdl = None\<rparr>]
               in (fd_hdl f, m\<lparr>fds := xs, fd_top := if vfd f = fd_top m then lower_top xs (vfd f) else fd_top m\<rparr>))"

definition detach_fd_handle :: "nat \<Rightarrow> libos_handle_map \<Rightarrow> handles \<Rightarrow> hdl option \<times> libos_handle_map \<times> handles" where
  "detach_fd_handle fd m w =
     (let (h, m') = (if fd < fd_size m then u_detach_fd_handle fd m else (None, m))
      in (h, m', clear_posix_locks h w))"

definition u_init_handle :: "(nat \<Rightarrow> bool) \<Rightarrow> nat \<Rightarrow> hdl \<Rightarrow> flags \<Rightarrow> libos_handle_map \<Rightarrow> handles \<Rightarrow>
    (int \<times> libos_handle_map \<times> handles) option" where
  "u_init_handle M fd h fl m w =
     (if fl AND NOT FD_CLOEXEC \<noteq> 0 then None
      else let (ok, w1) = (if fds m ! fd = None then malloc M w else (True, w))
      in if \<not> ok then Some (- ENOMEM, m, w1)
      else Some (0, m\<lparr>fds := (fds m)[fd := Some \<lparr>vfd = fd, fd_flags = fl, fd_hdl = Some h\<rparr>]\<rparr>, get_handle h w1))"

definition u_enlarge_handle_map :: "(nat \<Rightarrow> bool) \<Rightarrow> nat \<Rightarrow> libos_handle_map \<Rightarrow> handles \<Rightarrow> int \<times> libos_handle_map \<times> handles" where
  "u_enlarge_handle_map M new_size m w =
     (if new_size \<le> fd_size m then (0, m, w)
      else let (ok, w1) = malloc M w
      in if \<not> ok then (- ENOMEM, m, w1)
      else (0, m\<lparr>fds := fds m @ replicate (new_size - fd_size m) None, fd_size := new_size\<rparr>, w1))"

text \<open>The two loops of \<^verbatim>\<open>__set_new_fd_handle\<close>: the search for a free descriptor, and the doubling of the size, which is
  never 0.\<close>

function find_free :: "libos_handle_map \<Rightarrow> nat \<Rightarrow> nat" where
  "find_free m fd = (if fd \<le> fd_top m \<and> HANDLE_ALLOCATED (fds m ! fd) then find_free m (Suc fd) else fd)"
  by pat_completeness auto
termination by (relation "measure (\<lambda>(m, fd). Suc (fd_top m) - fd)") auto

declare find_free.simps [simp del]

function grow_size :: "nat \<Rightarrow> nat \<Rightarrow> nat option" where
  "grow_size new_size fd =
     (if fd < new_size then Some new_size
      else if new_size = 0 \<or> 2 ^ 32 \<le> 2 * new_size then None
      else grow_size (2 * new_size) fd)"
  by pat_completeness auto
termination by (relation "measure (\<lambda>(n, fd). Suc fd - n)") auto

declare grow_size.simps [simp del]

definition enlarge_for :: "(nat \<Rightarrow> bool) \<Rightarrow> nat \<Rightarrow> libos_handle_map \<Rightarrow> handles \<Rightarrow> int \<times> libos_handle_map \<times> handles" where
  "enlarge_for M fd m w =
     (if fd \<ge> fd_size m
      then (case grow_size (if fd_size m = 0 then INIT_HANDLE_MAP_SIZE else fd_size m) fd of
              None \<Rightarrow> (- ENFILE, m, w)
            | Some new_size \<Rightarrow> u_enlarge_handle_map M new_size m w)
      else (0, m, w))"

definition u_set_new_fd_handle :: "(nat \<Rightarrow> bool) \<Rightarrow> nat \<Rightarrow> nat \<Rightarrow> hdl \<Rightarrow> flags \<Rightarrow> bool \<Rightarrow> libos_handle_map \<Rightarrow> handles \<Rightarrow>
    (int \<times> libos_handle_map \<times> handles) option" where
  "u_set_new_fd_handle M rlimit fd0 h fl search m w =
     (let fd = (if fd_top m \<noteq> FD_NULL \<and> search then find_free m fd0 else fd0)
      in if fd_top m \<noteq> FD_NULL \<and> \<not> search \<and> fd \<le> fd_top m \<and> HANDLE_ALLOCATED (fds m ! fd)
         then Some (- EBADF, m, w)
      else if fd \<ge> rlimit then Some (- EMFILE, m, w)
      else let (ret, m1, w1) = enlarge_for M fd m w
      in if ret < 0 then Some (ret, m1, w1)
      else if \<not> fd < fd_size m1 then None
      else case u_init_handle M fd h fl m1 w1 of
             None \<Rightarrow> None
           | Some (ret, m2, w2) \<Rightarrow>
               if ret < 0 then Some (ret, m2, w2)
               else Some (int_of_u32 fd, if fd_top m2 = FD_NULL \<or> fd > fd_top m2 then m2\<lparr>fd_top := fd\<rparr> else m2, w2))"

definition set_new_fd_handle :: "(nat \<Rightarrow> bool) \<Rightarrow> nat \<Rightarrow> hdl \<Rightarrow> flags \<Rightarrow> libos_handle_map \<Rightarrow> handles \<Rightarrow>
    (int \<times> libos_handle_map \<times> handles) option" where
  "set_new_fd_handle M rlimit h fl m w = u_set_new_fd_handle M rlimit 0 h fl True m w"

definition set_new_fd_handle_by_fd :: "(nat \<Rightarrow> bool) \<Rightarrow> nat \<Rightarrow> nat \<Rightarrow> hdl \<Rightarrow> flags \<Rightarrow> libos_handle_map \<Rightarrow> handles \<Rightarrow>
    (int \<times> libos_handle_map \<times> handles) option" where
  "set_new_fd_handle_by_fd M rlimit fd h fl m w = u_set_new_fd_handle M rlimit fd h fl False m w"

definition set_new_fd_handle_above_fd :: "(nat \<Rightarrow> bool) \<Rightarrow> nat \<Rightarrow> nat \<Rightarrow> hdl \<Rightarrow> flags \<Rightarrow> libos_handle_map \<Rightarrow> handles \<Rightarrow>
    (int \<times> libos_handle_map \<times> handles) option" where
  "set_new_fd_handle_above_fd M rlimit fd h fl m w = u_set_new_fd_handle M rlimit fd h fl True m w"

section \<open>Whole tables\<close>

definition get_new_handle_map :: "(nat \<Rightarrow> bool) \<Rightarrow> nat \<Rightarrow> handles \<Rightarrow> libos_handle_map option \<times> handles" where
  "get_new_handle_map M sz w =
     (let (ok1, w1) = malloc M w
      in if \<not> ok1 then (None, w1)
      else let (ok2, w2) = malloc M w1
      in if \<not> ok2 then (None, w2)
      else let (ok3, w3) = malloc M w2
      in if \<not> ok3 then (None, w3)
      else (Some \<lparr>fd_size = sz, fd_top = FD_NULL, map_ref = 1, fds = replicate sz None\<rparr>, w3))"

text \<open>The copy loop of \<^verbatim>\<open>dup_handle_map\<close>: \<open>Inl\<close> when an allocation fails, with the slots written so far.\<close>

fun dup_slots :: "(nat \<Rightarrow> bool) \<Rightarrow> libos_fd_handle option list \<Rightarrow> libos_fd_handle option list \<Rightarrow> handles \<Rightarrow>
    (libos_fd_handle option list \<times> handles) + (libos_fd_handle option list \<times> handles)" where
  "dup_slots M [] done w = Inr (done, w)"
| "dup_slots M (f # fs) done w =
     (case f of
        None \<Rightarrow> dup_slots M fs (done @ [None]) w
      | Some g \<Rightarrow>
          if vfd g = FD_NULL then dup_slots M fs (done @ [None]) w
          else let w1 = (case fd_hdl g of Some h \<Rightarrow> get_handle h w | None \<Rightarrow> w);
                   (ok, w2) = malloc M w1
               in if \<not> ok then Inl (done, w2)
                  else dup_slots M fs (done @ [Some \<lparr>vfd = vfd g, fd_flags = fd_flags g, fd_hdl = fd_hdl g\<rparr>]) w2)"

text \<open>The loop that gives the copied handles back; a slot that was not allocated is a null pointer.\<close>

fun undo_slots :: "libos_fd_handle option list \<Rightarrow> handles \<Rightarrow> handles option" where
  "undo_slots [] w = Some w"
| "undo_slots (None # fs) w = None"
| "undo_slots (Some g # fs) w = undo_slots fs (case fd_hdl g of Some h \<Rightarrow> put_handle h w | None \<Rightarrow> w)"

text \<open>The result, the new table, and whether the lock of the old table is still held.\<close>

definition dup_handle_map :: "(nat \<Rightarrow> bool) \<Rightarrow> libos_handle_map \<Rightarrow> handles \<Rightarrow>
    (int \<times> libos_handle_map option \<times> handles \<times> bool) option" where
  "dup_handle_map M old w =
     (let (new, w1) = get_new_handle_map M (fd_size old) w
      in case new of
           None \<Rightarrow> Some (- ENOMEM, None, w1, True)
         | Some nm \<Rightarrow>
             if fd_top old = FD_NULL then Some (0, Some nm, w1, False)
             else (case dup_slots M (take (Suc (fd_top old)) (fds old)) [] w1 of
                    Inl (done, w2) \<Rightarrow> map_option (\<lambda>w3. (- ENOMEM, None, w3, False)) (undo_slots done w2)
                  | Inr (done, w2) \<Rightarrow>
                      Some (0, Some (nm\<lparr>fd_top := fd_top old, fds := done @ drop (length done) (fds nm)\<rparr>), w2, False)))"

fun put_slots :: "libos_fd_handle option list \<Rightarrow> handles \<Rightarrow> handles" where
  "put_slots [] w = w"
| "put_slots (f # fs) w =
     put_slots fs (case f of
        None \<Rightarrow> w
      | Some g \<Rightarrow> if vfd g \<noteq> FD_NULL then (case fd_hdl g of Some h \<Rightarrow> put_handle h w | None \<Rightarrow> w) else w)"

definition put_handle_map :: "libos_handle_map \<Rightarrow> handles \<Rightarrow> libos_handle_map option \<times> handles" where
  "put_handle_map m w =
     (if map_ref m - 1 = 0
      then (None, if fd_top m = FD_NULL then w else put_slots (take (Suc (fd_top m)) (fds m)) w)
      else (Some (m\<lparr>map_ref := map_ref m - 1\<rparr>), w))"

text \<open>
  The loops over the table. The table only loses descriptors on the way, so \<^verbatim>\<open>fd_size\<close> rounds are enough
  (\<open>walk_fds_ends\<close>); the bound \<open>last_fd\<close> is that of \<^verbatim>\<open>close_handle_range\<close>. An allocated slot has a handle.
\<close>

fun walk_fds :: "nat \<Rightarrow> (nat \<Rightarrow> libos_handle_map \<Rightarrow> handles \<Rightarrow> libos_handle_map \<times> handles) \<Rightarrow> nat \<Rightarrow> nat \<Rightarrow>
    libos_handle_map \<Rightarrow> handles \<Rightarrow> libos_handle_map \<times> handles" where
  "walk_fds 0 body last_fd i m w = (m, w)"
| "walk_fds (Suc n) body last_fd i m w =
     (if fd_top m \<noteq> FD_NULL \<and> i \<le> fd_top m \<and> i \<le> last_fd
      then (let (m', w') = (if HANDLE_ALLOCATED (fds m ! i) then body i m w else (m, w))
            in walk_fds n body last_fd (Suc i) m' w')
      else (m, w))"

definition put_detached :: "hdl option \<Rightarrow> handles \<Rightarrow> handles" where
  "put_detached h w = (case h of None \<Rightarrow> w | Some k \<Rightarrow> put_handle k w)"

definition detach_fd :: "nat \<Rightarrow> libos_handle_map \<Rightarrow> handles \<Rightarrow> libos_handle_map \<times> handles" where
  "detach_fd i m w = (let (h, m') = u_detach_fd_handle i m in (m', put_detached h w))"

definition detach_all_fds :: "libos_handle_map \<Rightarrow> handles \<Rightarrow> libos_handle_map \<times> handles" where
  "detach_all_fds m w = walk_fds (fd_size m) detach_fd FD_NULL 0 m w"

definition close_one :: "nat \<Rightarrow> libos_handle_map \<Rightarrow> handles \<Rightarrow> libos_handle_map \<times> handles" where
  "close_one i m w = (let (h, m') = u_detach_fd_handle i m in (m', put_detached h (clear_posix_locks h w)))"

definition cloexec_body :: "nat \<Rightarrow> libos_handle_map \<Rightarrow> handles \<Rightarrow> libos_handle_map \<times> handles" where
  "cloexec_body i m w =
     (case fds m ! i of
        Some f \<Rightarrow> if has_flag (fd_flags f) FD_CLOEXEC then close_one i m w else (m, w)
      | None \<Rightarrow> (m, w))"

definition close_cloexec_handles :: "libos_handle_map \<Rightarrow> handles \<Rightarrow> libos_handle_map \<times> handles" where
  "close_cloexec_handles m w = walk_fds (fd_size m) cloexec_body FD_NULL 0 m w"

definition range_body :: "bool \<Rightarrow> nat \<Rightarrow> libos_handle_map \<Rightarrow> handles \<Rightarrow> libos_handle_map \<times> handles" where
  "range_body cloexec i m w =
     (if cloexec
      then (m\<lparr>fds := (fds m)[i := map_option (\<lambda>f. f\<lparr>fd_flags := fd_flags f OR FD_CLOEXEC\<rparr>) (fds m ! i)]\<rparr>, w)
      else close_one i m w)"

definition close_handle_range :: "nat \<Rightarrow> nat \<Rightarrow> bool \<Rightarrow> libos_handle_map \<Rightarrow> handles \<Rightarrow> libos_handle_map \<times> handles" where
  "close_handle_range first last_fd cloexec m w = walk_fds (fd_size m) (range_body cloexec) last_fd first m w"

section \<open>The table as a map\<close>

text \<open>A well-formed table: its size is that of its array, the top is the last allocated slot, and each allocated
  slot holds its own descriptor, a handle and no flag but \<^verbatim>\<open>FD_CLOEXEC\<close>.\<close>

definition slot_ok :: "nat \<Rightarrow> libos_fd_handle option \<Rightarrow> bool" where
  "slot_ok i f \<longleftrightarrow> (case f of None \<Rightarrow> True
     | Some g \<Rightarrow> vfd g \<noteq> FD_NULL \<longrightarrow> vfd g = i \<and> fd_hdl g \<noteq> None \<and> fd_flags g AND NOT FD_CLOEXEC = 0)"

definition top_ok :: "nat \<Rightarrow> libos_fd_handle option list \<Rightarrow> bool" where
  "top_ok v xs \<longleftrightarrow>
     (v \<noteq> FD_NULL \<longrightarrow> v < length xs \<and> HANDLE_ALLOCATED (xs ! v)) \<and>
     (\<forall>i < length xs. HANDLE_ALLOCATED (xs ! i) \<longrightarrow> v \<noteq> FD_NULL \<and> i \<le> v)"

definition map_ok :: "libos_handle_map \<Rightarrow> bool" where
  "map_ok m \<longleftrightarrow> fd_size m = length (fds m) \<and> fd_size m \<le> FD_NULL \<and> top_ok (fd_top m) (fds m) \<and>
     (\<forall>i < length (fds m). slot_ok i (fds m ! i))"

definition slot_view :: "libos_fd_handle option \<Rightarrow> (hdl \<times> flags) option" where
  "slot_view f = (if HANDLE_ALLOCATED f
     then (case f of Some g \<Rightarrow> map_option (\<lambda>h. (h, fd_flags g)) (fd_hdl g) | None \<Rightarrow> None) else None)"

definition fd_view :: "libos_handle_map \<Rightarrow> nat \<Rightarrow> (hdl \<times> flags) option" where
  "fd_view m fd = (if fd < length (fds m) then slot_view (fds m ! fd) else None)"

text \<open>How many descriptors refer to a handle.\<close>

definition refers :: "hdl \<Rightarrow> libos_fd_handle option \<Rightarrow> bool" where
  "refers h f \<longleftrightarrow> (\<exists>fl. slot_view f = Some (h, fl))"

definition slots :: "libos_handle_map \<Rightarrow> hdl \<Rightarrow> int" where
  "slots m h = int (length (filter (refers h) (fds m)))"

section \<open>Lookup and counting\<close>

lemma view_allocated: "map_ok m \<Longrightarrow> i < length (fds m) \<Longrightarrow> fd_view m i = None \<longleftrightarrow> \<not> HANDLE_ALLOCATED (fds m ! i)"
  by (auto simp: map_ok_def slot_ok_def fd_view_def slot_view_def HANDLE_ALLOCATED_def split: option.splits)

lemma u_get_fd_handle_view: "map_ok m \<Longrightarrow> u_get_fd_handle fd m = fd_view m fd"
  by (auto simp: u_get_fd_handle_def fd_view_def slot_view_def map_ok_def top_ok_def)

lemma view_above_top: "map_ok m \<Longrightarrow> fd_top m = FD_NULL \<or> fd_top m < fd \<Longrightarrow> fd_view m fd = None"
  by (auto simp: fd_view_def slot_view_def map_ok_def top_ok_def)

lemma count_update:
  "i < length xs \<Longrightarrow> int (length (filter P (xs[i := y]))) =
     int (length (filter P xs)) + of_bool (P y) - of_bool (P (xs ! i))"
proof (induction xs arbitrary: i)
  case (Cons x xs)
  then show ?case by (cases i) auto
qed simp

lemma slots_update:
  "i < length (fds m) \<Longrightarrow> slots (m\<lparr>fds := (fds m)[i := y]\<rparr>) h =
     slots m h + of_bool (refers h y) - of_bool (refers h (fds m ! i))"
  by (simp add: slots_def count_update)

lemma slots_top [simp]: "slots (m\<lparr>fd_top := v\<rparr>) h = slots m h"
  by (simp add: slots_def)

lemma fd_view_top [simp]: "fd_view (m\<lparr>fd_top := v\<rparr>) = fd_view m"
  by (auto simp: fd_view_def)

lemma fd_view_update:
  "i < length (fds m) \<Longrightarrow> fd_view (m\<lparr>fds := (fds m)[i := y]\<rparr>) = (fd_view m)(i := slot_view y)"
  by (auto simp: fd_view_def)

section \<open>Removing a descriptor\<close>

lemma lower_top_ok:
  "v \<le> length xs \<Longrightarrow> v \<le> FD_NULL \<Longrightarrow> (\<forall>i < length xs. HANDLE_ALLOCATED (xs ! i) \<longrightarrow> i < v) \<Longrightarrow> top_ok (lower_top xs v) xs"
proof (induction xs v rule: lower_top.induct)
  case (2 xs v)
  show ?case
  proof (cases "HANDLE_ALLOCATED (xs ! v)")
    case True
    then show ?thesis using "2.prems" by (auto simp: top_ok_def)
  next
    case False
    then have "\<forall>i < length xs. HANDLE_ALLOCATED (xs ! i) \<longrightarrow> i < v" using "2.prems"(3) by (metis less_antisym)
    then show ?thesis using 2 False by simp
  qed
qed (simp add: top_ok_def)

lemma lower_top_le: "lower_top xs v = FD_NULL \<or> lower_top xs v < v"
  by (induction xs v rule: lower_top.induct) auto

definition empty_slot :: "libos_fd_handle option" where
  "empty_slot = Some \<lparr>vfd = FD_NULL, fd_flags = 0, fd_hdl = None\<rparr>"

lemma empty_slot_simps [simp]:
  "\<not> HANDLE_ALLOCATED empty_slot" "slot_view empty_slot = None" "\<not> refers h empty_slot" "slot_ok i empty_slot"
  by (simp_all add: empty_slot_def HANDLE_ALLOCATED_def slot_view_def refers_def slot_ok_def)

lemma detach_allocated:
  assumes "map_ok m" "i < length (fds m)" "HANDLE_ALLOCATED (fds m ! i)"
  shows "\<exists>h fl. fd_view m i = Some (h, fl) \<and> u_detach_fd_handle i m =
     (Some h, m\<lparr>fds := (fds m)[i := empty_slot],
                 fd_top := if i = fd_top m then lower_top ((fds m)[i := empty_slot]) i else fd_top m\<rparr>)"
proof -
  obtain f where f: "fds m ! i = Some f" "vfd f \<noteq> FD_NULL" using assms(3) by (auto simp: HANDLE_ALLOCATED_def split: option.splits)
  have "slot_ok i (fds m ! i)" using assms(1,2) by (simp add: map_ok_def)
  then obtain h where "vfd f = i" "fd_hdl f = Some h" using f by (auto simp: slot_ok_def)
  then show ?thesis using f assms(2)
    by (simp add: u_detach_fd_handle_def fd_view_def slot_view_def HANDLE_ALLOCATED_def Let_def empty_slot_def)
qed

lemma detach_free: "\<not> HANDLE_ALLOCATED (fds m ! i) \<Longrightarrow> u_detach_fd_handle i m = (None, m)"
  by (auto simp: u_detach_fd_handle_def HANDLE_ALLOCATED_def split: option.splits)

lemma detach_top_ok:
  assumes "map_ok m" "i < length (fds m)" "HANDLE_ALLOCATED (fds m ! i)"
  defines "xs \<equiv> (fds m)[i := empty_slot]"
  shows "top_ok (if i = fd_top m then lower_top xs i else fd_top m) xs"
proof (cases "i = fd_top m")
  case True
  have "\<forall>j < length xs. HANDLE_ALLOCATED (xs ! j) \<longrightarrow> j < i"
  proof (intro allI impI)
    fix j assume j: "j < length xs" "HANDLE_ALLOCATED (xs ! j)"
    then have "j \<noteq> i" by (auto simp: xs_def assms(2))
    moreover have "j \<le> fd_top m" using j calculation assms(1) by (simp add: xs_def map_ok_def top_ok_def)
    ultimately show "j < i" using True by simp
  qed
  moreover have "i \<le> FD_NULL" "i \<le> length xs" using assms(1,2) by (simp_all add: map_ok_def xs_def)
  ultimately show ?thesis using lower_top_ok True by simp
next
  case False
  have t: "top_ok (fd_top m) (fds m)" using assms(1) by (simp add: map_ok_def)
  have "HANDLE_ALLOCATED (xs ! j) \<longrightarrow> HANDLE_ALLOCATED (fds m ! j)" if "j < length xs" for j
    using that assms(2) by (cases "j = i") (simp_all add: xs_def)
  then show ?thesis using False t unfolding top_ok_def xs_def by (auto split: if_splits)
qed

lemma u_detach_keeps:
  assumes "map_ok m" "i < length (fds m)" "u_detach_fd_handle i m = (h, m')"
  shows "map_ok m' \<and> h = map_option fst (fd_view m i) \<and> fd_view m' = (fd_view m)(i := None) \<and>
     (\<forall>k. slots m' k = slots m k - of_bool (h = Some k)) \<and> fd_size m' = fd_size m \<and>
     (fd_top m' = FD_NULL \<or> fd_top m' \<le> fd_top m)"
proof (cases "HANDLE_ALLOCATED (fds m ! i)")
  case True
  obtain g fl where g: "fd_view m i = Some (g, fl)" and d: "h = Some g"
      "m' = m\<lparr>fds := (fds m)[i := empty_slot],
         fd_top := if i = fd_top m then lower_top ((fds m)[i := empty_slot]) i else fd_top m\<rparr>"
    using detach_allocated [OF assms(1,2) True] assms(3) by auto
  have "map_ok m'" using assms(1,2) detach_top_ok [OF assms(1,2) True]
    unfolding map_ok_def d(2) by (simp add: nth_list_update)
  moreover have "refers k (fds m ! i) \<longleftrightarrow> k = g" for k
    using g assms(2) by (auto simp: refers_def fd_view_def)
  moreover have "fd_top m' = FD_NULL \<or> fd_top m' \<le> fd_top m" using lower_top_le [of "(fds m)[i := empty_slot]" i] d(2) by auto
  ultimately show ?thesis using g d assms(2) slots_update [OF assms(2), of empty_slot] fd_view_update [OF assms(2), of empty_slot]
    by auto
next
  case False
  then have "h = None" "m' = m" using detach_free assms(3) by auto
  moreover have "fd_view m i = None" using view_allocated [OF assms(1,2)] False by simp
  ultimately show ?thesis using assms(1) by (auto simp: fun_upd_idem)
qed

section \<open>Adding a descriptor\<close>

lemma find_free_le: "fd \<le> find_free m fd"
  by (induction m fd rule: find_free.induct) (subst find_free.simps, auto)

lemma find_free_between:
  "map_ok m \<Longrightarrow> fd_top m \<noteq> FD_NULL \<Longrightarrow> fd \<le> j \<Longrightarrow> j < find_free m fd \<Longrightarrow> fd_view m j \<noteq> None"
proof (induction m fd rule: find_free.induct)
  case (1 m fd)
  have go: "fd \<le> fd_top m \<and> HANDLE_ALLOCATED (fds m ! fd)" and f: "find_free m fd = find_free m (Suc fd)"
    using "1.prems"(3,4) by (auto simp: find_free.simps [of m fd] split: if_splits)
  show ?case
  proof (cases "j = fd")
    case True
    have "fd < length (fds m)" using go "1.prems"(1,2) by (auto simp: map_ok_def top_ok_def)
    then show ?thesis using True go view_allocated [OF "1.prems"(1)] by simp
  next
    case False
    then show ?thesis using 1 go f by simp
  qed
qed

lemma find_free_free: "map_ok m \<Longrightarrow> fd_view m (find_free m fd) = None"
proof (induction m fd rule: find_free.induct)
  case (1 m fd)
  show ?case
  proof (cases "fd \<le> fd_top m \<and> HANDLE_ALLOCATED (fds m ! fd)")
    case True
    then show ?thesis using 1 by (simp add: find_free.simps [of m fd])
  next
    case False
    then show ?thesis using "1.prems" view_above_top [of m fd]
      by (auto simp: find_free.simps [of m fd] fd_view_def slot_view_def)
  qed
qed

lemma grow_size_ok: "grow_size n fd = Some k \<Longrightarrow> n < 2 ^ 32 \<Longrightarrow> fd < k \<and> n \<le> k \<and> k < 2 ^ 32"
proof (induction n fd rule: grow_size.induct)
  case (1 n fd)
  show ?case
  proof (cases "fd < n")
    case True
    then show ?thesis using "1.prems" by (simp add: grow_size.simps [of n fd])
  next
    case False
    then have c: "\<not> (n = 0 \<or> 2 ^ 32 \<le> 2 * n)" and g: "grow_size (2 * n) fd = Some k"
      using "1.prems"(1) by (auto simp: grow_size.simps [of n fd] split: if_splits)
    then show ?thesis using "1.IH" [OF False c g] by simp
  qed
qed

text \<open>The size is doubled to a fit whenever the descriptor is below \<open>2 ^ 31\<close>.\<close>

lemma grow_size_total: "0 < n \<Longrightarrow> fd < 2 ^ 31 \<Longrightarrow> \<exists>k. grow_size n fd = Some k"
proof (induction n fd rule: grow_size.induct)
  case (1 n fd)
  then show ?case by (cases "fd < n") (auto simp: grow_size.simps [of n fd])
qed

lemma fd_null_val: "FD_NULL = 4294967295"
  by (simp add: FD_NULL_def)

lemma top_ok_append: "top_ok v xs \<Longrightarrow> top_ok v (xs @ replicate n None)"
  by (auto simp: top_ok_def nth_append HANDLE_ALLOCATED_def split: if_splits)

lemma map_ok_append:
  assumes "map_ok m" "length (fds m) + n \<le> FD_NULL"
  defines "m' \<equiv> m\<lparr>fds := fds m @ replicate n None, fd_size := length (fds m) + n\<rparr>"
  shows "map_ok m' \<and> fd_view m' = fd_view m \<and> slots m' = slots m"
proof -
  have at: "fds m' ! i = (if i < length (fds m) then fds m ! i else None)" if "i < length (fds m) + n" for i
    using that by (simp add: m'_def nth_append)
  have len: "length (fds m') = length (fds m) + n" by (simp add: m'_def)
  have none: "\<not> HANDLE_ALLOCATED None" "slot_view None = None" "slot_ok i None" "\<not> refers h None" for i h
    by (simp_all add: HANDLE_ALLOCATED_def slot_view_def slot_ok_def refers_def)
  have "top_ok (fd_top m') (fds m')" using assms(1) top_ok_append by (simp add: m'_def map_ok_def)
  moreover have "slot_ok i (fds m' ! i)" if "i < length (fds m')" for i
    using assms(1) at [of i] len none that by (simp add: map_ok_def)
  ultimately have "map_ok m'" using assms(2) by (simp add: map_ok_def m'_def)
  moreover have "fd_view m' = fd_view m" using at len none by (auto simp: fd_view_def)
  moreover have "slots m' h = slots m h" for h using none by (simp add: slots_def m'_def)
  ultimately show ?thesis by blast
qed

text \<open>What an operation that changes no descriptor keeps.\<close>

definition same_table :: "libos_handle_map \<Rightarrow> handles \<Rightarrow> libos_handle_map \<Rightarrow> handles \<Rightarrow> bool" where
  "same_table m w m' w' \<longleftrightarrow> map_ok m' \<and> fd_view m' = fd_view m \<and> slots m' = slots m \<and> map_ref m' = map_ref m \<and>
     w' = w\<lparr>mallocs := mallocs w'\<rparr>"

lemma malloc_same [simp]: "snd (malloc M w) = w\<lparr>mallocs := Suc (mallocs w)\<rparr>" "fst (malloc M w) = M (mallocs w)"
  by (simp_all add: malloc_def)

lemma enlarge_for_keeps:
  assumes "map_ok m" "fd < 2 ^ 31" "enlarge_for M fd m w = (r, m', w')"
  shows "same_table m w m' w' \<and> fd_top m' = fd_top m \<and> (r = 0 \<and> fd < fd_size m' \<or> r = - ENOMEM)"
proof (cases "fd < fd_size m")
  case True
  then show ?thesis using assms by (auto simp: enlarge_for_def same_table_def)
next
  case False
  define n where "n = (if fd_size m = 0 then INIT_HANDLE_MAP_SIZE else fd_size m)"
  have n: "0 < n" "n < 2 ^ 32" "fd_size m \<le> n" using assms(1) by (auto simp: n_def INIT_HANDLE_MAP_SIZE_def map_ok_def fd_null_val)
  obtain k where k: "grow_size n fd = Some k" using grow_size_total [OF n(1) assms(2)] by blast
  have b: "fd < k" "k < 2 ^ 32" using grow_size_ok [OF k n(2)] by auto
  have gt: "\<not> k \<le> fd_size m" using b False by simp
  have e: "u_enlarge_handle_map M k m w = (r, m', w')" using assms(3) False k by (simp add: enlarge_for_def n_def)
  show ?thesis
  proof (cases "M (mallocs w)")
    case True
    have "r = 0" "w' = w\<lparr>mallocs := Suc (mallocs w)\<rparr>"
      "m' = m\<lparr>fds := fds m @ replicate (k - fd_size m) None, fd_size := k\<rparr>"
      using e True gt by (auto simp: u_enlarge_handle_map_def malloc_def)
    moreover have "length (fds m) + (k - fd_size m) = k" "k \<le> FD_NULL"
      using assms(1) gt b by (auto simp: map_ok_def fd_null_val)
    ultimately show ?thesis using map_ok_append [OF assms(1), of "k - fd_size m"] b by (simp add: same_table_def)
  next
    case False
    then show ?thesis using e gt assms(1) by (auto simp: u_enlarge_handle_map_def malloc_def same_table_def)
  qed
qed

definition added :: "libos_handle_map \<Rightarrow> handles \<Rightarrow> nat \<Rightarrow> hdl \<Rightarrow> flags \<Rightarrow> libos_handle_map \<Rightarrow> handles \<Rightarrow> bool" where
  "added m w fd h fl m' w' \<longleftrightarrow> map_ok m' \<and> fd_view m' = (fd_view m)(fd \<mapsto> (h, fl)) \<and>
     (\<forall>k. slots m' k = slots m k + of_bool (k = h)) \<and> map_ref m' = map_ref m \<and>
     w' = (get_handle h w)\<lparr>mallocs := mallocs w'\<rparr>"

lemma new_slot_simps:
  fixes h :: hdl
  assumes "fd \<noteq> FD_NULL" "fl AND NOT FD_CLOEXEC = 0"
  defines "y \<equiv> Some \<lparr>vfd = fd, fd_flags = fl, fd_hdl = Some h\<rparr>"
  shows "HANDLE_ALLOCATED y" "slot_view y = Some (h, fl)" "refers k y \<longleftrightarrow> k = h" "slot_ok fd y"
  using assms by (auto simp: HANDLE_ALLOCATED_def slot_view_def refers_def slot_ok_def)

lemma init_added:
  fixes h :: hdl
  assumes "map_ok m" "fd < length (fds m)" "fd_view m fd = None" "fl AND NOT FD_CLOEXEC = 0"
  defines "m1 \<equiv> m\<lparr>fds := (fds m)[fd := Some \<lparr>vfd = fd, fd_flags = fl, fd_hdl = Some h\<rparr>]\<rparr>"
  defines "m' \<equiv> (if fd_top m1 = FD_NULL \<or> fd > fd_top m1 then m1\<lparr>fd_top := fd\<rparr> else m1)"
  shows "map_ok m' \<and> fd_view m' = (fd_view m)(fd \<mapsto> (h, fl)) \<and> (\<forall>k. slots m' k = slots m k + of_bool (k = h)) \<and>
     map_ref m' = map_ref m"
proof -
  have ne: "fd \<noteq> FD_NULL" using assms(1,2) by (simp add: map_ok_def)
  note y = new_slot_simps [OF ne assms(4)]
  have old: "\<not> HANDLE_ALLOCATED (fds m ! fd)" using view_allocated [OF assms(1,2)] assms(3) by simp
  then have "\<not> refers k (fds m ! fd)" for k by (simp add: refers_def slot_view_def)
  then have sl: "slots m' k = slots m k + of_bool (k = h)" for k
    using slots_update [OF assms(2)] y(3) by (simp add: m'_def m1_def)
  have vw: "fd_view m' = (fd_view m)(fd \<mapsto> (h, fl))"
    using fd_view_update [OF assms(2)] y(2) by (simp add: m'_def m1_def)
  have t: "top_ok (fd_top m) (fds m)" and len: "fd_size m = length (fds m)" "fd_size m \<le> FD_NULL"
    and sk: "\<forall>i < length (fds m). slot_ok i (fds m ! i)" using assms(1) by (simp_all add: map_ok_def)
  have f: "fds m' = (fds m)[fd := Some \<lparr>vfd = fd, fd_flags = fl, fd_hdl = Some h\<rparr>]" by (simp add: m'_def m1_def)
  have "top_ok (fd_top m') (fds m')"
  proof -
    have tp: "fd_top m' = (if fd_top m = FD_NULL \<or> fd > fd_top m then fd else fd_top m)" by (simp add: m'_def m1_def)
    have al: "HANDLE_ALLOCATED (fds m' ! i) \<longleftrightarrow> i = fd \<or> HANDLE_ALLOCATED (fds m ! i)" if "i < length (fds m)" for i
      using that y(1) assms(2) by (cases "i = fd") (simp_all add: f)
    have "fd_top m' \<noteq> FD_NULL" using ne tp by simp
    moreover have "fd_top m' < length (fds m)" using tp assms(2) t by (auto simp: top_ok_def)
    moreover have "fd_top m' = fd \<or> HANDLE_ALLOCATED (fds m ! fd_top m')" using tp t unfolding top_ok_def by presburger
    then have "HANDLE_ALLOCATED (fds m' ! fd_top m')" using al [of "fd_top m'"] calculation(2) by blast
    moreover have "i \<le> fd_top m'" if "i < length (fds m)" "HANDLE_ALLOCATED (fds m' ! i)" for i
    proof -
      have "i = fd \<or> fd_top m \<noteq> FD_NULL \<and> i \<le> fd_top m"
        using al [OF that(1)] that t unfolding top_ok_def by blast
      then show ?thesis using tp by auto
    qed
    ultimately show ?thesis by (simp add: top_ok_def f)
  qed
  moreover have "slot_ok i (fds m' ! i)" if "i < length (fds m')" for i
    using that sk y(4) by (cases "i = fd") (simp_all add: f)
  ultimately have "map_ok m'" using len by (simp add: map_ok_def m'_def m1_def)
  then show ?thesis using sl vw by (simp add: m'_def m1_def)
qed

definition set_target :: "nat \<Rightarrow> bool \<Rightarrow> libos_handle_map \<Rightarrow> nat" where
  "set_target fd0 search m = (if fd_top m \<noteq> FD_NULL \<and> search then find_free m fd0 else fd0)"

definition set_failed :: "nat \<Rightarrow> nat \<Rightarrow> bool \<Rightarrow> libos_handle_map \<Rightarrow> int \<Rightarrow> bool" where
  "set_failed rlimit fd0 search m r \<longleftrightarrow>
     r = - EBADF \<and> \<not> search \<and> fd_view m fd0 \<noteq> None \<or> r = - EMFILE \<and> rlimit \<le> set_target fd0 search m \<or>
     r = - ENOMEM \<and> set_target fd0 search m < rlimit"

lemma u_init_result:
  assumes "map_ok m" "fd < length (fds m)" "fd_view m fd = None" "fl AND NOT FD_CLOEXEC = 0"
  shows "\<exists>r m' w'. u_init_handle M fd h fl m w = Some (r, m', w') \<and>
    (r = - ENOMEM \<and> same_table m w m' w' \<or>
     r = 0 \<and> added m w fd h fl (if fd_top m' = FD_NULL \<or> fd > fd_top m' then m'\<lparr>fd_top := fd\<rparr> else m') w')"
proof -
  note i = init_added [OF assms, of h]
  show ?thesis
  proof (cases "fds m ! fd = None \<and> \<not> M (mallocs w)")
    case True
    then show ?thesis using assms(1,4) by (simp add: u_init_handle_def malloc_def same_table_def)
  next
    case False
    define w1 where "w1 = snd (if fds m ! fd = None then malloc M w else (True, w))"
    have "u_init_handle M fd h fl m w = Some (0, m\<lparr>fds := (fds m)[fd := Some \<lparr>vfd = fd, fd_flags = fl, fd_hdl = Some h\<rparr>]\<rparr>,
        get_handle h w1)"
      using False assms(4) by (auto simp: u_init_handle_def w1_def malloc_def)
    moreover have "get_handle h w1 = (get_handle h w)\<lparr>mallocs := mallocs (get_handle h w1)\<rparr>"
      by (simp add: w1_def malloc_def get_handle_def)
    ultimately show ?thesis using i unfolding added_def by auto
  qed
qed

lemma set_target_free:
  assumes "map_ok m" "search \<or> \<not> (fd_top m \<noteq> FD_NULL \<and> fd0 \<le> fd_top m \<and> HANDLE_ALLOCATED (fds m ! fd0))"
  shows "fd_view m (set_target fd0 search m) = None"
proof (cases "fd_top m \<noteq> FD_NULL \<and> search")
  case True
  then show ?thesis using find_free_free [OF assms(1)] by (simp add: set_target_def)
next
  case False
  then show ?thesis using assms(2) view_above_top [OF assms(1), of fd0]
    by (auto simp: set_target_def fd_view_def slot_view_def)
qed

lemma same_table_added:
  "same_table m w m1 w1 \<Longrightarrow> added m1 w1 fd h fl m' w' \<Longrightarrow> added m w fd h fl m' w'"
  "same_table m w m1 w1 \<Longrightarrow> same_table m1 w1 m' w' \<Longrightarrow> same_table m w m' w'"
proof -
  assume s: "same_table m w m1 w1"
  then have "w1 = w\<lparr>mallocs := mallocs w1\<rparr>" by (simp add: same_table_def)
  then obtain n where n: "w1 = w\<lparr>mallocs := n\<rparr>" by blast
  show "added m w fd h fl m' w'" if "added m1 w1 fd h fl m' w'"
    using s that n by (simp add: same_table_def added_def get_handle_def)
  show "same_table m w m' w'" if "same_table m1 w1 m' w'"
    using s that n by (simp add: same_table_def)
qed

lemma u_set_new_result:
  fixes fd0 :: nat and search :: bool
  assumes "map_ok m" "fl AND NOT FD_CLOEXEC = 0" "rlimit \<le> 2 ^ 31"
  defines "fd \<equiv> set_target fd0 search m"
  shows "\<exists>r m' w'. u_set_new_fd_handle M rlimit fd0 h fl search m w = Some (r, m', w') \<and>
    (set_failed rlimit fd0 search m r \<and> same_table m w m' w' \<or>
     r = int fd \<and> fd < rlimit \<and> fd_view m fd = None \<and> added m w fd h fl m' w')"
proof -
  have refl: "same_table m w m w" using assms(1) by (simp add: same_table_def)
  consider (busy) "\<not> search" "fd_top m \<noteq> FD_NULL \<and> fd0 \<le> fd_top m \<and> HANDLE_ALLOCATED (fds m ! fd0)"
    | (free) "search \<or> \<not> (fd_top m \<noteq> FD_NULL \<and> fd0 \<le> fd_top m \<and> HANDLE_ALLOCATED (fds m ! fd0))" by blast
  then show ?thesis
  proof cases
    case busy
    then have "fd0 < length (fds m)" using assms(1) by (auto simp: map_ok_def top_ok_def)
    then have "fd_view m fd0 \<noteq> None" using view_allocated [OF assms(1)] busy by simp
    then show ?thesis using busy refl by (simp add: u_set_new_fd_handle_def set_failed_def)
  next
    case free
    have vw: "fd_view m fd = None" using set_target_free [OF assms(1) free] by (simp add: fd_def)
    have go: "u_set_new_fd_handle M rlimit fd0 h fl search m w =
      (if fd \<ge> rlimit then Some (- EMFILE, m, w)
       else let (ret, m1, w1) = enlarge_for M fd m w
       in if ret < 0 then Some (ret, m1, w1) else if \<not> fd < fd_size m1 then None
       else case u_init_handle M fd h fl m1 w1 of None \<Rightarrow> None
            | Some (ret, m2, w2) \<Rightarrow> if ret < 0 then Some (ret, m2, w2)
               else Some (int_of_u32 fd, if fd_top m2 = FD_NULL \<or> fd > fd_top m2 then m2\<lparr>fd_top := fd\<rparr> else m2, w2))"
      unfolding u_set_new_fd_handle_def fd_def set_target_def Let_def using free by auto
    show ?thesis
    proof (cases "fd < rlimit")
      case False
      then show ?thesis using refl unfolding go by (simp add: set_failed_def fd_def)
    next
      case True
      then have small: "fd < 2 ^ 31" using assms(3) by linarith
      obtain r1 m1 w1 where e: "enlarge_for M fd m w = (r1, m1, w1)" by (metis prod_cases3)
      note k = enlarge_for_keeps [OF assms(1) small e]
      show ?thesis
      proof (cases "r1 = 0")
        case False
        then show ?thesis using k True unfolding go e by (simp add: set_failed_def fd_def)
      next
        case r0: True
        have m1: "map_ok m1" "fd < length (fds m1)" "fd_view m1 fd = None" "fd < fd_size m1" "same_table m w m1 w1"
          using k r0 vw by (auto simp: same_table_def map_ok_def)
        obtain r2 m2 w2 where i: "u_init_handle M fd h fl m1 w1 = Some (r2, m2, w2)"
          "r2 = - ENOMEM \<and> same_table m1 w1 m2 w2 \<or>
           r2 = 0 \<and> added m1 w1 fd h fl (if fd_top m2 = FD_NULL \<or> fd > fd_top m2 then m2\<lparr>fd_top := fd\<rparr> else m2) w2"
          using u_init_result [OF m1(1-3) assms(2)] by blast
        show ?thesis using i(2)
        proof
          assume "r2 = - ENOMEM \<and> same_table m1 w1 m2 w2"
          then show ?thesis using True same_table_added(2) [OF m1(5)] r0 m1(4) i(1) unfolding go e by (simp add: set_failed_def fd_def)
        next
          assume a: "r2 = 0 \<and> added m1 w1 fd h fl (if fd_top m2 = FD_NULL \<or> fd > fd_top m2 then m2\<lparr>fd_top := fd\<rparr> else m2) w2"
          have "int_of_u32 fd = int fd" using small by (simp add: int_of_u32_def)
          then show ?thesis using True same_table_added(1) [OF m1(5)] a r0 m1(4) i(1) vw unfolding go e by simp
        qed
      qed
    qed
  qed
qed

lemma set_target_least:
  assumes "map_ok m"
  shows "set_target 0 True m = (LEAST fd. fd_view m fd = None)"
proof (rule Least_equality [symmetric])
  show "fd_view m (set_target 0 True m) = None" using set_target_free [OF assms] by simp
  fix fd assume "fd_view m fd = None"
  then show "set_target 0 True m \<le> fd"
    using find_free_between [OF assms, of 0 fd] by (force simp: set_target_def not_le)
qed

section \<open>References\<close>

text \<open>A handle that has been handed out, and the state of the handles: no negative count, and no reference to a
  handle that was destroyed.\<close>

definition issued :: "nat \<Rightarrow> handles \<Rightarrow> hdl \<Rightarrow> bool" where
  "issued pid w h \<longleftrightarrow> pid * 2 ^ 32 < h \<and> h \<le> pid * 2 ^ 32 + local_id_counter w"

definition live_ok :: "nat \<Rightarrow> handles \<Rightarrow> bool" where
  "live_ok pid w \<longleftrightarrow> (\<forall>h. 0 \<le> ref_count w h \<and> (0 < ref_count w h \<longrightarrow> h \<notin> set (destroyed w) \<and> issued pid w h)) \<and>
     (\<forall>h \<in> set (destroyed w). issued pid w h) \<and> local_id_counter w < 2 ^ 32"

lemma live_get: "live_ok pid w \<Longrightarrow> 0 < ref_count w h \<Longrightarrow> live_ok pid (get_handle h w)"
  by (auto simp: live_ok_def get_handle_def issued_def)

lemma live_put: "live_ok pid w \<Longrightarrow> 0 < ref_count w h \<Longrightarrow> live_ok pid (put_handle h w)"
  by (auto simp: live_ok_def put_handle_def issued_def Let_def)

lemma ref_get: "ref_count (get_handle h w) = (ref_count w)(h := ref_count w h + 1)"
  by (simp add: get_handle_def)

lemma ref_put: "ref_count (put_handle h w) = (ref_count w)(h := ref_count w h - 1)"
  by (simp add: put_handle_def Let_def)

lemma live_mallocs [simp]: "live_ok pid (w\<lparr>mallocs := n\<rparr>) = live_ok pid w"
  by (simp add: live_ok_def issued_def)

lemma live_clear [simp]: "live_ok pid (clear_posix_locks h w) = live_ok pid w"
  by (cases h) (simp_all add: clear_posix_locks_def live_ok_def issued_def)

lemma ref_clear [simp]: "ref_count (clear_posix_locks h w) = ref_count w"
  by (cases h) (simp_all add: clear_posix_locks_def)

lemma slots_nonneg [simp]: "0 \<le> slots m h"
  by (simp add: slots_def)

lemma view_slots: "fd_view m fd = Some (h, fl) \<Longrightarrow> 0 < slots m h"
proof -
  assume v: "fd_view m fd = Some (h, fl)"
  then have "fd < length (fds m)" "refers h (fds m ! fd)" by (auto simp: fd_view_def refers_def split: if_splits)
  then have "fds m ! fd \<in> set (filter (refers h) (fds m))" by simp
  then have "0 < length (filter (refers h) (fds m))" by (rule length_pos_if_in_set)
  then show ?thesis by (simp add: slots_def)
qed

lemma detach_map_ref: "map_ref (snd (u_detach_fd_handle i m)) = map_ref m"
  by (auto simp: u_detach_fd_handle_def Let_def split: option.splits)

section \<open>Loops over the table\<close>

text \<open>What the loops rely on: a body that only removes or marks descriptors and accounts for the references.\<close>

definition balance :: "libos_handle_map \<Rightarrow> handles \<Rightarrow> hdl \<Rightarrow> int" where
  "balance m w h = ref_count w h - slots m h"

definition tables_ok :: "nat \<Rightarrow> libos_handle_map \<Rightarrow> handles \<Rightarrow> bool" where
  "tables_ok pid m w \<longleftrightarrow> map_ok m \<and> live_ok pid w \<and> (\<forall>h. 0 \<le> balance m w h)"

definition shrunk :: "libos_handle_map \<Rightarrow> handles \<Rightarrow> libos_handle_map \<Rightarrow> handles \<Rightarrow> bool" where
  "shrunk m w m' w' \<longleftrightarrow> balance m' w' = balance m w \<and> fd_size m' = fd_size m \<and> map_ref m' = map_ref m \<and>
     (fd_top m' = FD_NULL \<or> fd_top m' \<le> fd_top m)"

locale table_walk =
  fixes pid :: nat
    and body :: "nat \<Rightarrow> libos_handle_map \<Rightarrow> handles \<Rightarrow> libos_handle_map \<times> handles"
  assumes body_keeps: "\<And>i m w m' w'. tables_ok pid m w \<Longrightarrow> i < length (fds m) \<Longrightarrow> HANDLE_ALLOCATED (fds m ! i) \<Longrightarrow>
    body i m w = (m', w') \<Longrightarrow> tables_ok pid m' w' \<and> shrunk m w m' w'"
begin

lemma round_keeps:
  assumes "tables_ok pid m w" "i \<le> fd_top m" "fd_top m \<noteq> FD_NULL"
    "(if HANDLE_ALLOCATED (fds m ! i) then body i m w else (m, w)) = (m', w')"
  shows "tables_ok pid m' w' \<and> shrunk m w m' w'"
proof (cases "HANDLE_ALLOCATED (fds m ! i)")
  case True
  have "i < length (fds m)" using assms(1-3) by (auto simp: tables_ok_def map_ok_def top_ok_def)
  then show ?thesis using body_keeps [OF assms(1) _ True] assms(4) True by simp
next
  case False
  then show ?thesis using assms(1,4) by (simp add: shrunk_def)
qed

text \<open>The loop ends by its condition: a round more than the size of the table changes nothing.\<close>

lemma walk_ends:
  "tables_ok pid m w \<Longrightarrow> fd_size m \<le> n + i \<Longrightarrow> walk_fds (Suc n) body last_fd i m w = walk_fds n body last_fd i m w"
proof (induction n arbitrary: i m w)
  case 0
  then show ?case by (auto simp: tables_ok_def map_ok_def top_ok_def)
next
  case (Suc n)
  show ?case
  proof (cases "fd_top m \<noteq> FD_NULL \<and> i \<le> fd_top m \<and> i \<le> last_fd")
    case True
    obtain m' w' where b: "(if HANDLE_ALLOCATED (fds m ! i) then body i m w else (m, w)) = (m', w')" by (metis surj_pair)
    then have "tables_ok pid m' w'" "fd_size m' = fd_size m"
      using round_keeps [OF Suc.prems(1) _ _ b] True by (simp_all add: shrunk_def)
    then have "walk_fds (Suc n) body last_fd (Suc i) m' w' = walk_fds n body last_fd (Suc i) m' w'"
      using Suc by simp
    then show ?thesis using True b walk_fds.simps(2) [of n body last_fd i m w] walk_fds.simps(2) [of "Suc n" body last_fd i m w]
      by simp
  next
    case False
    then show ?thesis by auto
  qed
qed

lemma walk_keeps:
  "tables_ok pid m w \<Longrightarrow> walk_fds n body last_fd i m w = (m', w') \<Longrightarrow>
   tables_ok pid m' w' \<and> balance m' w' = balance m w \<and> map_ref m' = map_ref m"
proof (induction n arbitrary: i m w)
  case (Suc n)
  show ?case
  proof (cases "fd_top m \<noteq> FD_NULL \<and> i \<le> fd_top m \<and> i \<le> last_fd")
    case True
    obtain m1 w1 where b: "(if HANDLE_ALLOCATED (fds m ! i) then body i m w else (m, w)) = (m1, w1)" by (metis surj_pair)
    then have k: "tables_ok pid m1 w1 \<and> shrunk m w m1 w1" using round_keeps [OF Suc.prems(1) _ _ b] True by simp
    have "walk_fds n body last_fd (Suc i) m1 w1 = (m', w')" using Suc.prems(2) True b by simp
    then show ?thesis using Suc.IH [of m1 w1 "Suc i"] k by (simp add: shrunk_def)
  next
    case False
    then have "m' = m" "w' = w" using Suc.prems(2) by (auto split: if_splits)
    then show ?thesis using Suc.prems(1) by simp
  qed
qed simp

end

lemma detach_put_keeps:
  assumes t: "tables_ok pid m w" and i: "i < length (fds m)" "HANDLE_ALLOCATED (fds m ! i)"
    and d: "u_detach_fd_handle i m = (h, m')" and w0: "live_ok pid w0" "ref_count w0 = ref_count w"
  shows "tables_ok pid m' (put_detached h w0) \<and> shrunk m w m' (put_detached h w0)"
proof -
  have m: "map_ok m" using t by (simp add: tables_ok_def)
  note k = u_detach_keeps [OF m i(1) d]
  obtain g fl where g: "fd_view m i = Some (g, fl)" using view_allocated [OF m i(1)] i(2) by fastforce
  then have h: "h = Some g" using k by simp
  have "slots m g \<le> ref_count w g" using t by (simp add: tables_ok_def balance_def)
  then have "0 < ref_count w g" using view_slots [OF g] by linarith
  then have live: "live_ok pid (put_detached h w0)" using live_put [OF w0(1)] w0(2) h by (simp add: put_detached_def)
  have "slots m' x = slots m x - of_bool (h = Some x)" for x using k by blast
  then have "balance m' (put_detached h w0) x = balance m w x" for x
    using w0(2) unfolding h by (simp add: balance_def put_detached_def ref_put)
  then have b: "balance m' (put_detached h w0) = balance m w" by blast
  have "map_ref m' = map_ref m" using detach_map_ref [of i m] d by simp
  then show ?thesis using k live b t by (simp add: tables_ok_def shrunk_def)
qed

lemma close_one_keeps:
  assumes "tables_ok pid m w" "i < length (fds m)" "HANDLE_ALLOCATED (fds m ! i)" "close_one i m w = (m', w')"
  shows "tables_ok pid m' w' \<and> shrunk m w m' w'"
proof -
  obtain h m1 where d: "u_detach_fd_handle i m = (h, m1)" by (metis surj_pair)
  have "live_ok pid (clear_posix_locks h w)" using assms(1) by (simp add: tables_ok_def)
  from detach_put_keeps [OF assms(1-3) d this] show ?thesis using assms(4) d by (simp add: close_one_def)
qed

text \<open>To mark a descriptor changes no handle.\<close>

definition reflag :: "(flags \<Rightarrow> flags) \<Rightarrow> libos_fd_handle option \<Rightarrow> libos_fd_handle option" where
  "reflag g f = map_option (\<lambda>k. k\<lparr>fd_flags := g (fd_flags k)\<rparr>) f"

definition keeps_flags :: "(flags \<Rightarrow> flags) \<Rightarrow> bool" where
  "keeps_flags g \<longleftrightarrow> (\<forall>x. x AND NOT FD_CLOEXEC = 0 \<longrightarrow> g x AND NOT FD_CLOEXEC = 0)"

lemma keeps_flags_or: "keeps_flags (\<lambda>x. x OR FD_CLOEXEC)"
  by (simp add: keeps_flags_def and.commute [of _ "NOT FD_CLOEXEC"] bit.conj_disj_distrib)

lemma reflag_simps:
  "HANDLE_ALLOCATED (reflag g f) = HANDLE_ALLOCATED f" "refers h (reflag g f) = refers h f"
  "keeps_flags g \<Longrightarrow> slot_ok i f \<Longrightarrow> slot_ok i (reflag g f)"
  by (cases f; auto simp: reflag_def keeps_flags_def HANDLE_ALLOCATED_def refers_def slot_view_def slot_ok_def)+

lemma reflag_keeps:
  assumes t: "tables_ok pid m w" and i: "i < length (fds m)" and g: "keeps_flags g"
  defines "m' \<equiv> m\<lparr>fds := (fds m)[i := reflag g (fds m ! i)]\<rparr>"
  shows "tables_ok pid m' w \<and> shrunk m w m' w"
proof -
  have al: "HANDLE_ALLOCATED (fds m' ! j) = HANDLE_ALLOCATED (fds m ! j)" for j
    using i reflag_simps(1) by (cases "j = i") (simp_all add: m'_def)
  have sk: "slot_ok j (fds m' ! j)" if "j < length (fds m)" for j
    using that t i reflag_simps(3) [OF g] by (cases "j = i") (simp_all add: m'_def tables_ok_def map_ok_def)
  have len: "length (fds m') = length (fds m)" "fd_top m' = fd_top m" "fd_size m' = fd_size m" "map_ref m' = map_ref m"
    by (simp_all add: m'_def)
  have "top_ok (fd_top m') (fds m')" using t unfolding top_ok_def al len by (simp add: tables_ok_def map_ok_def top_ok_def)
  then have "map_ok m'" using t sk len by (simp add: tables_ok_def map_ok_def)
  moreover have "slots m' h = slots m h" for h using slots_update [OF i, of "reflag g (fds m ! i)" h] reflag_simps(2) by (simp add: m'_def)
  ultimately show ?thesis using t len by (auto simp: tables_ok_def shrunk_def balance_def)
qed

interpretation walk_detach: table_walk pid detach_fd for pid
proof (unfold_locales, goal_cases)
  case (1 i m w m' w')
  obtain h m1 where d: "u_detach_fd_handle i m = (h, m1)" by (metis surj_pair)
  have "live_ok pid w" using 1(1) by (simp add: tables_ok_def)
  from detach_put_keeps [OF 1(1-3) d this] show ?case using 1(4) d by (simp add: detach_fd_def)
qed

interpretation walk_cloexec: table_walk pid cloexec_body for pid
proof (unfold_locales, goal_cases)
  case (1 i m w m' w')
  show ?case
  proof (cases "close_one i m w = (m', w')")
    case True
    then show ?thesis using close_one_keeps [OF 1(1-3)] by simp
  next
    case False
    then have "m' = m" "w' = w" using 1(4) by (auto simp: cloexec_body_def split: option.splits if_splits)
    then show ?thesis using 1(1) by (simp add: shrunk_def)
  qed
qed

interpretation walk_range: table_walk pid "range_body cloexec" for pid cloexec
proof (unfold_locales, goal_cases)
  case (1 i m w m' w')
  show ?case
  proof (cases cloexec)
    case True
    then show ?thesis using reflag_keeps [OF 1(1,2) keeps_flags_or] 1(4) by (simp add: range_body_def reflag_def)
  next
    case False
    then show ?thesis using close_one_keeps [OF 1(1-3)] 1(4) by (simp add: range_body_def)
  qed
qed

section \<open>Properties\<close>

text \<open>\<^verbatim>\<open>set_new_fd_handle\<close> never fails an assertion and keeps the table well-formed. It gives the lowest free
  descriptor, below the limit of open files, which then stands for the handle with one more reference; or it fails for
  lack of memory or because the lowest free descriptor is not below the limit, and changes no descriptor and no count.\<close>

theorem set_new_fd_handle_lowest:
  assumes "map_ok m" "fl AND NOT FD_CLOEXEC = 0" "rlimit \<le> 2 ^ 31"
  shows "case set_new_fd_handle M rlimit h fl m w of
      None \<Rightarrow> False
    | Some (r, m', w') \<Rightarrow> map_ok m' \<and>
        (if 0 \<le> r
         then r = int (LEAST fd. fd_view m fd = None) \<and> r < int rlimit \<and> fd_view m' = (fd_view m)(nat r \<mapsto> (h, fl)) \<and>
              ref_count w' = (ref_count w)(h := ref_count w h + 1)
         else fd_view m' = fd_view m \<and> ref_count w' = ref_count w \<and>
              (r = - ENOMEM \<or> r = - EMFILE \<and> rlimit \<le> (LEAST fd. fd_view m fd = None)))"
proof -
  define fd where "fd = (LEAST fd. fd_view m fd = None)"
  have t: "set_target 0 True m = fd" using set_target_least [OF assms(1)] by (simp add: fd_def)
  obtain r m' w' where r: "set_new_fd_handle M rlimit h fl m w = Some (r, m', w')"
    and c: "set_failed rlimit 0 True m r \<and> same_table m w m' w' \<or>
        r = int fd \<and> fd < rlimit \<and> fd_view m fd = None \<and> added m w fd h fl m' w'"
    using u_set_new_result [OF assms, of M 0 h True w] unfolding set_new_fd_handle_def t by blast
  from c show ?thesis
  proof
    assume "set_failed rlimit 0 True m r \<and> same_table m w m' w'"
    then have "same_table m w m' w'" "r = - EMFILE \<and> rlimit \<le> fd \<or> r = - ENOMEM" by (auto simp: set_failed_def t)
    moreover from this(1) have "ref_count w' = ref_count w" "map_ok m'" "fd_view m' = fd_view m"
      unfolding same_table_def by (metis handles.select_convs(1) handles.surjective handles.update_convs(6), simp_all)
    moreover have "r < 0" using calculation(2) errno_pos by auto
    ultimately show ?thesis unfolding r fd_def [symmetric] by auto
  next
    assume a: "r = int fd \<and> fd < rlimit \<and> fd_view m fd = None \<and> added m w fd h fl m' w'"
    then have "w' = (get_handle h w)\<lparr>mallocs := mallocs w'\<rparr>" by (simp add: added_def)
    then have "ref_count w' = ref_count (get_handle h w)" by (metis handles.select_convs(1) handles.surjective handles.update_convs(6))
    then show ?thesis using a unfolding r fd_def [symmetric] by (simp add: added_def ref_get)
  qed
qed

definition demo_map :: libos_handle_map where
  "demo_map = \<lparr>fd_size = 2, fd_top = 1, map_ref = 1,
     fds = [empty_slot, Some \<lparr>vfd = 1, fd_flags = 0, fd_hdl = Some 9\<rparr>]\<rparr>"

lemma demo_map_ok: "map_ok demo_map"
  by (simp add: map_ok_def demo_map_def top_ok_def fd_null_val less_2_cases_iff HANDLE_ALLOCATED_def slot_ok_def empty_slot_def)
     (auto simp: less_Suc_eq numeral_2_eq_2 fd_null_val)

definition demo_handles :: handles where
  "demo_handles = \<lparr>ref_count = (\<lambda>h. if h = 9 then 1 else if h = 7 then 1 else 0), hdl_type = \<lambda>h. TYPE_OTHER,
     local_id_counter = 9, destroyed = [], posix_cleared = [], mallocs = 0\<rparr>"

theorem set_new_fd_handle_lowest_witness:
  "\<exists>m' w'. set_new_fd_handle (\<lambda>n. True) 900 7 1 demo_map demo_handles = Some (0, m', w') \<and>
     map_ok m' \<and> fd_view m' 0 = Some (7, 1) \<and> fd_view m' 1 = Some (9, 0)"
proof -
  have f: "(1 :: flags) AND NOT FD_CLOEXEC = 0" by (simp add: FD_CLOEXEC_def)
  have ff: "find_free demo_map 0 = 0" by (subst find_free.simps) (simp add: demo_map_def)
  have d: "fd_top demo_map = 1" "fd_size demo_map = 2" "fds demo_map ! 0 \<noteq> None"
    by (simp_all add: demo_map_def empty_slot_def)
  obtain m' w' where r: "set_new_fd_handle (\<lambda>n. True) 900 7 1 demo_map demo_handles = Some (0, m', w')"
    using f by (simp add: set_new_fd_handle_def u_set_new_fd_handle_def ff d fd_null_val enlarge_for_def
        u_init_handle_def int_of_u32_def)
  have "fd_view demo_map 1 = Some (9, 0)" by (simp add: fd_view_def demo_map_def slot_view_def HANDLE_ALLOCATED_def fd_null_val)
  then show ?thesis
    using set_new_fd_handle_lowest [OF demo_map_ok f, where rlimit = 900 and M = "\<lambda>n. True" and h = 7 and w = demo_handles] r by simp
qed

end
