(* ===== verification/Fd_Calls.thy ===== *)
theory Fd_Calls
  imports Handle_Map
begin

text \<open>
  The system calls on file descriptors: \<^verbatim>\<open>dup\<close>, \<^verbatim>\<open>dup2\<close>, \<^verbatim>\<open>dup3\<close> (\<^verbatim>\<open>libos_dup.c\<close>), \<^verbatim>\<open>openat\<close>, \<^verbatim>\<open>close\<close>, \<^verbatim>\<open>close_range\<close> and
  the registration of host descriptors (\<^verbatim>\<open>libos_open.c\<close>), in the build that redirects calls to the host. The requests
  to the host are a list in the state. The answer of the host, and the results of the lookups in the file system, are
  arguments.
\<close>

section \<open>State\<close>

datatype sg_request = OPEN_REQ string flags "32 word" | DUP_REQ nat | DUP_IDENTITY_REQ nat | CLOSE_REQ int
  | FCNTL_REQ int int nat | FLOCK_REQ nat flags

record fd_sys =
  tbl :: libos_handle_map
  hs :: handles
  requests :: "sg_request list"
  dentries_put :: "nat list"
  lock_held :: bool

definition request :: "sg_request \<Rightarrow> fd_sys \<Rightarrow> fd_sys" where
  "request r s = s\<lparr>requests := requests s @ [r]\<rparr>"

definition with_tables :: "libos_handle_map \<Rightarrow> handles \<Rightarrow> fd_sys \<Rightarrow> fd_sys" where
  "with_tables m w s = s\<lparr>tbl := m, hs := w\<rparr>"

definition u32_of_int :: "int \<Rightarrow> nat" where
  "u32_of_int k = nat (k mod 2 ^ 32)"

text \<open>A \<^verbatim>\<open>long\<close> assigned to an \<^verbatim>\<open>int\<close>.\<close>

definition int_of_long :: "int \<Rightarrow> int" where
  "int_of_long n = (n + 2 ^ 31) mod 2 ^ 32 - 2 ^ 31"

text \<open>The results of the allocating calls that turn \<^verbatim>\<open>ENOMEM\<close> into \<^verbatim>\<open>EMFILE\<close>.\<close>

definition dup_result :: "int \<Rightarrow> int" where
  "dup_result r = (if r = - ENOMEM then - EMFILE else r)"

section \<open>dup\<close>

text \<open>The redirected part: the host duplicates its own descriptor, and the copy gets a handle of the same type.\<close>

definition dup_host :: "(nat \<Rightarrow> bool) \<Rightarrow> nat \<Rightarrow> nat \<Rightarrow> int \<Rightarrow> nat \<Rightarrow> hdl \<Rightarrow> fd_sys \<Rightarrow> (int \<times> fd_sys) option" where
  "dup_host M pid rlimit comm_ret fd h s =
     (let s1 = request (if hdl_type (hs s) h = TYPE_HOST_IDENTITY then DUP_IDENTITY_REQ fd else DUP_REQ fd) s
      in case get_new_handle M pid (hs s1) of
           None \<Rightarrow> None
         | Some (None, w) \<Rightarrow> None
         | Some (Some hdl_dup, w) \<Rightarrow>
             (let w1 = w\<lparr>hdl_type := (hdl_type w)(hdl_dup := hdl_type w h)\<rparr>
              in case set_new_fd_handle_by_fd M rlimit (u32_of_int comm_ret) hdl_dup 0 (tbl s1) w1 of
                   None \<Rightarrow> None
                 | Some (ret, m, w2) \<Rightarrow>
                     if ret < 0 then Some (ret, with_tables m (put_handle hdl_dup w2) s1)
                     else Some (comm_ret, with_tables m (put_handle hdl_dup (put_handle h w2)) s1)))"

definition libos_syscall_dup :: "(nat \<Rightarrow> bool) \<Rightarrow> nat \<Rightarrow> nat \<Rightarrow> int \<Rightarrow> nat \<Rightarrow> fd_sys \<Rightarrow> (int \<times> fd_sys) option" where
  "libos_syscall_dup M pid rlimit comm_ret fd s =
     (case get_fd_handle fd (tbl s) (hs s) of
        (None, w) \<Rightarrow> Some (- EBADF, s\<lparr>hs := w\<rparr>)
      | (Some h, w) \<Rightarrow>
          let s1 = s\<lparr>hs := w\<rparr>
          in if hdl_type w h = TYPE_HOST \<or> hdl_type w h = TYPE_HOST_IDENTITY
             then dup_host M pid rlimit comm_ret fd h s1
             else (case set_new_fd_handle M rlimit h 0 (tbl s1) (hs s1) of
                     None \<Rightarrow> None
                   | Some (new_fd, m, w2) \<Rightarrow>
                       if new_fd > SG_HOST_FD_OFFSET then None
                       else Some (dup_result new_fd, with_tables m (put_handle h w2) s1)))"

text \<open>The common end of \<^verbatim>\<open>dup2\<close> and \<^verbatim>\<open>dup3\<close>: close the target, and put the handle there.\<close>

definition dup_onto :: "(nat \<Rightarrow> bool) \<Rightarrow> nat \<Rightarrow> nat \<Rightarrow> hdl \<Rightarrow> flags \<Rightarrow> fd_sys \<Rightarrow> (int \<times> fd_sys) option" where
  "dup_onto M rlimit newfd h fl s =
     (let (new_hdl, m1, w1) = detach_fd_handle newfd (tbl s) (hs s);
          w2 = put_detached new_hdl w1
      in case set_new_fd_handle_by_fd M rlimit newfd h fl m1 w2 of
           None \<Rightarrow> None
         | Some (r, m2, w3) \<Rightarrow> Some (dup_result r, with_tables m2 (put_handle h w3) s))"

definition libos_syscall_dup2 :: "(nat \<Rightarrow> bool) \<Rightarrow> nat \<Rightarrow> nat \<Rightarrow> nat \<Rightarrow> fd_sys \<Rightarrow> (int \<times> fd_sys) option" where
  "libos_syscall_dup2 M rlimit oldfd newfd s =
     (if newfd \<ge> rlimit then Some (- EBADF, s)
      else case get_fd_handle oldfd (tbl s) (hs s) of
        (None, w) \<Rightarrow> Some (- EBADF, s\<lparr>hs := w\<rparr>)
      | (Some h, w) \<Rightarrow>
          if oldfd = newfd then Some (int newfd, s\<lparr>hs := put_handle h w\<rparr>)
          else dup_onto M rlimit newfd h 0 (s\<lparr>hs := w\<rparr>))"

definition libos_syscall_dup3 :: "(nat \<Rightarrow> bool) \<Rightarrow> nat \<Rightarrow> nat \<Rightarrow> nat \<Rightarrow> flags \<Rightarrow> fd_sys \<Rightarrow> (int \<times> fd_sys) option" where
  "libos_syscall_dup3 M rlimit oldfd newfd fl s =
     (if fl AND NOT O_CLOEXEC \<noteq> 0 \<or> oldfd = newfd then Some (- EINVAL, s)
      else if newfd \<ge> rlimit then Some (- EBADF, s)
      else case get_fd_handle oldfd (tbl s) (hs s) of
        (None, w) \<Rightarrow> Some (- EBADF, s\<lparr>hs := w\<rparr>)
      | (Some h, w) \<Rightarrow>
          dup_onto M rlimit newfd h (if has_flag fl O_CLOEXEC then FD_CLOEXEC else 0) (s\<lparr>hs := w\<rparr>))"

section \<open>close\<close>

definition libos_syscall_close :: "int \<Rightarrow> int \<Rightarrow> fd_sys \<Rightarrow> int \<times> fd_sys" where
  "libos_syscall_close comm_ret fd s =
     (case detach_fd_handle (u32_of_int fd) (tbl s) (hs s) of
        (None, m, w) \<Rightarrow> (comm_ret, request (CLOSE_REQ fd) (with_tables m w s))
      | (Some h, m, w) \<Rightarrow> (0, with_tables m (put_handle h w) s))"

text \<open>With \<^verbatim>\<open>CLOSE_RANGE_UNSHARE\<close> the thread first gets its own copy of the table.\<close>

definition unshare :: "(nat \<Rightarrow> bool) \<Rightarrow> fd_sys \<Rightarrow> (int \<times> fd_sys) option" where
  "unshare M s =
     (case dup_handle_map M (tbl s) (hs s) of
        None \<Rightarrow> None
      | Some (err, new_map, w, held) \<Rightarrow>
          let s1 = s\<lparr>hs := w, lock_held := lock_held s \<or> held\<rparr>
          in (case new_map of
                None \<Rightarrow> Some (err, s1)
              | Some nm \<Rightarrow> Some (0, s1\<lparr>tbl := nm, hs := snd (put_handle_map (tbl s) w)\<rparr>)))"

definition libos_syscall_close_range :: "(nat \<Rightarrow> bool) \<Rightarrow> nat \<Rightarrow> nat \<Rightarrow> flags \<Rightarrow> fd_sys \<Rightarrow> (int \<times> fd_sys) option" where
  "libos_syscall_close_range M first last_fd fl s =
     (if first > last_fd \<or> has_flag fl (NOT (CLOSE_RANGE_CLOEXEC OR CLOSE_RANGE_UNSHARE)) then Some (- EINVAL, s)
      else case (if has_flag fl CLOSE_RANGE_UNSHARE then unshare M s else Some (0, s)) of
        None \<Rightarrow> None
      | Some (err, s1) \<Rightarrow>
          if err < 0 then Some (err, s1)
          else let (m, w) = close_handle_range first last_fd (has_flag fl CLOSE_RANGE_CLOEXEC) (tbl s1) (hs s1)
               in Some (0, with_tables m w s1))"

section \<open>open\<close>

definition libos_syscall_register_host_identity_fd :: "(nat \<Rightarrow> bool) \<Rightarrow> nat \<Rightarrow> nat \<Rightarrow> int \<Rightarrow> fd_sys \<Rightarrow> (int \<times> fd_sys) option" where
  "libos_syscall_register_host_identity_fd M pid rlimit fd s =
     (case get_new_handle M pid (hs s) of
        None \<Rightarrow> None
      | Some (None, w) \<Rightarrow> Some (- ENOMEM, s\<lparr>hs := w\<rparr>)
      | Some (Some h, w) \<Rightarrow>
          (case set_new_fd_handle_by_fd M rlimit (u32_of_int fd) h 0 (tbl s)
                  (w\<lparr>hdl_type := (hdl_type w)(h := TYPE_HOST_IDENTITY)\<rparr>) of
             None \<Rightarrow> None
           | Some (r, m, w2) \<Rightarrow> Some (r, with_tables m (put_handle h w2) s)))"

text \<open>Which paths go to the host.\<close>

definition under_root :: "string \<Rightarrow> string \<Rightarrow> bool" where
  "under_root root path \<longleftrightarrow> take (length root) path = root \<and>
     (drop (length root) path = [] \<or> hd (drop (length root) path) = CHR ''/'')"

definition is_sg_host_path :: "string \<Rightarrow> bool" where
  "is_sg_host_path path \<longleftrightarrow> list_ex (\<lambda>root. under_root root path) [''/dev'', ''/sys'', ''/root/.cache'']"

fun strstr :: "string \<Rightarrow> string \<Rightarrow> bool" where
  "strstr [] needle = (needle = [])"
| "strstr (c # cs) needle = (take (length needle) (c # cs) = needle \<or> strstr cs needle)"

definition use_sg_host :: "string \<Rightarrow> bool" where
  "use_sg_host filename \<longleftrightarrow> is_sg_host_path filename \<and> \<not> strstr filename ''devtest'' \<and> \<not> strstr filename ''urandom''"

definition O_ACCMODE :: flags where "O_ACCMODE = 3"
definition O_CREAT :: flags where "O_CREAT = 64"
definition O_PATH :: flags where "O_PATH = 2097152"
definition O_DIRECTORY :: flags where "O_DIRECTORY = 65536"
definition O_NOFOLLOW :: flags where "O_NOFOLLOW = 131072"

text \<open>\<^verbatim>\<open>O_APPEND\<close>, \<^verbatim>\<open>O_DIRECT\<close>, \<^verbatim>\<open>O_DSYNC\<close>, \<^verbatim>\<open>O_EXCL\<close>, \<^verbatim>\<open>O_LARGEFILE\<close>, \<^verbatim>\<open>O_NOATIME\<close>, \<^verbatim>\<open>O_NOCTTY\<close>, \<^verbatim>\<open>O_NONBLOCK\<close>, \<^verbatim>\<open>O_SYNC\<close>,
  \<^verbatim>\<open>O_TMPFILE\<close> and \<^verbatim>\<open>O_TRUNC\<close>.\<close>

definition open_other_flags :: flags where
  "open_other_flags = 1024 OR 16384 OR 4096 OR 128 OR 32768 OR 262144 OR 256 OR 2048 OR 1052672 OR 4259840 OR 512"

definition clean_flags :: "flags \<Rightarrow> flags" where
  "clean_flags fl = fl AND (O_ACCMODE OR O_CLOEXEC OR O_CREAT OR O_DIRECTORY OR O_NOFOLLOW OR O_PATH OR open_other_flags)"

definition path_flags :: "flags \<Rightarrow> flags" where
  "path_flags fl = (if has_flag fl O_PATH then fl AND (O_PATH OR O_CLOEXEC OR O_DIRECTORY OR O_NOFOLLOW) else fl)"

definition open_mode :: "32 word \<Rightarrow> flags \<Rightarrow> 32 word \<Rightarrow> 32 word" where
  "open_mode umask fl mode = (if has_flag fl O_CREAT then mode AND 4095 AND NOT umask else 0)"

definition cloexec_flag :: "flags \<Rightarrow> flags" where
  "cloexec_flag fl = (if has_flag fl O_CLOEXEC then FD_CLOEXEC else 0)"

text \<open>The end of the function: the reference of \<^verbatim>\<open>dir\<close> is given back.\<close>

definition open_out :: "nat option \<Rightarrow> int \<Rightarrow> fd_sys \<Rightarrow> (int \<times> fd_sys) option" where
  "open_out dir ret s = Some (ret, case dir of None \<Rightarrow> s | Some d \<Rightarrow> s\<lparr>dentries_put := dentries_put s @ [d]\<rparr>)"

text \<open>
  The redirected part. It jumps over the initialisation of \<^verbatim>\<open>dir\<close>, so what it finds there, \<open>stale\<close>, is an arbitrary
  value.
\<close>

definition openat_host :: "(nat \<Rightarrow> bool) \<Rightarrow> nat \<Rightarrow> nat \<Rightarrow> int \<Rightarrow> nat option \<Rightarrow> string \<Rightarrow> flags \<Rightarrow> 32 word \<Rightarrow> fd_sys \<Rightarrow>
    (int \<times> fd_sys) option" where
  "openat_host M pid rlimit retval stale filename fl mode s =
     (let s1 = request (OPEN_REQ filename fl mode) s
      in if retval < 0 then open_out stale (int_of_long retval) s1
      else case get_new_handle M pid (hs s1) of
             None \<Rightarrow> None
           | Some (None, w) \<Rightarrow> open_out stale (- ENOMEM) (s1\<lparr>hs := w\<rparr>)
           | Some (Some h, w) \<Rightarrow>
               (case set_new_fd_handle_by_fd M rlimit (u32_of_int retval) h (cloexec_flag fl) (tbl s1)
                       (w\<lparr>hdl_type := (hdl_type w)(h := TYPE_HOST)\<rparr>) of
                  None \<Rightarrow> None
                | Some (ret, m, w2) \<Rightarrow> open_out stale ret (with_tables m (put_handle h w2) s1)))"

text \<open>The part in the file system: \<open>dirfd\<close> is the result of \<^verbatim>\<open>get_dirfd_dentry\<close> with the directory it gives.\<close>

definition openat_fs :: "(nat \<Rightarrow> bool) \<Rightarrow> nat \<Rightarrow> nat \<Rightarrow> 32 word \<Rightarrow> int \<times> nat option \<Rightarrow>
    (hdl \<Rightarrow> nat option \<Rightarrow> string \<Rightarrow> flags \<Rightarrow> 32 word \<Rightarrow> int) \<Rightarrow> string \<Rightarrow> flags \<Rightarrow> 32 word \<Rightarrow> fd_sys \<Rightarrow> (int \<times> fd_sys) option" where
  "openat_fs M pid rlimit umask dirfd open_namei filename fl0 mode0 s =
     (let fl1 = clean_flags fl0
      in if fl1 AND O_ACCMODE \<noteq> 0 \<and> fl1 AND O_ACCMODE \<noteq> 1 \<and> fl1 AND O_ACCMODE \<noteq> 2 then Some (- EINVAL, s)
      else let fl = path_flags fl1; mode = open_mode umask fl mode0;
               relative = (filename = [] \<or> hd filename \<noteq> CHR ''/'');
               dir = (if relative then snd dirfd else None)
      in if relative \<and> fst dirfd < 0 then Some (fst dirfd, s)
      else case get_new_handle M pid (hs s) of
             None \<Rightarrow> None
           | Some (None, w) \<Rightarrow> open_out dir (- ENOMEM) (s\<lparr>hs := w\<rparr>)
           | Some (Some h, w) \<Rightarrow>
               (let ret = open_namei h dir filename fl mode
                in if ret < 0
                   then open_out dir (if ret = - EINTR then - 512 else ret) (s\<lparr>hs := put_handle h w\<rparr>)
                   else case set_new_fd_handle M rlimit h (cloexec_flag fl) (tbl s) w of
                          None \<Rightarrow> None
                        | Some (r, m, w2) \<Rightarrow>
                            if r > SG_HOST_FD_OFFSET then None
                            else open_out dir r (with_tables m (put_handle h w2) s)))"

definition libos_syscall_openat :: "(nat \<Rightarrow> bool) \<Rightarrow> nat \<Rightarrow> nat \<Rightarrow> bool \<Rightarrow> int \<Rightarrow> nat option \<Rightarrow> 32 word \<Rightarrow> int \<times> nat option \<Rightarrow>
    (hdl \<Rightarrow> nat option \<Rightarrow> string \<Rightarrow> flags \<Rightarrow> 32 word \<Rightarrow> int) \<Rightarrow> string \<Rightarrow> flags \<Rightarrow> 32 word \<Rightarrow> fd_sys \<Rightarrow> (int \<times> fd_sys) option" where
  "libos_syscall_openat M pid rlimit readable retval stale umask dirfd open_namei filename fl mode s =
     (if \<not> readable then Some (- EFAULT, s)
      else if use_sg_host filename then openat_host M pid rlimit retval stale filename fl mode s
      else openat_fs M pid rlimit umask dirfd open_namei filename fl mode s)"

section \<open>Sequences of calls\<close>

inductive fd_call :: "nat \<Rightarrow> nat \<Rightarrow> fd_sys \<Rightarrow> int \<Rightarrow> fd_sys \<Rightarrow> bool" for pid rlimit where
  openat: "libos_syscall_openat M pid rlimit readable retval stale umask dirfd open_namei filename fl mode s = Some (r, s') \<Longrightarrow>
     fd_call pid rlimit s r s'"
| register: "libos_syscall_register_host_identity_fd M pid rlimit fd s = Some (r, s') \<Longrightarrow> fd_call pid rlimit s r s'"
| close: "libos_syscall_close comm_ret fd s = (r, s') \<Longrightarrow> fd_call pid rlimit s r s'"
| close_range: "libos_syscall_close_range M first last_fd fl s = Some (r, s') \<Longrightarrow> fd_call pid rlimit s r s'"
| dup: "libos_syscall_dup M pid rlimit comm_ret fd s = Some (r, s') \<Longrightarrow> fd_call pid rlimit s r s'"
| dup2: "libos_syscall_dup2 M rlimit oldfd newfd s = Some (r, s') \<Longrightarrow> fd_call pid rlimit s r s'"
| dup3: "libos_syscall_dup3 M rlimit oldfd newfd fl s = Some (r, s') \<Longrightarrow> fd_call pid rlimit s r s'"
| execve: "close_cloexec_handles (tbl s) (hs s) = (m, w) \<Longrightarrow> fd_call pid rlimit s 0 (with_tables m w s)"
| exit_all: "detach_all_fds (tbl s) (hs s) = (m, w) \<Longrightarrow> fd_call pid rlimit s 0 (with_tables m w s)"

inductive fd_reach :: "nat \<Rightarrow> nat \<Rightarrow> fd_sys \<Rightarrow> bool" for pid rlimit where
  start: "get_new_handle_map M INIT_HANDLE_MAP_SIZE \<lparr>ref_count = \<lambda>h. 0, hdl_type = \<lambda>h. TYPE_OTHER,
      local_id_counter = 0, destroyed = [], posix_cleared = [], mallocs = 0\<rparr> = (Some m, w) \<Longrightarrow>
    fd_reach pid rlimit \<lparr>tbl = m, hs = w, requests = [], dentries_put = [], lock_held = False\<rparr>"
| call: "fd_reach pid rlimit s \<Longrightarrow> \<not> lock_held s \<Longrightarrow> fd_call pid rlimit s r s' \<Longrightarrow> fd_reach pid rlimit s'"

section \<open>Accounting of references\<close>

lemma tables_okD:
  assumes "tables_ok pid m w"
  shows "map_ok m" "live_ok pid w" "0 \<le> balance m w h" "slots m h \<le> ref_count w h"
  using assms by (simp_all add: tables_ok_def balance_def)

text \<open>A reference that is held besides the descriptors: \<open>plus\<close> one, or \<open>minus\<close> one.\<close>

definition plus :: "hdl \<Rightarrow> (hdl \<Rightarrow> int) \<Rightarrow> hdl \<Rightarrow> int" where "plus h b = b(h := b h + 1)"
definition minus :: "hdl \<Rightarrow> (hdl \<Rightarrow> int) \<Rightarrow> hdl \<Rightarrow> int" where "minus h b = b(h := b h - 1)"

lemma minus_plus [simp]: "minus h (plus h b) = b"
  by (simp add: minus_def plus_def)

lemma plus_at [simp]: "plus h b h = b h + 1"
  by (simp add: plus_def)

lemma get_held:
  assumes "tables_ok pid m w" "fd_view m fd = Some (h, fl)"
  shows "tables_ok pid m (get_handle h w) \<and> balance m (get_handle h w) = plus h (balance m w)"
proof -
  have "0 < ref_count w h" using view_slots [OF assms(2)] tables_okD(4) [OF assms(1), of h] by linarith
  then have "live_ok pid (get_handle h w)" using live_get tables_okD(2) [OF assms(1)] by blast
  moreover have "balance m (get_handle h w) = plus h (balance m w)" by (auto simp: balance_def ref_get plus_def)
  ultimately show ?thesis using assms(1) by (auto simp: tables_ok_def plus_def)
qed

lemma put_held:
  assumes "tables_ok pid m w" "1 \<le> balance m w h"
  shows "tables_ok pid m (put_handle h w) \<and> balance m (put_handle h w) = minus h (balance m w)"
proof -
  have "0 < ref_count w h" using assms(2) slots_nonneg [of m h] unfolding balance_def by linarith
  then have "live_ok pid (put_handle h w)" using live_put tables_okD(2) [OF assms(1)] by blast
  moreover have "balance m (put_handle h w) = minus h (balance m w)" by (auto simp: balance_def ref_put minus_def)
  ultimately show ?thesis using assms by (auto simp: tables_ok_def minus_def)
qed

lemma live_ref_only: "live_ok pid (w\<lparr>hdl_type := f\<rparr>) = live_ok pid w"
  by (simp add: live_ok_def issued_def)

lemma tables_type [simp]:
  "tables_ok pid m (w\<lparr>hdl_type := f\<rparr>) = tables_ok pid m w" "balance m (w\<lparr>hdl_type := f\<rparr>) = balance m w"
  by (auto simp: tables_ok_def live_ref_only balance_def)

lemma tables_mallocs [simp]:
  "tables_ok pid m (w\<lparr>mallocs := n\<rparr>) = tables_ok pid m w" "balance m (w\<lparr>mallocs := n\<rparr>) = balance m w"
  by (auto simp: tables_ok_def balance_def)

lemma tables_clear [simp]:
  "tables_ok pid m (clear_posix_locks h w) = tables_ok pid m w" "balance m (clear_posix_locks h w) = balance m w"
  by (auto simp: tables_ok_def balance_def)

lemma same_tables: "same_table m w m' w' \<Longrightarrow> tables_ok pid m w \<Longrightarrow> tables_ok pid m' w' \<and> balance m' w' = balance m w"
proof -
  assume s: "same_table m w m' w'" and t: "tables_ok pid m w"
  then obtain n where n: "w' = w\<lparr>mallocs := n\<rparr>" unfolding same_table_def by blast
  have "balance m' w' = balance m w" using s n by (auto simp: balance_def same_table_def)
  then show ?thesis using s t n by (simp add: same_table_def tables_ok_def)
qed

lemma added_tables:
  assumes "added m w fd h fl m' w'" "tables_ok pid m w" "1 \<le> balance m w h"
  shows "tables_ok pid m' w' \<and> balance m' w' = balance m w"
proof -
  obtain n where n: "w' = (get_handle h w)\<lparr>mallocs := n\<rparr>" using assms(1) unfolding added_def by blast
  have "0 < ref_count w h" using assms(3) slots_nonneg [of m h] unfolding balance_def by linarith
  then have live: "live_ok pid w'" using live_get tables_okD(2) [OF assms(2)] n by simp
  have "slots m' k = slots m k + of_bool (k = h)" for k using assms(1) by (simp add: added_def)
  then have "balance m' w' k = balance m w k" for k using n by (simp add: balance_def ref_get)
  then have "balance m' w' = balance m w" by blast
  then show ?thesis using assms(1,2) live by (simp add: added_def tables_ok_def)
qed

lemma u_set_keeps:
  assumes "tables_ok pid m w" "1 \<le> balance m w h" "fl = 0 \<or> fl = FD_CLOEXEC" "rlimit \<le> 2 ^ 31"
    "u_set_new_fd_handle M rlimit low h fl search m w = Some (r, m', w')"
  shows "tables_ok pid m' w' \<and> balance m' w' = balance m w \<and> map_ref m' = map_ref m"
proof -
  have fl: "fl AND NOT FD_CLOEXEC = 0" using assms(3) by auto
  obtain fd where "same_table m w m' w' \<or> added m w fd h fl m' w'"
    using u_set_new_result [OF tables_okD(1) [OF assms(1)] fl assms(4), of M low h search w] assms(5) by auto
  then show ?thesis
  proof
    assume s: "same_table m w m' w'"
    then show ?thesis using same_tables [OF s assms(1)] by (simp add: same_table_def)
  next
    assume a: "added m w fd h fl m' w'"
    then show ?thesis using added_tables [OF a assms(1,2)] by (simp add: added_def)
  qed
qed

lemmas set_keeps = u_set_keeps [where low = 0 and search = True, folded set_new_fd_handle_def]
  u_set_keeps [where search = False, folded set_new_fd_handle_by_fd_def]

lemma put_detached_none [simp]: "put_detached None w = w" "put_detached (Some h) w = put_handle h w"
  by (simp_all add: put_detached_def)

definition plus_opt :: "hdl option \<Rightarrow> (hdl \<Rightarrow> int) \<Rightarrow> hdl \<Rightarrow> int" where
  "plus_opt h b = (case h of None \<Rightarrow> b | Some k \<Rightarrow> plus k b)"

lemma detach_held:
  assumes "tables_ok pid m w" "detach_fd_handle fd m w = (h, m', w')"
  shows "tables_ok pid m' w' \<and> balance m' w' = plus_opt h (balance m w) \<and> map_ref m' = map_ref m \<and>
    fd_view m' = (fd_view m)(fd := None) \<and> h = map_option fst (fd_view m fd)"
proof (cases "fd < fd_size m")
  case True
  have m: "map_ok m" by (rule tables_okD(1) [OF assms(1)])
  then have i: "fd < length (fds m)" using True by (simp add: map_ok_def)
  have d: "u_detach_fd_handle fd m = (h, m')" and w': "w' = clear_posix_locks h w"
    using assms(2) True by (auto simp: detach_fd_handle_def split: prod.splits)
  note k = u_detach_keeps [OF m i d]
  have "slots m' x = slots m x - of_bool (h = Some x)" for x using k by blast
  then have b: "balance m' w' = plus_opt h (balance m w)" unfolding w'
    by (cases h) (auto simp: balance_def plus_opt_def plus_def)
  moreover have "0 \<le> balance m' w' x" for x using tables_okD(3) [OF assms(1), of x] unfolding b
    by (cases h) (auto simp: plus_opt_def plus_def)
  moreover have "live_ok pid w'" using tables_okD(2) [OF assms(1)] w' by simp
  moreover have "map_ref m' = map_ref m" using detach_map_ref [of fd m] d by simp
  ultimately show ?thesis using k unfolding tables_ok_def by blast
next
  case False
  have "map_ok m" by (rule tables_okD(1) [OF assms(1)])
  then have "fd_view m fd = None" using False by (simp add: fd_view_def map_ok_def)
  then show ?thesis using assms False by (auto simp: detach_fd_handle_def plus_opt_def clear_posix_locks_def)
qed

lemma new_handle_cases:
  assumes "get_new_handle M pid w = Some (h, w')"
  shows "(h = None \<and> (\<exists>n. w' = w\<lparr>mallocs := n\<rparr>)) \<or>
    (\<exists>k n. k = local_id_counter w + 1 \<and> k mod 2 ^ 32 \<noteq> 0 \<and> h = Some (pid * 2 ^ 32 + k mod 2 ^ 32) \<and>
       w' = w\<lparr>local_id_counter := k mod 2 ^ 32, ref_count := (ref_count w)(pid * 2 ^ 32 + k mod 2 ^ 32 := 1),
              hdl_type := (hdl_type w)(pid * 2 ^ 32 + k mod 2 ^ 32 := TYPE_OTHER), mallocs := n\<rparr>)"
proof (cases "M (mallocs w) \<and> M (Suc (mallocs w)) \<and> M (Suc (Suc (mallocs w)))")
  case True
  then show ?thesis using assms
    by (intro disjI2 exI [of _ "local_id_counter w + 1"] exI [of _ "Suc (Suc (Suc (mallocs w)))"])
       (auto simp: get_new_handle_def malloc_def Let_def split: if_splits)
next
  case False
  then have "h = None" "w' \<in> {w\<lparr>mallocs := Suc (mallocs w)\<rparr>, w\<lparr>mallocs := Suc (Suc (mallocs w))\<rparr>,
      w\<lparr>mallocs := Suc (Suc (Suc (mallocs w)))\<rparr>}"
    using assms by (auto simp: get_new_handle_def malloc_def Let_def split: if_splits)
  then show ?thesis by blast
qed

lemma new_handle_held:
  assumes "get_new_handle M pid w = Some (h, w')" "tables_ok pid m w"
  shows "tables_ok pid m w' \<and> balance m w' = plus_opt h (balance m w) \<and> (\<forall>k. h = Some k \<longrightarrow> balance m w k = 0)"
  using new_handle_cases [OF assms(1)]
proof
  assume "h = None \<and> (\<exists>n. w' = w\<lparr>mallocs := n\<rparr>)"
  then show ?thesis using assms(2) by (auto simp: plus_opt_def)
next
  have live: "live_ok pid w" by (rule tables_okD(2) [OF assms(2)])
  then have lic: "local_id_counter w < 2 ^ 32" by (simp add: live_ok_def)
  assume "\<exists>k n. k = local_id_counter w + 1 \<and> k mod 2 ^ 32 \<noteq> 0 \<and> h = Some (pid * 2 ^ 32 + k mod 2 ^ 32) \<and>
       w' = w\<lparr>local_id_counter := k mod 2 ^ 32, ref_count := (ref_count w)(pid * 2 ^ 32 + k mod 2 ^ 32 := 1),
              hdl_type := (hdl_type w)(pid * 2 ^ 32 + k mod 2 ^ 32 := TYPE_OTHER), mallocs := n\<rparr>"
  moreover have "(local_id_counter w + 1) mod 2 ^ 32 = local_id_counter w + 1" if "(local_id_counter w + 1) mod 2 ^ 32 \<noteq> 0"
    using that lic by (metis Suc_eq_plus1 Suc_lessI mod_less mod_self)
  ultimately obtain g n where lt: "local_id_counter w + 1 < 2 ^ 32" and g: "g = pid * 2 ^ 32 + (local_id_counter w + 1)" and h: "h = Some g"
    and w': "w' = w\<lparr>local_id_counter := local_id_counter w + 1, ref_count := (ref_count w)(g := 1),
              hdl_type := (hdl_type w)(g := TYPE_OTHER), mallocs := n\<rparr>"
    by (metis mod_less_divisor zero_less_power zero_less_numeral)
  have no: "\<not> issued pid w g" by (simp add: issued_def g)
  then have nd: "g \<notin> set (destroyed w)" and "\<not> 0 < ref_count w g" "0 \<le> ref_count w g" using live unfolding live_ok_def by blast+
  then have ref: "ref_count w g = 0" by linarith
  have "slots m g = 0" using ref tables_okD(4) [OF assms(2), of g] slots_nonneg [of m g] by linarith
  then have bal: "balance m w g = 0" using ref by (simp add: balance_def)
  have mono: "issued pid w x \<Longrightarrow> issued pid w' x" for x by (simp add: issued_def w')
  have "issued pid w' g" by (simp add: issued_def w' g)
  then have "live_ok pid w'" using live nd mono lt unfolding live_ok_def by (simp add: w')
  moreover have b: "balance m w' = plus g (balance m w)" using ref by (auto simp: balance_def w' plus_def)
  moreover have "0 \<le> balance m w' x" for x using tables_okD(3) [OF assms(2), of x] unfolding b by (auto simp: plus_def)
  ultimately show ?thesis using tables_okD(1) [OF assms(2)] bal h by (simp add: tables_ok_def plus_opt_def)
qed

section \<open>Copies of a table\<close>

definition count :: "libos_fd_handle option list \<Rightarrow> hdl \<Rightarrow> int" where
  "count xs h = int (length (filter (refers h) xs))"

definition copied :: "libos_fd_handle option \<Rightarrow> libos_fd_handle option" where
  "copied f = (if HANDLE_ALLOCATED f then f else None)"

lemma copied_simps [simp]:
  "HANDLE_ALLOCATED (copied f) = HANDLE_ALLOCATED f" "refers h (copied f) = refers h f" "slot_view (copied f) = slot_view f"
  "slot_ok i f \<Longrightarrow> slot_ok i (copied f)"
  by (auto simp: copied_def HANDLE_ALLOCATED_def refers_def slot_view_def slot_ok_def split: option.splits)

lemma slots_count: "slots m = count (fds m)"
  by (auto simp: slots_def count_def)

lemma dup_slots_free: "\<not> HANDLE_ALLOCATED f \<Longrightarrow> dup_slots M (f # fs) dn w = dup_slots M fs (dn @ [None]) w"
  by (auto simp: HANDLE_ALLOCATED_def split: option.splits)

lemma dup_slots_used:
  fixes w :: handles
  assumes "vfd g \<noteq> FD_NULL" "fd_hdl g = Some h"
  defines "w2 \<equiv> (get_handle h w)\<lparr>mallocs := Suc (mallocs w)\<rparr>"
  shows "dup_slots M (Some g # fs) dn w = (if M (mallocs w) then dup_slots M fs (dn @ [Some g]) w2 else Inl (dn, w2))"
proof -
  obtain v fl where "g = \<lparr>vfd = v, fd_flags = fl, fd_hdl = Some h\<rparr>" using assms(2) by (cases g) auto
  then show ?thesis using assms(1) by (simp add: w2_def malloc_def get_handle_def Let_def)
qed

lemma allocated_cases:
  assumes "slot_ok i f" "HANDLE_ALLOCATED f"
  obtains g h where "f = Some g" "vfd g \<noteq> FD_NULL" "fd_hdl g = Some h" "\<forall>k. refers k f \<longleftrightarrow> k = h"
  using assms by (auto simp: HANDLE_ALLOCATED_def slot_ok_def refers_def slot_view_def split: option.splits)

lemma count_simps [simp]:
  "count [] h = 0" "count (f # fs) h = of_bool (refers h f) + count fs h" "0 \<le> count fs h"
  "count (xs @ ys) h = count xs h + count ys h" "count (map copied fs) h = count fs h"
  by (auto simp: count_def filter_map comp_def)

text \<open>The copy takes one reference for each descriptor copied, and one more for the one it stops at.\<close>

lemma dup_slots_copies:
  "list_all (\<lambda>f. \<exists>i. slot_ok i f) fs \<Longrightarrow> live_ok pid w \<Longrightarrow> \<forall>h. 0 < count fs h \<longrightarrow> 0 < ref_count w h \<Longrightarrow>
   (case dup_slots M fs dn w of
      Inr (dn', w') \<Rightarrow> dn' = dn @ map copied fs \<and> live_ok pid w' \<and> (\<forall>k. ref_count w' k = ref_count w k + count fs k)
    | Inl (dn', w') \<Rightarrow> \<exists>pre h. dn' = dn @ map copied pre \<and> live_ok pid w' \<and> list_all (\<lambda>f. \<exists>i. slot_ok i f) pre \<and>
        (\<forall>k. ref_count w' k = ref_count w k + count pre k + of_bool (k = h)))"
proof (induction fs arbitrary: dn w)
  case (Cons f fs)
  show ?case
  proof (cases "HANDLE_ALLOCATED f")
    case False
    then have nr: "\<not> refers h f" for h by (simp add: refers_def slot_view_def)
    have c: "copied f = None" using False by (simp add: copied_def)
    have "slot_ok 0 None" by (simp add: slot_ok_def)
    then have "case dup_slots M fs (dn @ [None]) w of
      Inr (dn', w') \<Rightarrow> dn' = (dn @ [None]) @ map copied fs \<and> live_ok pid w' \<and> (\<forall>k. ref_count w' k = ref_count w k + count fs k)
    | Inl (dn', w') \<Rightarrow> \<exists>pre h. dn' = (dn @ [None]) @ map copied pre \<and> live_ok pid w' \<and> list_all (\<lambda>f. \<exists>i. slot_ok i f) pre \<and>
        (\<forall>k. ref_count w' k = ref_count w k + count pre k + of_bool (k = h))"
      using Cons.IH [of w "dn @ [None]"] Cons.prems nr by simp
    then show ?thesis unfolding dup_slots_free [OF False] using nr c Cons.prems(1)
      by (auto split: sum.splits intro!: exI [of _ "f # _"])
  next
    case True
    moreover obtain i where "slot_ok i f" using Cons.prems(1) by auto
    ultimately obtain g h where g: "f = Some g" "vfd g \<noteq> FD_NULL" "fd_hdl g = Some h" and rf: "\<forall>k. refers k f \<longleftrightarrow> k = h"
      using allocated_cases by blast
    define w2 where "w2 = (get_handle h w)\<lparr>mallocs := Suc (mallocs w)\<rparr>"
    have c: "copied f = Some g" using True g by (simp add: copied_def)
    have "0 < count (f # fs) h" using rf by (simp add: add_pos_nonneg)
    then have pos: "0 < ref_count w h" using Cons.prems(3) by blast
    have live: "live_ok pid w2" using live_get [OF Cons.prems(2) pos] by (simp add: w2_def)
    have ref: "ref_count w2 k = ref_count w k + of_bool (k = h)" for k by (simp add: w2_def ref_get)
    have "0 < ref_count w2 k" if "0 < count fs k" for k
    proof -
      have "0 < count (f # fs) k" using that by (simp add: add_nonneg_pos)
      then show ?thesis using Cons.prems(3) ref [of k] by (simp add: add_pos_nonneg)
    qed
    then have IH: "case dup_slots M fs (dn @ [Some g]) w2 of
      Inr (dn', w') \<Rightarrow> dn' = (dn @ [Some g]) @ map copied fs \<and> live_ok pid w' \<and> (\<forall>k. ref_count w' k = ref_count w2 k + count fs k)
    | Inl (dn', w') \<Rightarrow> \<exists>pre h. dn' = (dn @ [Some g]) @ map copied pre \<and> live_ok pid w' \<and> list_all (\<lambda>f. \<exists>i. slot_ok i f) pre \<and>
        (\<forall>k. ref_count w' k = ref_count w2 k + count pre k + of_bool (k = h))"
      using Cons.IH [of w2 "dn @ [Some g]"] Cons.prems(1) live by simp
    show ?thesis
    proof (cases "M (mallocs w)")
      case True
      then show ?thesis using IH dup_slots_used [OF g(2,3), of M fs dn w] c ref rf Cons.prems(1) unfolding g(1) w2_def [symmetric]
        by (auto split: sum.splits intro!: exI [of _ "Some g # _"])
    next
      case False
      then show ?thesis using dup_slots_used [OF g(2,3), of M fs dn w] live ref unfolding g(1) w2_def [symmetric]
        by (auto intro!: exI [of _ "[]"])
    qed
  qed
qed simp

lemma put_counted:
  assumes "slot_ok i f" "live_ok pid w" "\<forall>h. count (f # fs) h \<le> ref_count w h"
  defines "w1 \<equiv> (case f of None \<Rightarrow> w | Some g \<Rightarrow> if vfd g \<noteq> FD_NULL
     then (case fd_hdl g of Some h \<Rightarrow> put_handle h w | None \<Rightarrow> w) else w)"
  shows "live_ok pid w1 \<and> (\<forall>k. ref_count w1 k = ref_count w k - of_bool (refers k f)) \<and> (\<forall>h. count fs h \<le> ref_count w1 h)"
proof (cases "HANDLE_ALLOCATED f")
  case True
  then obtain g h where g: "f = Some g" "vfd g \<noteq> FD_NULL" "fd_hdl g = Some h" and rf: "\<forall>k. refers k f \<longleftrightarrow> k = h"
    using allocated_cases [OF assms(1)] by blast
  have w1: "w1 = put_handle h w" using g by (simp add: w1_def)
  have "count (f # fs) h = 1 + count fs h" using rf by simp
  then have "0 < ref_count w h" using assms(3) count_simps(3) [of fs h] by (metis add_strict_increasing order_less_le_trans zero_less_one)
  then have "live_ok pid w1" using live_put [OF assms(2)] w1 by simp
  moreover have ref: "ref_count w1 k = ref_count w k - of_bool (refers k f)" for k using rf by (simp add: w1 ref_put)
  moreover have "count fs k \<le> ref_count w1 k" for k
  proof -
    have "of_bool (refers k f) + count fs k \<le> ref_count w k" using assms(3) count_simps(2) [of f fs k] by metis
    then show ?thesis using ref [of k] by linarith
  qed
  ultimately show ?thesis by blast
next
  case False
  then have "w1 = w" "\<not> refers k f" for k
    by (auto simp: w1_def HANDLE_ALLOCATED_def refers_def slot_view_def split: option.splits)
  then show ?thesis using assms(2,3) by simp
qed

lemma put_slots_counts:
  "list_all (\<lambda>f. \<exists>i. slot_ok i f) fs \<Longrightarrow> live_ok pid w \<Longrightarrow> \<forall>h. count fs h \<le> ref_count w h \<Longrightarrow>
   live_ok pid (put_slots fs w) \<and> (\<forall>k. ref_count (put_slots fs w) k = ref_count w k - count fs k)"
proof (induction fs arbitrary: w)
  case (Cons f fs)
  then obtain i where i: "slot_ok i f" by auto
  define w1 where "w1 = (case f of None \<Rightarrow> w | Some g \<Rightarrow> if vfd g \<noteq> FD_NULL
     then (case fd_hdl g of Some h \<Rightarrow> put_handle h w | None \<Rightarrow> w) else w)"
  have p: "live_ok pid w1" "\<forall>k. ref_count w1 k = ref_count w k - of_bool (refers k f)" "\<forall>h. count fs h \<le> ref_count w1 h"
    using put_counted [OF i Cons.prems(2,3)] unfolding w1_def by blast+
  have "put_slots (f # fs) w = put_slots fs w1" by (simp add: w1_def)
  then show ?case using Cons.IH [OF _ p(1,3)] Cons.prems(1) p(2) by simp
qed simp

text \<open>The undo loop runs through only when every slot it visits was copied; it is then the same.\<close>

lemma undo_slots_put:
  "undo_slots (map copied fs) w = Some w' \<Longrightarrow> list_all (\<lambda>f. \<exists>i. slot_ok i f) fs \<Longrightarrow> w' = put_slots (map copied fs) w"
proof (induction fs arbitrary: w)
  case (Cons f fs)
  then have "HANDLE_ALLOCATED f" by (cases "copied f") (auto simp: copied_def split: if_splits)
  moreover obtain i where "slot_ok i f" using Cons.prems(2) by auto
  ultimately obtain g h where g: "f = Some g" "vfd g \<noteq> FD_NULL" "fd_hdl g = Some h" using allocated_cases by blast
  then have "copied f = Some g" by (simp add: copied_def HANDLE_ALLOCATED_def)
  then show ?case using Cons g by simp
qed simp

lemma in_drop: "f \<in> set (drop n xs) \<Longrightarrow> \<exists>i. n \<le> i \<and> i < length xs \<and> f = xs ! i"
proof -
  assume "f \<in> set (drop n xs)"
  then obtain j where j: "j < length (drop n xs)" "f = drop n xs ! j" by (metis in_set_conv_nth)
  then show ?thesis by (intro exI [of _ "n + j"]) simp
qed

lemma count_top:
  assumes "map_ok m" "fd_top m \<noteq> FD_NULL"
  shows "count (take (Suc (fd_top m)) (fds m)) h = slots m h"
proof -
  have "\<not> refers h f" if dr: "f \<in> set (drop (Suc (fd_top m)) (fds m))" for f
  proof -
    obtain i where "fd_top m < i" "i < length (fds m)" "f = fds m ! i" using in_drop [OF dr] by (metis Suc_le_lessD)
    then have "\<not> HANDLE_ALLOCATED f" using assms(1) unfolding map_ok_def top_ok_def by (metis not_le)
    then show ?thesis by (simp add: refers_def slot_view_def)
  qed
  then have "count (drop (Suc (fd_top m)) (fds m)) h = 0" by (simp add: count_def filter_empty_conv)
  moreover have "slots m h = count (take (Suc (fd_top m)) (fds m)) h + count (drop (Suc (fd_top m)) (fds m)) h"
    unfolding slots_count by (metis append_take_drop_id count_simps(4))
  ultimately show ?thesis by simp
qed

lemma copy_ok:
  assumes m: "map_ok m" and top: "fd_top m \<noteq> FD_NULL"
  defines "xs \<equiv> map copied (take (Suc (fd_top m)) (fds m))"
  defines "m' \<equiv> \<lparr>fd_size = fd_size m, fd_top = fd_top m, map_ref = 1,
     fds = xs @ drop (length xs) (replicate (fd_size m) None)\<rparr>"
  shows "map_ok m' \<and> fd_view m' = fd_view m \<and> slots m' = slots m"
proof -
  have tl: "fd_top m < length (fds m)" "fd_size m = length (fds m)" using m top by (auto simp: map_ok_def top_ok_def)
  then have lx: "length xs = Suc (fd_top m)" by (simp add: xs_def)
  then have len: "length (fds m') = length (fds m)" using tl by (simp add: m'_def)
  have at: "fds m' ! i = (if i \<le> fd_top m then copied (fds m ! i) else None)" if "i < length (fds m)" for i
    using that tl lx by (auto simp: m'_def nth_append) (simp_all add: xs_def)
  have un: "\<not> HANDLE_ALLOCATED (fds m ! i)" if "i < length (fds m)" "fd_top m < i" for i
    using m that by (auto simp: map_ok_def top_ok_def)
  have al: "HANDLE_ALLOCATED (fds m' ! i) = HANDLE_ALLOCATED (fds m ! i)" "slot_view (fds m' ! i) = slot_view (fds m ! i)"
    "slot_ok i (fds m' ! i)" if "i < length (fds m)" for i
    using at [OF that] un [OF that] m that by (auto simp: HANDLE_ALLOCATED_def slot_view_def slot_ok_def map_ok_def copied_def split: if_splits)
  have "top_ok (fd_top m) (fds m')" using m al(1) len unfolding map_ok_def top_ok_def by auto
  then have "map_ok m'" using m al(3) len unfolding map_ok_def by (simp add: m'_def)
  moreover have "fd_view m' = fd_view m" using al(2) len by (auto simp: fd_view_def)
  moreover have "slots m' h = slots m h" for h
  proof -
    have "count (drop (length xs) (replicate (fd_size m) None)) h = 0"
      by (simp add: count_def filter_empty_conv refers_def slot_view_def HANDLE_ALLOCATED_def)
    then show ?thesis using count_top [OF m top, of h] unfolding slots_count by (simp add: m'_def xs_def slots_count)
  qed
  ultimately show ?thesis by blast
qed

lemma new_map_cases:
  assumes "get_new_handle_map M sz w = (new, w')"
  shows "(\<exists>n. w' = w\<lparr>mallocs := n\<rparr>) \<and>
    (new = None \<or> new = Some \<lparr>fd_size = sz, fd_top = FD_NULL, map_ref = 1, fds = replicate sz None\<rparr>)"
  using assms by (auto simp: get_new_handle_map_def malloc_def Let_def split: if_splits)

lemma empty_map_ok:
  "sz \<le> FD_NULL \<Longrightarrow> map_ok \<lparr>fd_size = sz, fd_top = FD_NULL, map_ref = r, fds = replicate sz None\<rparr>"
  "slots \<lparr>fd_size = sz, fd_top = FD_NULL, map_ref = r, fds = replicate sz None\<rparr> h = 0"
  by (simp_all add: map_ok_def top_ok_def HANDLE_ALLOCATED_def slot_ok_def slots_def refers_def slot_view_def)

lemma no_top_no_slots: "map_ok m \<Longrightarrow> fd_top m = FD_NULL \<Longrightarrow> slots m h = 0 \<and> fd_view m fd = None"
proof -
  assume m: "map_ok m" "fd_top m = FD_NULL"
  then have "\<not> HANDLE_ALLOCATED f" if "f \<in> set (fds m)" for f
    using that by (auto simp: map_ok_def top_ok_def in_set_conv_nth)
  then have "\<not> refers h f" if "f \<in> set (fds m)" for f using that by (simp add: refers_def slot_view_def)
  then show ?thesis using m view_above_top [of m fd] by (simp add: slots_def filter_empty_conv)
qed

lemma slots_list_ok: "map_ok m \<Longrightarrow> list_all (\<lambda>f. \<exists>i. slot_ok i f) (take n (fds m))"
proof -
  assume m: "map_ok m"
  have "\<exists>i. slot_ok i f" if f: "f \<in> set (fds m)" for f
  proof -
    obtain i where "i < length (fds m)" "f = fds m ! i" using f by (metis in_set_conv_nth)
    then show ?thesis using m by (auto simp: map_ok_def)
  qed
  then show ?thesis by (auto simp: list_all_iff dest: in_set_takeD)
qed

text \<open>What a copy of the table leaves behind, when it returns.\<close>

definition copy_result :: "nat \<Rightarrow> libos_handle_map \<Rightarrow> handles \<Rightarrow> int \<Rightarrow> libos_handle_map option \<Rightarrow> handles \<Rightarrow> bool" where
  "copy_result pid m w err new w' \<longleftrightarrow> live_ok pid w' \<and>
     (case new of
        None \<Rightarrow> err = - ENOMEM \<and> (\<forall>h. ref_count w h \<le> ref_count w' h)
      | Some nm \<Rightarrow> err = 0 \<and> map_ok nm \<and> map_ref nm = 1 \<and> fd_view nm = fd_view m \<and> slots nm = slots m \<and>
          (\<forall>h. ref_count w' h = ref_count w h + slots m h))"

lemma dup_handle_map_copies:
  assumes t: "tables_ok pid m w" and d: "dup_handle_map M m w = Some (err, new, w', held)"
  shows "copy_result pid m w err new w'"
proof -
  note m = tables_okD(1) [OF t] and live = tables_okD(2) [OF t]
  obtain nm0 w1 where n0: "get_new_handle_map M (fd_size m) w = (nm0, w1)" by (metis surj_pair)
  obtain n where w1: "w1 = w\<lparr>mallocs := n\<rparr>" using new_map_cases [OF n0] by blast
  have lw1: "live_ok pid w1" "ref_count w1 = ref_count w" using live by (simp_all add: w1)
  have sz: "fd_size m \<le> FD_NULL" using m by (simp add: map_ok_def)
  consider (fail) "nm0 = None" | (empty) nm where "nm0 = Some nm" "fd_top m = FD_NULL"
    | (copy) nm where "nm0 = Some nm" "fd_top m \<noteq> FD_NULL" by (cases nm0) auto
  then show ?thesis
  proof cases
    case fail
    then have "new = None" "err = - ENOMEM" "w' = w1" using d n0 by (auto simp: dup_handle_map_def)
    then show ?thesis using lw1 by (simp add: copy_result_def)
  next
    case empty
    then have "new = Some nm" "err = 0" "w' = w1" and nm: "nm = \<lparr>fd_size = fd_size m, fd_top = FD_NULL, map_ref = 1, fds = replicate (fd_size m) None\<rparr>"
      using d n0 new_map_cases [OF n0] by (auto simp: dup_handle_map_def)
    moreover have "map_ok nm" "\<forall>h. slots nm h = 0" using empty_map_ok sz nm by simp_all
    moreover have "fd_view nm fd = None" for fd using no_top_no_slots calculation(4,5) nm by simp
    ultimately show ?thesis using lw1 no_top_no_slots [OF m empty(2)] by (simp add: copy_result_def fun_eq_iff)
  next
    case copy
    let ?fs = "take (Suc (fd_top m)) (fds m)"
    have nm: "nm = \<lparr>fd_size = fd_size m, fd_top = FD_NULL, map_ref = 1, fds = replicate (fd_size m) None\<rparr>"
      using copy(1) new_map_cases [OF n0] by auto
    have pos: "\<forall>h. 0 < count ?fs h \<longrightarrow> 0 < ref_count w1 h"
      using count_top [OF m copy(2)] tables_okD(4) [OF t] lw1(2) by (metis order_less_le_trans)
    note c = dup_slots_copies [OF slots_list_ok [OF m, of "Suc (fd_top m)"] lw1(1), where M = M and dn = "[]"]
    show ?thesis
    proof (cases "dup_slots M ?fs [] w1")
      case (Inr r)
      obtain dn w2 where r: "r = (dn, w2)" by (cases r)
      have k: "dn = map copied ?fs" "live_ok pid w2" "\<forall>h. ref_count w2 h = ref_count w h + count ?fs h"
        using c [OF pos] lw1(2) unfolding Inr r by simp_all
      have e: "err = 0" "w' = w2" "new = Some (nm\<lparr>fd_top := fd_top m, fds := dn @ drop (length dn) (fds nm)\<rparr>)"
        using d n0 copy Inr r by (auto simp: dup_handle_map_def)
      then show ?thesis using copy_ok [OF m copy(2)] k count_top [OF m copy(2)] by (simp add: copy_result_def nm)
    next
      case (Inl r)
      obtain dn w2 where r: "r = (dn, w2)" by (cases r)
      obtain pre h where k: "dn = map copied pre" "live_ok pid w2" "list_all (\<lambda>f. \<exists>i. slot_ok i f) pre"
        "\<forall>k. ref_count w2 k = ref_count w k + count pre k + of_bool (k = h)"
        using c [OF pos] lw1(2) unfolding Inl r by auto
      have e: "err = - ENOMEM" "new = None" "undo_slots dn w2 = Some w'" using d n0 copy Inl r by (auto simp: dup_handle_map_def)
      have "\<forall>h. count (map copied pre) h \<le> ref_count w2 h" using k(4) live by (auto simp: live_ok_def)
      moreover have "list_all (\<lambda>f. \<exists>i. slot_ok i f) (map copied pre)"
        using k(3) copied_simps(4) unfolding list_all_iff by (metis (no_types, lifting) imageE list.set_map)
      ultimately have "live_ok pid w'" "\<forall>j. ref_count w' j = ref_count w2 j - count (map copied pre) j"
        using put_slots_counts [of "map copied pre" pid w2] undo_slots_put [of pre w2 w'] k(1-3) e(3) by simp_all
      then show ?thesis using k(4) e(1,2) by (simp add: copy_result_def)
    qed
  qed
qed

section \<open>The calls keep the invariant\<close>

definition sys_ok :: "nat \<Rightarrow> fd_sys \<Rightarrow> bool" where
  "sys_ok pid s \<longleftrightarrow> tables_ok pid (tbl s) (hs s) \<and> map_ref (tbl s) = 1"

lemma sys_ok_with: "sys_ok pid (with_tables m w s) \<longleftrightarrow> tables_ok pid m w \<and> map_ref m = 1"
  by (simp add: sys_ok_def with_tables_def)

lemma sys_ok_same [simp]:
  "sys_ok pid (request r s) = sys_ok pid s" "sys_ok pid (s\<lparr>dentries_put := d\<rparr>) = sys_ok pid s"
  "tbl (request r s) = tbl s" "hs (request r s) = hs s"
  by (simp_all add: sys_ok_def request_def)

lemma sys_ok_hs: "sys_ok pid (s\<lparr>hs := w\<rparr>) \<longleftrightarrow> tables_ok pid (tbl s) w \<and> map_ref (tbl s) = 1"
  by (simp add: sys_ok_def)

text \<open>After a new handle was made and put into the table, the reference of the caller is given back.\<close>

lemma install_new:
  assumes "sys_ok pid s" "get_new_handle M pid (hs s) = Some (Some h, w)" "rlimit \<le> 2 ^ 31" "fl = 0 \<or> fl = FD_CLOEXEC"
    "u_set_new_fd_handle M rlimit low h fl search (tbl s) (w\<lparr>hdl_type := ty\<rparr>) = Some (r, m, w2)"
  shows "tables_ok pid m (put_handle h w2) \<and> map_ref m = 1 \<and> balance m (put_handle h w2) = balance (tbl s) (hs s)"
proof -
  have t: "tables_ok pid (tbl s) (hs s)" "map_ref (tbl s) = 1" using assms(1) by (simp_all add: sys_ok_def)
  note n = new_handle_held [OF assms(2) t(1)]
  have t1: "tables_ok pid (tbl s) (w\<lparr>hdl_type := ty\<rparr>)" "1 \<le> balance (tbl s) (w\<lparr>hdl_type := ty\<rparr>) h"
    and b: "balance (tbl s) (w\<lparr>hdl_type := ty\<rparr>) = plus h (balance (tbl s) (hs s))"
    using n by (simp_all add: plus_opt_def)
  note k = u_set_keeps [OF t1 assms(4,3,5)]
  have "1 \<le> balance m w2 h" using k t1(2) by simp
  then show ?thesis using put_held [of pid m w2 h] k b t(2) by simp
qed

lemma hdl_type_idem: "w\<lparr>hdl_type := hdl_type w\<rparr> = w"
  by simp

lemma install_new_plain:
  assumes "sys_ok pid s" "get_new_handle M pid (hs s) = Some (Some h, w)" "rlimit \<le> 2 ^ 31" "fl = 0 \<or> fl = FD_CLOEXEC"
    "u_set_new_fd_handle M rlimit low h fl search (tbl s) w = Some (r, m, w2)"
  shows "tables_ok pid m (put_handle h w2) \<and> map_ref m = 1"
  using install_new [OF assms(1-4), of low search "hdl_type w" r m w2] assms(5) by simp

lemma open_out_ok: "open_out dir ret s = Some (r, s') \<Longrightarrow> sys_ok pid s \<Longrightarrow> sys_ok pid s'"
  by (auto simp: open_out_def split: option.splits)

lemma cloexec_flag_cases: "cloexec_flag fl = 0 \<or> cloexec_flag fl = FD_CLOEXEC"
  by (simp add: cloexec_flag_def)

lemma openat_host_ok:
  assumes "sys_ok pid s" "rlimit \<le> 2 ^ 31" "openat_host M pid rlimit retval stale filename fl mode s = Some (r, s')"
  shows "sys_ok pid s'"
proof -
  define s1 where "s1 = request (OPEN_REQ filename fl mode) s"
  have s1: "sys_ok pid s1" using assms(1) by (simp add: s1_def)
  consider "open_out stale (int_of_long retval) s1 = Some (r, s')"
    | w where "get_new_handle M pid (hs s1) = Some (None, w)" "open_out stale (- ENOMEM) (s1\<lparr>hs := w\<rparr>) = Some (r, s')"
    | h w ret m w2 where "get_new_handle M pid (hs s1) = Some (Some h, w)"
      "set_new_fd_handle_by_fd M rlimit (u32_of_int retval) h (cloexec_flag fl) (tbl s1) (w\<lparr>hdl_type := (hdl_type w)(h := TYPE_HOST)\<rparr>) = Some (ret, m, w2)"
      "open_out stale ret (with_tables m (put_handle h w2) s1) = Some (r, s')"
    using assms(3) by (auto simp: openat_host_def s1_def Let_def split: if_splits option.splits)
  then show ?thesis
  proof cases
    case 1
    then show ?thesis using open_out_ok s1 by blast
  next
    case 2
    have "tables_ok pid (tbl s1) w" using new_handle_held [OF 2(1)] s1 by (simp add: sys_ok_def)
    then have "sys_ok pid (s1\<lparr>hs := w\<rparr>)" using s1 by (simp add: sys_ok_def)
    then show ?thesis using open_out_ok 2(2) by blast
  next
    case 3
    have "sys_ok pid (with_tables m (put_handle h w2) s1)"
      using install_new [OF s1 3(1) assms(2) cloexec_flag_cases] 3(2) unfolding set_new_fd_handle_by_fd_def sys_ok_with by blast
    then show ?thesis using open_out_ok 3(3) by blast
  qed
qed

lemma openat_fs_ok:
  assumes "sys_ok pid s" "rlimit \<le> 2 ^ 31" "openat_fs M pid rlimit umask dirfd open_namei filename fl0 mode0 s = Some (r, s')"
  shows "sys_ok pid s'"
proof -
  consider "s' = s"
    | w dir e where "get_new_handle M pid (hs s) = Some (None, w)" "open_out dir e (s\<lparr>hs := w\<rparr>) = Some (r, s')"
    | h w dir e where "get_new_handle M pid (hs s) = Some (Some h, w)" "open_out dir e (s\<lparr>hs := put_handle h w\<rparr>) = Some (r, s')"
    | h w fl ret m w2 dir where "get_new_handle M pid (hs s) = Some (Some h, w)"
      "set_new_fd_handle M rlimit h (cloexec_flag fl) (tbl s) w = Some (ret, m, w2)"
      "open_out dir ret (with_tables m (put_handle h w2) s) = Some (r, s')"
    using assms(3) unfolding openat_fs_def Let_def by (auto split: if_splits option.splits)
  then show ?thesis
  proof cases
    case 1
    then show ?thesis using assms(1) by simp
  next
    case 2
    have "sys_ok pid (s\<lparr>hs := w\<rparr>)" using new_handle_held [OF 2(1)] assms(1) by (simp add: sys_ok_def)
    then show ?thesis using open_out_ok 2(2) by blast
  next
    case 3
    have n: "tables_ok pid (tbl s) w" "balance (tbl s) w = plus h (balance (tbl s) (hs s))" "balance (tbl s) (hs s) h = 0"
      using new_handle_held [OF 3(1)] assms(1) by (simp_all add: sys_ok_def plus_opt_def)
    have "tables_ok pid (tbl s) (put_handle h w)" using put_held [OF n(1), of h] n(2,3) by simp
    then have "sys_ok pid (s\<lparr>hs := put_handle h w\<rparr>)" using assms(1) by (simp add: sys_ok_def)
    then show ?thesis using open_out_ok 3(2) by blast
  next
    case 4
    have "sys_ok pid (with_tables m (put_handle h w2) s)"
      using install_new_plain [OF assms(1) 4(1) assms(2) cloexec_flag_cases] 4(2) unfolding set_new_fd_handle_def sys_ok_with by blast
    then show ?thesis using open_out_ok 4(3) by blast
  qed
qed

lemma openat_ok:
  assumes "sys_ok pid s" "rlimit \<le> 2 ^ 31"
    "libos_syscall_openat M pid rlimit readable retval stale umask dirfd open_namei filename fl mode s = Some (r, s')"
  shows "sys_ok pid s'"
proof -
  consider "s' = s" | "openat_host M pid rlimit retval stale filename fl mode s = Some (r, s')"
    | "openat_fs M pid rlimit umask dirfd open_namei filename fl mode s = Some (r, s')"
    using assms(3) unfolding libos_syscall_openat_def by (metis option.inject prod.inject)
  then show ?thesis
  proof cases
    case 2
    then show ?thesis using openat_host_ok [OF assms(1,2)] by blast
  next
    case 3
    then show ?thesis using openat_fs_ok [OF assms(1,2)] by blast
  qed (simp add: assms(1))
qed

lemma register_ok:
  assumes "sys_ok pid s" "rlimit \<le> 2 ^ 31" "libos_syscall_register_host_identity_fd M pid rlimit fd s = Some (r, s')"
  shows "sys_ok pid s'"
proof -
  consider w where "get_new_handle M pid (hs s) = Some (None, w)" "s' = s\<lparr>hs := w\<rparr>"
    | h w m w2 where "get_new_handle M pid (hs s) = Some (Some h, w)"
      "set_new_fd_handle_by_fd M rlimit (u32_of_int fd) h 0 (tbl s) (w\<lparr>hdl_type := (hdl_type w)(h := TYPE_HOST_IDENTITY)\<rparr>) = Some (r, m, w2)"
      "s' = with_tables m (put_handle h w2) s"
    using assms(3) by (auto simp: libos_syscall_register_host_identity_fd_def split: option.splits)
  then show ?thesis
  proof cases
    case 1
    then show ?thesis using new_handle_held [OF 1(1)] assms(1) by (simp add: sys_ok_def)
  next
    case 2
    then show ?thesis using install_new [OF assms(1) 2(1) assms(2), of 0] unfolding set_new_fd_handle_by_fd_def 2(3) sys_ok_with by blast
  qed
qed

lemma detach_put:
  assumes "tables_ok pid m w" "detach_fd_handle fd m w = (h, m', w')"
  shows "tables_ok pid m' (put_detached h w') \<and> balance m' (put_detached h w') = balance m w \<and> map_ref m' = map_ref m"
proof (cases h)
  case None
  then show ?thesis using detach_held [OF assms] by (simp add: plus_opt_def)
next
  case (Some k)
  have d: "tables_ok pid m' w'" "balance m' w' = plus k (balance m w)" "map_ref m' = map_ref m"
    using detach_held [OF assms] Some by (simp_all add: plus_opt_def)
  then have "1 \<le> balance m' w' k" using tables_okD(3) [OF assms(1), of k] by simp
  then show ?thesis using put_held [OF d(1)] d(2,3) Some by simp
qed

lemma close_ok:
  assumes "sys_ok pid s" "libos_syscall_close comm_ret fd s = (r, s')"
  shows "sys_ok pid s'"
proof -
  obtain h m w where d: "detach_fd_handle (u32_of_int fd) (tbl s) (hs s) = (h, m, w)" by (metis prod_cases3)
  have t: "tables_ok pid (tbl s) (hs s)" "map_ref (tbl s) = 1" using assms(1) by (simp_all add: sys_ok_def)
  have "sys_ok pid (with_tables m (put_detached h w) s)" using detach_put [OF t(1) d] t(2) by (simp add: sys_ok_with)
  moreover have "s' = with_tables m (put_detached h w) s \<or> (\<exists>q. s' = request q (with_tables m (put_detached h w) s))"
    using assms(2) d by (cases h) (auto simp: libos_syscall_close_def)
  ultimately show ?thesis by auto
qed

lemma unshare_ok:
  assumes "sys_ok pid s" "unshare M s = Some (r, s')"
  shows "sys_ok pid s'"
proof -
  have t: "tables_ok pid (tbl s) (hs s)" "map_ref (tbl s) = 1" using assms(1) by (simp_all add: sys_ok_def)
  obtain err new w held where d: "dup_handle_map M (tbl s) (hs s) = Some (err, new, w, held)"
    using assms(2) by (auto simp: unshare_def split: option.splits)
  note c = dup_handle_map_copies [OF t(1) d]
  show ?thesis
  proof (cases new)
    case None
    then have s': "tbl s' = tbl s" "hs s' = w" using assms(2) d by (auto simp: unshare_def Let_def)
    have "ref_count (hs s) h \<le> ref_count w h" for h using c None by (simp add: copy_result_def)
    then have "0 \<le> balance (tbl s) w h" for h using tables_okD(4) [OF t(1), of h] unfolding balance_def by (metis diff_ge_0_iff_ge order_trans)
    then show ?thesis using c t s' tables_okD(1) [OF t(1)] by (simp add: sys_ok_def tables_ok_def copy_result_def)
  next
    case (Some nm)
    define w2 where "w2 = snd (put_handle_map (tbl s) w)"
    have s': "tbl s' = nm" "hs s' = w2" using assms(2) d Some by (auto simp: unshare_def Let_def w2_def)
    have nm: "live_ok pid w" "map_ok nm" "map_ref nm = 1" "slots nm = slots (tbl s)"
      "\<forall>h. ref_count w h = ref_count (hs s) h + slots (tbl s) h" using c Some by (simp_all add: copy_result_def)
    have "live_ok pid w2 \<and> (\<forall>h. ref_count w2 h = ref_count (hs s) h)"
    proof (cases "fd_top (tbl s) = FD_NULL")
      case True
      then show ?thesis using nm t(2) no_top_no_slots [OF tables_okD(1) [OF t(1)]] by (simp add: w2_def put_handle_map_def)
    next
      case False
      let ?fs = "take (Suc (fd_top (tbl s))) (fds (tbl s))"
      have "\<forall>h. count ?fs h \<le> ref_count w h" using count_top [OF tables_okD(1) [OF t(1)] False] nm(5) tables_okD(2) [OF t(1)]
        by (simp add: live_ok_def)
      then show ?thesis using put_slots_counts [OF slots_list_ok [OF tables_okD(1) [OF t(1)]] nm(1)] False t(2) nm(5)
          count_top [OF tables_okD(1) [OF t(1)] False] by (simp add: w2_def put_handle_map_def)
    qed
    then show ?thesis using nm s' t(1) by (simp add: sys_ok_def tables_ok_def balance_def)
  qed
qed

lemma close_range_ok:
  assumes "sys_ok pid s" "libos_syscall_close_range M first last_fd fl s = Some (r, s')"
  shows "sys_ok pid s'"
proof -
  consider "s' = s" | "unshare M s = Some (r, s')"
    | s1 e m w where "s1 = s \<or> unshare M s = Some (e, s1)"
      "close_handle_range first last_fd (has_flag fl CLOSE_RANGE_CLOEXEC) (tbl s1) (hs s1) = (m, w)" "s' = with_tables m w s1"
    using assms(2) unfolding libos_syscall_close_range_def Let_def by (auto split: if_splits option.splits prod.splits)
  then show ?thesis
  proof cases
    case 1
    then show ?thesis using assms(1) by simp
  next
    case 2
    then show ?thesis using unshare_ok assms(1) by blast
  next
    case 3
    have "sys_ok pid s1" using 3(1) unshare_ok assms(1) by blast
    then show ?thesis using walk_range.walk_keeps [of pid "tbl s1" "hs s1"] 3(2)
      unfolding 3(3) sys_ok_with close_handle_range_def by (simp add: sys_ok_def)
  qed
qed

lemma get_fd_cases:
  assumes "sys_ok pid s" "get_fd_handle fd (tbl s) (hs s) = (h, w)"
  shows "tables_ok pid (tbl s) w \<and> map_ref (tbl s) = 1 \<and> balance (tbl s) w = plus_opt h (balance (tbl s) (hs s)) \<and>
    (h = None \<longrightarrow> w = hs s)"
proof -
  have t: "tables_ok pid (tbl s) (hs s)" "map_ref (tbl s) = 1" using assms(1) by (simp_all add: sys_ok_def)
  have v: "u_get_fd_handle fd (tbl s) = fd_view (tbl s) fd" by (rule u_get_fd_handle_view [OF tables_okD(1) [OF t(1)]])
  show ?thesis
  proof (cases "fd_view (tbl s) fd")
    case None
    then show ?thesis using assms(2) t v by (auto simp: get_fd_handle_def plus_opt_def)
  next
    case (Some x)
    obtain k fl where x: "x = (k, fl)" by (cases x)
    then have "h = Some k" "w = get_handle k (hs s)" using assms(2) v Some by (simp_all add: get_fd_handle_def)
    then show ?thesis using get_held [OF t(1)] Some x t(2) by (simp add: plus_opt_def)
  qed
qed

lemma held_pos: "tables_ok pid m w0 \<Longrightarrow> balance m w = plus h (balance m w0) \<Longrightarrow> 1 \<le> balance m w h"
  using tables_okD(3) [of pid m w0 h] by simp

lemma dup_host_ok:
  assumes "sys_ok pid s" "rlimit \<le> 2 ^ 31" "1 \<le> balance (tbl s) (hs s) h" "dup_host M pid rlimit comm_ret fd h s = Some (r, s')"
  shows "sys_ok pid s'"
proof -
  obtain q where q: "q = (if hdl_type (hs s) h = TYPE_HOST_IDENTITY then DUP_IDENTITY_REQ fd else DUP_REQ fd)" by blast
  obtain hd w ret m w2 where n: "get_new_handle M pid (hs s) = Some (Some hd, w)"
    and st: "set_new_fd_handle_by_fd M rlimit (u32_of_int comm_ret) hd 0 (tbl s) (w\<lparr>hdl_type := (hdl_type w)(hd := hdl_type w h)\<rparr>) = Some (ret, m, w2)"
    and s': "s' = with_tables m (put_handle hd w2) (request q s) \<or>
      s' = with_tables m (put_handle hd (put_handle h w2)) (request q s)"
    using assms(4) unfolding dup_host_def Let_def q [symmetric] by (auto split: option.splits if_splits)
  note i = install_new [OF assms(1) n assms(2), of 0 _ False, folded set_new_fd_handle_by_fd_def, OF disjI1 [OF refl] st]
  have ne: "h \<noteq> hd" using new_handle_held [OF n, of "tbl s"] assms(1,3) by (auto simp: sys_ok_def)
  have w2: "tables_ok pid m w2" "balance m w2 = plus hd (balance (tbl s) (hs s))"
  proof -
    have t: "tables_ok pid (tbl s) (hs s)" using assms(1) by (simp add: sys_ok_def)
    have "balance (tbl s) w = plus hd (balance (tbl s) (hs s))" "tables_ok pid (tbl s) w"
      using new_handle_held [OF n t] by (simp_all add: plus_opt_def)
    then show "tables_ok pid m w2" "balance m w2 = plus hd (balance (tbl s) (hs s))"
      using set_keeps(2) [OF _ _ _ assms(2) st, of pid] held_pos [OF t, of w hd] by simp_all
  qed
  have p1: "tables_ok pid m (put_handle h w2)" "balance m (put_handle h w2) = minus h (balance m w2)"
    using put_held [OF w2(1), of h] w2(2) assms(3) ne by (simp_all add: plus_def)
  then have "1 \<le> balance m (put_handle h w2) hd"
    using w2(2) ne tables_okD(3) [of pid "tbl s" "hs s" hd] assms(1) by (simp add: minus_def plus_def sys_ok_def)
  then have "tables_ok pid m (put_handle hd (put_handle h w2))" using put_held [OF p1(1)] by blast
  then show ?thesis using s' i by (auto simp: sys_ok_with)
qed

lemma dup_ok:
  assumes "sys_ok pid s" "rlimit \<le> 2 ^ 31" "libos_syscall_dup M pid rlimit comm_ret fd s = Some (r, s')"
  shows "sys_ok pid s'"
proof -
  obtain h w where g: "get_fd_handle fd (tbl s) (hs s) = (h, w)" by (metis surj_pair)
  note c = get_fd_cases [OF assms(1) g]
  have t: "tables_ok pid (tbl s) (hs s)" using assms(1) by (simp add: sys_ok_def)
  show ?thesis
  proof (cases h)
    case None
    then show ?thesis using assms(1,3) g c by (auto simp: libos_syscall_dup_def)
  next
    case (Some k)
    have k: "1 \<le> balance (tbl s) w k" using held_pos [OF t, of w k] c Some by (simp add: plus_opt_def)
    have s1: "sys_ok pid (s\<lparr>hs := w\<rparr>)" using c by (simp add: sys_ok_hs)
    consider "dup_host M pid rlimit comm_ret fd k (s\<lparr>hs := w\<rparr>) = Some (r, s')"
      | x m w2 where "set_new_fd_handle M rlimit k 0 (tbl s) w = Some (x, m, w2)" "s' = with_tables m (put_handle k w2) (s\<lparr>hs := w\<rparr>)"
      using assms(3) g Some unfolding libos_syscall_dup_def Let_def by (auto split: option.splits if_splits)
    then show ?thesis
    proof cases
      case 1
      then show ?thesis using dup_host_ok [OF s1 assms(2)] k by simp
    next
      case 2
      note e = set_keeps(1) [OF conjunct1 [OF c] k _ assms(2) 2(1)]
      then have "1 \<le> balance m w2 k" using k by simp
      then show ?thesis using put_held [of pid m w2 k] e c unfolding 2(2) sys_ok_with by simp
    qed
  qed
qed

lemma dup_onto_ok:
  assumes "tables_ok pid (tbl s) (hs s)" "map_ref (tbl s) = 1" "1 \<le> balance (tbl s) (hs s) h" "rlimit \<le> 2 ^ 31"
    "fl = 0 \<or> fl = FD_CLOEXEC" "dup_onto M rlimit newfd h fl s = Some (r, s')"
  shows "sys_ok pid s'"
proof -
  obtain nh m1 w1 where d: "detach_fd_handle newfd (tbl s) (hs s) = (nh, m1, w1)" by (metis prod_cases3)
  note p = detach_put [OF assms(1) d]
  obtain x m2 w3 where st: "set_new_fd_handle_by_fd M rlimit newfd h fl m1 (put_detached nh w1) = Some (x, m2, w3)"
    and s': "s' = with_tables m2 (put_handle h w3) s"
    using assms(6) d by (auto simp: dup_onto_def split: option.splits)
  have "1 \<le> balance m1 (put_detached nh w1) h" using p assms(3) by simp
  note e = set_keeps(2) [OF conjunct1 [OF p] this assms(5,4) st]
  then have "1 \<le> balance m2 w3 h" using p assms(3) by simp
  then show ?thesis using put_held [of pid m2 w3 h] e p assms(2) unfolding s' sys_ok_with by simp
qed

lemma get_fd_onto:
  assumes "sys_ok pid s" "get_fd_handle oldfd (tbl s) (hs s) = (Some h, w)" "rlimit \<le> 2 ^ 31" "fl = 0 \<or> fl = FD_CLOEXEC"
    "dup_onto M rlimit newfd h fl (s\<lparr>hs := w\<rparr>) = Some (r, s')"
  shows "sys_ok pid s'"
proof -
  note c = get_fd_cases [OF assms(1,2)]
  have "1 \<le> balance (tbl s) w h" using held_pos [of pid "tbl s" "hs s" w h] assms(1) c by (simp add: plus_opt_def sys_ok_def)
  then show ?thesis using dup_onto_ok [of pid "s\<lparr>hs := w\<rparr>" h rlimit fl M newfd r s'] c assms(3-5) by simp
qed

lemma dup2_ok:
  assumes "sys_ok pid s" "rlimit \<le> 2 ^ 31" "libos_syscall_dup2 M rlimit oldfd newfd s = Some (r, s')"
  shows "sys_ok pid s'"
proof -
  obtain h w where g: "get_fd_handle oldfd (tbl s) (hs s) = (h, w)" by (metis surj_pair)
  note c = get_fd_cases [OF assms(1) g]
  consider "s' = s" | "h = None" "s' = s\<lparr>hs := w\<rparr>" | k where "h = Some k" "s' = s\<lparr>hs := put_handle k w\<rparr>"
    | k where "h = Some k" "dup_onto M rlimit newfd k 0 (s\<lparr>hs := w\<rparr>) = Some (r, s')"
    using assms(3) g unfolding libos_syscall_dup2_def by (cases h) (auto split: if_splits)
  then show ?thesis
  proof cases
    case 3
    have "1 \<le> balance (tbl s) w k" using held_pos [of pid "tbl s" "hs s" w k] assms(1) c 3(1) by (simp add: plus_opt_def sys_ok_def)
    then show ?thesis using put_held [of pid "tbl s" w k] c unfolding 3(2) sys_ok_hs by simp
  next
    case 4
    then show ?thesis using get_fd_onto [OF assms(1) _ assms(2)] g by blast
  qed (use assms(1) c in \<open>simp_all add: sys_ok_hs\<close>)
qed

lemma dup3_ok:
  assumes "sys_ok pid s" "rlimit \<le> 2 ^ 31" "libos_syscall_dup3 M rlimit oldfd newfd fl s = Some (r, s')"
  shows "sys_ok pid s'"
proof -
  obtain h w where g: "get_fd_handle oldfd (tbl s) (hs s) = (h, w)" by (metis surj_pair)
  note c = get_fd_cases [OF assms(1) g]
  consider "s' = s" | "s' = s\<lparr>hs := w\<rparr>"
    | k fl' where "h = Some k" "fl' = 0 \<or> fl' = FD_CLOEXEC" "dup_onto M rlimit newfd k fl' (s\<lparr>hs := w\<rparr>) = Some (r, s')"
    using assms(3) g unfolding libos_syscall_dup3_def by (cases h) (auto split: if_splits)
  then show ?thesis
  proof cases
    case 3
    then show ?thesis using get_fd_onto [OF assms(1) _ assms(2)] g by blast
  qed (use assms(1) c in \<open>simp_all add: sys_ok_hs\<close>)
qed

lemma fd_call_ok:
  assumes "fd_call pid rlimit s r s'" "sys_ok pid s" "rlimit \<le> 2 ^ 31"
  shows "sys_ok pid s'"
  using assms(1)
proof cases
  case (openat M readable retval stale umask dirfd open_namei filename fl mode)
  then show ?thesis using openat_ok assms(2,3) by blast
next
  case (register M fd)
  then show ?thesis using register_ok assms(2,3) by blast
next
  case (close comm_ret fd)
  then show ?thesis using close_ok assms(2) by blast
next
  case (close_range M first last_fd fl)
  then show ?thesis using close_range_ok assms(2) by blast
next
  case (dup M comm_ret fd)
  then show ?thesis using dup_ok assms(2,3) by blast
next
  case (dup2 M oldfd newfd)
  then show ?thesis using dup2_ok assms(2,3) by blast
next
  case (dup3 M oldfd newfd fl)
  then show ?thesis using dup3_ok assms(2,3) by blast
next
  case (execve m w)
  have "tables_ok pid m w \<and> balance m w = balance (tbl s) (hs s) \<and> map_ref m = map_ref (tbl s)"
    using walk_cloexec.walk_keeps execve(3) assms(2) unfolding close_cloexec_handles_def sys_ok_def by blast
  then show ?thesis using assms(2) unfolding execve(2) sys_ok_with by (simp add: sys_ok_def)
next
  case (exit_all m w)
  have "tables_ok pid m w \<and> balance m w = balance (tbl s) (hs s) \<and> map_ref m = map_ref (tbl s)"
    using walk_detach.walk_keeps exit_all(3) assms(2) unfolding detach_all_fds_def sys_ok_def by blast
  then show ?thesis using assms(2) unfolding exit_all(2) sys_ok_with by (simp add: sys_ok_def)
qed

lemma fd_reach_ok: "fd_reach pid rlimit s \<Longrightarrow> rlimit \<le> 2 ^ 31 \<Longrightarrow> sys_ok pid s"
proof (induction rule: fd_reach.induct)
  case (start M m w)
  have m: "m = \<lparr>fd_size = INIT_HANDLE_MAP_SIZE, fd_top = FD_NULL, map_ref = 1, fds = replicate INIT_HANDLE_MAP_SIZE None\<rparr>"
    using new_map_cases [OF start(1)] by simp
  obtain n where "w = \<lparr>ref_count = \<lambda>h. 0, hdl_type = \<lambda>h. TYPE_OTHER, local_id_counter = 0, destroyed = [], posix_cleared = [],
      mallocs = 0\<rparr>\<lparr>mallocs := n\<rparr>" using new_map_cases [OF start(1)] by blast
  then have "live_ok pid w" "ref_count w = (\<lambda>h. 0)" by (simp_all add: live_ok_def)
  then show ?case using empty_map_ok [of INIT_HANDLE_MAP_SIZE 1] m
    by (simp add: sys_ok_def tables_ok_def balance_def INIT_HANDLE_MAP_SIZE_def fd_null_val)
next
  case (call s r s')
  then show ?case using fd_call_ok by blast
qed

section \<open>Lost references and requests\<close>

text \<open>When an allocation fails in the copy loop after a free slot, the undo loop reads a null pointer.\<close>

lemma dup_handle_map_null: "dup_handle_map (\<lambda>n. n < 3) demo_map demo_handles = None"
  by (simp add: dup_handle_map_def get_new_handle_map_def malloc_def demo_map_def demo_handles_def empty_slot_def fd_null_val
      get_handle_def Let_def)

lemma set_by_fd_success:
  assumes "tables_ok pid m w" "fl = 0 \<or> fl = FD_CLOEXEC" "rlimit \<le> 2 ^ 31"
    "set_new_fd_handle_by_fd M rlimit fd h fl m w = Some (r, m', w')" "0 \<le> r"
  shows "r = int fd \<and> fd < rlimit \<and> fd_view m' = (fd_view m)(fd \<mapsto> (h, fl))"
proof -
  have fl: "fl AND NOT FD_CLOEXEC = 0" using assms(2) by auto
  have t: "set_target fd False m = fd" by (simp add: set_target_def)
  have "\<not> set_failed rlimit fd False m r" using assms(5) by (auto simp: set_failed_def errno_defs)
  then show ?thesis using u_set_new_result [OF tables_okD(1) [OF assms(1)] fl assms(3), of M fd h False w] assms(4)
    unfolding set_new_fd_handle_by_fd_def t by (auto simp: added_def)
qed

text \<open>A redirected open that succeeds puts the descriptor of the host into the table.\<close>

lemma openat_host_success:
  assumes "sys_ok pid s" "rlimit \<le> 2 ^ 31" "openat_host M pid rlimit retval stale filename fl mode s = Some (r, s1)" "0 \<le> r"
    "- (2 ^ 31) \<le> retval"
  shows "\<exists>h. fd_view (tbl s1) (nat r) = Some (h, cloexec_flag fl) \<and> nat r < rlimit \<and>
    requests s1 = requests s @ [OPEN_REQ filename fl mode] \<and>
    dentries_put s1 = dentries_put s @ (case stale of None \<Rightarrow> [] | Some d \<Rightarrow> [d])"
proof -
  define s0 where "s0 = request (OPEN_REQ filename fl mode) s"
  have "int_of_long retval = retval" if "retval < 0" using that assms(5) by (simp add: int_of_long_def)
  then obtain h w ret m w2 where n: "get_new_handle M pid (hs s0) = Some (Some h, w)"
    and st: "set_new_fd_handle_by_fd M rlimit (u32_of_int retval) h (cloexec_flag fl) (tbl s0)
        (w\<lparr>hdl_type := (hdl_type w)(h := TYPE_HOST)\<rparr>) = Some (ret, m, w2)"
    and o: "open_out stale ret (with_tables m (put_handle h w2) s0) = Some (r, s1)"
    using assms(3,4) unfolding openat_host_def s0_def [symmetric] Let_def
    by (auto simp: open_out_def ENOMEM_def split: if_splits option.splits)
  have t: "tables_ok pid (tbl s0) (w\<lparr>hdl_type := (hdl_type w)(h := TYPE_HOST)\<rparr>)"
    using new_handle_held [OF n] assms(1) by (simp add: sys_ok_def s0_def)
  have "ret = r" and s1: "tbl s1 = m" "requests s1 = requests s0"
    "dentries_put s1 = dentries_put s0 @ (case stale of None \<Rightarrow> [] | Some d \<Rightarrow> [d])"
    using o by (auto simp: open_out_def with_tables_def split: option.splits)
  then show ?thesis using set_by_fd_success [OF t cloexec_flag_cases assms(2) st] assms(4)
    by (auto simp: s0_def request_def)
qed

section \<open>A run\<close>

definition demo_start :: fd_sys where
  "demo_start = \<lparr>tbl = \<lparr>fd_size = 32, fd_top = FD_NULL, map_ref = 1, fds = replicate 32 None\<rparr>,
     hs = \<lparr>ref_count = \<lambda>h. 0, hdl_type = \<lambda>h. TYPE_OTHER, local_id_counter = 0, destroyed = [], posix_cleared = [], mallocs = 3\<rparr>,
     requests = [], dentries_put = [], lock_held = False\<rparr>"

lemma demo_start_reach: "fd_reach pid rlimit demo_start"
  unfolding demo_start_def
  by (rule fd_reach.start [of "\<lambda>n. True"]) (simp add: get_new_handle_map_def malloc_def INIT_HANDLE_MAP_SIZE_def)

lemma demo_host_path: "use_sg_host ''/dev/x''"
  by (simp add: use_sg_host_def is_sg_host_path_def under_root_def)

lemma demo_openat: "\<exists>s1. libos_syscall_openat (\<lambda>n. True) 1 900 True 5 (Some 77) 0 (0, None) (\<lambda>h d f fl mode. 0) ''/dev/x'' 0 0 demo_start =
    Some (5, s1)"
proof -
  have c: "cloexec_flag 0 = 0" by (simp add: cloexec_flag_def)
  show ?thesis using demo_host_path
    by (simp add: libos_syscall_openat_def openat_host_def request_def demo_start_def get_new_handle_def malloc_def Let_def
        set_new_fd_handle_by_fd_def u_set_new_fd_handle_def enlarge_for_def u_init_handle_def c open_out_def u32_of_int_def
        int_of_u32_def)
qed

section \<open>Properties\<close>

text \<open>C12: Over any sequence of calls that open, duplicate, register and close descriptors, with any answers of the host and
  any failed allocation, the table stays well-formed: its top is its last descriptor, each descriptor stands in its own slot
  with a handle and no unknown flag. The lookup of the code gives the descriptors of the table; the handle of a
  descriptor has at least as many references as descriptors, and is not destroyed.\<close>

theorem fd_calls_well_formed:
  assumes "fd_reach pid rlimit s" "rlimit \<le> 2 ^ 31"
  shows "map_ok (tbl s) \<and> u_get_fd_handle fd (tbl s) = fd_view (tbl s) fd \<and>
    (case fd_view (tbl s) fd of
       None \<Rightarrow> True
     | Some (h, fl) \<Rightarrow> h \<notin> set (destroyed (hs s)) \<and> 0 < slots (tbl s) h \<and> slots (tbl s) h \<le> ref_count (hs s) h)"
proof -
  have t: "tables_ok pid (tbl s) (hs s)" using fd_reach_ok [OF assms] by (simp add: sys_ok_def)
  note m = tables_okD(1) [OF t]
  have "h \<notin> set (destroyed (hs s)) \<and> 0 < slots (tbl s) h \<and> slots (tbl s) h \<le> ref_count (hs s) h"
    if "fd_view (tbl s) fd = Some (h, fl)" for h fl
    using view_slots [OF that] tables_okD(2,4) [OF t] unfolding live_ok_def by (metis order_less_le_trans)
  then show ?thesis using m u_get_fd_handle_view [OF m] by (auto split: option.splits)
qed

theorem fd_calls_well_formed_witness:
  "\<exists>s h. fd_reach 1 900 s \<and> fd_view (tbl s) 5 = Some (h, 0) \<and> h \<notin> set (destroyed (hs s)) \<and> 0 < ref_count (hs s) h"
proof -
  obtain s1 where o: "libos_syscall_openat (\<lambda>n. True) 1 900 True 5 (Some 77) 0 (0, None) (\<lambda>h d f fl mode. 0) ''/dev/x'' 0 0 demo_start =
      Some (5, s1)" using demo_openat by blast
  have r: "fd_reach 1 900 s1"
    by (rule fd_reach.call [OF demo_start_reach _ fd_call.openat [OF o]]) (simp add: demo_start_def)
  have "sys_ok 1 demo_start" using fd_reach_ok [OF demo_start_reach [of 1 900]] by simp
  moreover have "openat_host (\<lambda>n. True) 1 900 5 (Some 77) ''/dev/x'' 0 0 demo_start = Some (5, s1)"
    using o demo_host_path by (simp add: libos_syscall_openat_def)
  ultimately obtain h where "fd_view (tbl s1) 5 = Some (h, 0)"
    using openat_host_success [of 1 demo_start 900 "\<lambda>n. True" 5 "Some 77" "''/dev/x''" 0 0 5 s1] by (auto simp: cloexec_flag_def)
  then show ?thesis using fd_calls_well_formed [OF r, of 5] r by auto
qed

text \<open>C39: A redirected descriptor is not closed on the host. After \<^verbatim>\<open>openat\<close> of a path of the host has given a descriptor (the
  answer of the host, if negative, is one that fits \<^verbatim>\<open>int\<close>), \<^verbatim>\<open>close\<close> of it returns 0, but the open is the only request the host has got. The open also gives back whatever reference the
  uninitialised variable \<^verbatim>\<open>dir\<close> happens to hold.\<close>

theorem redirected_close_stays_local:
  assumes "fd_reach pid rlimit s" "rlimit \<le> 2 ^ 31" "use_sg_host filename"
    "libos_syscall_openat M pid rlimit True retval stale umask dirfd open_namei filename fl mode s = Some (r, s1)" "0 \<le> r"
    "- (2 ^ 31) \<le> retval" "libos_syscall_close comm_ret r s1 = (q, s2)"
  shows "q = 0 \<and> fd_view (tbl s2) (nat r) = None \<and> requests s2 = requests s @ [OPEN_REQ filename fl mode] \<and>
    dentries_put s2 = dentries_put s @ (case stale of None \<Rightarrow> [] | Some d \<Rightarrow> [d])"
proof -
  have ok: "sys_ok pid s" by (rule fd_reach_ok [OF assms(1,2)])
  have o: "openat_host M pid rlimit retval stale filename fl mode s = Some (r, s1)"
    using assms(3,4) by (simp add: libos_syscall_openat_def)
  obtain h where h: "fd_view (tbl s1) (nat r) = Some (h, cloexec_flag fl)" "nat r < rlimit"
      "requests s1 = requests s @ [OPEN_REQ filename fl mode]"
      "dentries_put s1 = dentries_put s @ (case stale of None \<Rightarrow> [] | Some d \<Rightarrow> [d])"
    using openat_host_success [OF ok assms(2) o assms(5,6)] by blast
  have u: "u32_of_int r = nat r" using h(2) assms(2,5) by (simp add: u32_of_int_def)
  have t: "tables_ok pid (tbl s1) (hs s1)" using openat_host_ok [OF ok assms(2) o] by (simp add: sys_ok_def)
  obtain x m w where d: "detach_fd_handle (nat r) (tbl s1) (hs s1) = (x, m, w)" by (metis prod_cases3)
  have "x = Some h" "fd_view m (nat r) = None" using detach_held [OF t d] h(1) by simp_all
  then show ?thesis using assms(7) d h u by (auto simp: libos_syscall_close_def with_tables_def)
qed

theorem redirected_close_stays_local_witness:
  "\<exists>s1 s2. libos_syscall_openat (\<lambda>n. True) 1 900 True 5 (Some 77) 0 (0, None) (\<lambda>h d f fl mode. 0) ''/dev/x'' 0 0 demo_start =
      Some (5, s1) \<and> libos_syscall_close 0 5 s1 = (0, s2) \<and> requests s2 = [OPEN_REQ ''/dev/x'' 0 0] \<and> dentries_put s2 = [77]"
proof -
  obtain s1 where o: "libos_syscall_openat (\<lambda>n. True) 1 900 True 5 (Some 77) 0 (0, None) (\<lambda>h d f fl mode. 0) ''/dev/x'' 0 0 demo_start =
      Some (5, s1)" using demo_openat by blast
  obtain q s2 where c: "libos_syscall_close 0 5 s1 = (q, s2)" by (metis surj_pair)
  have "requests demo_start = []" "dentries_put demo_start = []" by (simp_all add: demo_start_def)
  then show ?thesis using redirected_close_stays_local [OF demo_start_reach _ demo_host_path o _ _ c] o c by simp
qed

end
