(* ===== verification/Fcntl_Calls.thy ===== *)
theory Fcntl_Calls
  imports Fd_Calls File_Lock_Spec
begin

text \<open>
  The system calls \<^verbatim>\<open>fcntl\<close> and \<^verbatim>\<open>flock\<close> (\<^verbatim>\<open>libos/src/sys/libos_fcntl.c\<close>), in the build that redirects calls to the
  host, on top of the descriptor table and the file locks; and the release of the locks of a file when a descriptor
  is closed (\<^verbatim>\<open>clear_posix_locks\<close> and \<^verbatim>\<open>clear_flock_locks\<close> of \<^verbatim>\<open>libos_handle.c\<close>). The operations of the file system a
  handle belongs to, the answer of the host and the \<^verbatim>\<open>struct flock\<close> in the memory of the user are arguments. A call
  that waits for a lock is cut there: \<open>fcntl_answer\<close> is its end.
\<close>

section \<open>Data\<close>

definition F_DUPFD :: int where "F_DUPFD = 0"
definition F_GETFD :: int where "F_GETFD = 1"
definition F_SETFD :: int where "F_SETFD = 2"
definition F_GETFL :: int where "F_GETFL = 3"
definition F_SETFL :: int where "F_SETFL = 4"
definition F_GETLK :: int where "F_GETLK = 5"
definition F_SETLK :: int where "F_SETLK = 6"
definition F_SETLKW :: int where "F_SETLKW = 7"
definition F_SETOWN :: int where "F_SETOWN = 8"
definition F_DUPFD_CLOEXEC :: int where "F_DUPFD_CLOEXEC = 1030"

lemmas cmd_defs = F_DUPFD_def F_GETFD_def F_SETFD_def F_GETFL_def F_SETFL_def F_GETLK_def F_SETLK_def F_SETLKW_def
  F_SETOWN_def F_DUPFD_CLOEXEC_def

text \<open>\<^verbatim>\<open>O_APPEND\<close>, \<^verbatim>\<open>O_DIRECT\<close>, \<^verbatim>\<open>O_NOATIME\<close> and \<^verbatim>\<open>O_NONBLOCK\<close>.\<close>

definition O_NONBLOCK :: flags where "O_NONBLOCK = 2048"
definition FCNTL_SETFL_MASK :: flags where "FCNTL_SETFL_MASK = 1024 OR 16384 OR 262144 OR O_NONBLOCK"

definition MAY_WRITE :: flags where "MAY_WRITE = 2"
definition MAY_READ :: flags where "MAY_READ = 4"
definition SEEK_SET :: int where "SEEK_SET = 0"
definition SEEK_CUR :: int where "SEEK_CUR = 1"
definition SEEK_END :: int where "SEEK_END = 2"

definition LOCK_SH :: flags where "LOCK_SH = 1"
definition LOCK_EX :: flags where "LOCK_EX = 2"
definition LOCK_NB :: flags where "LOCK_NB = 4"
definition LOCK_UN :: flags where "LOCK_UN = 8"
definition LOCK_MAND :: flags where "LOCK_MAND = 32"

text \<open>The \<^verbatim>\<open>struct flock\<close> of the user.\<close>

record flock =
  u_type :: int
  u_whence :: int
  u_start :: int
  u_len :: int
  u_pid :: int

text \<open>
  What a call knows of a handle: its dentry, access mode and file system. \<open>seek_cur\<close> is the result of
  \<^verbatim>\<open>seek(hdl, 0, SEEK_CUR)\<close>, \<open>hstat\<close> that of \<^verbatim>\<open>hstat\<close> with the size it stores, and \<open>setflags\<close> that of \<^verbatim>\<open>setflags\<close> with the
  flags it leaves in the handle; they are \<open>None\<close> for a file system without the operation. A negative result is an
  error number.
\<close>

record 'd hdl_ops =
  dentry :: "hdl \<Rightarrow> 'd option"
  acc_mode :: "hdl \<Rightarrow> flags"
  has_fs :: "hdl \<Rightarrow> bool"
  seek_cur :: "hdl \<Rightarrow> int option"
  hstat :: "hdl \<Rightarrow> (int \<times> int) option"
  setflags :: "hdl \<Rightarrow> (flags \<Rightarrow> flags \<Rightarrow> flags \<Rightarrow> int \<times> flags) option"
  created_by_process :: "hdl \<Rightarrow> bool"

record 'd fcntl_env =
  l_env :: "'d lock_env"
  ops :: "'d hdl_ops"
  alloc_fd :: "nat \<Rightarrow> bool"
  alloc_lock :: "nat \<Rightarrow> bool"
  g_pid :: nat
  nofile :: nat
  host_answer :: int
  user_flock :: "flock option"
  user_writable :: bool
  stale_lock :: libos_file_lock
  enable_flock :: "bool option"

record 'd fcntl_sys =
  fdsys :: fd_sys
  locks :: "'d fs_locks"
  status :: "hdl \<Rightarrow> flags"

section \<open>Flags of a handle\<close>

definition generic_set_flags :: "hdl \<Rightarrow> flags \<Rightarrow> flags \<Rightarrow> 'd fcntl_sys \<Rightarrow> int \<times> 'd fcntl_sys" where
  "generic_set_flags h fl msk s =
     (0, s\<lparr>status := (status s)(h := (status s h AND NOT msk) OR fl)\<rparr>)"

definition set_handle_flags :: "'d hdl_ops \<Rightarrow> hdl \<Rightarrow> flags \<Rightarrow> flags \<Rightarrow> 'd fcntl_sys \<Rightarrow> int \<times> 'd fcntl_sys" where
  "set_handle_flags Q h fl0 msk s =
     (let fl = fl0 AND msk
      in case (if has_fs Q h then setflags Q h else None) of
           Some f \<Rightarrow> let (ret, new) = f (status s h) fl msk in (ret, s\<lparr>status := (status s)(h := new)\<rparr>)
         | None \<Rightarrow> generic_set_flags h fl msk s)"

definition set_handle_nonblocking :: "'d hdl_ops \<Rightarrow> hdl \<Rightarrow> bool \<Rightarrow> 'd fcntl_sys \<Rightarrow> int \<times> 'd fcntl_sys" where
  "set_handle_nonblocking Q h on s = set_handle_flags Q h (if on then O_NONBLOCK else 0) O_NONBLOCK s"

section \<open>The range of a lock\<close>

definition lock_type_of :: "int \<Rightarrow> lock_type option" where
  "lock_type_of n = (if n = 0 then Some F_RDLCK else if n = 1 then Some F_WRLCK else if n = 2 then Some F_UNLCK else None)"

definition lock_type_number :: "lock_type \<Rightarrow> int" where
  "lock_type_number t = (case t of F_RDLCK \<Rightarrow> 0 | F_WRLCK \<Rightarrow> 1 | F_UNLCK \<Rightarrow> 2)"

text \<open>\<^verbatim>\<open>__builtin_add_overflow\<close> into a \<^verbatim>\<open>uint64_t\<close>; \<open>None\<close> is an overflow.\<close>

definition add_overflow :: "int \<Rightarrow> int \<Rightarrow> int option" where
  "add_overflow a b = (if 0 \<le> a + b \<and> a + b < 2 ^ 64 then Some (a + b) else None)"

text \<open>Where \<^verbatim>\<open>l_whence\<close> points; \<open>None\<close> is the failed assertion on the size.\<close>

definition lock_origin :: "'d hdl_ops \<Rightarrow> flock \<Rightarrow> hdl \<Rightarrow> (int + int) option" where
  "lock_origin Q fl h =
     (if u_whence fl = SEEK_SET then Some (Inr 0)
      else if u_whence fl = SEEK_CUR
      then (case seek_cur Q h of
              None \<Rightarrow> Some (Inl (- EINVAL))
            | Some pos \<Rightarrow> Some (if pos < 0 then Inl pos else Inr pos))
      else if u_whence fl = SEEK_END
      then (case hstat Q h of
              None \<Rightarrow> Some (Inl (- EINVAL))
            | Some (ret, st_size) \<Rightarrow> if ret < 0 then Some (Inl ret) else if st_size < 0 then None else Some (Inr st_size))
      else Some (Inl (- EINVAL)))"

definition lock_range :: "int \<Rightarrow> int \<Rightarrow> int \<Rightarrow> int + (nat \<times> nat)" where
  "lock_range origin0 start len =
     (case add_overflow origin0 start of
        None \<Rightarrow> Inl (if start > 0 then - EOVERFLOW else - EINVAL)
      | Some origin \<Rightarrow>
          if len > 0
          then (case add_overflow origin (len - 1) of None \<Rightarrow> Inl (- EOVERFLOW) | Some e \<Rightarrow> Inr (nat origin, nat e))
          else if len < 0
          then (case add_overflow origin len of
                  None \<Rightarrow> Inl (- EINVAL)
                | Some b \<Rightarrow> (case add_overflow origin (- 1) of None \<Rightarrow> Inl (- EINVAL) | Some e \<Rightarrow> Inr (nat b, nat e)))
          else Inr (nat origin, FS_LOCK_EOF))"

definition flock_to_file_lock :: "'d hdl_ops \<Rightarrow> nat \<Rightarrow> flock \<Rightarrow> hdl \<Rightarrow> (int + libos_file_lock) option" where
  "flock_to_file_lock Q pid fl h =
     (case lock_type_of (u_type fl) of
        None \<Rightarrow> Some (Inl (- EINVAL))
      | Some t \<Rightarrow>
          if \<not> has_fs Q h then None
          else (case lock_origin Q fl h of
                  None \<Rightarrow> None
                | Some (Inl ret) \<Rightarrow> Some (Inl ret)
                | Some (Inr origin) \<Rightarrow>
                    (case lock_range origin (u_start fl) (u_len fl) of
                       Inl ret \<Rightarrow> Some (Inl ret)
                     | Inr (b, e) \<Rightarrow> Some (Inr \<lparr>family = FILE_LOCK_POSIX, ltype = t, l_start = b, l_end = e,
                                                 l_pid = pid, handle_id = 0\<rparr>))))"

section \<open>fcntl\<close>

definition with_fdsys :: "fd_sys \<Rightarrow> 'd fcntl_sys \<Rightarrow> 'd fcntl_sys" where
  "with_fdsys f s = s\<lparr>fdsys := f\<rparr>"

definition put_back :: "hdl \<Rightarrow> 'd fcntl_sys \<Rightarrow> 'd fcntl_sys" where
  "put_back h s = with_fdsys ((fdsys s)\<lparr>hs := put_handle h (hs (fdsys s))\<rparr>) s"

definition fcntl_dup :: "'d fcntl_env \<Rightarrow> bool \<Rightarrow> nat \<Rightarrow> hdl \<Rightarrow> flags \<Rightarrow> 'd fcntl_sys \<Rightarrow> (int \<times> 'd fcntl_sys) option" where
  "fcntl_dup P search fd h fl s =
     (case (if search then set_new_fd_handle_above_fd else set_new_fd_handle_by_fd)
             (alloc_fd P) (nofile P) fd h fl (tbl (fdsys s)) (hs (fdsys s)) of
        None \<Rightarrow> None
      | Some (ret, m, w) \<Rightarrow> Some (ret, with_fdsys (with_tables m w (fdsys s)) s))"

text \<open>\<^verbatim>\<open>F_SETFD\<close> indexes the table with the signed descriptor.\<close>

definition fcntl_setfd :: "int \<Rightarrow> nat \<Rightarrow> 'd fcntl_sys \<Rightarrow> (int \<times> 'd fcntl_sys) option" where
  "fcntl_setfd fd arg s =
     (if fd < 0 \<or> nat fd \<ge> length (fds (tbl (fdsys s))) then None
      else let m = tbl (fdsys s); i = nat fd
      in Some (0, if HANDLE_ALLOCATED (fds m ! i)
                  then with_fdsys ((fdsys s)\<lparr>tbl := m\<lparr>fds := (fds m)[i := map_option
                         (\<lambda>f. f\<lparr>fd_flags := of_nat arg AND FD_CLOEXEC\<rparr>) (fds m ! i)]\<rparr>\<rparr>) s
                  else s))"

definition fcntl_setlk :: "'d fcntl_env \<Rightarrow> hdl \<Rightarrow> bool \<Rightarrow> 'd fcntl_sys \<Rightarrow> (lock_result \<times> 'd fcntl_sys) option" where
  "fcntl_setlk P h wait s =
     (case user_flock P of
        None \<Rightarrow> Some (Returns (- EFAULT), s)
      | Some fl \<Rightarrow>
          (case dentry (ops P) h of
             None \<Rightarrow> Some (Returns (- EINVAL), s)
           | Some d \<Rightarrow>
               if u_type fl = 0 \<and> \<not> has_flag (acc_mode (ops P) h) MAY_READ then Some (Returns (- EINVAL), s)
               else if u_type fl = 1 \<and> \<not> has_flag (acc_mode (ops P) h) MAY_WRITE then Some (Returns (- EINVAL), s)
               else (case flock_to_file_lock (ops P) (g_pid P) fl h of
                       None \<Rightarrow> None
                     | Some (Inl ret) \<Rightarrow> Some (Returns ret, s)
                     | Some (Inr file_lock) \<Rightarrow>
                         (case file_lock_set (l_env P) (alloc_lock P) d file_lock wait (locks s) of
                            None \<Rightarrow> None
                          | Some (r, lk) \<Rightarrow> Some (r, s\<lparr>locks := lk\<rparr>)))))"

text \<open>The conversion of a \<^verbatim>\<open>uint64_t\<close> to \<^verbatim>\<open>off_t\<close>, and what \<^verbatim>\<open>F_GETLK\<close> stores.\<close>

definition off_of_u64 :: "nat \<Rightarrow> int" where
  "off_of_u64 n = (if n < 2 ^ 63 then int n else int n - 2 ^ 64)"

definition getlk_answer :: "libos_file_lock \<Rightarrow> flock \<Rightarrow> flock" where
  "getlk_answer l fl =
     (let fl1 = fl\<lparr>u_type := lock_type_number (ltype l)\<rparr>
      in if ltype l = F_UNLCK then fl1
         else fl1\<lparr>u_whence := SEEK_SET, u_start := off_of_u64 (l_start l),
                  u_len := if l_end l = FS_LOCK_EOF then 0 else off_of_u64 (u64 (l_end l - l_start l + 1)),
                  u_pid := int (l_pid l)\<rparr>)"

definition fcntl_getlk :: "'d fcntl_env \<Rightarrow> hdl \<Rightarrow> 'd fcntl_sys \<Rightarrow> (int \<times> flock option \<times> 'd fcntl_sys) option" where
  "fcntl_getlk P h s =
     (case user_flock P of
        None \<Rightarrow> Some (- EFAULT, None, s)
      | Some fl \<Rightarrow>
          if \<not> user_writable P then Some (- EFAULT, Some fl, s)
          else (case dentry (ops P) h of
                  None \<Rightarrow> Some (- EINVAL, Some fl, s)
                | Some d \<Rightarrow>
                    (case flock_to_file_lock (ops P) (g_pid P) fl h of
                       None \<Rightarrow> None
                     | Some (Inl ret) \<Rightarrow> Some (ret, Some fl, s)
                     | Some (Inr file_lock) \<Rightarrow>
                         if ltype file_lock = F_UNLCK then Some (- EINVAL, Some fl, s)
                         else (case file_lock_get (l_env P) (alloc_lock P) d file_lock (stale_lock P) (locks s) of
                                 None \<Rightarrow> None
                               | Some (ret, file_lock2, lk) \<Rightarrow>
                                   if ret < 0 then Some (ret, Some fl, s\<lparr>locks := lk\<rparr>)
                                   else Some (0, Some (getlk_answer file_lock2 fl), s\<lparr>locks := lk\<rparr>)))))"

text \<open>The \<^verbatim>\<open>switch\<close>, without \<^verbatim>\<open>F_DUPFD_CLOEXEC\<close>: the result, the memory of the user and the state before the
  handle is put back. \<^verbatim>\<open>int\<close> results of \<^verbatim>\<open>F_GETFL\<close> are the flags read as a signed number.\<close>

definition fcntl_command :: "'d fcntl_env \<Rightarrow> int \<Rightarrow> hdl \<Rightarrow> flags \<Rightarrow> int \<Rightarrow> nat \<Rightarrow> 'd fcntl_sys \<Rightarrow>
    (lock_result \<times> flock option \<times> 'd fcntl_sys) option" where
  "fcntl_command P fd h fl cmd arg s =
     (let mem = user_flock P; plain = map_option (\<lambda>(ret, s'). (Returns ret, mem, s'))
      in if cmd = F_DUPFD then plain (fcntl_dup P True (arg mod 2 ^ 32) h fl s)
      else if cmd = F_GETFD then plain (Some (uint (fl AND FD_CLOEXEC), s))
      else if cmd = F_SETFD then plain (fcntl_setfd fd arg s)
      else if cmd = F_GETFL then plain (Some (sint (status s h), s))
      else if cmd = F_SETFL then plain (Some (set_handle_flags (ops P) h (of_nat arg) FCNTL_SETFL_MASK s))
      else if cmd = F_SETLK \<or> cmd = F_SETLKW
      then map_option (\<lambda>(r, s'). (r, mem, s')) (fcntl_setlk P h (cmd = F_SETLKW) s)
      else if cmd = F_GETLK then map_option (\<lambda>(ret, m, s'). (Returns ret, m, s')) (fcntl_getlk P h s)
      else if cmd = F_SETOWN then plain (Some (0, s))
      else plain (Some (- EINVAL, s)))"

text \<open>\<^verbatim>\<open>F_DUPFD_CLOEXEC\<close> returns at once: the handle is not put back.\<close>

definition fcntl_dupfd_cloexec :: "'d fcntl_env \<Rightarrow> bool \<Rightarrow> hdl \<Rightarrow> flags \<Rightarrow> nat \<Rightarrow> 'd fcntl_sys \<Rightarrow>
    (int \<times> 'd fcntl_sys) option" where
  "fcntl_dupfd_cloexec P host h fl arg s =
     fcntl_dup P False (if host then u32_of_int (host_answer P) else arg mod 2 ^ 32) h (fl OR FD_CLOEXEC) s"

definition libos_syscall_fcntl :: "'d fcntl_env \<Rightarrow> int \<Rightarrow> int \<Rightarrow> nat \<Rightarrow> 'd fcntl_sys \<Rightarrow>
    (lock_result \<times> flock option \<times> 'd fcntl_sys) option" where
  "libos_syscall_fcntl P fd cmd arg s =
     (case u_get_fd_handle (u32_of_int fd) (tbl (fdsys s)) of
        None \<Rightarrow> Some (Returns (- EBADF), user_flock P, s)
      | Some (h, fl) \<Rightarrow>
          let f = (fdsys s)\<lparr>hs := get_handle h (hs (fdsys s))\<rparr>;
              host = (hdl_type (hs f) h = TYPE_HOST);
              s1 = with_fdsys (if host then request (FCNTL_REQ fd cmd arg) f else f) s
          in if cmd = F_DUPFD_CLOEXEC
             then map_option (\<lambda>(ret, s'). (Returns ret, user_flock P, s')) (fcntl_dupfd_cloexec P host h fl arg s1)
             else (case fcntl_command P fd h fl cmd arg s1 of
                     None \<Rightarrow> None
                   | Some (Waits e, m, s2) \<Rightarrow> Some (Waits e, m, s2)
                   | Some (Returns ret, m, s2) \<Rightarrow> Some (Returns ret, m, put_back h s2)))"

section \<open>flock\<close>

definition flock_type :: "flags \<Rightarrow> lock_type option" where
  "flock_type cmd =
     (let c = cmd AND NOT LOCK_NB
      in if c = LOCK_EX then Some F_WRLCK else if c = LOCK_SH then Some F_RDLCK
         else if c = LOCK_UN then Some F_UNLCK else None)"

text \<open>The members the initialiser leaves out are 0.\<close>

definition bsd_lock :: "hdl \<Rightarrow> lock_type \<Rightarrow> libos_file_lock" where
  "bsd_lock h t = \<lparr>family = FILE_LOCK_FLOCK, ltype = t, l_start = 0, l_end = 0, l_pid = 0, handle_id = h\<rparr>"

definition flock_local :: "'d fcntl_env \<Rightarrow> hdl \<Rightarrow> flags \<Rightarrow> 'd fcntl_sys \<Rightarrow> (lock_result \<times> 'd fcntl_sys) option" where
  "flock_local P h cmd s =
     (case dentry (ops P) h of
        None \<Rightarrow> Some (Returns (- EINVAL), s)
      | Some d \<Rightarrow>
          (case flock_type cmd of
             None \<Rightarrow> Some (Returns (- EINVAL), s)
           | Some t \<Rightarrow>
               (case file_lock_set (l_env P) (alloc_lock P) d (bsd_lock h t) (\<not> has_flag cmd LOCK_NB) (locks s) of
                  None \<Rightarrow> None
                | Some (r, lk) \<Rightarrow> Some (r, s\<lparr>locks := lk\<rparr>))))"

definition libos_syscall_flock :: "'d fcntl_env \<Rightarrow> nat \<Rightarrow> flags \<Rightarrow> 'd fcntl_sys \<Rightarrow> (lock_result \<times> 'd fcntl_sys) option" where
  "libos_syscall_flock P fd cmd s =
     (if has_flag cmd LOCK_MAND then Some (Returns 0, s)
      else if enable_flock P \<noteq> Some True then Some (Returns (- ENOSYS), s)
      else case get_fd_handle fd (tbl (fdsys s)) (hs (fdsys s)) of
        (None, w) \<Rightarrow> Some (Returns (- EBADF), s)
      | (Some h, w) \<Rightarrow>
          let f = (fdsys s)\<lparr>hs := w\<rparr>
          in if hdl_type w h = TYPE_HOST \<or> hdl_type w h = TYPE_HOST_IDENTITY
             then Some (Returns (host_answer P), put_back h (with_fdsys (request (FLOCK_REQ fd cmd) f) s))
             else (case flock_local P h cmd (with_fdsys f s) of
                     None \<Rightarrow> None
                   | Some (Waits e, s1) \<Rightarrow> Some (Waits e, s1)
                   | Some (Returns ret, s1) \<Rightarrow> Some (Returns ret, put_back h s1)))"

section \<open>Locks of a closed descriptor\<close>

definition whole_file_unlock :: "nat \<Rightarrow> libos_file_lock" where
  "whole_file_unlock pid = \<lparr>family = FILE_LOCK_POSIX, ltype = F_UNLCK, l_start = 0, l_end = FS_LOCK_EOF, l_pid = pid,
     handle_id = 0\<rparr>"

definition release :: "'d fcntl_env \<Rightarrow> 'd option \<Rightarrow> libos_file_lock \<Rightarrow> 'd fs_locks \<Rightarrow> (int \<times> 'd fs_locks) option" where
  "release P d fl lk =
     (case d of
        None \<Rightarrow> Some (0, lk)
      | Some d \<Rightarrow> (case file_lock_set (l_env P) (alloc_lock P) d fl False lk of
                     Some (Returns ret, lk') \<Rightarrow> Some (if ret < 0 then ret else 0, lk')
                   | _ \<Rightarrow> None))"

definition release_posix_locks :: "'d fcntl_env \<Rightarrow> hdl \<Rightarrow> 'd fs_locks \<Rightarrow> (int \<times> 'd fs_locks) option" where
  "release_posix_locks P h lk = release P (dentry (ops P) h) (whole_file_unlock (g_pid P)) lk"

definition clear_flock_locks :: "'d fcntl_env \<Rightarrow> hdl \<Rightarrow> 'd fs_locks \<Rightarrow> (int \<times> 'd fs_locks) option" where
  "clear_flock_locks P h lk =
     release P (if created_by_process (ops P) h then dentry (ops P) h else None) (bsd_lock h F_UNLCK) lk"

text \<open>\<^verbatim>\<open>close\<close> with the locks: the POSIX locks of the file go when the descriptor is detached, the BSD locks of the
  handle when its last reference does; errors are ignored.\<close>

definition close_with_locks :: "'d fcntl_env \<Rightarrow> int \<Rightarrow> 'd fcntl_sys \<Rightarrow> (int \<times> 'd fcntl_sys) option" where
  "close_with_locks P fd s =
     (let (ret, f) = libos_syscall_close (host_answer P) fd (fdsys s)
      in case map_option fst (u_get_fd_handle (u32_of_int fd) (tbl (fdsys s))) of
           None \<Rightarrow> Some (ret, with_fdsys f s)
         | Some h \<Rightarrow>
             (case release_posix_locks P h (locks s) of
                None \<Rightarrow> None
              | Some (_, lk) \<Rightarrow>
                  (case (if ref_count (hs f) h = 0 then clear_flock_locks P h lk else Some (0, lk)) of
                     None \<Rightarrow> None
                   | Some (_, lk') \<Rightarrow> Some (ret, (with_fdsys f s)\<lparr>locks := lk'\<rparr>))))"

text \<open>The end of a call that has waited for the event \<open>e\<close>, the wait ending with \<open>w\<close>: it puts the handle back, which may by
  then be the last reference.\<close>

definition fcntl_answer :: "'d fcntl_env \<Rightarrow> hdl \<Rightarrow> nat \<Rightarrow> int \<Rightarrow> 'd fcntl_sys \<Rightarrow> (int \<times> 'd fcntl_sys) option" where
  "fcntl_answer P h e w s =
     (case dentry (ops P) h of
        None \<Rightarrow> None
      | Some d \<Rightarrow>
          (case file_lock_set_woken d e w (locks s) of
             None \<Rightarrow> None
           | Some (ret, lk) \<Rightarrow>
               let s1 = put_back h (s\<lparr>locks := lk\<rparr>)
               in if ref_count (hs (fdsys s1)) h = 0
                  then map_option (\<lambda>(_, lk). (ret, s1\<lparr>locks := lk\<rparr>)) (clear_flock_locks P h (locks s1))
                  else Some (ret, s1)))"

section \<open>The range of a lock, again\<close>

text \<open>The bytes that \<^verbatim>\<open>l_start\<close> and \<^verbatim>\<open>l_len\<close> denote, from an origin.\<close>

definition denoted :: "int \<Rightarrow> int \<Rightarrow> int \<Rightarrow> int set" where
  "denoted origin start len =
     (let first = origin + start
      in if len > 0 then {first ..< first + len} else if len < 0 then {first + len ..< first} else {first ..})"

lemma lock_range_bytes:
  assumes "lock_range origin start len = Inr (b, e)"
  shows "b \<le> e \<and> e \<le> FS_LOCK_EOF \<and> denoted origin start len \<inter> {..< 2 ^ 64} = {int b .. int e}"
  using assms by (auto simp: lock_range_def add_overflow_def denoted_def FS_LOCK_EOF_def Let_def nat_le_iff
      split: if_splits option.splits)

text \<open>The errors for ranges that do not fit: the origin of the range or its last byte too large, or a byte below 0.\<close>

definition range_error :: "int \<Rightarrow> int \<Rightarrow> int \<Rightarrow> int option" where
  "range_error origin start len =
     (if 2 ^ 64 \<le> origin + start then Some (- EOVERFLOW)
      else if \<exists>b\<in>denoted origin start len. b < 0 then Some (- EINVAL)
      else if 0 < len \<and> 2 ^ 64 < origin + start + len then Some (- EOVERFLOW) else None)"

lemma denoted_below: "(\<exists>b\<in>denoted origin start len. b < 0) \<longleftrightarrow> (if len < 0 then origin + start + len < 0 else origin + start < 0)"
proof -
  have "\<exists>b\<in>denoted origin start len. b < 0" if "len < 0" "origin + start + len < 0"
    using that by (intro bexI [of _ "origin + start + len"]) (simp_all add: denoted_def Let_def)
  moreover have "\<exists>b\<in>denoted origin start len. b < 0" if "\<not> len < 0" "origin + start < 0"
    using that by (intro bexI [of _ "origin + start"]) (simp_all add: denoted_def Let_def)
  ultimately show ?thesis by (auto simp: denoted_def Let_def split: if_splits)
qed

lemma lock_range_error:
  assumes "0 \<le> origin" "origin < 2 ^ 64"
  shows "lock_range origin start len = Inl ret \<longleftrightarrow> range_error origin start len = Some ret"
  using assms unfolding range_error_def denoted_below
  by (auto simp: lock_range_def add_overflow_def split: if_splits option.splits)

lemma flock_to_file_lock_ok:
  assumes "flock_to_file_lock Q pid fl h = Some (Inr l)" "0 < pid"
  shows "lock_ok l \<and> family l = FILE_LOCK_POSIX \<and> l_pid l = pid"
  using assms lock_range_bytes
  by (auto simp: flock_to_file_lock_def lock_ok_def assert_owner_def range_ok_def split: option.splits sum.splits if_splits)

lemma getlk_answer_range:
  assumes "range_ok l" "l_start l < 2 ^ 63" "l_end l + 1 - l_start l < 2 ^ 63 \<or> l_end l = FS_LOCK_EOF" "ltype l \<noteq> F_UNLCK"
    "has_fs Q h" "family l = FILE_LOCK_POSIX"
  shows "flock_to_file_lock Q (l_pid l) (getlk_answer l fl) h = Some (Inr (l\<lparr>handle_id := 0\<rparr>))"
proof -
  have t: "lock_type_of (lock_type_number (ltype l)) = Some (ltype l)"
    by (cases "ltype l") (simp_all add: lock_type_of_def lock_type_number_def)
  have r: "lock_range 0 (u_start (getlk_answer l fl)) (u_len (getlk_answer l fl)) = Inr (l_start l, l_end l)"
    using assms(1-4)
    by (auto simp: getlk_answer_def lock_range_def add_overflow_def off_of_u64_def u64_def range_ok_def FS_LOCK_EOF_def)
  show ?thesis using t r assms(4-)
    by (simp add: flock_to_file_lock_def lock_origin_def getlk_answer_def SEEK_SET_def Let_def)
qed

section \<open>What the calls keep\<close>

text \<open>
  What is assumed of the environment: the process has a number, the limit of descriptors is one of an \<^verbatim>\<open>int\<close>, a handle
  with a dentry belongs to a file system, and file systems report positions and sizes of type \<^verbatim>\<open>file_off_t\<close>, sizes not
  negative.
\<close>

definition fcntl_env_ok :: "'d fcntl_env \<Rightarrow> bool" where
  "fcntl_env_ok P \<longleftrightarrow> 0 < g_pid P \<and> nofile P \<le> 2 ^ 31 \<and>
     (\<forall>h. dentry (ops P) h \<noteq> None \<longrightarrow> has_fs (ops P) h) \<and>
     (\<forall>h pos. seek_cur (ops P) h = Some pos \<longrightarrow> pos < 2 ^ 63) \<and>
     (\<forall>h ret sz. hstat (ops P) h = Some (ret, sz) \<longrightarrow> 0 \<le> sz \<and> sz < 2 ^ 63)"

definition fcntl_ok :: "'d fcntl_env \<Rightarrow> ('d \<Rightarrow> nat) \<Rightarrow> 'd fcntl_sys \<Rightarrow> bool" where
  "fcntl_ok P x s \<longleftrightarrow> tables_ok (g_pid P) (tbl (fdsys s)) (hs (fdsys s)) \<and> state_ok x (locks s)"

text \<open>A request of some file without its waiter: the one state in which a call may end in a failing assertion.\<close>

definition unwritten :: "'d fs_locks \<Rightarrow> bool" where
  "unwritten lk \<longleftrightarrow> (\<exists>d. \<not> all_notified (pending lk d))"

text \<open>References a call holds besides the descriptors.\<close>

definition sys_balance :: "'d fcntl_sys \<Rightarrow> hdl \<Rightarrow> int" where
  "sys_balance s = balance (tbl (fdsys s)) (hs (fdsys s))"

lemma fcntl_env_okD:
  assumes "fcntl_env_ok P"
  shows "0 < g_pid P" "nofile P \<le> 2 ^ 31" "dentry (ops P) h = Some d \<Longrightarrow> has_fs (ops P) h"
    "seek_cur (ops P) h = Some pos \<Longrightarrow> pos < 2 ^ 63" "hstat (ops P) h = Some (ret, sz) \<Longrightarrow> 0 \<le> sz \<and> sz < 2 ^ 63"
  using assms by (auto simp: fcntl_env_ok_def)

lemma lock_origin_range:
  assumes "fcntl_env_ok P" "lock_origin (ops P) fl h = Some (Inr origin)"
  shows "0 \<le> origin \<and> origin < 2 ^ 63"
  using assms(2) fcntl_env_okD(4) [OF assms(1), of h] fcntl_env_okD(5) [OF assms(1), of h]
  by (auto simp: lock_origin_def split: if_splits option.splits)

lemma sys_simps [simp]:
  "fdsys (with_fdsys f s) = f" "locks (with_fdsys f s) = locks s" "status (with_fdsys f s) = status s"
  "tbl (request r f) = tbl f" "hs (request r f) = hs f" "tbl (with_tables m w f) = m" "hs (with_tables m w f) = w"
  by (simp_all add: with_fdsys_def request_def with_tables_def)

lemma put_back_ok:
  assumes "fcntl_ok P x s" "1 \<le> sys_balance s h"
  shows "fcntl_ok P x (put_back h s) \<and> sys_balance (put_back h s) = minus h (sys_balance s)"
  using put_held [of "g_pid P" "tbl (fdsys s)" "hs (fdsys s)" h] assms
  by (simp add: fcntl_ok_def sys_balance_def put_back_def)

lemma flag_cases: "fl AND NOT FD_CLOEXEC = 0 \<Longrightarrow> fl = 0 \<or> fl = FD_CLOEXEC"
proof -
  assume "fl AND NOT FD_CLOEXEC = 0"
  moreover have "fl = (fl AND 1) OR (fl AND NOT 1)" by (simp flip: bit.conj_disj_distrib)
  ultimately have "fl = fl AND 1" by (simp add: FD_CLOEXEC_def)
  then show ?thesis by (metis FD_CLOEXEC_def and_one_eq odd_iff_mod_2_eq_one even_iff_mod_2_eq_zero)
qed

lemma fcntl_dup_ok:
  assumes "fcntl_env_ok P" "fcntl_ok P x s" "1 \<le> sys_balance s h" "fl = 0 \<or> fl = FD_CLOEXEC"
  shows "\<exists>ret s'. fcntl_dup P search fd h fl s = Some (ret, s') \<and> fcntl_ok P x s' \<and> sys_balance s' = sys_balance s"
proof -
  let ?m = "tbl (fdsys s)" and ?w = "hs (fdsys s)"
  have t: "tables_ok (g_pid P) ?m ?w" "state_ok x (locks s)" "1 \<le> balance ?m ?w h"
    using assms(2,3) by (simp_all add: fcntl_ok_def sys_balance_def)
  have "fl AND NOT FD_CLOEXEC = 0" using assms(4) by auto
  from u_set_new_result [OF tables_okD(1) [OF t(1)] this fcntl_env_okD(2) [OF assms(1)], of "alloc_fd P" fd h search ?w]
  obtain r m' w' where u: "u_set_new_fd_handle (alloc_fd P) (nofile P) fd h fl search ?m ?w = Some (r, m', w')" by blast
  then have "fcntl_dup P search fd h fl s = Some (r, with_fdsys (with_tables m' w' (fdsys s)) s)"
    by (cases search) (simp_all add: fcntl_dup_def set_new_fd_handle_above_fd_def set_new_fd_handle_by_fd_def)
  then show ?thesis using u_set_keeps [OF t(1,3) assms(4) fcntl_env_okD(2) [OF assms(1)] u] t(2)
    by (simp add: fcntl_ok_def sys_balance_def)
qed

lemma lock_origin_total:
  assumes "fcntl_env_ok P"
  shows "lock_origin (ops P) fl h \<noteq> None"
  using fcntl_env_okD(5) [OF assms, of h] by (fastforce simp: lock_origin_def split: option.splits)

lemma flock_to_file_lock_total:
  assumes "fcntl_env_ok P" "dentry (ops P) h = Some d"
  shows "\<exists>r. flock_to_file_lock (ops P) (g_pid P) fl h = Some r"
  using fcntl_env_okD(3) [OF assms] lock_origin_total [OF assms(1), of fl h]
  by (auto simp: flock_to_file_lock_def split: option.splits sum.splits)

lemma set_locks_ok:
  assumes "fcntl_ok P x s" "lock_ok fl"
  shows "case file_lock_set (l_env P) (alloc_lock P) d fl wait (locks s) of
      None \<Rightarrow> unwritten (locks s) | Some (r, lk) \<Rightarrow> fcntl_ok P x (s\<lparr>locks := lk\<rparr>)"
proof -
  have "state_ok x (locks s)" using assms(1) by (simp add: fcntl_ok_def)
  from file_lock_set_ok [OF this assms(2), where E = "l_env P" and M = "alloc_lock P" and d = d and wait = wait]
  show ?thesis using assms(1) by (auto simp: fcntl_ok_def unwritten_def split: option.splits)
qed

lemma fcntl_setlk_ok:
  assumes "fcntl_env_ok P" "fcntl_ok P x s"
  shows "case fcntl_setlk P h wait s of
      None \<Rightarrow> unwritten (locks s) | Some (r, s') \<Rightarrow> fcntl_ok P x s' \<and> fdsys s' = fdsys s"
proof (cases "user_flock P")
  case (Some fl)
  show ?thesis
  proof (cases "dentry (ops P) h")
    case d: (Some d)
    obtain r where r: "flock_to_file_lock (ops P) (g_pid P) fl h = Some r"
      using flock_to_file_lock_total [OF assms(1) d] by blast
    show ?thesis
    proof (cases r)
      case (Inr l)
      then have "lock_ok l" using flock_to_file_lock_ok r fcntl_env_okD(1) [OF assms(1)] by blast
      then show ?thesis using set_locks_ok [OF assms(2), where fl = l and d = d and wait = wait] Some d r Inr assms(2)
        by (auto simp: fcntl_setlk_def split: option.splits)
    qed (use Some d r assms(2) in \<open>auto simp: fcntl_setlk_def\<close>)
  qed (use Some assms(2) in \<open>auto simp: fcntl_setlk_def\<close>)
qed (use assms(2) in \<open>auto simp: fcntl_setlk_def\<close>)

lemma file_lock_get_total:
  assumes "state_ok x s" "assert_owner fl" "ltype fl \<noteq> F_UNLCK"
  shows "\<exists>ret res. file_lock_get E M d fl out s = Some (ret, res, s)"
proof (cases "leader_vmid E = 0")
  case True
  then show ?thesis using file_lock_get_result [OF assms True] by blast
next
  case False
  then show ?thesis using assms(2,3) by (simp add: file_lock_get_def split: sum.split prod.split)
qed

lemma fcntl_getlk_ok:
  assumes "fcntl_env_ok P" "fcntl_ok P x s"
  shows "\<exists>r m. fcntl_getlk P h s = Some (r, m, s)"
proof (cases "user_flock P")
  case (Some fl)
  show ?thesis
  proof (cases "dentry (ops P) h")
    case d: (Some d)
    obtain r where r: "flock_to_file_lock (ops P) (g_pid P) fl h = Some r"
      using flock_to_file_lock_total [OF assms(1) d] by blast
    show ?thesis
    proof (cases r)
      case (Inr l)
      then have l: "assert_owner l"
        using flock_to_file_lock_ok [of "ops P" "g_pid P" fl h l] r fcntl_env_okD(1) [OF assms(1)] by (simp add: lock_ok_def)
      have st: "state_ok x (locks s)" using assms(2) by (simp add: fcntl_ok_def)
      show ?thesis
      proof (cases "ltype l = F_UNLCK")
        case False
        obtain ret res where "file_lock_get (l_env P) (alloc_lock P) d l (stale_lock P) (locks s) = Some (ret, res, locks s)"
          using file_lock_get_total [OF st l False] by blast
        then show ?thesis using Some d r Inr by (simp add: fcntl_getlk_def)
      qed (use Some d r Inr in \<open>simp add: fcntl_getlk_def\<close>)
    qed (use Some d r in \<open>auto simp: fcntl_getlk_def\<close>)
  qed (use Some in \<open>auto simp: fcntl_getlk_def\<close>)
qed (auto simp: fcntl_getlk_def)

lemma keeps_flags_arg: "keeps_flags (\<lambda>x. a AND FD_CLOEXEC)"
  by (simp add: keeps_flags_def and.assoc)

lemma fcntl_setfd_ok:
  assumes "fcntl_ok P x s" "0 \<le> fd" "nat fd < length (fds (tbl (fdsys s)))"
  shows "\<exists>ret s'. fcntl_setfd fd arg s = Some (ret, s') \<and> fcntl_ok P x s' \<and> sys_balance s' = sys_balance s"
proof -
  let ?m = "tbl (fdsys s)"
  note k = reflag_keeps [OF _ assms(3) keeps_flags_arg, of "g_pid P" "hs (fdsys s)" "of_nat arg"]
  show ?thesis using k assms
    by (auto simp: fcntl_setfd_def Let_def fcntl_ok_def sys_balance_def reflag_def shrunk_def)
qed

text \<open>The descriptor of a call, and the state in which its command runs.\<close>

definition fetched :: "'d fcntl_sys \<Rightarrow> nat \<Rightarrow> hdl \<Rightarrow> 'd fcntl_sys \<Rightarrow> bool" where
  "fetched s fd h s1 \<longleftrightarrow> tbl (fdsys s1) = tbl (fdsys s) \<and> hs (fdsys s1) = get_handle h (hs (fdsys s)) \<and> locks s1 = locks s"

lemma fetched_ok:
  assumes "fcntl_ok P x s" "u_get_fd_handle fd (tbl (fdsys s)) = Some (h, fl)" "fetched s fd h s1"
  shows "fcntl_ok P x s1 \<and> sys_balance s1 = plus h (sys_balance s) \<and> 1 \<le> sys_balance s1 h \<and> (fl = 0 \<or> fl = FD_CLOEXEC) \<and>
    fd < length (fds (tbl (fdsys s1)))"
proof -
  let ?m = "tbl (fdsys s)"
  have t: "tables_ok (g_pid P) ?m (hs (fdsys s))" using assms(1) by (simp add: fcntl_ok_def)
  note m = tables_okD(1) [OF t]
  have v: "fd_view ?m fd = Some (h, fl)" using u_get_fd_handle_view [OF m] assms(2) by simp
  then have len: "fd < length (fds ?m)" by (simp add: fd_view_def split: if_splits)
  moreover have "fl AND NOT FD_CLOEXEC = 0"
    using v m len by (auto simp: fd_view_def slot_view_def map_ok_def slot_ok_def HANDLE_ALLOCATED_def split: if_splits option.splits)
  ultimately show ?thesis
    using get_held [OF t v] tables_okD(3) [OF t, of h] flag_cases assms(1,3) by (simp add: fetched_def fcntl_ok_def sys_balance_def)
qed

lemma set_handle_flags_frame:
  "fdsys (snd (set_handle_flags Q h fl msk s)) = fdsys s \<and> locks (snd (set_handle_flags Q h fl msk s)) = locks s"
  by (simp add: set_handle_flags_def generic_set_flags_def Let_def split_beta split: option.split)

lemma fcntl_command_ok:
  assumes "fcntl_env_ok P" "fcntl_ok P x s" "1 \<le> sys_balance s h" "fl = 0 \<or> fl = FD_CLOEXEC" "0 \<le> fd"
    "nat fd < length (fds (tbl (fdsys s)))"
  shows "case fcntl_command P fd h fl cmd arg s of
      None \<Rightarrow> unwritten (locks s) | Some (r, m, s') \<Rightarrow> fcntl_ok P x s' \<and> sys_balance s' = sys_balance s"
proof -
  let ?goal = "\<lambda>out. case out of None \<Rightarrow> unwritten (locks s)
    | Some (r, m, s') \<Rightarrow> fcntl_ok P x s' \<and> sys_balance s' = sys_balance s"
  let ?keeps = "\<lambda>s'. fcntl_ok P x s' \<and> sys_balance s' = sys_balance s"
  have plain: "?goal (map_option (\<lambda>(ret, s'). (Returns ret, user_flock P, s')) out)"
    if "\<exists>ret s'. out = Some (ret, s') \<and> ?keeps s'" for out using that by auto
  obtain ret s' where sf: "set_handle_flags (ops P) h (of_nat arg) FCNTL_SETFL_MASK s = (ret, s')" by fastforce
  with set_handle_flags_frame [of "ops P" h "of_nat arg" FCNTL_SETFL_MASK s]
  have "fdsys s' = fdsys s" "locks s' = locks s" by simp_all
  then have flags_ok: "?goal (map_option (\<lambda>(ret, s'). (Returns ret, user_flock P, s')) (Some (ret, s')))"
    using assms(2) by (simp add: fcntl_ok_def sys_balance_def)
  have setlk: "?goal (map_option (\<lambda>(r, s'). (r, user_flock P, s')) (fcntl_setlk P h w s))" for w
    using fcntl_setlk_ok [OF assms(1,2), where h = h and wait = w] by (auto simp: sys_balance_def split: option.splits)
  have getlk: "?goal (map_option (\<lambda>(ret, m, s'). (Returns ret, m, s')) (fcntl_getlk P h s))"
    using fcntl_getlk_ok [OF assms(1,2), of h] assms(2) by auto
  have same: "?goal (map_option (\<lambda>(ret, s'). (Returns ret, user_flock P, s')) (Some (v, s)))" for v using assms(2) by simp
  note dup = plain [OF fcntl_dup_ok [OF assms(1-4)], of True "arg mod 2 ^ 32"]
  note setfd = plain [OF fcntl_setfd_ok [OF assms(2,5,6)], of arg]
  have branch: "?goal (if b then u else v)" if "b \<Longrightarrow> ?goal u" "\<not> b \<Longrightarrow> ?goal v" for b u v using that by simp
  show ?thesis
    unfolding fcntl_command_def Let_def sf by (intro branch dup setfd setlk getlk same flags_ok)
qed

lemma u32_of_int_found: "- (2 ^ 31) \<le> fd \<Longrightarrow> fd < 2 ^ 31 \<Longrightarrow> u32_of_int fd < 2 ^ 31 \<Longrightarrow> 0 \<le> fd \<and> u32_of_int fd = nat fd"
proof (cases "0 \<le> fd")
  case False
  assume "- (2 ^ 31) \<le> fd" "u32_of_int fd < 2 ^ 31"
  moreover have "fd mod 2 ^ 32 = fd + 2 ^ 32" if "- (2 ^ 31) \<le> fd"
    using that False mod_pos_pos_trivial [of "fd + 2 ^ 32" "2 ^ 32"] by simp
  ultimately show ?thesis using False by (simp add: u32_of_int_def nat_less_iff)
qed (simp add: u32_of_int_def)

lemma libos_syscall_fcntl_ok:
  assumes "fcntl_env_ok P" "fcntl_ok P x s" "fd_size (tbl (fdsys s)) \<le> 2 ^ 31" "- (2 ^ 31) \<le> fd" "fd < 2 ^ 31"
  shows "case libos_syscall_fcntl P fd cmd arg s of
      None \<Rightarrow> unwritten (locks s) | Some (r, m, s') \<Rightarrow> fcntl_ok P x s'"
proof (cases "u_get_fd_handle (u32_of_int fd) (tbl (fdsys s))")
  case None
  then show ?thesis using assms(2) by (simp add: libos_syscall_fcntl_def)
next
  case (Some hf)
  then obtain h fl where get: "u_get_fd_handle (u32_of_int fd) (tbl (fdsys s)) = Some (h, fl)" by (cases hf) simp
  define f where "f = (fdsys s)\<lparr>hs := get_handle h (hs (fdsys s))\<rparr>"
  define host where "host = (hdl_type (hs f) h = TYPE_HOST)"
  define s1 where "s1 = with_fdsys (if host then request (FCNTL_REQ fd cmd arg) f else f) s"
  have fs: "fetched s (u32_of_int fd) h s1" by (simp add: fetched_def s1_def f_def)
  note k = fetched_ok [OF assms(2) get fs]
  have "map_ok (tbl (fdsys s))" using assms(2) by (simp add: fcntl_ok_def tables_ok_def)
  then have "u32_of_int fd < fd_size (tbl (fdsys s))" using k fs by (simp add: fetched_def map_ok_def)
  then have fd: "0 \<le> fd" "u32_of_int fd = nat fd" using u32_of_int_found [OF assms(4,5)] assms(3) by simp_all
  have eq: "libos_syscall_fcntl P fd cmd arg s =
      (if cmd = F_DUPFD_CLOEXEC
       then map_option (\<lambda>(ret, s'). (Returns ret, user_flock P, s')) (fcntl_dupfd_cloexec P host h fl arg s1)
       else (case fcntl_command P fd h fl cmd arg s1 of
               None \<Rightarrow> None
             | Some (Waits e, m, s2) \<Rightarrow> Some (Waits e, m, s2)
             | Some (Returns ret, m, s2) \<Rightarrow> Some (Returns ret, m, put_back h s2)))"
    using get by (simp add: libos_syscall_fcntl_def s1_def host_def f_def)
  show ?thesis
  proof (cases "cmd = F_DUPFD_CLOEXEC")
    case True
    have fl: "fl OR FD_CLOEXEC = FD_CLOEXEC" using k by (auto simp: FD_CLOEXEC_def)
    have "\<exists>ret s'. fcntl_dupfd_cloexec P host h fl arg s1 = Some (ret, s') \<and> fcntl_ok P x s' \<and> sys_balance s' = sys_balance s1"
      unfolding fcntl_dupfd_cloexec_def fl by (rule fcntl_dup_ok [OF assms(1)]) (use k in blast)+
    then obtain ret s' where "fcntl_dupfd_cloexec P host h fl arg s1 = Some (ret, s')" "fcntl_ok P x s'" by blast
    then show ?thesis unfolding eq by (simp add: True)
  next
    case False
    have c: "case fcntl_command P fd h fl cmd arg s1 of
        None \<Rightarrow> unwritten (locks s1) | Some (r, m, s2) \<Rightarrow> fcntl_ok P x s2 \<and> sys_balance s2 = sys_balance s1"
      using fcntl_command_ok [OF assms(1) _ _ _ fd(1), of x s1 h fl cmd arg] k fd(2) by auto
    have l: "locks s1 = locks s" using fs by (simp add: fetched_def)
    show ?thesis
    proof (cases "fcntl_command P fd h fl cmd arg s1")
      case None
      then show ?thesis using c l False unfolding eq by simp
    next
      case (Some out)
      then obtain r m s2 where o: "fcntl_command P fd h fl cmd arg s1 = Some (r, m, s2)" by (cases out) auto
      then have c2: "fcntl_ok P x s2" "sys_balance s2 = sys_balance s1" using c by simp_all
      then have "fcntl_ok P x (put_back h s2)" using put_back_ok [OF c2(1), of h] k by metis
      then show ?thesis using o c2 False unfolding eq by (cases r) simp_all
    qed
  qed
qed

lemma bsd_lock_ok:
  assumes "fcntl_ok P x s" "0 < ref_count (hs (fdsys s)) h"
  shows "lock_ok (bsd_lock h t)"
proof -
  have "issued (g_pid P) (hs (fdsys s)) h" using assms by (simp add: fcntl_ok_def tables_ok_def live_ok_def)
  then show ?thesis by (auto simp: issued_def lock_ok_def assert_owner_def bsd_lock_def)
qed

lemma flock_local_ok:
  assumes "fcntl_ok P x s" "\<And>t. lock_ok (bsd_lock h t)"
  shows "case flock_local P h cmd s of
      None \<Rightarrow> unwritten (locks s) | Some (r, s') \<Rightarrow> fcntl_ok P x s' \<and> sys_balance s' = sys_balance s"
proof (cases "dentry (ops P) h = None \<or> flock_type cmd = None")
  case True
  then show ?thesis using assms(1) by (auto simp: flock_local_def split: option.splits)
next
  case False
  then obtain d t where dt: "dentry (ops P) h = Some d" "flock_type cmd = Some t" by auto
  show ?thesis
    using set_locks_ok [OF assms(1) assms(2) [of t], where d = d and wait = "\<not> has_flag cmd LOCK_NB"] dt
    by (auto simp: flock_local_def sys_balance_def split: option.splits)
qed

lemma libos_syscall_flock_ok:
  assumes "fcntl_ok P x s"
  shows "case libos_syscall_flock P fd cmd s of None \<Rightarrow> unwritten (locks s) | Some (r, s') \<Rightarrow> fcntl_ok P x s'"
proof (cases "has_flag cmd LOCK_MAND \<or> enable_flock P \<noteq> Some True \<or> u_get_fd_handle fd (tbl (fdsys s)) = None")
  case True
  then show ?thesis using assms by (auto simp: libos_syscall_flock_def get_fd_handle_def)
next
  case False
  then obtain h fl where on: "\<not> has_flag cmd LOCK_MAND" "enable_flock P = Some True"
    and get: "u_get_fd_handle fd (tbl (fdsys s)) = Some (h, fl)" by auto
  define w where "w = get_handle h (hs (fdsys s))"
  define f where "f = (fdsys s)\<lparr>hs := w\<rparr>"
  have "fetched s fd h (with_fdsys (request (FLOCK_REQ fd cmd) f) s)" "fetched s fd h (with_fdsys f s)"
    by (simp_all add: fetched_def f_def w_def)
  note k = fetched_ok [OF assms get this(1)] fetched_ok [OF assms get this(2)]
  show ?thesis
  proof (cases "hdl_type w h = TYPE_HOST \<or> hdl_type w h = TYPE_HOST_IDENTITY")
    case True
    then have "libos_syscall_flock P fd cmd s = Some (Returns (host_answer P), put_back h (with_fdsys (request (FLOCK_REQ fd cmd) f) s))"
      using get on by (simp add: libos_syscall_flock_def get_fd_handle_def f_def w_def Let_def)
    moreover have "fcntl_ok P x (put_back h (with_fdsys (request (FLOCK_REQ fd cmd) f) s))" using put_back_ok [of P x _ h] k(1) by blast
    ultimately show ?thesis by simp
  next
    case False
    have "0 < ref_count (hs (fdsys (with_fdsys f s))) h"
      using k(2) slots_nonneg [of "tbl (fdsys (with_fdsys f s))" h] unfolding sys_balance_def balance_def by linarith
    then have ok: "lock_ok (bsd_lock h t)" for t using bsd_lock_ok k(2) by blast
    have loc: "case flock_local P h cmd (with_fdsys f s) of None \<Rightarrow> unwritten (locks (with_fdsys f s))
        | Some (r, s1) \<Rightarrow> fcntl_ok P x s1 \<and> sys_balance s1 = sys_balance (with_fdsys f s)"
      by (rule flock_local_ok [OF conjunct1 [OF k(2)] ok])
    have run: "libos_syscall_flock P fd cmd s = (case flock_local P h cmd (with_fdsys f s) of
        None \<Rightarrow> None | Some (Waits e, s1) \<Rightarrow> Some (Waits e, s1) | Some (Returns ret, s1) \<Rightarrow> Some (Returns ret, put_back h s1))"
      using get on False by (simp add: libos_syscall_flock_def get_fd_handle_def f_def w_def Let_def)
    show ?thesis
    proof (cases "flock_local P h cmd (with_fdsys f s)")
      case None
      then show ?thesis using loc run by simp
    next
      case (Some out)
      then obtain r s1 where o: "flock_local P h cmd (with_fdsys f s) = Some (r, s1)" by (cases out) auto
      then have s1: "fcntl_ok P x s1" "sys_balance s1 = sys_balance (with_fdsys f s)" using loc by simp_all
      then have "fcntl_ok P x (put_back h s1)" using put_back_ok [OF s1(1), of h] k(2) by metis
      then show ?thesis using o s1 run by (cases r) simp_all
    qed
  qed
qed

section \<open>Releasing locks\<close>

lemma release_ok:
  assumes "state_ok x lk" "lock_ok fl"
  shows "case release P d fl lk of
      None \<Rightarrow> unwritten lk
    | Some (ret, lk') \<Rightarrow> state_ok x lk' \<and> (\<forall>d. set (pending lk' d) \<subseteq> set (pending lk d))"
proof (cases d)
  case None
  then show ?thesis using assms(1) by (simp add: release_def)
next
  case (Some e)
  let ?set = "file_lock_set (l_env P) (alloc_lock P) e fl False lk"
  show ?thesis
  proof (cases "leader_vmid (l_env P) = 0")
    case True
    note run = file_lock_set_run [OF assms True, where M = "alloc_lock P" and d = e and wait = False]
    show ?thesis
    proof (cases ?set)
      case None
      then show ?thesis using run Some by (auto simp: release_def unwritten_def)
    next
      case set: (Some out)
      then obtain r lk' where o: "?set = Some (r, lk')" by (cases out) simp
      then obtain ret req where q: "state_ok x lk'" "set_effect (alloc_lock P) e fl False lk ret req lk'" "others_same e lk lk'"
        "r = Returns ret" using run effect_request by (fastforce split: option.splits)
      have "req = None" using effect_request [OF q(2)] by (cases req) auto
      then have "set (pending lk' d) \<subseteq> set (pending lk d)" for d using effect_pending [OF q(2,3)] by auto
      then show ?thesis using o q Some by (simp add: release_def)
    qed
  next
    case False
    then show ?thesis using file_lock_set_forward [OF assms(2) False, of "alloc_lock P" e False lk] assms(1) Some
      by (auto simp: release_def)
  qed
qed

lemma clear_flock_ok:
  assumes "state_ok x lk" "lock_ok (bsd_lock h F_UNLCK)"
  shows "case clear_flock_locks P h lk of
      None \<Rightarrow> unwritten lk
    | Some (ret, lk') \<Rightarrow> state_ok x lk' \<and> (\<forall>d. set (pending lk' d) \<subseteq> set (pending lk d))"
  unfolding clear_flock_locks_def by (rule release_ok [OF assms])

lemma unwritten_mono: "(\<And>d. set (pending lk' d) \<subseteq> set (pending lk d)) \<Longrightarrow> unwritten lk' \<Longrightarrow> unwritten lk"
  unfolding unwritten_def all_notified_def by blast

lemma whole_file_ok: "fcntl_env_ok P \<Longrightarrow> lock_ok (whole_file_unlock (g_pid P))"
  by (simp add: fcntl_env_ok_def lock_ok_def assert_owner_def range_ok_def whole_file_unlock_def)

lemma close_tables:
  assumes "fcntl_ok P x s" "libos_syscall_close comm_ret fd (fdsys s) = (ret, f)"
  shows "fcntl_ok P x (with_fdsys f s)"
proof -
  obtain h m w where d: "detach_fd_handle (u32_of_int fd) (tbl (fdsys s)) (hs (fdsys s)) = (h, m, w)" by (metis prod_cases3)
  have "tables_ok (g_pid P) m (put_detached h w)"
    using detach_put [OF _ d] assms(1) by (simp add: fcntl_ok_def)
  moreover have "tbl f = m \<and> hs f = put_detached h w"
    using assms(2) d by (cases h) (auto simp: libos_syscall_close_def)
  ultimately show ?thesis using assms(1) by (simp add: fcntl_ok_def)
qed

lemma held_positive:
  assumes "fcntl_ok P x s" "u_get_fd_handle fd (tbl (fdsys s)) = Some (h, fl)"
  shows "0 < ref_count (hs (fdsys s)) h"
proof -
  have t: "tables_ok (g_pid P) (tbl (fdsys s)) (hs (fdsys s))" using assms(1) by (simp add: fcntl_ok_def)
  have "fd_view (tbl (fdsys s)) fd = Some (h, fl)" using u_get_fd_handle_view [OF tables_okD(1) [OF t]] assms(2) by simp
  then show ?thesis using view_slots tables_okD(4) [OF t, of h] by fastforce
qed

text \<open>What a close does, with the steps it takes on the locks.\<close>

definition close_locks :: "'d fcntl_env \<Rightarrow> hdl \<Rightarrow> bool \<Rightarrow> 'd fs_locks \<Rightarrow> 'd fs_locks option" where
  "close_locks P h gone lk =
     (case release_posix_locks P h lk of
        None \<Rightarrow> None
      | Some (_, lk1) \<Rightarrow> if gone then map_option snd (clear_flock_locks P h lk1) else Some lk1)"

lemma close_locks_ok:
  assumes "fcntl_env_ok P" "state_ok x lk" "lock_ok (bsd_lock h F_UNLCK)"
  shows "case close_locks P h gone lk of None \<Rightarrow> unwritten lk | Some lk' \<Rightarrow> state_ok x lk'"
proof (cases "release_posix_locks P h lk")
  case None
  then show ?thesis using release_ok [OF assms(2) whole_file_ok [OF assms(1)], where P = P and d = "dentry (ops P) h"]
    by (simp add: close_locks_def release_posix_locks_def)
next
  case (Some out)
  then obtain r1 lk1 where r: "release_posix_locks P h lk = Some (r1, lk1)" by (cases out) simp
  then have lk1: "state_ok x lk1" "\<And>d. set (pending lk1 d) \<subseteq> set (pending lk d)"
    using release_ok [OF assms(2) whole_file_ok [OF assms(1)], where P = P and d = "dentry (ops P) h"]
    by (simp_all add: release_posix_locks_def)
  show ?thesis
    using clear_flock_ok [OF lk1(1) assms(3), where P = P] lk1(1) unwritten_mono [OF lk1(2)] r
    by (auto simp: close_locks_def split: option.splits)
qed

lemma close_run:
  assumes "u_get_fd_handle (u32_of_int fd) (tbl (fdsys s)) = Some (h, fl)"
    "libos_syscall_close (host_answer P) fd (fdsys s) = (ret, f)"
  shows "close_with_locks P fd s =
    map_option (\<lambda>lk. (ret, (with_fdsys f s)\<lparr>locks := lk\<rparr>)) (close_locks P h (ref_count (hs f) h = 0) (locks s))"
  using assms by (auto simp: close_with_locks_def close_locks_def split: option.splits)

lemma close_with_locks_ok:
  assumes "fcntl_env_ok P" "fcntl_ok P x s"
  shows "case close_with_locks P fd s of None \<Rightarrow> unwritten (locks s) | Some (ret, s') \<Rightarrow> fcntl_ok P x s'"
proof -
  obtain ret f where c: "libos_syscall_close (host_answer P) fd (fdsys s) = (ret, f)" by fastforce
  note t = close_tables [OF assms(2) c]
  show ?thesis
  proof (cases "u_get_fd_handle (u32_of_int fd) (tbl (fdsys s))")
    case None
    then show ?thesis using c t by (simp add: close_with_locks_def)
  next
    case (Some hf)
    then obtain h fl where get: "u_get_fd_handle (u32_of_int fd) (tbl (fdsys s)) = Some (h, fl)" by (cases hf) simp
    have st: "state_ok x (locks s)" using assms(2) by (simp add: fcntl_ok_def)
    have "lock_ok (bsd_lock h F_UNLCK)" by (rule bsd_lock_ok [OF assms(2) held_positive [OF assms(2) get]])
    note cl = close_locks_ok [OF assms(1) st this, where gone = "ref_count (hs f) h = 0"]
    show ?thesis
    proof (cases "close_locks P h (ref_count (hs f) h = 0) (locks s)")
      case None
      then show ?thesis using cl close_run [OF get c] by simp
    next
      case (Some lk)
      then have "state_ok x lk" using cl by simp
      then have "fcntl_ok P x ((with_fdsys f s)\<lparr>locks := lk\<rparr>)" using t by (simp add: fcntl_ok_def)
      then show ?thesis using close_run [OF get c] Some by simp
    qed
  qed
qed

lemma fcntl_answer_ok:
  assumes "fcntl_env_ok P" "fcntl_ok P x s" "1 \<le> sys_balance s h" "dentry (ops P) h = Some d"
    "file_lock_set_woken d e w (locks s) = Some (ret, lk)"
  shows "case fcntl_answer P h e w s of None \<Rightarrow> unwritten lk | Some (r, s') \<Rightarrow> r = ret \<and> fcntl_ok P x s'"
proof -
  let ?s = "s\<lparr>locks := lk\<rparr>"
  have "state_ok x (locks s)" using assms(2) by (simp add: fcntl_ok_def)
  then have "fcntl_ok P x ?s" using woken_ok [OF _ assms(5)] assms(2) by (simp add: fcntl_ok_def)
  then have ok: "fcntl_ok P x (put_back h ?s)" using put_back_ok [of P x ?s h] assms(3) by (simp add: sys_balance_def)
  have "0 < ref_count (hs (fdsys s)) h"
    using assms(3) slots_nonneg [of "tbl (fdsys s)" h] unfolding sys_balance_def balance_def by linarith
  note bsd = bsd_lock_ok [OF assms(2) this, of F_UNLCK]
  have l: "locks (put_back h ?s) = lk" "state_ok x lk" using ok by (simp_all add: put_back_def fcntl_ok_def)
  show ?thesis using clear_flock_ok [OF l(2) bsd, where P = P] ok l assms(4,5) unfolding fcntl_answer_def Let_def
    by (auto simp: fcntl_ok_def split: option.splits)
qed

section \<open>Calls on a file\<close>

text \<open>A descriptor \<open>fd\<close> for a handle \<open>h\<close> of the file \<open>d\<close>, in a good state.\<close>

definition on_file :: "'d fcntl_env \<Rightarrow> ('d \<Rightarrow> nat) \<Rightarrow> 'd fcntl_sys \<Rightarrow> int \<Rightarrow> hdl \<Rightarrow> flags \<Rightarrow> 'd \<Rightarrow> bool" where
  "on_file P x s fd h fl d \<longleftrightarrow> fcntl_env_ok P \<and> fcntl_ok P x s \<and> dentry (ops P) h = Some d \<and>
     u_get_fd_handle (u32_of_int fd) (tbl (fdsys s)) = Some (h, fl)"

lemma on_fileD:
  assumes "on_file P x s fd h fl d"
  shows "fcntl_env_ok P" "fcntl_ok P x s" "dentry (ops P) h = Some d" "u_get_fd_handle (u32_of_int fd) (tbl (fdsys s)) = Some (h, fl)"
  using assms by (simp_all add: on_file_def)

lemma fcntl_runs:
  assumes "u_get_fd_handle (u32_of_int fd) (tbl (fdsys s)) = Some (h, fl)" "cmd \<noteq> F_DUPFD_CLOEXEC"
  obtains s1 where "fetched s (u32_of_int fd) h s1"
    "libos_syscall_fcntl P fd cmd arg s =
      (case fcntl_command P fd h fl cmd arg s1 of
         None \<Rightarrow> None
       | Some (Waits e, m, s2) \<Rightarrow> Some (Waits e, m, s2)
       | Some (Returns ret, m, s2) \<Rightarrow> Some (Returns ret, m, put_back h s2))"
proof -
  define f where "f = (fdsys s)\<lparr>hs := get_handle h (hs (fdsys s))\<rparr>"
  let ?s = "with_fdsys (if hdl_type (hs f) h = TYPE_HOST then request (FCNTL_REQ fd cmd arg) f else f) s"
  have "fetched s (u32_of_int fd) h ?s" by (simp add: fetched_def f_def)
  then show thesis using assms that [of ?s] by (simp add: libos_syscall_fcntl_def f_def)
qed

lemma put_back_fetched:
  assumes "fcntl_ok P x s" "u_get_fd_handle fd (tbl (fdsys s)) = Some (h, fl)" "fetched s fd h s1" "fdsys s2 = fdsys s1"
  shows "tbl (fdsys (put_back h s2)) = tbl (fdsys s) \<and> sys_balance (put_back h s2) = sys_balance s"
proof -
  have "put_handle h (get_handle h (hs (fdsys s))) = hs (fdsys s)"
    using held_positive [OF assms(1,2)] by (simp add: put_handle_def get_handle_def Let_def)
  then show ?thesis using assms(3,4) by (simp add: put_back_def fetched_def sys_balance_def)
qed

definition allowed :: "'d fcntl_env \<Rightarrow> hdl \<Rightarrow> flock \<Rightarrow> bool" where
  "allowed P h fl \<longleftrightarrow> (u_type fl = 0 \<longrightarrow> has_flag (acc_mode (ops P) h) MAY_READ) \<and>
     (u_type fl = 1 \<longrightarrow> has_flag (acc_mode (ops P) h) MAY_WRITE)"

text \<open>\<^verbatim>\<open>F_SETLK\<close> is \<open>fcntl_setlk\<close> on the locks, with the handle fetched and put back around it.\<close>

lemma setlk_run:
  assumes "on_file P x s fd h fl d" "\<And>s1. locks s1 = locks s \<Longrightarrow> fcntl_setlk P h False s1 = Some (Returns ret, s1\<lparr>locks := lk\<rparr>)"
  shows "\<exists>s'. libos_syscall_fcntl P fd F_SETLK arg s = Some (Returns ret, user_flock P, s') \<and> locks s' = lk \<and>
    tbl (fdsys s') = tbl (fdsys s) \<and> sys_balance s' = sys_balance s"
proof -
  note of = on_fileD [OF assms(1)]
  obtain s1 where s1: "fetched s (u32_of_int fd) h s1" and eq: "libos_syscall_fcntl P fd F_SETLK arg s =
      (case fcntl_command P fd h fl F_SETLK arg s1 of
         None \<Rightarrow> None
       | Some (Waits e, m, s2) \<Rightarrow> Some (Waits e, m, s2)
       | Some (Returns ret, m, s2) \<Rightarrow> Some (Returns ret, m, put_back h s2))"
    using fcntl_runs [OF of(4), of F_SETLK P arg] by (auto simp: cmd_defs)
  have "fcntl_setlk P h False s1 = Some (Returns ret, s1\<lparr>locks := lk\<rparr>)" using assms(2) s1 by (simp add: fetched_def)
  then have "libos_syscall_fcntl P fd F_SETLK arg s = Some (Returns ret, user_flock P, put_back h (s1\<lparr>locks := lk\<rparr>))"
    unfolding eq by (simp add: fcntl_command_def cmd_defs)
  moreover have "locks (put_back h (s1\<lparr>locks := lk\<rparr>)) = lk" by (simp add: put_back_def)
  moreover note put_back_fetched [OF of(2,4) s1, of "s1\<lparr>locks := lk\<rparr>"]
  ultimately show ?thesis by auto
qed

lemma setlk_refused:
  assumes "on_file P x s fd h fl d" "\<And>s1. fcntl_setlk P h False s1 = Some (Returns ret, s1)"
  shows "\<exists>s'. libos_syscall_fcntl P fd F_SETLK arg s = Some (Returns ret, user_flock P, s') \<and> locks s' = locks s \<and>
    tbl (fdsys s') = tbl (fdsys s) \<and> sys_balance s' = sys_balance s"
  by (rule setlk_run [OF assms(1)]) (metis assms(2) fcntl_sys.surjective fcntl_sys.update_convs(2))

lemma setlk_set:
  assumes "on_file P x s fd h fl d" "leader_vmid (l_env P) = 0" "all_notified (pending (locks s) d)"
    "user_flock P = Some ufl" "allowed P h ufl" "flock_to_file_lock (ops P) (g_pid P) ufl h = Some (Inr l)"
  shows "\<exists>ret s'. libos_syscall_fcntl P fd F_SETLK arg s = Some (Returns ret, user_flock P, s') \<and>
    set_spec (alloc_lock P) l (locks s) d ret (locks s') \<and> tbl (fdsys s') = tbl (fdsys s) \<and> sys_balance s' = sys_balance s"
proof -
  note of = on_fileD [OF assms(1)]
  have l: "lock_ok l" "family l = FILE_LOCK_POSIX" using flock_to_file_lock_ok [OF assms(6) fcntl_env_okD(1) [OF of(1)]] by auto
  have st: "state_ok x (locks s)" using of(2) by (simp add: fcntl_ok_def)
  obtain ret lk where r: "file_lock_set (l_env P) (alloc_lock P) d l False (locks s) = Some (Returns ret, lk)"
    "set_effect (alloc_lock P) d l False (locks s) ret None lk"
    using file_lock_set_now [OF st l(1) assms(2,3)] by blast
  have "fcntl_setlk P h False s1 = Some (Returns ret, s1\<lparr>locks := lk\<rparr>)" if "locks s1 = locks s" for s1
    using that assms(4-6) of(3) r(1) by (auto simp: fcntl_setlk_def allowed_def)
  from setlk_run [OF assms(1) this, of arg] show ?thesis using effect_spec [OF st l r(2)] by blast
qed

lemma getlk_now:
  assumes "on_file P x s fd h fl d" "user_flock P = Some ufl" "user_writable P"
    "flock_to_file_lock (ops P) (g_pid P) ufl h = Some (Inr l)" "ltype l \<noteq> F_UNLCK" "leader_vmid (l_env P) = 0"
  shows "\<exists>s'. libos_syscall_fcntl P fd F_GETLK arg s =
      Some (Returns 0, Some (getlk_answer (case dents (locks s) d of None \<Rightarrow> (stale_lock P)\<lparr>ltype := F_UNLCK\<rparr>
             | Some f \<Rightarrow> (case file_lock_find_conflict (file_locks f) l of
                 None \<Rightarrow> (stale_lock P)\<lparr>ltype := F_UNLCK\<rparr> | Some conflict \<Rightarrow> conflict)) ufl), s') \<and>
    locks s' = locks s \<and> tbl (fdsys s') = tbl (fdsys s) \<and> sys_balance s' = sys_balance s"
proof -
  note of = on_fileD [OF assms(1)]
  have l: "assert_owner l" using flock_to_file_lock_ok [OF assms(4) fcntl_env_okD(1) [OF of(1)]] by (simp add: lock_ok_def)
  have st: "state_ok x (locks s)" using of(2) by (simp add: fcntl_ok_def)
  note get = file_lock_get_result [OF st l assms(5,6), of "alloc_lock P" d "stale_lock P"]
  obtain s1 where s1: "fetched s (u32_of_int fd) h s1" and eq: "libos_syscall_fcntl P fd F_GETLK arg s =
      (case fcntl_command P fd h fl F_GETLK arg s1 of
         None \<Rightarrow> None
       | Some (Waits e, m, s2) \<Rightarrow> Some (Waits e, m, s2)
       | Some (Returns ret, m, s2) \<Rightarrow> Some (Returns ret, m, put_back h s2))"
    using fcntl_runs [OF of(4), of F_GETLK P arg] by (auto simp: cmd_defs)
  have lk: "locks s1 = locks s" using s1 by (simp add: fetched_def)
  let ?out = "case dents (locks s) d of None \<Rightarrow> (stale_lock P)\<lparr>ltype := F_UNLCK\<rparr>
             | Some f \<Rightarrow> (case file_lock_find_conflict (file_locks f) l of
                 None \<Rightarrow> (stale_lock P)\<lparr>ltype := F_UNLCK\<rparr> | Some conflict \<Rightarrow> conflict)"
  have "fcntl_getlk P h s1 = Some (0, Some (getlk_answer ?out ufl), s1\<lparr>locks := locks s\<rparr>)"
    using assms(2-5) of(3) get lk by (simp add: fcntl_getlk_def)
  then have "libos_syscall_fcntl P fd F_GETLK arg s = Some (Returns 0, Some (getlk_answer ?out ufl), put_back h (s1\<lparr>locks := locks s\<rparr>))"
    unfolding eq by (simp add: fcntl_command_def cmd_defs)
  moreover have "locks (put_back h (s1\<lparr>locks := locks s\<rparr>)) = locks s" by (simp add: put_back_def)
  moreover note put_back_fetched [OF of(2,4) s1, of "s1\<lparr>locks := locks s\<rparr>"]
  ultimately show ?thesis by auto
qed

section \<open>Properties\<close>

text \<open>C21: \<^verbatim>\<open>fcntl\<close>, \<^verbatim>\<open>flock\<close> and \<^verbatim>\<open>close\<close>, whatever the descriptor, command and argument, return or wait and keep the
  invariants of the descriptor table, of the references to handles and of the file locks together; they end in a
  failing assertion only in a state in which some request for a file lock lacks its waiter. Assumed are a process number
  other than 0, a limit and a table of at most 2 to the 31 descriptors, a file system for every handle with a dentry,
  and positions and sizes of files that fit their type, sizes not negative.\<close>

theorem fcntl_calls_keep:
  assumes "fcntl_env_ok P" "fcntl_ok P x s" "fd_size (tbl (fdsys s)) \<le> 2 ^ 31" "- (2 ^ 31) \<le> fd" "fd < 2 ^ 31"
  shows "(case libos_syscall_fcntl P fd cmd arg s of None \<Rightarrow> unwritten (locks s) | Some (r, m, s') \<Rightarrow> fcntl_ok P x s') \<and>
    (case libos_syscall_flock P ufd fcmd s of None \<Rightarrow> unwritten (locks s) | Some (r, s') \<Rightarrow> fcntl_ok P x s') \<and>
    (case close_with_locks P fd s of None \<Rightarrow> unwritten (locks s) | Some (r, s') \<Rightarrow> fcntl_ok P x s')"
  by (intro conjI libos_syscall_fcntl_ok [OF assms] libos_syscall_flock_ok [OF assms(2)] close_with_locks_ok [OF assms(1,2)])

text \<open>The bytes a \<^verbatim>\<open>struct flock\<close> asks for.\<close>

definition asked :: "int \<Rightarrow> flock \<Rightarrow> nat \<Rightarrow> bool" where
  "asked origin fl b \<longleftrightarrow> int b \<in> denoted origin (u_start fl) (u_len fl) \<and> b < 2 ^ 64"

lemma asked_range:
  assumes "lock_range origin (u_start fl) (u_len fl) = Inr (b0, e0)"
  shows "asked origin fl b \<longleftrightarrow> b0 \<le> b \<and> b \<le> e0"
proof -
  have "int b \<in> denoted origin (u_start fl) (u_len fl) \<inter> {..< 2 ^ 64} \<longleftrightarrow> int b \<in> {int b0 .. int e0}"
    using lock_range_bytes [OF assms] by blast
  moreover have "int b < 2 ^ 64 \<longleftrightarrow> b < 2 ^ 64" by (metis of_nat_less_iff of_nat_numeral of_nat_power)
  ultimately show ?thesis unfolding asked_def by auto
qed

lemma give_asked:
  assumes "lock_range origin (u_start ufl) (u_len ufl) = Inr (b0, e0)"
    "l = \<lparr>family = FILE_LOCK_POSIX, ltype = t, l_start = b0, l_end = e0, l_pid = pid, handle_id = 0\<rparr>"
  shows "byte_conflict l V \<longleftrightarrow> (\<exists>q b u. q \<noteq> pid \<and> asked origin ufl b \<and> V q b u \<and> (u = F_WRLCK \<or> t = F_WRLCK))"
    "give_bytes l V = (\<lambda>p b u. if p = pid \<and> asked origin ufl b then u = t \<and> u \<noteq> F_UNLCK else V p b u)"
proof -
  note a = asked_range [OF assms(1)]
  show "byte_conflict l V \<longleftrightarrow> (\<exists>q b u. q \<noteq> pid \<and> asked origin ufl b \<and> V q b u \<and> (u = F_WRLCK \<or> t = F_WRLCK))"
    by (simp add: assms(2) byte_conflict_def a)
  have "in_range l p b \<longleftrightarrow> p = pid \<and> asked origin ufl b" for p b by (simp add: assms(2) in_range_def a)
  then show "give_bytes l V = (\<lambda>p b u. if p = pid \<and> asked origin ufl b then u = t \<and> u \<noteq> F_UNLCK else V p b u)"
    by (intro ext) (simp add: assms(2) give_bytes_def)
qed

text \<open>C13: \<^verbatim>\<open>F_SETLK\<close> on a descriptor of a file, in the process that leads the lock table, when every pending request of
  the file has its waiter. It fails with EFAULT without a readable \<^verbatim>\<open>struct flock\<close>; with EINVAL for a lock the access mode
  of the file does not allow and for an unknown type; with the error of finding the origin, EINVAL for an unknown
  \<^verbatim>\<open>l_whence\<close>; with EINVAL or EOVERFLOW for a range with bytes below 0 or beyond 64 bits. Otherwise the bytes are those that
  \<^verbatim>\<open>l_whence\<close>, \<^verbatim>\<open>l_start\<close> and \<^verbatim>\<open>l_len\<close> denote, for either sign of the length: the call fails with EPERM on a file with BSD
  locks, with EAGAIN exactly when another process holds one of the bytes incompatibly, and else gives exactly these
  bytes to the process, and then to pending requests what they ask for, as far as they are granted now; or memory
  runs out. A failed call changes no lock, and no call changes descriptors or references.\<close>

theorem fcntl_setlk_correct:
  assumes "on_file P x s fd h fl d" "leader_vmid (l_env P) = 0" "all_notified (pending (locks s) d)"
  shows "\<exists>ret s'. libos_syscall_fcntl P fd F_SETLK arg s = Some (Returns ret, user_flock P, s') \<and>
    tbl (fdsys s') = tbl (fdsys s) \<and> sys_balance s' = sys_balance s \<and>
    (case user_flock P of None \<Rightarrow> ret = - EFAULT \<and> locks s' = locks s | Some ufl \<Rightarrow>
     (case lock_type_of (u_type ufl) of None \<Rightarrow> ret = - EINVAL \<and> locks s' = locks s | Some t \<Rightarrow>
      if \<not> allowed P h ufl then ret = - EINVAL \<and> locks s' = locks s else
      (case lock_origin (ops P) ufl h of None \<Rightarrow> False | Some (Inl e) \<Rightarrow> ret = e \<and> locks s' = locks s | Some (Inr origin) \<Rightarrow>
       (case range_error origin (u_start ufl) (u_len ufl) of Some e \<Rightarrow> ret = e \<and> locks s' = locks s | None \<Rightarrow>
        (let V = lock_view (locks s) d; V' = lock_view (locks s') d in
         if t \<noteq> F_UNLCK \<and> (\<exists>f. dents (locks s) d = Some f \<and> flock_used f) then ret = - EPERM \<and> V' = V
         else if t \<noteq> F_UNLCK \<and> (\<exists>q b u. q \<noteq> g_pid P \<and> asked origin ufl b \<and> V q b u \<and> (u = F_WRLCK \<or> t = F_WRLCK))
         then ret = - EAGAIN \<and> V' = V
         else ret = 0 \<and> (\<exists>later. from_pending later (pending (locks s) d) \<and>
                  V' = fold give_bytes later (\<lambda>p b u. if p = g_pid P \<and> asked origin ufl b then u = t \<and> u \<noteq> F_UNLCK else V p b u)) \<or>
              ret = - ENOMEM \<and> (\<exists>n. \<not> alloc_lock P n) \<and> V' = V)))))"
proof (cases "user_flock P")
  case None
  then have "fcntl_setlk P h False s1 = Some (Returns (- EFAULT), s1)" for s1 by (simp add: fcntl_setlk_def)
  from setlk_refused [OF assms(1) this, of arg] show ?thesis using None by auto
next
  case ufl: (Some ufl)
  note of = on_fileD [OF assms(1)]
  show ?thesis
  proof (cases "lock_type_of (u_type ufl) = None \<or> \<not> allowed P h ufl")
    case True
    then have "fcntl_setlk P h False s1 = Some (Returns (- EINVAL), s1)" for s1
      using ufl of(3) by (auto simp: fcntl_setlk_def allowed_def flock_to_file_lock_def)
    from setlk_refused [OF assms(1) this, of arg] show ?thesis using ufl True by (auto split: option.splits)
  next
    case False
    then obtain t where t: "lock_type_of (u_type ufl) = Some t" "allowed P h ufl" by auto
    note fs = fcntl_env_okD(3) [OF of(1,3)]
    obtain o1 where o1: "lock_origin (ops P) ufl h = Some o1" using lock_origin_total [OF of(1), of ufl h] by auto
    show ?thesis
    proof (cases o1)
      case (Inl e)
      then have "fcntl_setlk P h False s1 = Some (Returns e, s1)" for s1
        using ufl of(3) t o1 fs by (auto simp: fcntl_setlk_def allowed_def flock_to_file_lock_def)
      from setlk_refused [OF assms(1) this, of arg] show ?thesis using ufl t o1 Inl by auto
    next
      case (Inr origin)
      have "0 \<le> origin" "origin < 2 ^ 64" using lock_origin_range [OF of(1)] o1 Inr by fastforce+
      note err = lock_range_error [OF this, of "u_start ufl" "u_len ufl"]
      show ?thesis
      proof (cases "lock_range origin (u_start ufl) (u_len ufl)")
        case e: (Inl e)
        then have "fcntl_setlk P h False s1 = Some (Returns e, s1)" for s1
          using ufl of(3) t o1 fs Inr by (auto simp: fcntl_setlk_def allowed_def flock_to_file_lock_def)
        from setlk_refused [OF assms(1) this, of arg] show ?thesis using ufl t o1 Inr e err by auto
      next
        case be: (Inr be)
        obtain b0 e0 where r: "lock_range origin (u_start ufl) (u_len ufl) = Inr (b0, e0)" using be by (cases be) simp
        then have noerr: "range_error origin (u_start ufl) (u_len ufl) = None" using err by (cases "range_error origin (u_start ufl) (u_len ufl)") auto
        let ?l = "\<lparr>family = FILE_LOCK_POSIX, ltype = t, l_start = b0, l_end = e0, l_pid = g_pid P, handle_id = 0\<rparr>"
        have l: "flock_to_file_lock (ops P) (g_pid P) ufl h = Some (Inr ?l)"
          using t(1) o1 Inr r fs by (simp add: flock_to_file_lock_def)
        note give = give_asked [OF r, of ?l t "g_pid P", OF refl]
        have mx: "mixed_families ?l (locks s) d \<longleftrightarrow> t \<noteq> F_UNLCK \<and> (\<exists>f. dents (locks s) d = Some f \<and> flock_used f)"
          by (simp add: mixed_families_def)
        obtain ret s' where r: "libos_syscall_fcntl P fd F_SETLK arg s = Some (Returns ret, user_flock P, s')"
          "set_spec (alloc_lock P) ?l (locks s) d ret (locks s')" "tbl (fdsys s') = tbl (fdsys s)" "sys_balance s' = sys_balance s"
          using setlk_set [OF assms ufl t(2) l, of arg] by blast
        note spec = r(2) [unfolded set_spec_def mx give libos_file_lock.select_convs]
        have na: "\<not> \<not> allowed P h ufl" using t(2) by simp
        show ?thesis unfolding ufl option.case t(1) o1 Inr sum.case noerr Let_def if_not_P [OF na]
          using r(1,3,4) ufl by (intro exI [of _ ret] exI [of _ s'] conjI spec) simp_all
      qed
    qed
  qed
qed

text \<open>Offset and length of a lock as \<^verbatim>\<open>struct flock\<close> reports them.\<close>

definition fits_off :: "libos_file_lock \<Rightarrow> bool" where
  "fits_off c \<longleftrightarrow> l_start c < 2 ^ 63 \<and> (l_end c + 1 - l_start c < 2 ^ 63 \<or> l_end c = FS_LOCK_EOF)"

text \<open>C32: what \<^verbatim>\<open>F_GETLK\<close> reports can be read back. In the process that leads the lock table, for a valid request on a
  file without BSD locks and a writable \<^verbatim>\<open>struct flock\<close>, the call answers with a lock that blocks the request exactly when
  some byte is held incompatibly by another process. The answer names the process and the type of that lock, and, taken
  as a request of that process, converts to the range and type of the lock if its offset and length fit \<^verbatim>\<open>off_t\<close>.
  Without such a lock only the type of the structure changes, to unlocked. No lock changes.\<close>

theorem fcntl_getlk_roundtrip:
  assumes "on_file P x s fd h fl d" "user_flock P = Some ufl" "user_writable P"
    "flock_to_file_lock (ops P) (g_pid P) ufl h = Some (Inr l)" "ltype l \<noteq> F_UNLCK" "leader_vmid (l_env P) = 0"
    "\<And>f. dents (locks s) d = Some f \<Longrightarrow> \<not> flock_used f"
  shows "\<exists>ans s'. libos_syscall_fcntl P fd F_GETLK arg s = Some (Returns 0, Some ans, s') \<and> locks s' = locks s \<and>
    (if byte_conflict l (lock_view (locks s) d)
     then \<exists>c. c \<in> set (file_table (locks s) d) \<and> posix_conflict l c \<and> u_pid ans = int (l_pid c) \<and>
            lock_type_of (u_type ans) = Some (ltype c) \<and>
            (fits_off c \<longrightarrow> flock_to_file_lock (ops P) (l_pid c) ans h = Some (Inr (c\<lparr>handle_id := 0\<rparr>)))
     else ans = ufl\<lparr>u_type := 2\<rparr>)"
proof -
  note of = on_fileD [OF assms(1)]
  have l: "lock_ok l" "family l = FILE_LOCK_POSIX" using flock_to_file_lock_ok [OF assms(4) fcntl_env_okD(1) [OF of(1)]] by auto
  then have range: "range_ok l" by (simp add: lock_ok_def)
  let ?ls = "file_table (locks s) d"
  have posix: "posix_ok ?ls" by (rule posix_table [of x]) (use of(2) assms(7) in \<open>auto simp: fcntl_ok_def\<close>)
  note conflict = conflict_bytes [OF posix range l(2), folded lock_view_def]
  note now = getlk_now [OF assms(1-6), of arg]
  show ?thesis
  proof (cases "file_lock_find_conflict ?ls l")
    case None
    then have "\<not> byte_conflict l (lock_view (locks s) d)" using conflict by (simp add: find_conflict_None)
    moreover have "dents (locks s) d = Some f \<Longrightarrow> file_lock_find_conflict (file_locks f) l = None" for f using None by simp
    ultimately show ?thesis using now by (auto simp: getlk_answer_def lock_type_number_def split: option.splits)
  next
    case (Some c)
    then have c: "c \<in> set ?ls" "posix_conflict l c" using l(2) by (auto simp: file_lock_find_conflict_def find_Some_iff)
    then obtain f where f: "dents (locks s) d = Some f" by (cases "dents (locks s) d") simp_all
    have pc: "posix_lock c" using posix c(1) by (auto simp: posix_ok_def list_all_iff)
    then have "fits_off c \<longrightarrow> flock_to_file_lock (ops P) (l_pid c) (getlk_answer c ufl) h = Some (Inr (c\<lparr>handle_id := 0\<rparr>))"
      using getlk_answer_range [of c "ops P" h ufl] fcntl_env_okD(3) [OF of(1,3)] by (auto simp: posix_lock_def fits_off_def)
    moreover have "u_pid (getlk_answer c ufl) = int (l_pid c)" using pc by (simp add: getlk_answer_def posix_lock_def)
    moreover have "lock_type_of (u_type (getlk_answer c ufl)) = Some (ltype c)"
      by (cases "ltype c") (simp_all add: getlk_answer_def lock_type_of_def lock_type_number_def Let_def)
    moreover have "byte_conflict l (lock_view (locks s) d)" using conflict Some find_conflict_Some [of ?ls l] by simp
    ultimately show ?thesis using now f Some c by auto
  qed
qed

text \<open>An unlock by a handle leaves the POSIX view of the file as it is: POSIX requests stay blocked, and BSD requests
  do not touch it.\<close>

lemma byte_conflict_list: "family fl = FILE_LOCK_POSIX \<Longrightarrow> byte_conflict fl (pholds ls) \<Longrightarrow> \<exists>c\<in>set ls. lock_conflict fl c"
  unfolding byte_conflict_def pholds_def lock_conflict_def posix_conflict_def write_involved_def
  by (auto simp: covers_def)

lemma fold_give_foreign: "(\<And>fl. fl \<in> set later \<Longrightarrow> family fl \<noteq> FILE_LOCK_POSIX) \<Longrightarrow> fold give_bytes later V = V"
  by (induction later arbitrary: V) (auto simp: give_bytes_def fun_eq_iff)

lemma state_modes:
  assumes "state_ok x s"
  obtains (posix) "posix_ok (file_table s d)" "\<And>req. req \<in> set (pending s d) \<Longrightarrow> request_ok FILE_LOCK_POSIX (req_lock req)"
      "all_blocked (file_table s d) (pending s d)"
    | (flock) "\<And>req. req \<in> set (pending s d) \<Longrightarrow> family (req_lock req) = FILE_LOCK_FLOCK" "lock_view s d = (\<lambda>p b t. False)"
proof (cases "dents s d")
  case None
  then show thesis by (intro posix) (simp_all add: all_blocked_def)
next
  case (Some f)
  then have "dfl_ok f" using assms by (auto simp: state_ok_def)
  then obtain fam where m: "mode_ok fam f" by (auto simp: dfl_ok_def)
  show thesis
  proof (cases fam)
    case FILE_LOCK_POSIX
    then show thesis using m Some by (intro posix) (simp_all add: mode_ok_def)
  next
    case FILE_LOCK_FLOCK
    then show thesis using m Some flock_holds [of "file_locks f"]
      by (intro flock) (simp_all add: mode_ok_def request_ok_def lock_view_def)
  qed (use m in \<open>simp add: mode_ok_def\<close>)
qed

lemma bsd_unlock_view:
  assumes "state_ok x s" "done_now M d (bsd_lock h F_UNLCK) s ret s'"
  shows "lock_view s' d = lock_view s d"
  using assms(1)
proof (cases rule: state_modes [of x s d])
  case flock
  have "fold give_bytes later (give_bytes (bsd_lock h F_UNLCK) (lock_view s d)) = lock_view s d"
    if "from_pending later (pending s d)" for later
  proof -
    have "set later \<subseteq> req_lock ` set (pending s d)" using that set_mset_mono unfolding from_pending_def by fastforce
    then have "family fl \<noteq> FILE_LOCK_POSIX" if "fl \<in> set later" for fl using that flock(1) by fastforce
    then show ?thesis using fold_give_foreign [of later] by (simp add: give_bytes_def bsd_lock_def fun_eq_iff)
  qed
  then show ?thesis using done_now_view [OF assms(2)] by auto
next
  case posix
  show ?thesis
  proof (cases "ret = 0")
    case True
    then obtain ls gs where p: "set_result M (bsd_lock h F_UNLCK) 0 (file_table s d) ls" "served (pending s d) gs (pending s' d)"
      "answered M ls gs (file_table s' d)" using assms(2) by (auto simp: done_now_def processed_def)
    have ls: "pholds ls = lock_view s d"
      using p(1) by (simp add: set_result_def lock_view_def give_bytes_def bsd_lock_def fun_eq_iff)
    have "gs = []"
    proof (cases gs)
      case (Cons g rest)
      then have "fst g \<in> set (pending s d)" using p(2) unfolding served_def by (metis list.set_intros(1) list.simps(9) set_mset_mset union_iff)
      then have r: "request_ok FILE_LOCK_POSIX (req_lock (fst g))" "\<exists>c\<in>set (file_table s d). lock_conflict (req_lock (fst g)) c"
        using posix(2,3) find_conflict_Some by (auto simp: all_blocked_def)
      then have "byte_conflict (req_lock (fst g)) (pholds ls)"
        using conflict_bytes [OF posix(1), of "req_lock (fst g)"] ls by (simp add: request_ok_def lock_ok_def lock_view_def)
      then have "\<exists>c\<in>set ls. lock_conflict (req_lock (fst g)) c" using byte_conflict_list r(1) by (auto simp: request_ok_def)
      then show ?thesis using p(3) Cons by (cases g) (auto simp: answered_simps)
    qed simp
    then show ?thesis using p(3) ls by (simp add: answered_simps lock_view_def)
  next
    case False
    then show ?thesis using assms(2) by (auto simp: done_now_def same_file_def lock_view_def)
  qed
qed

lemma lock_view_bound:
  assumes "state_ok x s" "lock_view s d p b u"
  shows "b \<le> FS_LOCK_EOF"
  using assms(1)
proof (cases rule: state_modes [of x s d])
  case posix
  then have "holds (file_table s d) p b u" using assms(2) posix_holds by (simp add: lock_view_def)
  then show ?thesis using posix(1) by (auto simp: holds_def covers_def posix_ok_def list_all_iff posix_lock_def range_ok_def)
next
  case flock
  then show ?thesis using assms(2) by simp
qed

text \<open>What a release does in the leader, when every request of the file has its waiter.\<close>

lemma release_now:
  assumes "state_ok x lk" "lock_ok fl" "ltype fl = F_UNLCK" "leader_vmid (l_env P) = 0" "all_notified (pending lk d)"
  obtains ret lk' where "release P (Some d) fl lk = Some (ret, lk')" "state_ok x lk'" "done_now (alloc_lock P) d fl lk ret lk'"
    "set (pending lk' d) \<subseteq> set (pending lk d)"
proof -
  obtain ret lk' where r: "file_lock_set (l_env P) (alloc_lock P) d fl False lk = Some (Returns ret, lk')" "state_ok x lk'"
    "set_effect (alloc_lock P) d fl False lk ret None lk'" "others_same d lk lk'"
    using file_lock_set_now [OF assms(1,2,4,5)] by blast
  have dn: "done_now (alloc_lock P) d fl lk ret lk'"
    using r(3) assms(3) by (simp add: set_effect_def mixed_families_def blocked_def)
  then have "ret < 0 \<or> ret = 0" by (auto simp: done_now_def)
  moreover have "set (pending lk' d) \<subseteq> set (pending lk d)" using effect_pending [OF r(3,4)] by auto
  ultimately show thesis using that [of ret lk'] r(1,2) dn by (auto simp: release_def)
qed

lemma close_locks_view:
  assumes "fcntl_env_ok P" "state_ok x lk" "lock_ok (bsd_lock h F_UNLCK)" "dentry (ops P) h = Some d" "leader_vmid (l_env P) = 0"
    "all_notified (pending lk d)"
  shows "\<exists>lk'. close_locks P h gone lk = Some lk' \<and>
    ((\<exists>later. from_pending later (pending lk d) \<and>
        lock_view lk' d = fold give_bytes later (\<lambda>p b u. p \<noteq> g_pid P \<and> lock_view lk d p b u)) \<or>
     (\<exists>n. \<not> alloc_lock P n) \<and> lock_view lk' d = lock_view lk d)"
proof -
  let ?l = "whole_file_unlock (g_pid P)"
  have u: "ltype ?l = F_UNLCK" "ltype (bsd_lock h F_UNLCK) = F_UNLCK" by (simp_all add: whole_file_unlock_def bsd_lock_def)
  obtain r1 lk1 where r1: "release P (Some d) ?l lk = Some (r1, lk1)" "state_ok x lk1" "done_now (alloc_lock P) d ?l lk r1 lk1"
    "set (pending lk1 d) \<subseteq> set (pending lk d)" by (rule release_now [OF assms(2) whole_file_ok [OF assms(1)] u(1) assms(5,6)])
  have "all_notified (pending lk1 d)" using r1(4) assms(6) by (auto simp: all_notified_def)
  from release_now [OF r1(2) assms(3) u(2) assms(5) this] obtain r2 lk2 where
    r2: "release P (Some d) (bsd_lock h F_UNLCK) lk1 = Some (r2, lk2)" "done_now (alloc_lock P) d (bsd_lock h F_UNLCK) lk1 r2 lk2" by blast
  have "\<exists>lk'. close_locks P h gone lk = Some lk' \<and> (lk' = lk1 \<or> lk' = lk2)"
    using r1(1) r2(1) assms(4) by (simp add: close_locks_def release_posix_locks_def clear_flock_locks_def release_def [of P None])
  moreover have "lock_view lk2 d = lock_view lk1 d" using bsd_unlock_view [OF r1(2) r2(2)] .
  moreover have "give_bytes ?l (lock_view lk d) = (\<lambda>p b u. p \<noteq> g_pid P \<and> lock_view lk d p b u)"
    using lock_view_bound [OF assms(2), of d]
    by (auto simp: fun_eq_iff give_bytes_def in_range_def whole_file_unlock_def)
  ultimately show ?thesis using done_now_view [OF r1(3)] by auto
qed

lemma closed_view:
  assumes "fcntl_ok P x s" "libos_syscall_close comm_ret fd (fdsys s) = (ret, f)"
  shows "fd_view (tbl f) (u32_of_int fd) = None"
proof -
  obtain h m w where d: "detach_fd_handle (u32_of_int fd) (tbl (fdsys s)) (hs (fdsys s)) = (h, m, w)" by (metis prod_cases3)
  have "fd_view m = (fd_view (tbl (fdsys s)))(u32_of_int fd := None)"
    using detach_held [OF _ d, of "g_pid P"] assms(1) unfolding fcntl_ok_def by blast
  moreover have "tbl f = m" using assms(2) d by (cases h) (auto simp: libos_syscall_close_def)
  ultimately show ?thesis by simp
qed

text \<open>C31: closing a descriptor of a file, in the process that leads the lock table and when every pending request of the
  file has its waiter, removes every POSIX lock of the process on that file, also when other descriptors of it stay
  open, and no lock of another process; what the removal makes possible is then given to pending requests of the file.
  The removal allocates memory: without it the descriptor is closed all the same and all locks stay.\<close>

theorem close_releases_locks:
  assumes "on_file P x s fd h fl d" "leader_vmid (l_env P) = 0" "all_notified (pending (locks s) d)"
  shows "\<exists>ret s'. close_with_locks P fd s = Some (ret, s') \<and> fd_view (tbl (fdsys s')) (u32_of_int fd) = None \<and>
    ((\<exists>later. from_pending later (pending (locks s) d) \<and>
        lock_view (locks s') d = fold give_bytes later (\<lambda>p b u. p \<noteq> g_pid P \<and> lock_view (locks s) d p b u)) \<or>
     (\<exists>n. \<not> alloc_lock P n) \<and> lock_view (locks s') d = lock_view (locks s) d)"
proof -
  note of = on_fileD [OF assms(1)]
  obtain ret f where c: "libos_syscall_close (host_answer P) fd (fdsys s) = (ret, f)" by fastforce
  have st: "state_ok x (locks s)" using of(2) by (simp add: fcntl_ok_def)
  have "lock_ok (bsd_lock h F_UNLCK)" by (rule bsd_lock_ok [OF of(2) held_positive [OF of(2,4)]])
  from close_locks_view [OF of(1) st this of(3) assms(2,3), of "ref_count (hs f) h = 0"]
  show ?thesis using close_run [OF of(4) c] closed_view [OF of(2) c] by auto
qed

text \<open>A process \<open>n\<close> with one descriptor, 0, of the file 7, on which process 1 has locked the bytes 0 to 99 for writing.\<close>

definition demo_P :: "nat \<Rightarrow> nat fcntl_env" where
  "demo_P n = \<lparr>l_env = demo_env 0, ops = \<lparr>dentry = (\<lambda>h. Some 7), acc_mode = (\<lambda>h. 6), has_fs = (\<lambda>h. True),
     seek_cur = (\<lambda>h. None), hstat = (\<lambda>h. None), setflags = (\<lambda>h. None), created_by_process = (\<lambda>h. True)\<rparr>,
     alloc_fd = (\<lambda>k. True), alloc_lock = (\<lambda>k. True), g_pid = n, nofile = 900, host_answer = 0,
     user_flock = Some \<lparr>u_type = 0, u_whence = 0, u_start = 60, u_len = - 10, u_pid = 0\<rparr>, user_writable = True,
     stale_lock = demo_lock F_RDLCK 0 0 0, enable_flock = Some True\<rparr>"

definition demo_hdl :: "nat \<Rightarrow> hdl" where "demo_hdl n = n * 2 ^ 32 + 1"

definition demo_fs :: "nat \<Rightarrow> nat fcntl_sys" where
  "demo_fs n = \<lparr>fdsys = \<lparr>tbl = \<lparr>fd_size = 1, fd_top = 0, map_ref = 1,
       fds = [Some \<lparr>vfd = 0, fd_flags = 0, fd_hdl = Some (demo_hdl n)\<rparr>]\<rparr>,
     hs = \<lparr>ref_count = (\<lambda>h. if h = demo_hdl n then 1 else 0), hdl_type = (\<lambda>h. TYPE_OTHER), local_id_counter = 1,
       destroyed = [], posix_cleared = [], mallocs = 0\<rparr>,
     requests = [], dentries_put = [], lock_held = False\<rparr>, locks = demo_locks, status = (\<lambda>h. 0)\<rparr>"

lemma demo_P_ok: "0 < n \<Longrightarrow> fcntl_env_ok (demo_P n)"
  by (simp add: fcntl_env_ok_def demo_P_def)

lemma demo_fs_ok: "fcntl_ok (demo_P n) (\<lambda>d. 0) (demo_fs n)"
proof -
  have m: "map_ok (tbl (fdsys (demo_fs n)))"
    by (simp add: demo_fs_def map_ok_def top_ok_def slot_ok_def HANDLE_ALLOCATED_def FD_NULL_def)
  moreover have "live_ok n (hs (fdsys (demo_fs n)))"
    by (simp add: demo_fs_def live_ok_def issued_def demo_hdl_def)
  moreover have "0 \<le> balance (tbl (fdsys (demo_fs n))) (hs (fdsys (demo_fs n))) h" for h
    by (simp add: demo_fs_def balance_def slots_def refers_def slot_view_def HANDLE_ALLOCATED_def FD_NULL_def)
  ultimately show ?thesis using demo_locks_state by (simp add: fcntl_ok_def tables_ok_def demo_P_def demo_fs_def)
qed

lemma demo_on_file: "0 < n \<Longrightarrow> on_file (demo_P n) (\<lambda>d. 0) (demo_fs n) 0 (demo_hdl n) 0 7"
  using demo_P_ok demo_fs_ok
  by (simp add: on_file_def demo_P_def demo_fs_def u_get_fd_handle_def HANDLE_ALLOCATED_def FD_NULL_def u32_of_int_def)

lemma demo_leader: "leader_vmid (l_env (demo_P n)) = 0" "all_notified (pending (locks (demo_fs n)) 7)" "pending (locks (demo_fs n)) 7 = []"
  by (simp_all add: demo_P_def demo_env_def all_notified_def pending_def demo_fs_def demo_locks_def)

lemma demo_range: "lock_range 0 60 (- 10) = Inr (50, 59)"
  by (simp add: lock_range_def add_overflow_def)

lemma demo_view: "lock_view (locks (demo_fs n)) 7 1 50 F_WRLCK"
  by (simp add: lock_view_def pholds_def file_table_def demo_fs_def demo_locks_def demo_lock_def covers_def)

theorem fcntl_calls_keep_witness:
  "\<exists>e m s'. libos_syscall_fcntl (demo_P 2) 0 F_SETLKW 0 (demo_fs 2) = Some (Waits e, m, s') \<and> fcntl_ok (demo_P 2) (\<lambda>d. 0) s'"
proof -
  have "libos_syscall_fcntl (demo_P 2) 0 F_SETLKW 0 (demo_fs 2) \<noteq> None \<and>
      (\<forall>r m s'. libos_syscall_fcntl (demo_P 2) 0 F_SETLKW 0 (demo_fs 2) = Some (r, m, s') \<longrightarrow> r = Waits 0)"
    by (simp add: libos_syscall_fcntl_def fcntl_command_def cmd_defs fcntl_setlk_def demo_P_def flock_to_file_lock_def lock_type_of_def
        lock_origin_def SEEK_SET_def demo_range MAY_READ_def demo_fs_def u_get_fd_handle_def HANDLE_ALLOCATED_def FD_NULL_def
        u32_of_int_def demo_run)
  then obtain m s' where r: "libos_syscall_fcntl (demo_P 2) 0 F_SETLKW 0 (demo_fs 2) = Some (Waits 0, m, s')" by auto
  have "fd_size (tbl (fdsys (demo_fs 2))) \<le> 2 ^ 31" by (simp add: demo_fs_def)
  from fcntl_calls_keep [OF demo_P_ok demo_fs_ok this, of 0 F_SETLKW 0] show ?thesis using r by auto
qed

theorem fcntl_setlk_correct_witness:
  "\<exists>s'. libos_syscall_fcntl (demo_P 2) 0 F_SETLK 0 (demo_fs 2) =
      Some (Returns (- EAGAIN), Some \<lparr>u_type = 0, u_whence = 0, u_start = 60, u_len = - 10, u_pid = 0\<rparr>, s')"
proof -
  let ?u = "\<lparr>u_type = 0, u_whence = 0, u_start = 60, u_len = - 10, u_pid = 0\<rparr>"
  have r: "lock_range 0 (u_start ?u) (u_len ?u) = Inr (50, 59)" using demo_range by simp
  have h: "user_flock (demo_P 2) = Some ?u" "\<not> \<not> allowed (demo_P 2) (demo_hdl 2) ?u" "lock_type_of (u_type ?u) = Some F_RDLCK"
    "lock_origin (ops (demo_P 2)) ?u (demo_hdl 2) = Some (Inr 0)"
    by (simp_all add: demo_P_def allowed_def MAY_READ_def lock_type_of_def lock_origin_def SEEK_SET_def)
  have e: "range_error 0 (u_start ?u) (u_len ?u) = None"
    using lock_range_error [of 0 "u_start ?u" "u_len ?u"] r by (cases "range_error 0 (u_start ?u) (u_len ?u)") auto
  have "asked 0 ?u 50" using asked_range [OF r] by simp
  then have c: "\<exists>q b u. q \<noteq> g_pid (demo_P 2) \<and> asked 0 ?u b \<and> lock_view (locks (demo_fs 2)) 7 q b u \<and>
      (u = F_WRLCK \<or> F_RDLCK = F_WRLCK)"
    using demo_view by (intro exI [of _ 1] exI [of _ 50] exI [of _ F_WRLCK]) (simp add: demo_P_def)
  have cc: "F_RDLCK \<noteq> F_UNLCK \<and> (\<exists>q b u. q \<noteq> g_pid (demo_P 2) \<and> asked 0 ?u b \<and> lock_view (locks (demo_fs 2)) 7 q b u \<and>
      (u = F_WRLCK \<or> F_RDLCK = F_WRLCK))"
    by (rule conjI [OF _ c]) simp
  have nf: "\<not> (F_RDLCK \<noteq> F_UNLCK \<and> (\<exists>f. dents (locks (demo_fs 2)) 7 = Some f \<and> flock_used f))"
    by (simp add: demo_fs_def demo_locks_def)
  show ?thesis
    using fcntl_setlk_correct [OF demo_on_file demo_leader(1,2), of 2 0]
    unfolding h(1) option.case h(3) if_not_P [OF h(2)] h(4) sum.case e Let_def if_not_P [OF nf] if_P [OF cc] by auto
qed

theorem fcntl_getlk_roundtrip_witness:
  "\<exists>ans s'. libos_syscall_fcntl (demo_P 2) 0 F_GETLK 0 (demo_fs 2) = Some (Returns 0, Some ans, s') \<and> u_pid ans = 1 \<and>
     flock_to_file_lock (ops (demo_P 2)) 1 ans (demo_hdl 2) = Some (Inr (demo_lock F_WRLCK 0 99 1))"
proof -
  let ?u = "\<lparr>u_type = 0, u_whence = 0, u_start = 60, u_len = - 10, u_pid = 0\<rparr>" and ?l = "demo_lock F_RDLCK 50 59 2"
  have h: "user_flock (demo_P 2) = Some ?u" "user_writable (demo_P 2)"
    "flock_to_file_lock (ops (demo_P 2)) (g_pid (demo_P 2)) ?u (demo_hdl 2) = Some (Inr ?l)" "ltype ?l \<noteq> F_UNLCK"
    using demo_range
    by (simp_all add: demo_P_def flock_to_file_lock_def lock_type_of_def lock_origin_def SEEK_SET_def demo_lock_def)
  have f: "\<not> flock_used f" if "dents (locks (demo_fs 2)) 7 = Some f" for f using that by (auto simp: demo_fs_def demo_locks_def)
  have t: "file_table (locks (demo_fs 2)) 7 = [demo_lock F_WRLCK 0 99 1]" by (simp add: demo_fs_def demo_locks_def file_table_def)
  have bc: "byte_conflict ?l (lock_view (locks (demo_fs 2)) 7)"
    using demo_view unfolding byte_conflict_def by (intro exI [of _ 1] exI [of _ 50] exI [of _ F_WRLCK]) (simp add: demo_lock_def)
  have fits: "fits_off (demo_lock F_WRLCK 0 99 1)" by (simp add: fits_off_def demo_lock_def)
  show ?thesis
    using fcntl_getlk_roundtrip [OF demo_on_file h demo_leader(1) f, of 0] fits unfolding if_P [OF bc] t
    by (auto simp: demo_lock_def)
qed

theorem close_releases_locks_witness:
  "\<exists>ret s'. close_with_locks (demo_P 1) 0 (demo_fs 1) = Some (ret, s') \<and> \<not> lock_view (locks s') 7 1 50 F_WRLCK \<and>
     lock_view (locks (demo_fs 1)) 7 1 50 F_WRLCK"
proof -
  have p: "g_pid (demo_P 1) = 1" "alloc_lock (demo_P 1) n" for n by (simp_all add: demo_P_def)
  show ?thesis using close_releases_locks [OF demo_on_file [of 1] demo_leader(1,2)] p demo_view [of 1] demo_leader(3) [of 1] by auto
qed

section \<open>Duplication with close-on-exec\<close>

text \<open>
  \<^verbatim>\<open>F_DUPFD_CLOEXEC\<close> differs from the \<^verbatim>\<open>man fcntl\<close> the source refers to: it takes only the very descriptor given as
  argument, and refuses one in use where \<^verbatim>\<open>F_DUPFD\<close> goes on to the next free one; and it returns without putting the
  handle back, so that each call, failing or not, leaves one more reference that nothing releases.
\<close>

theorem dupfd_cloexec_leaks:
  assumes "fcntl_env_ok P" "fcntl_ok P x s" "u_get_fd_handle (u32_of_int fd) (tbl (fdsys s)) = Some (h, fl)"
  shows "\<exists>ret s'. libos_syscall_fcntl P fd F_DUPFD_CLOEXEC arg s = Some (Returns ret, user_flock P, s') \<and>
    sys_balance s' h = sys_balance s h + 1"
proof -
  define f where "f = (fdsys s)\<lparr>hs := get_handle h (hs (fdsys s))\<rparr>"
  define host where "host = (hdl_type (hs f) h = TYPE_HOST)"
  define s1 where "s1 = with_fdsys (if host then request (FCNTL_REQ fd F_DUPFD_CLOEXEC arg) f else f) s"
  have "fetched s (u32_of_int fd) h s1" by (simp add: fetched_def s1_def f_def)
  note k = fetched_ok [OF assms(2,3) this]
  have fl: "fl OR FD_CLOEXEC = FD_CLOEXEC" using k by (auto simp: FD_CLOEXEC_def)
  have "\<exists>ret s'. fcntl_dupfd_cloexec P host h fl arg s1 = Some (ret, s') \<and> fcntl_ok P x s' \<and> sys_balance s' = sys_balance s1"
    unfolding fcntl_dupfd_cloexec_def fl by (rule fcntl_dup_ok [OF assms(1)]) (use k in blast)+
  then obtain ret s' where d: "fcntl_dupfd_cloexec P host h fl arg s1 = Some (ret, s')" "sys_balance s' = sys_balance s1" by blast
  then have "sys_balance s' h = sys_balance s h + 1" using k by simp
  moreover have "libos_syscall_fcntl P fd F_DUPFD_CLOEXEC arg s =
      map_option (\<lambda>(ret, s'). (Returns ret, user_flock P, s')) (fcntl_dupfd_cloexec P host h fl arg s1)"
    using assms(3) by (simp add: libos_syscall_fcntl_def s1_def host_def f_def)
  ultimately show ?thesis using d(1) by simp
qed

end
