(* ===== verification/Rw_Lock.thy ===== *)
theory Rw_Lock
  imports Prelude
begin

text \<open>
  The readers-writer lock of \<^verbatim>\<open>libos/src/libos_rwlock.c\<close> and \<^verbatim>\<open>libos/include/libos_rwlock.h\<close>, which guards
  the descriptor table and the process ids. Each atomic access of the source is one step of a thread; where a
  thread stands between two of them is its program counter. The two PAL events are their flags, the mutex
  \<^verbatim>\<open>writers_lock\<close> is its owner, and a wait that fails is repeated by the source and so is no step. Signed
  64-bit arithmetic is written out with \<open>s64\<close>. A thread that holds the lock does not take it again.
\<close>

section \<open>Data\<close>

definition s64 :: "int \<Rightarrow> int" where
  "s64 i = (i + 2 ^ 63) mod 2 ^ 64 - 2 ^ 63"

record libos_rwlock =
  state :: int
  departing_readers :: int
  writer_wait :: bool
  readers_wait :: bool
  waiting_readers :: nat
  writers_lock :: "tid option"

definition WRITER_WEIGHT :: int where "WRITER_WEIGHT = 2 ^ 60"

text \<open>
  Where a thread stands: outside the lock, in the slow path of \<^verbatim>\<open>rwlock_read_lock\<close> (\<open>R_wait\<close>, \<open>R_woken\<close>,
  \<open>R_signal\<close>), with the lock for reading (\<open>R_hold\<close>), in the slow path of \<^verbatim>\<open>rwlock_read_unlock\<close> (\<open>R_depart\<close>,
  \<open>R_last\<close>), in \<^verbatim>\<open>rwlock_write_lock\<close> (\<open>W_lock\<close> to \<open>W_wait\<close>), with the lock for writing (\<open>W_hold\<close>), and in
  \<^verbatim>\<open>rwlock_write_unlock\<close> (\<open>W_store\<close> to \<open>W_release\<close>). A number is the value of the local variable \<^verbatim>\<open>state\<close>.
\<close>

datatype rw_pc = Idle
  | R_wait | R_woken | R_signal | R_hold | R_depart | R_last
  | W_lock | W_sub | W_add int | W_wait | W_hold
  | W_store int | W_set | W_drain | W_clear | W_release

text \<open>A step blocks, fails an assertion, or moves on.\<close>

datatype rw_out = Blocks | Fails | Goes rw_pc libos_rwlock

section \<open>Creation and destruction\<close>

datatype rw_object = Readers_wait | Writer_wait | Writers_lock

text \<open>The results of the two \<^verbatim>\<open>PalEventCreate\<close> and of \<^verbatim>\<open>create_lock\<close> are arguments; the result has the objects left
  alive.\<close>

definition rwlock_create :: "int \<Rightarrow> int \<Rightarrow> bool \<Rightarrow> libos_rwlock \<Rightarrow> bool \<times> rw_object list \<times> libos_rwlock" where
  "rwlock_create readers_event writer_event lock_ok l =
     (let l = l\<lparr>state := 0, departing_readers := 0\<rparr>
      in if readers_event < 0 then (False, [], l)
         else let live = [Readers_wait]; l = l\<lparr>readers_wait := False\<rparr>
         in if writer_event < 0 then (False, remove1 Readers_wait live, l)
            else let live = Writer_wait # live; l = l\<lparr>writer_wait := False, waiting_readers := 0\<rparr>
            in if \<not> lock_ok then (False, remove1 Writer_wait (remove1 Readers_wait live), l)
               else (True, Writers_lock # live, l\<lparr>writers_lock := None\<rparr>))"

definition rwlock_destroy :: "libos_rwlock \<Rightarrow> rw_object list \<Rightarrow> rw_object list option" where
  "rwlock_destroy l live =
     (if state l \<noteq> 0 \<or> departing_readers l \<noteq> 0 \<or> waiting_readers l \<noteq> 0 then None
      else Some (remove1 Writers_lock (remove1 Writer_wait (remove1 Readers_wait live))))"

section \<open>Reading\<close>

definition rwlock_read_lock :: "libos_rwlock \<Rightarrow> rw_out" where
  "rwlock_read_lock l =
     (let old = state l in Goes (if old < 0 then R_wait else R_hold) (l\<lparr>state := s64 (old + 1)\<rparr>))"

fun rwlock_read_lock_slow_path :: "rw_pc \<Rightarrow> libos_rwlock \<Rightarrow> rw_out" where
  "rwlock_read_lock_slow_path R_wait l = (if readers_wait l then Goes R_woken l else Blocks)"
| "rwlock_read_lock_slow_path R_woken l =
     (let n = u64 (waiting_readers l + (2 ^ 64 - 1))
      in Goes (if n = 0 then R_signal else R_hold) (l\<lparr>waiting_readers := n\<rparr>))"
| "rwlock_read_lock_slow_path R_signal l = Goes R_hold (l\<lparr>writer_wait := True\<rparr>)"
| "rwlock_read_lock_slow_path p l = Blocks"

definition rwlock_read_unlock :: "libos_rwlock \<Rightarrow> rw_out" where
  "rwlock_read_unlock l =
     (let new = s64 (state l - 1) in Goes (if new < 0 then R_depart else Idle) (l\<lparr>state := new\<rparr>))"

fun rwlock_read_unlock_slow_path :: "rw_pc \<Rightarrow> libos_rwlock \<Rightarrow> rw_out" where
  "rwlock_read_unlock_slow_path R_depart l =
     (let departing = s64 (departing_readers l - 1)
      in Goes (if departing = 0 then R_last else Idle) (l\<lparr>departing_readers := departing\<rparr>))"
| "rwlock_read_unlock_slow_path R_last l = Goes Idle (l\<lparr>writer_wait := True\<rparr>)"
| "rwlock_read_unlock_slow_path p l = Blocks"

section \<open>Writing\<close>

text \<open>\<^verbatim>\<open>writer_wait\<close> clears itself when a wait takes it.\<close>

fun rwlock_write_lock :: "tid \<Rightarrow> rw_pc \<Rightarrow> libos_rwlock \<Rightarrow> rw_out" where
  "rwlock_write_lock t W_lock l =
     (if writers_lock l = None then Goes W_sub (l\<lparr>writers_lock := Some t\<rparr>) else Blocks)"
| "rwlock_write_lock t W_sub l =
     (let old = state l in Goes (if old > 0 then W_add old else W_hold) (l\<lparr>state := s64 (old - WRITER_WEIGHT)\<rparr>))"
| "rwlock_write_lock t (W_add n) l =
     (let departing = s64 (departing_readers l + n); l = l\<lparr>departing_readers := departing\<rparr>
      in if departing \<noteq> 0 then (if departing > 0 then Goes W_wait l else Fails) else Goes W_hold l)"
| "rwlock_write_lock t W_wait l = (if writer_wait l then Goes W_hold (l\<lparr>writer_wait := False\<rparr>) else Blocks)"
| "rwlock_write_lock t p l = Blocks"

fun rwlock_write_unlock :: "rw_pc \<Rightarrow> libos_rwlock \<Rightarrow> rw_out" where
  "rwlock_write_unlock W_hold l =
     (let new = s64 (state l + WRITER_WEIGHT); l = l\<lparr>state := new\<rparr>
      in if new < 0 then Fails else if new \<noteq> 0 then Goes (W_store new) l else Goes W_release l)"
| "rwlock_write_unlock (W_store n) l = Goes W_set (l\<lparr>waiting_readers := nat (n mod 2 ^ 64)\<rparr>)"
| "rwlock_write_unlock W_set l = Goes W_drain (l\<lparr>readers_wait := True\<rparr>)"
| "rwlock_write_unlock W_drain l = (if writer_wait l then Goes W_clear (l\<lparr>writer_wait := False\<rparr>) else Blocks)"
| "rwlock_write_unlock W_clear l = Goes W_release (l\<lparr>readers_wait := False\<rparr>)"
| "rwlock_write_unlock W_release l = Goes Idle (l\<lparr>writers_lock := None\<rparr>)"
| "rwlock_write_unlock p l = Blocks"

definition rwlock_is_read_locked :: "libos_rwlock \<Rightarrow> bool" where
  "rwlock_is_read_locked l \<longleftrightarrow> state l \<noteq> 0"

definition rwlock_is_write_locked :: "libos_rwlock \<Rightarrow> bool" where
  "rwlock_is_write_locked l \<longleftrightarrow> writers_lock l \<noteq> None \<and> state l < 0"

section \<open>Threads\<close>

text \<open>The next step of a thread; an idle thread calls \<^verbatim>\<open>rwlock_write_lock\<close> if \<open>w\<close> is set, and \<^verbatim>\<open>rwlock_read_lock\<close>
  otherwise.\<close>

fun advance :: "bool \<Rightarrow> tid \<Rightarrow> rw_pc \<Rightarrow> libos_rwlock \<Rightarrow> rw_out" where
  "advance w t Idle l = (if w then Goes W_lock l else rwlock_read_lock l)"
| "advance w t R_hold l = rwlock_read_unlock l"
| "advance w t R_wait l = rwlock_read_lock_slow_path R_wait l"
| "advance w t R_woken l = rwlock_read_lock_slow_path R_woken l"
| "advance w t R_signal l = rwlock_read_lock_slow_path R_signal l"
| "advance w t R_depart l = rwlock_read_unlock_slow_path R_depart l"
| "advance w t R_last l = rwlock_read_unlock_slow_path R_last l"
| "advance w t W_lock l = rwlock_write_lock t W_lock l"
| "advance w t W_sub l = rwlock_write_lock t W_sub l"
| "advance w t (W_add n) l = rwlock_write_lock t (W_add n) l"
| "advance w t W_wait l = rwlock_write_lock t W_wait l"
| "advance w t p l = rwlock_write_unlock p l"

record rw_sys =
  rwlock :: libos_rwlock
  pcs :: "tid \<Rightarrow> rw_pc"

inductive rw_step :: "rw_sys \<Rightarrow> rw_sys \<Rightarrow> bool" where
  thread_moves: "advance w t (pcs s t) (rwlock s) = Goes p l \<Longrightarrow>
    rw_step s (s\<lparr>rwlock := l, pcs := (pcs s)(t := p)\<rparr>)"

definition rw_init :: rw_sys where
  "rw_init = \<lparr>rwlock = \<lparr>state = 0, departing_readers = 0, writer_wait = False, readers_wait = False,
     waiting_readers = 0, writers_lock = None\<rparr>, pcs = (\<lambda>t. Idle)\<rparr>"

inductive rw_reach :: "rw_sys \<Rightarrow> bool" where
  rw_reach_init: "rw_reach rw_init"
| rw_reach_step: "rw_reach s \<Longrightarrow> rw_step s s' \<Longrightarrow> rw_reach s'"

fun busy :: "rw_pc \<Rightarrow> bool" where
  "busy Idle = False"
| "busy R_hold = False"
| "busy W_hold = False"
| "busy p = True"

section \<open>The invariant\<close>

lemma s64_id [simp]: "- (2 ^ 63) \<le> i \<Longrightarrow> i < 2 ^ 63 \<Longrightarrow> s64 i = i"
  by (simp add: s64_def)

fun inside :: "rw_pc \<Rightarrow> bool" where
  "inside Idle = False"
| "inside R_wait = False"
| "inside R_woken = False"
| "inside R_signal = False"
| "inside R_hold = False"
| "inside R_depart = False"
| "inside R_last = False"
| "inside W_lock = False"
| "inside p = True"

definition readers :: "rw_pc list" where
  "readers = [R_wait, R_woken, R_signal, R_hold, R_depart, R_last]"

text \<open>
  What holds of the lock depends on where the owner of \<^verbatim>\<open>writers_lock\<close> stands; \<open>c\<close> is the number of threads at
  each place. A writer that waits for departing readers waits for as many as still hold the lock or are about to
  count themselves out, and the last of them has its signal still to give, or has given it. The same holds of a
  writer that waits for the readers it has woken.
\<close>

definition calm :: "libos_rwlock \<Rightarrow> (rw_pc \<Rightarrow> nat) \<Rightarrow> bool" where
  "calm l c \<longleftrightarrow> c R_woken = 0 \<and> c R_signal = 0 \<and> waiting_readers l = 0 \<and> \<not> readers_wait l"

definition undisturbed :: "libos_rwlock \<Rightarrow> (rw_pc \<Rightarrow> nat) \<Rightarrow> bool" where
  "undisturbed l c \<longleftrightarrow> c R_depart = 0 \<and> c R_last = 0 \<and> departing_readers l = 0"

definition one_signal :: "int \<Rightarrow> nat \<Rightarrow> bool \<Rightarrow> bool" where
  "one_signal open signallers given \<longleftrightarrow>
     (if open = 0 then signallers = (if given then 0 else 1) else signallers = 0 \<and> \<not> given)"

fun phase_ok :: "rw_pc \<Rightarrow> libos_rwlock \<Rightarrow> (rw_pc \<Rightarrow> nat) \<Rightarrow> bool" where
  "phase_ok (W_add n) l c = (calm l c \<and> \<not> writer_wait l \<and> c R_last = 0 \<and> 0 < n \<and> n \<le> 2 ^ 32 \<and>
     departing_readers l \<le> 0 \<and> departing_readers l + n = int (c R_hold + c R_depart) \<and>
     state l = int (c R_hold + c R_wait) - WRITER_WEIGHT)"
| "phase_ok W_wait l c = (calm l c \<and> departing_readers l = int (c R_hold + c R_depart) \<and>
     one_signal (departing_readers l) (c R_last) (writer_wait l) \<and>
     state l = int (c R_hold + c R_wait) - WRITER_WEIGHT)"
| "phase_ok W_hold l c = (calm l c \<and> undisturbed l c \<and> \<not> writer_wait l \<and> c R_hold = 0 \<and>
     state l = int (c R_wait) - WRITER_WEIGHT)"
| "phase_ok (W_store n) l c = (calm l c \<and> undisturbed l c \<and> \<not> writer_wait l \<and> 0 < n \<and> n = int (c R_wait) \<and>
     state l = int (c R_hold + c R_wait))"
| "phase_ok W_set l c = (undisturbed l c \<and> \<not> writer_wait l \<and> \<not> readers_wait l \<and> c R_woken = 0 \<and> c R_signal = 0 \<and>
     0 < waiting_readers l \<and> waiting_readers l = c R_wait \<and> state l = int (c R_hold + c R_wait))"
| "phase_ok W_drain l c = (undisturbed l c \<and> readers_wait l \<and> waiting_readers l = c R_wait + c R_woken \<and>
     one_signal (int (waiting_readers l)) (c R_signal) (writer_wait l) \<and>
     state l = int (c R_hold + c R_wait + c R_woken + c R_signal))"
| "phase_ok W_clear l c = (undisturbed l c \<and> \<not> writer_wait l \<and> readers_wait l \<and> c R_wait = 0 \<and> c R_woken = 0 \<and>
     c R_signal = 0 \<and> waiting_readers l = 0 \<and> state l = int (c R_hold))"
| "phase_ok p l c = (calm l c \<and> undisturbed l c \<and> \<not> writer_wait l \<and> c R_wait = 0 \<and> state l = int (c R_hold))"

lemmas phase_defs = calm_def undisturbed_def one_signal_def WRITER_WEIGHT_def

definition threads_at :: "(tid \<Rightarrow> rw_pc) \<Rightarrow> rw_pc \<Rightarrow> nat" where
  "threads_at p a = card {t. p t = a}"

definition phase :: "libos_rwlock \<Rightarrow> (tid \<Rightarrow> rw_pc) \<Rightarrow> rw_pc" where
  "phase l p = (case writers_lock l of None \<Rightarrow> Idle | Some t \<Rightarrow> p t)"

definition rw_ok :: "rw_sys \<Rightarrow> bool" where
  "rw_ok s \<longleftrightarrow> (\<forall>t. inside (pcs s t) \<longleftrightarrow> writers_lock (rwlock s) = Some t) \<and>
     phase_ok (phase (rwlock s) (pcs s)) (rwlock s) (threads_at (pcs s))"

lemma phase_ok_cong: "(\<And>a. a \<in> set readers \<Longrightarrow> c a = c' a) \<Longrightarrow> phase_ok p l c = phase_ok p l c'"
  by (cases p) (simp_all add: readers_def phase_defs)

lemma threads_at_upd:
  assumes "p t \<noteq> b"
  shows "threads_at (p(t := b)) = (threads_at p)(p t := threads_at p (p t) - 1, b := threads_at p b + 1)"
proof
  fix a
  show "threads_at (p(t := b)) a = ((threads_at p)(p t := threads_at p (p t) - 1, b := threads_at p b + 1)) a"
    using card_fun_upd [of "\<lambda>x. x = a" p t b] assms unfolding threads_at_def
    by (cases "a = b"; cases "a = p t") simp_all
qed

lemma threads_at_pos: "p t = a \<Longrightarrow> 0 < threads_at p a"
  by (auto simp: threads_at_def card_gt_0_iff)

lemma threads_at_total: "sum_list (map (threads_at p) readers) \<le> 2 ^ 32"
proof -
  have "sum_list (map (threads_at p) readers) = (\<Sum>a\<in>set readers. card {t. p t = a})"
    by (simp add: readers_def threads_at_def)
  also have "\<dots> = card (\<Union>a\<in>set readers. {t. p t = a})"
    by (rule card_UN_disjoint [symmetric]) auto
  also have "\<dots> \<le> card (UNIV :: tid set)" by (rule card_mono) auto
  finally show ?thesis by (simp add: card_word)
qed

text \<open>A move of a reader keeps what holds of the lock in every phase of the writer.\<close>

lemmas reader_simps = readers_def rwlock_read_lock_def rwlock_read_unlock_def phase_defs Let_def

definition shift :: "rw_pc \<Rightarrow> rw_pc \<Rightarrow> (rw_pc \<Rightarrow> nat) \<Rightarrow> rw_pc \<Rightarrow> nat" where
  "shift a b c = c(a := c a - 1, b := c b + 1)"

definition keeps :: "rw_pc \<Rightarrow> rw_out \<Rightarrow> rw_pc \<Rightarrow> (rw_pc \<Rightarrow> nat) \<Rightarrow> bool" where
  "keeps p out a c \<longleftrightarrow> (case out of Goes b l \<Rightarrow> phase_ok p l (shift a b c) | Fails \<Rightarrow> False | Blocks \<Rightarrow> True)"

lemma u64_pred: "0 < n \<Longrightarrow> n \<le> 4294967296 \<Longrightarrow> u64 (n + 18446744073709551615) = n - 1"
proof -
  assume "0 < n" "n \<le> 4294967296"
  then obtain m where "n = Suc m" "m < 2 ^ 64" by (cases n) simp_all
  then show ?thesis by (simp add: u64_def mod_add_self2)
qed

lemma reader_keeps:
  assumes "phase_ok p l c" "sum_list (map c readers) \<le> 2 ^ 32" "0 < c a" "a = Idle \<or> a \<in> set readers"
  shows "keeps p (advance False t a l) a c"
proof -
  consider "a = Idle" | "a = R_wait" | "a = R_woken" | "a = R_signal" | "a = R_hold" | "a = R_depart" | "a = R_last"
    using assms(4) unfolding readers_def by auto
  then show ?thesis
  proof cases
    case 3
    then have "0 < waiting_readers l \<and> waiting_readers l \<le> 2 ^ 32" using assms(1-3) by (cases p) (auto simp: reader_simps)
    then show ?thesis using assms(1-3) 3 by (cases p) (auto simp: reader_simps u64_pred shift_def keeps_def)
  qed (use assms(1-3) in \<open>cases p; auto simp: reader_simps shift_def keeps_def split: if_splits\<close>)+
qed

lemma writer_keeps:
  assumes "phase_ok p l c" "sum_list (map c readers) \<le> 2 ^ 32" "inside p"
  shows "case advance w t p l of Goes q l' \<Rightarrow> phase_ok q l' c | Fails \<Rightarrow> False | Blocks \<Rightarrow> True"
  using assms by (cases p) (auto simp: reader_simps split: if_splits)

lemma writer_owner:
  assumes "inside p" "advance w t p l = Goes q l'"
  shows "(if q = Idle then writers_lock l' = None else inside q \<and> writers_lock l' = writers_lock l) \<and> q \<notin> set readers"
  using assms by (cases p) (auto simp: reader_simps split: if_splits)

lemma reader_owner:
  assumes "a = Idle \<or> a \<in> set readers" "advance False t a l = Goes b l'"
  shows "\<not> inside a \<and> \<not> inside b \<and> a \<noteq> b \<and> writers_lock l' = writers_lock l"
  using assms by (cases a) (auto simp: reader_simps split: if_splits)

lemma threads_at_other:
  assumes "p t \<notin> set readers" "q \<notin> set readers"
  shows "phase_ok ph l (threads_at (p(t := q))) = phase_ok ph l (threads_at p)"
proof (cases "p t = q")
  case True
  then show ?thesis by (simp add: fun_upd_idem)
next
  case False
  show ?thesis by (rule phase_ok_cong) (use assms in \<open>auto simp: threads_at_upd [of p t q, OF False]\<close>)
qed

lemma advance_kind:
  assumes "advance w t a l = Goes b l'"
  obtains "inside a" | "a = W_lock" "b = W_sub" "writers_lock l = None" "l' = l\<lparr>writers_lock := Some t\<rparr>"
    | "a = Idle" "b = W_lock" "l' = l" | "a = Idle \<or> a \<in> set readers" "advance False t a l = Goes b l'"
proof (cases a)
  case Idle
  then show thesis using assms that(3,4) by (cases w) simp_all
next
  case W_lock
  then show thesis using assms that(2) by (cases "writers_lock l") simp_all
qed (use assms that(1,4) in \<open>simp_all add: readers_def\<close>)

lemma rw_okI:
  assumes "\<And>u. inside (p u) \<longleftrightarrow> writers_lock l = Some u" "phase l p = q" "phase_ok q l (threads_at p)"
  shows "rw_ok (s\<lparr>rwlock := l, pcs := p\<rparr>)"
  using assms by (simp add: rw_ok_def)

lemma rw_step_ok:
  assumes "rw_ok s" "rw_step s s'"
  shows "rw_ok s'"
  using assms(2)
proof cases
  case (thread_moves w t b l')
  let ?l = "rwlock s" and ?p = "pcs s"
  have own: "inside (?p u) \<longleftrightarrow> writers_lock ?l = Some u" for u using assms(1) by (simp add: rw_ok_def)
  have ph: "phase_ok (phase ?l ?p) ?l (threads_at ?p)" using assms(1) by (simp add: rw_ok_def)
  note total = threads_at_total [of ?p]
  have "rw_ok (s\<lparr>rwlock := l', pcs := ?p(t := b)\<rparr>)" using thread_moves(2)
  proof (cases rule: advance_kind)
    case 1
    then have t: "phase ?l ?p = ?p t" "?p t \<notin> set readers" using own [of t] by (auto simp: phase_def readers_def)
    note q = writer_owner [OF 1 thread_moves(2)]
    have "phase_ok b l' (threads_at ?p)" using writer_keeps [OF ph total, of w t] 1 t(1) thread_moves(2) by simp
    then have "phase_ok b l' (threads_at (?p(t := b)))" using threads_at_other [of ?p t b] t(2) q by simp
    then show ?thesis
      by (rule rw_okI [rotated 2]) (use q own 1 in \<open>auto simp: phase_def split: if_splits\<close>)
  next
    case 2
    then have "phase_ok W_sub l' (threads_at ?p)" using ph by (simp add: phase_defs phase_def)
    then have "phase_ok W_sub l' (threads_at (?p(t := b)))" using threads_at_other [of ?p t b] 2 by (simp add: readers_def)
    then show ?thesis by (rule rw_okI [rotated 2]) (use own 2 in \<open>auto simp: phase_def\<close>)
  next
    case 3
    then have "phase_ok (phase ?l ?p) l' (threads_at (?p(t := b)))"
      using ph threads_at_other [of ?p t b] by (simp add: readers_def)
    then show ?thesis by (rule rw_okI [rotated 2]) (use own own [of t] 3 in \<open>auto simp: phase_def split: option.splits\<close>)
  next
    case 4
    note q = reader_owner [OF 4]
    have "phase_ok (phase ?l ?p) l' (threads_at (?p(t := b)))"
      using reader_keeps [OF ph total _ 4(1), of t] 4(2) threads_at_pos [of ?p t] q
      by (simp add: keeps_def shift_def threads_at_upd)
    then show ?thesis by (rule rw_okI [rotated 2]) (use own own [of t] q in \<open>auto simp: phase_def split: option.splits\<close>)
  qed
  then show ?thesis using thread_moves(1) by simp
qed

lemma rw_init_ok: "rw_ok rw_init"
  by (simp add: rw_ok_def rw_init_def phase_def phase_defs threads_at_def)

lemma rw_reach_ok: "rw_reach s \<Longrightarrow> rw_ok s"
  by (induction rule: rw_reach.induct) (blast intro: rw_init_ok rw_step_ok)+

section \<open>Progress\<close>

text \<open>A step of a thread that is inside one of the four calls.\<close>

inductive busy_step :: "rw_sys \<Rightarrow> rw_sys \<Rightarrow> bool" where
  busy_moves: "busy (pcs s t) \<Longrightarrow> advance False t (pcs s t) (rwlock s) = Goes p l \<Longrightarrow>
    busy_step s (s\<lparr>rwlock := l, pcs := (pcs s)(t := p)\<rparr>)"

inductive busy_run :: "nat \<Rightarrow> rw_sys \<Rightarrow> rw_sys \<Rightarrow> bool" where
  busy_none: "busy_run 0 s s"
| busy_more: "busy_run n s s' \<Longrightarrow> busy_step s' s'' \<Longrightarrow> busy_run (Suc n) s s''"

text \<open>How many steps a call can still take.\<close>

fun rank :: "rw_pc \<Rightarrow> nat" where
  "rank Idle = 0"
| "rank R_wait = 3"
| "rank R_woken = 2"
| "rank R_signal = 1"
| "rank R_hold = 0"
| "rank R_depart = 2"
| "rank R_last = 1"
| "rank W_lock = 4"
| "rank W_sub = 3"
| "rank (W_add n) = 2"
| "rank W_wait = 1"
| "rank W_hold = 0"
| "rank (W_store n) = 5"
| "rank W_set = 4"
| "rank W_drain = 3"
| "rank W_clear = 2"
| "rank W_release = 1"

definition work :: "rw_sys \<Rightarrow> nat" where
  "work s = (\<Sum>t\<in>UNIV. rank (pcs s t))"

lemma rank_decreases: "busy a \<Longrightarrow> advance w t a l = Goes b l' \<Longrightarrow> rank b < rank a"
  by (cases a) (auto simp: reader_simps split: if_splits)

lemma busy_step_work: "busy_step s s' \<Longrightarrow> work s' < work s"
proof (induction rule: busy_step.induct)
  case (busy_moves s t p l)
  have "(\<Sum>u\<in>UNIV. rank (((pcs s)(t := p)) u)) < (\<Sum>u\<in>UNIV. rank (pcs s u))"
    by (rule sum_strict_mono_ex1)
      (use rank_decreases [OF busy_moves] in \<open>auto intro: less_imp_le\<close>)
  then show ?case by (simp add: work_def)
qed

lemma busy_run_work: "busy_run n s s' \<Longrightarrow> n + work s' \<le> work s"
  by (induction rule: busy_run.induct) (auto dest: busy_step_work)

lemma busy_run_reach: "busy_run n s s' \<Longrightarrow> rw_reach s \<Longrightarrow> rw_reach s'"
  by (induction rule: busy_run.induct) (auto elim!: busy_step.cases intro: rw_reach_step thread_moves)

lemma work_bound: "work s \<le> 5 * 2 ^ 32"
proof -
  have "rank a \<le> 5" for a by (cases a) simp_all
  then have "work s \<le> (\<Sum>t\<in>(UNIV :: tid set). 5)" unfolding work_def by (intro sum_mono) simp
  then show ?thesis by (simp add: card_word)
qed

definition stuck :: "rw_sys \<Rightarrow> bool" where
  "stuck s \<longleftrightarrow> (\<forall>s'. \<not> busy_step s s')"

lemma no_fail:
  assumes "rw_ok s"
  shows "advance w t (pcs s t) (rwlock s) \<noteq> Fails"
proof (cases "inside (pcs s t)")
  case True
  then have "phase (rwlock s) (pcs s) = pcs s t" using assms by (simp add: rw_ok_def phase_def)
  then show ?thesis using writer_keeps [OF _ threads_at_total True, of "rwlock s" "pcs s" w t] assms
    by (auto simp: rw_ok_def)
next
  case False
  then show ?thesis by (cases "pcs s t") (auto simp: reader_simps)
qed

lemma stuck_blocks:
  assumes "stuck s" "rw_ok s" "busy (pcs s t)"
  shows "advance False t (pcs s t) (rwlock s) = Blocks"
proof (cases "advance False t (pcs s t) (rwlock s)")
  case (Goes p l)
  then show ?thesis using busy_moves [OF assms(3)] assms(1) unfolding stuck_def by blast
qed (use no_fail [OF assms(2)] in auto)

lemma stuck_place:
  assumes "stuck s" "rw_ok s" "0 < threads_at (pcs s) a" "busy a"
  shows "(a = R_wait \<and> \<not> readers_wait (rwlock s)) \<or> (a = W_lock \<and> writers_lock (rwlock s) \<noteq> None) \<or>
    (a \<in> {W_wait, W_drain} \<and> \<not> writer_wait (rwlock s))"
proof -
  obtain t where "pcs s t = a" using assms(3) by (auto simp: threads_at_def card_gt_0_iff)
  then have "advance False t a (rwlock s) = Blocks" using stuck_blocks [OF assms(1,2), of t] assms(4) by simp
  then show ?thesis using assms(4) by (cases a) (auto simp: reader_simps split: if_splits)
qed

lemma stuck_owner:
  assumes "stuck s" "rw_ok s" "busy (pcs s t)"
  shows "\<exists>u. writers_lock (rwlock s) = Some u"
proof (cases "writers_lock (rwlock s)")
  case None
  then have "phase_ok Idle (rwlock s) (threads_at (pcs s))" "\<not> inside (pcs s t)"
    using assms(2) by (simp_all add: rw_ok_def phase_def)
  then show ?thesis using stuck_place [OF assms(1,2) threads_at_pos, of t] threads_at_pos [of "pcs s" t R_wait] assms(3) None
    by auto
qed simp

lemma stuck_held:
  assumes "stuck s" "rw_ok s" "busy (pcs s t)"
  shows "\<exists>u. pcs s u = R_hold \<or> pcs s u = W_hold"
proof (rule ccontr)
  assume none: "\<not> ?thesis"
  then have hold: "threads_at (pcs s) R_hold = 0" by (simp add: threads_at_def)
  have away: "threads_at (pcs s) a = 0" if "busy a" "a \<notin> {R_wait, W_lock, W_wait, W_drain}" for a
    using stuck_place [OF assms(1,2) _ that(1)] that(2) by auto
  obtain u where u: "writers_lock (rwlock s) = Some u" using stuck_owner [OF assms] by blast
  then have ins: "inside (pcs s u)" "phase_ok (pcs s u) (rwlock s) (threads_at (pcs s))"
    using assms(2) by (auto simp: rw_ok_def phase_def)
  have "busy (pcs s u)" using ins(1) none by (cases "pcs s u") auto
  from stuck_place [OF assms(1,2) threads_at_pos [OF refl] this] ins(1)
  have "\<not> writer_wait (rwlock s)" "pcs s u = W_wait \<or> pcs s u = W_drain" by auto
  moreover have "pcs s u \<noteq> W_wait"
    using ins(2) hold away [of R_depart] away [of R_last] calculation(1) by (auto simp: one_signal_def)
  moreover have "pcs s u \<noteq> W_drain"
    using ins(2) away [of R_woken] away [of R_signal] stuck_place [OF assms(1,2), of R_wait] calculation(1)
    by (auto simp: one_signal_def split: if_splits)
  ultimately show False by blast
qed

lemma held_state:
  assumes "phase_ok p l c" "sum_list (map c readers) \<le> 2 ^ 32" "0 < c R_hold"
  shows "state l \<noteq> 0"
  using assms by (cases p) (auto simp: reader_simps)

lemma write_held_state:
  assumes "phase_ok W_hold l c" "sum_list (map c readers) \<le> 2 ^ 32"
  shows "state l < 0"
  using assms by (simp add: reader_simps)

lemma idle_lock:
  assumes "rw_ok s" "\<And>t. pcs s t = Idle"
  shows "state (rwlock s) = 0 \<and> departing_readers (rwlock s) = 0 \<and> waiting_readers (rwlock s) = 0"
proof -
  have "writers_lock (rwlock s) = None" using assms by (cases "writers_lock (rwlock s)") (auto simp: rw_ok_def)
  then have "phase_ok Idle (rwlock s) (threads_at (pcs s))" using assms(1) by (simp add: rw_ok_def phase_def)
  then show ?thesis using assms(2) by (simp add: phase_defs threads_at_def)
qed

section \<open>Properties\<close>

text \<open>C4: a thread that holds the lock for writing holds it alone, in every interleaving of the atomic accesses.\<close>

theorem rwlock_exclusion:
  assumes "rw_reach s" "pcs s t = W_hold" "u \<noteq> t"
  shows "pcs s u \<noteq> W_hold \<and> pcs s u \<noteq> R_hold"
proof -
  have ok: "rw_ok s" using rw_reach_ok [OF assms(1)] .
  then have own: "inside (pcs s u) \<longleftrightarrow> writers_lock (rwlock s) = Some u" for u by (simp add: rw_ok_def)
  then have t: "writers_lock (rwlock s) = Some t" using own [of t] assms(2) by simp
  then have "phase_ok W_hold (rwlock s) (threads_at (pcs s))" using ok assms(2) by (simp add: rw_ok_def phase_def)
  then have "threads_at (pcs s) R_hold = 0" by simp
  then show ?thesis using own [of u] t assms(3) threads_at_pos [of "pcs s" u R_hold] by auto
qed

text \<open>In every interleaving no assertion of the lock fails and no counter overflows; the debug checks
  \<^verbatim>\<open>rwlock_is_read_locked\<close> and \<^verbatim>\<open>rwlock_is_write_locked\<close> hold for a thread that has the lock, and when
  no thread is in a call or holds the lock, it can be destroyed.\<close>

theorem rwlock_checks_pass:
  assumes "rw_reach s"
  shows "advance w t (pcs s t) (rwlock s) \<noteq> Fails \<and>
    (pcs s t = R_hold \<longrightarrow> rwlock_is_read_locked (rwlock s)) \<and>
    (pcs s t = W_hold \<longrightarrow> rwlock_is_write_locked (rwlock s)) \<and>
    ((\<forall>u. pcs s u = Idle) \<longrightarrow> rwlock_destroy (rwlock s) live \<noteq> None)"
proof -
  have ok: "rw_ok s" using rw_reach_ok [OF assms] .
  then have ph: "phase_ok (phase (rwlock s) (pcs s)) (rwlock s) (threads_at (pcs s))" by (simp add: rw_ok_def)
  have "rwlock_is_read_locked (rwlock s)" if "pcs s t = R_hold"
    using held_state [OF ph threads_at_total threads_at_pos [where p = "pcs s", OF that]] by (simp add: rwlock_is_read_locked_def)
  moreover have "rwlock_is_write_locked (rwlock s)" if "pcs s t = W_hold"
  proof -
    have "inside (pcs s t) \<longleftrightarrow> writers_lock (rwlock s) = Some t" using ok by (simp add: rw_ok_def)
    then have w: "writers_lock (rwlock s) = Some t" using that by simp
    then show ?thesis using write_held_state [OF _ threads_at_total] ph that
      by (simp add: rwlock_is_write_locked_def phase_def del: phase_ok.simps)
  qed
  ultimately show ?thesis using no_fail [OF ok] idle_lock [OF ok] by (auto simp: rwlock_destroy_def)
qed

text \<open>C22: the calls under way take a bounded number of steps, and when none of them can go on, some thread holds
  the lock or all calls have returned: no wake-up is lost and no thread waits for a lock nobody holds.\<close>

theorem rwlock_progress:
  assumes "rw_reach s" "busy_run n s s'"
  shows "n \<le> 5 * 2 ^ 32 \<and>
    (stuck s' \<longrightarrow> (\<exists>u. pcs s' u = R_hold \<or> pcs s' u = W_hold) \<or> (\<forall>u. pcs s' u = Idle))"
proof -
  have "n \<le> 5 * 2 ^ 32" using busy_run_work [OF assms(2)] work_bound [of s] by simp
  moreover have "rw_ok s'" using rw_reach_ok [OF busy_run_reach [OF assms(2,1)]] .
  moreover have "busy (pcs s' u) \<or> pcs s' u \<in> {R_hold, W_hold, Idle}" for u by (cases "pcs s' u") simp_all
  ultimately show ?thesis using stuck_held [of s'] by blast
qed

text \<open>A run: thread 1 takes the lock for writing.\<close>

definition demo_rw :: "rw_pc \<Rightarrow> int \<Rightarrow> tid option \<Rightarrow> rw_sys" where
  "demo_rw a n t = \<lparr>rwlock = \<lparr>state = n, departing_readers = 0, writer_wait = False, readers_wait = False,
     waiting_readers = 0, writers_lock = t\<rparr>, pcs = (\<lambda>t. Idle)(1 := a)\<rparr>"

lemma demo_rw_call: "rw_step rw_init (demo_rw W_lock 0 None)"
  using thread_moves [of True 1 rw_init W_lock] by (simp add: rw_init_def demo_rw_def)

lemma demo_mutex: "busy_step (demo_rw W_lock 0 None) (demo_rw W_sub 0 (Some 1))"
  using busy_moves [of "demo_rw W_lock 0 None" 1 W_sub] by (simp add: demo_rw_def)

lemma demo_weight: "busy_step (demo_rw W_sub 0 (Some 1)) (demo_rw W_hold (- WRITER_WEIGHT) (Some 1))"
  using busy_moves [of "demo_rw W_sub 0 (Some 1)" 1 W_hold] by (simp add: demo_rw_def WRITER_WEIGHT_def)

lemma demo_run: "busy_run 2 (demo_rw W_lock 0 None) (demo_rw W_hold (- WRITER_WEIGHT) (Some 1))"
  unfolding numeral_2_eq_2 by (rule busy_more [OF busy_more [OF busy_none demo_mutex] demo_weight])

lemma demo_reach: "rw_reach (demo_rw W_lock 0 None)"
  by (rule rw_reach_step [OF rw_reach_init demo_rw_call])

lemma demo_held: "rw_reach (demo_rw W_hold (- WRITER_WEIGHT) (Some 1))"
  by (rule busy_run_reach [OF demo_run demo_reach])

theorem rwlock_exclusion_witness:
  "pcs (demo_rw W_hold (- WRITER_WEIGHT) (Some 1)) 1 = W_hold \<and>
   pcs (demo_rw W_hold (- WRITER_WEIGHT) (Some 1)) 2 \<noteq> R_hold"
  using rwlock_exclusion [OF demo_held, of 1 2] by (simp add: demo_rw_def)

theorem rwlock_checks_pass_witness:
  "rwlock_is_write_locked (rwlock (demo_rw W_hold (- WRITER_WEIGHT) (Some 1)))"
proof -
  have "pcs (demo_rw W_hold (- WRITER_WEIGHT) (Some 1)) 1 = W_hold" by (simp add: demo_rw_def)
  then show ?thesis using rwlock_checks_pass [OF demo_held, of False 1] by blast
qed

theorem rwlock_progress_witness:
  "busy_run 2 (demo_rw W_lock 0 None) (demo_rw W_hold (- WRITER_WEIGHT) (Some 1)) \<and> (2::nat) \<le> 5 * 2 ^ 32 \<and>
   pcs (demo_rw W_hold (- WRITER_WEIGHT) (Some 1)) 1 = W_hold"
  using rwlock_progress [OF demo_reach demo_run] demo_run by (simp add: demo_rw_def)

end
