(* ===== verification/Vma_Query.thy ===== *)
theory Vma_Query
  imports Vma
begin

text \<open>
  The queries of \<^verbatim>\<open>libos/src/bookkeep/libos_vma.c\<close>: looking a region up, checking that a range is user memory,
  copying the regions of a range out of the tree, and \<^verbatim>\<open>msync\<close>, which runs over such a copy. The callbacks of the
  file system and the success of \<^verbatim>\<open>calloc\<close> are arguments; a callback that is called is recorded. \<open>None\<close> is a failed
  assertion.
\<close>

section \<open>Traversal\<close>

type_synonym 'c visitor = "libos_vma \<Rightarrow> 'c \<Rightarrow> (bool \<times> 'c) option"

text \<open>The loop of \<^verbatim>\<open>_traverse_vmas_in_range\<close> from a region with its successors on.\<close>

fun traverse_from :: "'c visitor \<Rightarrow> addr \<Rightarrow> libos_vma \<Rightarrow> libos_vma list \<Rightarrow> bool \<Rightarrow> 'c \<Rightarrow> (bool \<times> 'c) option" where
  "traverse_from visitor e v [] is_continuous c =
     (case visitor v c of
        None \<Rightarrow> None
      | Some (go, c) \<Rightarrow> if \<not> go then Some (is_continuous, c) else Some (is_continuous \<and> e \<le> vma_end v, c))"
| "traverse_from visitor e v (w # ws) is_continuous c =
     (case visitor v c of
        None \<Rightarrow> None
      | Some (go, c) \<Rightarrow>
          if \<not> go then Some (is_continuous, c)
          else if e \<le> vma_begin w then Some (is_continuous \<and> e \<le> vma_end v, c)
          else traverse_from visitor e w ws (is_continuous \<and> vma_end v = vma_begin w) c)"

definition u_traverse_vmas_in_range :: "addr \<Rightarrow> addr \<Rightarrow> 'c visitor \<Rightarrow> 'c \<Rightarrow> libos_vma list \<Rightarrow> (bool \<times> 'c) option" where
  "u_traverse_vmas_in_range b e visitor c ts =
     (if \<not> b \<le> e then None
      else if b = e then Some (True, c)
      else case lookup_suffix b ts of
             [] \<Rightarrow> Some (False, c)
           | v # vs \<Rightarrow> if e \<le> vma_begin v then Some (False, c)
                       else traverse_from visitor e v vs (vma_begin v \<le> b) c)"

definition adj_visitor :: "flags \<Rightarrow> bool visitor" where
  "adj_visitor prot v ctx_is_ok =
     (let is_ok = (\<not> has_flag (vma_flags v) (VMA_INTERNAL OR VMA_UNMAPPED) \<and> vma_prot v AND prot = prot)
      in Some (is_ok, ctx_is_ok \<and> is_ok))"

definition is_in_adjacent_user_vmas :: "addr \<Rightarrow> nat \<Rightarrow> flags \<Rightarrow> vma_state \<Rightarrow> bool option" where
  "is_in_adjacent_user_vmas a len prot st =
     (let e = u64 (a + len)
      in if \<not> a \<le> e then None
         else map_option (\<lambda>(is_continuous, is_ok). is_continuous \<and> is_ok)
                (u_traverse_vmas_in_range a e (adj_visitor prot) True (vma_tree st)))"

section \<open>Copies of regions\<close>

record libos_vma_info =
  info_addr :: addr
  info_length :: nat
  info_prot :: flags
  info_flags :: flags
  info_file :: "libos_handle option"
  info_offset :: nat
  info_comment :: string

definition get_file :: "libos_handle option \<Rightarrow> vma_state \<Rightarrow> vma_state" where
  "get_file f st = (case f of None \<Rightarrow> st
     | Some h \<Rightarrow> st\<lparr>hdl_refs := (hdl_refs st)(hdl_id h := hdl_refs st (hdl_id h) + 1)\<rparr>)"

definition put_file :: "libos_handle option \<Rightarrow> vma_state \<Rightarrow> vma_state" where
  "put_file f st = (case f of None \<Rightarrow> st
     | Some h \<Rightarrow> st\<lparr>hdl_refs := (hdl_refs st)(hdl_id h := hdl_refs st (hdl_id h) - 1)\<rparr>)"

definition vma_info :: "libos_vma \<Rightarrow> libos_vma_info" where
  "vma_info v = \<lparr>info_addr = vma_begin v, info_length = vma_end v - vma_begin v, info_prot = vma_prot v,
     info_flags = vma_flags v, info_file = vma_file v, info_offset = vma_offset v, info_comment = vma_comment v\<rparr>"

definition dump_vma :: "libos_vma \<Rightarrow> vma_state \<Rightarrow> libos_vma_info \<times> vma_state" where
  "dump_vma v st = (vma_info v, get_file (vma_file v) st)"

definition lookup_vma :: "addr \<Rightarrow> vma_state \<Rightarrow> int \<times> libos_vma_info option \<times> vma_state" where
  "lookup_vma a st =
     (case u_lookup_vma a (vma_tree st) of
        None \<Rightarrow> (- ENOENT, None, st)
      | Some v \<Rightarrow> if \<not> is_addr_in_vma a v then (- ENOENT, None, st)
                  else let (info, st) = dump_vma v st in (0, Some info, st))"

text \<open>A filter may fail an assertion. The array has room for \<open>max_count\<close> copies; the result is how many there are.\<close>

type_synonym vma_filter = "libos_vma \<Rightarrow> bool option"

fun dump_loop :: "vma_filter \<Rightarrow> nat \<Rightarrow> addr \<Rightarrow> libos_vma list \<Rightarrow> nat \<Rightarrow> libos_vma_info list \<Rightarrow> vma_state \<Rightarrow>
    (nat \<times> libos_vma_info list \<times> vma_state) option" where
  "dump_loop flt max_count e [] n infos st = Some (n, infos, st)"
| "dump_loop flt max_count e (v # vs) n infos st =
     (if vma_begin v < e
      then (case flt v of
              None \<Rightarrow> None
            | Some False \<Rightarrow> dump_loop flt max_count e vs n infos st
            | Some True \<Rightarrow>
                if n < max_count
                then let (info, st) = dump_vma v st in dump_loop flt max_count e vs (Suc n) (infos @ [info]) st
                else dump_loop flt max_count e vs (Suc n) infos st)
      else Some (n, infos, st))"

definition dump_vmas_with_buf :: "nat \<Rightarrow> addr \<Rightarrow> addr \<Rightarrow> vma_filter \<Rightarrow> vma_state \<Rightarrow>
    (nat \<times> libos_vma_info list \<times> vma_state) option" where
  "dump_vmas_with_buf max_count b e flt st = dump_loop flt max_count e (lookup_suffix b (vma_tree st)) 0 [] st"

text \<open>The entries of the array that were not filled have no file.\<close>

fun free_vma_info_array :: "libos_vma_info list \<Rightarrow> vma_state \<Rightarrow> vma_state" where
  "free_vma_info_array [] st = st"
| "free_vma_info_array (i # is) st = free_vma_info_array is (put_file (info_file i) st)"

text \<open>The rounds of \<^verbatim>\<open>dump_vmas\<close>, the \<open>k\<close>-th with an array of \<open>count\<close> entries.\<close>

fun dump_rounds :: "nat \<Rightarrow> (nat \<Rightarrow> bool) \<Rightarrow> nat \<Rightarrow> nat \<Rightarrow> addr \<Rightarrow> addr \<Rightarrow> vma_filter \<Rightarrow> vma_state \<Rightarrow>
    (int \<times> libos_vma_info list \<times> vma_state) option" where
  "dump_rounds 0 calloc k count b e flt st = None"
| "dump_rounds (Suc n) calloc k count b e flt st =
     (if \<not> calloc k then Some (- ENOMEM, [], st)
      else case dump_vmas_with_buf count b e flt st of
             None \<Rightarrow> None
           | Some (needed_count, infos, st1) \<Rightarrow>
               if needed_count \<le> count then Some (0, infos, st1)
               else dump_rounds n calloc (Suc k) needed_count b e flt (free_vma_info_array infos st1))"

text \<open>As long as the tree stays, two rounds are enough (\<open>dump_vmas_exact\<close>).\<close>

definition dump_vmas :: "(nat \<Rightarrow> bool) \<Rightarrow> addr \<Rightarrow> addr \<Rightarrow> vma_filter \<Rightarrow> vma_state \<Rightarrow>
    (int \<times> libos_vma_info list \<times> vma_state) option" where
  "dump_vmas calloc b e flt st = dump_rounds 2 calloc 0 DEFAULT_VMA_COUNT b e flt st"

definition vma_filter_all :: vma_filter where
  "vma_filter_all v = Some (\<not> has_flag (vma_flags v) VMA_INTERNAL)"

definition vma_filter_exclude_unmapped :: vma_filter where
  "vma_filter_exclude_unmapped v = Some (\<not> has_flag (vma_flags v) (VMA_INTERNAL OR VMA_UNMAPPED))"

definition UINTPTR_MAX :: nat where "UINTPTR_MAX = 2 ^ 64 - 1"

definition dump_vmas_in_range :: "(nat \<Rightarrow> bool) \<Rightarrow> addr \<Rightarrow> addr \<Rightarrow> bool \<Rightarrow> vma_state \<Rightarrow>
    (int \<times> libos_vma_info list \<times> vma_state) option" where
  "dump_vmas_in_range calloc b e include_unmapped st =
     dump_vmas calloc b e (if include_unmapped then vma_filter_all else vma_filter_exclude_unmapped) st"

definition dump_all_vmas :: "(nat \<Rightarrow> bool) \<Rightarrow> bool \<Rightarrow> vma_state \<Rightarrow> (int \<times> libos_vma_info list \<times> vma_state) option" where
  "dump_all_vmas calloc include_unmapped st = dump_vmas_in_range calloc 0 UINTPTR_MAX include_unmapped st"

section \<open>msync\<close>

definition not_shared_file :: flags where
  "not_shared_file = VMA_UNMAPPED OR VMA_INTERNAL OR MAP_ANONYMOUS OR MAP_PRIVATE"

definition vma_filter_needs_msync :: "libos_handle option \<Rightarrow> vma_filter" where
  "vma_filter_needs_msync hdl v =
     (if has_flag (vma_flags v) not_shared_file then Some False
      else case vma_file v of
             None \<Rightarrow> None
           | Some f \<Rightarrow> Some ((case hdl of None \<Rightarrow> True | Some h \<Rightarrow> hdl_id f = hdl_id h) \<and> hdl_has_msync f \<and> hdl_may_write f))"

record msync_call =
  mc_file :: libos_handle
  mc_begin :: addr
  mc_len :: nat
  mc_prot :: flags
  mc_flags :: flags
  mc_offset :: nat

text \<open>The loop of \<^verbatim>\<open>msync_all\<close>: the result and the calls made; \<open>msync n\<close> is the result of the \<open>n\<close>-th call.\<close>

fun msync_loop :: "(nat \<Rightarrow> int) \<Rightarrow> addr \<Rightarrow> addr \<Rightarrow> libos_vma_info list \<Rightarrow> msync_call list \<Rightarrow> (int \<times> msync_call list) option" where
  "msync_loop msync b e [] calls = Some (0, calls)"
| "msync_loop msync b e (i # is) calls =
     (case info_file i of
        None \<Rightarrow> None
      | Some f \<Rightarrow>
          if \<not> hdl_has_msync f then None
          else let msync_begin = max b (info_addr i); msync_end = min e (u64 (info_addr i + info_length i))
          in if \<not> IS_ALLOC_ALIGNED msync_begin \<or> \<not> IS_ALLOC_ALIGNED msync_end then None
             else let ret = msync (length calls);
                      calls = calls @ [\<lparr>mc_file = f, mc_begin = msync_begin, mc_len = msync_end - msync_begin,
                        mc_prot = info_prot i, mc_flags = info_flags i, mc_offset = info_offset i\<rparr>]
             in if ret < 0 then Some (ret, calls) else msync_loop msync b e is calls)"

definition msync_all :: "(nat \<Rightarrow> bool) \<Rightarrow> (nat \<Rightarrow> int) \<Rightarrow> addr \<Rightarrow> addr \<Rightarrow> libos_handle option \<Rightarrow> vma_state \<Rightarrow>
    (int \<times> msync_call list \<times> vma_state) option" where
  "msync_all calloc msync b e hdl st =
     (if \<not> IS_ALLOC_ALIGNED b \<or> \<not> (e = UINTPTR_MAX \<or> IS_ALLOC_ALIGNED e) then None
      else case dump_vmas calloc b e (vma_filter_needs_msync hdl) st of
             None \<Rightarrow> None
           | Some (ret, infos, st1) \<Rightarrow>
               if ret < 0 then Some (ret, [], st1)
               else (case msync_loop msync b e infos [] of
                       None \<Rightarrow> None
                     | Some (ret, calls) \<Rightarrow> Some (ret, calls, free_vma_info_array infos st1)))"

definition msync_range :: "(nat \<Rightarrow> bool) \<Rightarrow> (nat \<Rightarrow> int) \<Rightarrow> addr \<Rightarrow> addr \<Rightarrow> vma_state \<Rightarrow>
    (int \<times> msync_call list \<times> vma_state) option" where
  "msync_range calloc msync b e st = msync_all calloc msync b e None st"

definition msync_handle :: "(nat \<Rightarrow> bool) \<Rightarrow> (nat \<Rightarrow> int) \<Rightarrow> libos_handle \<Rightarrow> vma_state \<Rightarrow>
    (int \<times> msync_call list \<times> vma_state) option" where
  "msync_handle calloc msync hdl st = msync_all calloc msync 0 UINTPTR_MAX (Some hdl) st"

section \<open>User memory\<close>

text \<open>The regions of a range, in order.\<close>

definition overlaps :: "addr \<Rightarrow> addr \<Rightarrow> libos_vma \<Rightarrow> bool" where
  "overlaps b e v \<longleftrightarrow> b < vma_end v \<and> vma_begin v < e"

definition user_access :: "flags \<Rightarrow> libos_vma \<Rightarrow> bool" where
  "user_access prot v \<longleftrightarrow> \<not> has_flag (vma_flags v) (VMA_INTERNAL OR VMA_UNMAPPED) \<and> vma_prot v AND prot = prot"

definition all_at :: "(libos_vma \<Rightarrow> bool) \<Rightarrow> addr \<Rightarrow> addr \<Rightarrow> libos_vma list \<Rightarrow> bool" where
  "all_at Q b e ts \<longleftrightarrow> (\<forall>a. b \<le> a \<and> a < e \<longrightarrow> (\<exists>v\<in>set ts. is_addr_in_vma a v \<and> Q v))"

lemma all_at_first:
  assumes "vmas_ok (v # vs)" "vma_begin v \<le> b" "b < vma_end v" "b < e"
  shows "all_at Q b e (v # vs) \<longleftrightarrow> Q v \<and> (e \<le> vma_end v \<or> all_at Q (vma_end v) e vs)"
proof
  assume all: "all_at Q b e (v # vs)"
  have out: "\<not> is_addr_in_vma a w" if "w \<in> set vs" "a < vma_end v" for a w
    using assms(1) that by (auto simp: is_addr_in_vma_def)
  have "\<exists>w\<in>set (v # vs). is_addr_in_vma b w \<and> Q w" using all assms(4) unfolding all_at_def by blast
  then have "Q v" using out assms(3) by auto
  moreover have "all_at Q (vma_end v) e vs"
    unfolding all_at_def
  proof (intro allI impI)
    fix a
    assume a: "vma_end v \<le> a \<and> a < e"
    then have "\<exists>w\<in>set (v # vs). is_addr_in_vma a w \<and> Q w" using all assms(3) unfolding all_at_def by auto
    then show "\<exists>w\<in>set vs. is_addr_in_vma a w \<and> Q w" using a by (auto simp: is_addr_in_vma_def)
  qed
  ultimately show "Q v \<and> (e \<le> vma_end v \<or> all_at Q (vma_end v) e vs)" by blast
next
  assume "Q v \<and> (e \<le> vma_end v \<or> all_at Q (vma_end v) e vs)"
  then show "all_at Q b e (v # vs)" using assms(2) unfolding all_at_def is_addr_in_vma_def
    by (metis le_trans linorder_not_le list.set_intros(1,2) order_less_le_trans)
qed

lemma all_at_gap:
  assumes "vmas_ok ts" "b < e" "\<And>v. v \<in> set ts \<Longrightarrow> b < vma_begin v"
  shows "\<not> all_at Q b e ts"
  using assms(2,3) unfolding all_at_def is_addr_in_vma_def by (metis leD order_refl)

lemma all_at_Cons:
  assumes "vmas_ok (v # vs)" "b < vma_end v" "b < e"
  shows "all_at Q b e (v # vs) \<longleftrightarrow> vma_begin v \<le> b \<and> Q v \<and> (e \<le> vma_end v \<or> all_at Q (vma_end v) e vs)"
proof (cases "vma_begin v \<le> b")
  case True
  then show ?thesis using all_at_first [OF assms(1) True assms(2,3)] by blast
next
  case False
  have "\<not> all_at Q b e (v # vs)"
    by (rule all_at_gap [OF assms(1,3)]) (use assms(1) False in \<open>auto simp: vma_ok_def\<close>)
  then show ?thesis using False by blast
qed

text \<open>The regions a traversal visits: up to the first one that does not satisfy the predicate.\<close>

fun visited :: "(libos_vma \<Rightarrow> bool) \<Rightarrow> addr \<Rightarrow> libos_vma list \<Rightarrow> libos_vma list" where
  "visited Q e [] = []"
| "visited Q e (v # vs) = (if vma_begin v < e then v # (if Q v then visited Q e vs else []) else [])"

lemma visited_subset: "set (visited Q e vs) \<subseteq> set vs"
  by (induction vs) auto

text \<open>
  A traversal with a visitor that goes on exactly at the regions of a predicate: the context is the one after the
  regions visited, and it reports a range without gaps, at whose regions it always went on, exactly if every address of
  the range is in such a region.
\<close>

lemma traverse_from_visits:
  assumes "vmas_ok (v # vs)" "vma_begin v < e" "b < vma_end v" "b < e" "I c"
    and "\<And>w c. w \<in> set (v # vs) \<Longrightarrow> I c \<Longrightarrow> visitor w c = Some (Q w, f w c) \<and> I (f w c)"
  shows "\<exists>r. traverse_from visitor e v vs (cont \<and> vma_begin v \<le> b) c = Some (r, fold f (visited Q e (v # vs)) c) \<and>
    (r \<and> list_all Q (visited Q e (v # vs)) \<longleftrightarrow> cont \<and> all_at Q b e (v # vs))"
  using assms
proof (induction vs arbitrary: v b cont c)
  case Nil
  have v: "visitor v c = Some (Q v, f v c)" using Nil.prems(5,6) by simp
  have "\<not> all_at Q (vma_end v) e []" if "\<not> e \<le> vma_end v" using that by (auto simp: all_at_def)
  then show ?case using v Nil.prems(2) unfolding all_at_Cons [OF Nil.prems(1,3,4)] by auto
next
  case (Cons w ws)
  have v: "vma_end v \<le> vma_begin w" "vma_begin w < vma_end w" "vmas_ok (w # ws)"
    using Cons.prems(1) by (auto simp: vma_ok_def)
  have vis: "visitor v c = Some (Q v, f v c)" "I (f v c)" using Cons.prems(5,6) by simp_all
  note all = all_at_Cons [OF Cons.prems(1,3,4), of Q]
  show ?case
  proof (cases "e \<le> vma_begin w")
    case True
    have "\<not> all_at Q (vma_end v) e (w # ws)" if "\<not> e \<le> vma_end v"
      by (rule all_at_gap [OF v(3)]) (use that True v in \<open>auto simp: vma_ok_def\<close>)
    then show ?thesis using True vis Cons.prems(2) unfolding all by auto
  next
    case False
    have eq: "vma_end v = vma_begin w \<longleftrightarrow> vma_begin w \<le> vma_end v" using v(1) by auto
    have ev: "vma_end v < e" "\<not> e \<le> vma_end v" "vma_begin w < e" "vma_end v < vma_end w" using False v(1,2) by auto
    obtain r where "traverse_from visitor e w ws ((cont \<and> vma_begin v \<le> b) \<and> vma_begin w \<le> vma_end v) (f v c) =
        Some (r, fold f (visited Q e (w # ws)) (f v c))"
      "r \<and> list_all Q (visited Q e (w # ws)) \<longleftrightarrow> (cont \<and> vma_begin v \<le> b) \<and> all_at Q (vma_end v) e (w # ws)"
      using Cons.IH [OF v(3) ev(3,4,1) vis(2), of "cont \<and> vma_begin v \<le> b"] Cons.prems(6) by auto
    then show ?thesis using False ev(2) vis(1) Cons.prems(2) unfolding all
      by (cases "Q v") (simp_all add: eq del: visited.simps(2), simp_all)
  qed
qed

lemma all_at_suffix:
  assumes "vmas_ok ts"
  shows "all_at Q b e ts \<longleftrightarrow> all_at Q b e (lookup_suffix b ts)"
proof -
  have "\<not> is_addr_in_vma a v" if "v \<in> set (lookup_prefix b ts)" "b \<le> a" for v a
    using lookup_prefix_end [OF that(1)] that(2) by (auto simp: is_addr_in_vma_def)
  moreover have "set ts = set (lookup_prefix b ts) \<union> set (lookup_suffix b ts)"
    by (metis lookup_split set_append)
  ultimately show ?thesis unfolding all_at_def by blast
qed

lemma traverse_visits:
  assumes "vmas_ok ts" "b < e" "I c"
    and "\<And>w c. w \<in> set ts \<Longrightarrow> I c \<Longrightarrow> visitor w c = Some (Q w, f w c) \<and> I (f w c)"
  shows "\<exists>r. u_traverse_vmas_in_range b e visitor c ts = Some (r, fold f (visited Q e (lookup_suffix b ts)) c) \<and>
    (r \<and> list_all Q (visited Q e (lookup_suffix b ts)) \<longleftrightarrow> all_at Q b e ts)"
proof (cases "lookup_suffix b ts")
  case Nil
  then have "\<not> all_at Q b e ts" unfolding all_at_suffix [OF assms(1)] using assms(2) by (auto simp: all_at_def)
  then show ?thesis using Nil assms(2) by (auto simp: u_traverse_vmas_in_range_def)
next
  case (Cons v vs)
  have ok: "vmas_ok (v # vs)" using assms(1) lookup_split [of b ts] Cons by (metis vmas_ok_append)
  have bv: "b < vma_end v" using lookup_suffix_end [OF assms(1), of v b] Cons by simp
  have sub: "set (v # vs) \<subseteq> set ts" using Cons lookup_split [of b ts] by (metis set_append Un_upper2)
  show ?thesis
  proof (cases "e \<le> vma_begin v")
    case True
    have "\<not> all_at Q b e (v # vs)"
      by (rule all_at_gap [OF ok assms(2)]) (use True assms(2) ok in \<open>auto simp: vma_ok_def\<close>)
    then show ?thesis using Cons True assms(2) unfolding all_at_suffix [OF assms(1), of Q]
      by (auto simp: u_traverse_vmas_in_range_def)
  next
    case False
    obtain r where "traverse_from visitor e v vs (True \<and> vma_begin v \<le> b) c = Some (r, fold f (visited Q e (v # vs)) c)"
      "r \<and> list_all Q (visited Q e (v # vs)) \<longleftrightarrow> True \<and> all_at Q b e (v # vs)"
    proof -
      have "vma_begin v < e" "\<And>w c. w \<in> set (v # vs) \<Longrightarrow> I c \<Longrightarrow> visitor w c = Some (Q w, f w c) \<and> I (f w c)"
        using False sub assms(4) by auto
      then have "\<exists>r. traverse_from visitor e v vs (True \<and> vma_begin v \<le> b) c = Some (r, fold f (visited Q e (v # vs)) c) \<and>
          (r \<and> list_all Q (visited Q e (v # vs)) \<longleftrightarrow> True \<and> all_at Q b e (v # vs))"
        by (intro traverse_from_visits [where I = I, OF ok _ bv assms(2,3)])
      then show thesis using that by blast
    qed
    then show ?thesis using False assms(2) unfolding all_at_suffix [OF assms(1), of Q] u_traverse_vmas_in_range_def Cons
      by (intro exI [of _ r]) (simp del: visited.simps)
  qed
qed

lemma adjacent_all_at:
  assumes "vmas_ok (vma_tree st)" "a + len < 2 ^ 64"
  shows "is_in_adjacent_user_vmas a len prot st = Some (all_at (user_access prot) a (a + len) (vma_tree st))"
proof (cases "len = 0")
  case True
  then show ?thesis using assms(2)
    by (auto simp: is_in_adjacent_user_vmas_def u_traverse_vmas_in_range_def all_at_def)
next
  case False
  have fold: "fold (\<lambda>v ok. ok \<and> user_access prot v) vs ok \<longleftrightarrow> ok \<and> list_all (user_access prot) vs" for vs ok
    by (induction vs arbitrary: ok) auto
  have "adj_visitor prot w ok = Some (user_access prot w, ok \<and> user_access prot w) \<and> True" for w ok
    by (simp add: adj_visitor_def user_access_def Let_def)
  then obtain r where "u_traverse_vmas_in_range a (a + len) (adj_visitor prot) True (vma_tree st) =
      Some (r, fold (\<lambda>v ok. ok \<and> user_access prot v) (visited (user_access prot) (a + len) (lookup_suffix a (vma_tree st))) True)"
    "r \<and> list_all (user_access prot) (visited (user_access prot) (a + len) (lookup_suffix a (vma_tree st))) \<longleftrightarrow>
      all_at (user_access prot) a (a + len) (vma_tree st)"
    using traverse_visits [where I = "\<lambda>_. True" and b = a and e = "a + len" and visitor = "adj_visitor prot" and c = True and
      Q = "user_access prot" and f = "\<lambda>v ok. ok \<and> user_access prot v", OF assms(1)] False by auto
  then show ?thesis using assms(2) by (simp add: is_in_adjacent_user_vmas_def fold)
qed

lemma vmas_ok_unique:
  assumes "vmas_ok ts" "v \<in> set ts" "w \<in> set ts" "is_addr_in_vma x v" "is_addr_in_vma x w"
  shows "v = w"
  using assms by (induction ts) (auto simp: is_addr_in_vma_def)

text \<open>C9: The check of a user range (\<^verbatim>\<open>is_in_adjacent_user_vmas\<close>) is exact: on an address space in order and a
  range that does not wrap around, it answers true exactly if every address of the range is mapped, by regions that
  belong to the user and allow the access asked for. Gaps between regions, in front of the first one and behind the
  last one are all found, whatever region the traversal stops at.\<close>

theorem adjacent_user_vmas_exact:
  assumes "vma_inv st" "a + len < 2 ^ 64"
  shows "is_in_adjacent_user_vmas a len prot st = Some (\<forall>x. a \<le> x \<and> x < a + len \<longrightarrow>
    (\<exists>pr fl file comment. page_map (vma_tree st) x = Some (pr, fl, file, comment) \<and>
       \<not> has_flag fl (VMA_INTERNAL OR VMA_UNMAPPED) \<and> pr AND prot = prot))"
proof -
  have ok: "vmas_ok (vma_tree st)" using assms(1) by (simp add: vma_inv_def mem_ok_def)
  have "(\<exists>v\<in>set (vma_tree st). is_addr_in_vma x v \<and> user_access prot v) \<longleftrightarrow>
    (\<exists>pr fl file comment. page_map (vma_tree st) x = Some (pr, fl, file, comment) \<and>
       \<not> has_flag fl (VMA_INTERNAL OR VMA_UNMAPPED) \<and> pr AND prot = prot)" for x
  proof (cases "\<exists>v\<in>set (vma_tree st). is_addr_in_vma x v")
    case True
    then obtain v where v: "v \<in> set (vma_tree st)" "is_addr_in_vma x v" by blast
    have "(\<exists>w\<in>set (vma_tree st). is_addr_in_vma x w \<and> user_access prot w) \<longleftrightarrow> user_access prot v"
      using v vmas_ok_unique [OF ok _ v(1) _ v(2)] by metis
    then show ?thesis by (simp add: page_map_in [OF ok v] vma_page_def user_access_def)
  next
    case False
    then show ?thesis using page_map_NoneI [of "vma_tree st" x] by auto
  qed
  then show ?thesis using adjacent_all_at [OF ok assms(2), of prot] unfolding all_at_def by simp
qed

theorem adjacent_user_vmas_exact_witness:
  "is_in_adjacent_user_vmas 0x11000 0x2000 PROT_READ demo_state = Some True \<and>
   is_in_adjacent_user_vmas 0x13000 0x2000 PROT_READ demo_state = Some False"
proof -
  have "page_map (vma_tree demo_state) x = Some (3, MAP_SHARED, Some (demo_file, u64 (0x2000 + (x - 0x10000))), ''data'')"
    if "0x11000 \<le> x" "x < 0x13000" for x
    using that by (simp add: demo_defs vma_pages_def vma_page_def is_addr_in_vma_def map_add_def)
  moreover have "page_map (vma_tree demo_state) 0x14000 = None"
    by (simp add: demo_defs vma_pages_def is_addr_in_vma_def map_add_def)
  moreover have "\<not> has_flag MAP_SHARED (VMA_INTERNAL OR VMA_UNMAPPED)" "(3 :: flags) AND PROT_READ = PROT_READ"
    by (simp_all add: vma_consts)
  ultimately have "\<forall>x. 0x11000 \<le> x \<and> x < 0x13000 \<longrightarrow> (\<exists>pr fl file comment. page_map (vma_tree demo_state) x =
      Some (pr, fl, file, comment) \<and> \<not> has_flag fl (VMA_INTERNAL OR VMA_UNMAPPED) \<and> pr AND PROT_READ = PROT_READ)"
    "\<not> (\<forall>x. 0x13000 \<le> x \<and> x < 0x15000 \<longrightarrow> (\<exists>pr fl file comment. page_map (vma_tree demo_state) x =
      Some (pr, fl, file, comment) \<and> \<not> has_flag fl (VMA_INTERNAL OR VMA_UNMAPPED) \<and> pr AND PROT_READ = PROT_READ))"
    by (blast, auto intro!: exI [of _ "0x14000"])
  then show ?thesis
    using adjacent_user_vmas_exact [OF demo_inv, of "0x11000" "0x2000" PROT_READ]
      adjacent_user_vmas_exact [OF demo_inv, of "0x13000" "0x2000" PROT_READ] by simp
qed

section \<open>Copies\<close>

lemma filter_overlaps:
  assumes "vmas_ok vs" "\<And>v. v \<in> set vs \<Longrightarrow> b < vma_end v"
  shows "filter (overlaps b e) vs = takeWhile (\<lambda>v. vma_begin v < e) vs"
  using assms
proof (induction vs)
  case (Cons v vs)
  have "filter (overlaps b e) vs = []" if "e \<le> vma_begin v"
    using Cons.prems(1) that by (fastforce simp: filter_empty_conv overlaps_def vma_ok_def)
  moreover have "filter (overlaps b e) vs = takeWhile (\<lambda>v. vma_begin v < e) vs" using Cons by simp
  moreover have "overlaps b e v \<longleftrightarrow> vma_begin v < e" using Cons.prems(2) by (simp add: overlaps_def)
  ultimately show ?case by (cases "vma_begin v < e") simp_all
qed simp

lemma overlaps_takeWhile:
  assumes "vmas_ok ts"
  shows "takeWhile (\<lambda>v. vma_begin v < e) (lookup_suffix b ts) = filter (overlaps b e) ts"
proof -
  have "filter (overlaps b e) (lookup_prefix b ts) = []"
    using lookup_prefix_end by (fastforce simp: filter_empty_conv overlaps_def)
  moreover have "filter (overlaps b e) (lookup_suffix b ts) = takeWhile (\<lambda>v. vma_begin v < e) (lookup_suffix b ts)"
    using assms lookup_split [of b ts] lookup_suffix_end [OF assms] by (metis filter_overlaps vmas_ok_append)
  ultimately show ?thesis using lookup_split [of b ts] by (metis append_Nil filter_append)
qed

lemma get_file_refs: "get_file (vma_file v) st = st\<lparr>hdl_refs := \<lambda>i. hdl_refs st i + handle_count i [v]\<rparr>"
  by (auto simp: get_file_def maps_handle_def fun_eq_iff split: option.splits)

lemma put_file_refs: "put_file (vma_file v) st = st\<lparr>hdl_refs := \<lambda>i. hdl_refs st i - handle_count i [v]\<rparr>"
  by (auto simp: put_file_def maps_handle_def fun_eq_iff split: option.splits)

lemma free_infos: "free_vma_info_array (map vma_info vs) st = st\<lparr>hdl_refs := \<lambda>i. hdl_refs st i - handle_count i vs\<rparr>"
  by (induction vs arbitrary: st) (simp_all add: vma_info_def put_file_refs diff_diff_left del: handle_count_simps(2), simp_all)

definition get_files :: "libos_vma list \<Rightarrow> vma_state \<Rightarrow> vma_state" where
  "get_files vs st = st\<lparr>hdl_refs := \<lambda>i. hdl_refs st i + handle_count i vs\<rparr>"

lemma free_get_files [simp]: "free_vma_info_array (map vma_info vs) (get_files vs st) = st"
  by (simp add: free_infos get_files_def)

lemma get_files_simps [simp]:
  "get_files [] st = st" "vma_tree (get_files vs st) = vma_tree st"
  "get_files vs (get_file (vma_file v) st) = get_files (v # vs) st"
  by (simp_all add: get_files_def get_file_refs add.assoc)

lemma dump_loop_total:
  "dump_loop (\<lambda>v. Some (p v)) m e vs n infos st =
    (let sel = filter p (takeWhile (\<lambda>v. vma_begin v < e) vs); new = take (m - n) sel
     in Some (n + length sel, infos @ map vma_info new, get_files new st))"
  by (induction vs arbitrary: n infos st)
    (auto simp: Let_def dump_vma_def take_Cons' Suc_diff_Suc)

lemma dump_with_buf_total:
  assumes "vmas_ok (vma_tree st)"
  shows "dump_vmas_with_buf m b e (\<lambda>v. Some (p v)) st =
    (let sel = filter (\<lambda>v. overlaps b e v \<and> p v) (vma_tree st)
     in Some (length sel, map vma_info (take m sel), get_files (take m sel) st))"
  by (simp add: dump_vmas_with_buf_def dump_loop_total overlaps_takeWhile [OF assms] Let_def conj_commute)

lemma dump_vmas_total:
  assumes "vmas_ok (vma_tree st)" "sel = filter (\<lambda>v. overlaps b e v \<and> p v) (vma_tree st)"
  shows "dump_vmas calloc b e (\<lambda>v. Some (p v)) st =
    (if \<not> calloc 0 \<or> DEFAULT_VMA_COUNT < length sel \<and> \<not> calloc 1 then Some (- ENOMEM, [], st)
     else Some (0, map vma_info sel, get_files sel st))"
  by (auto simp: dump_vmas_def numeral_2_eq_2 dump_with_buf_total [OF assms(1), of _ b e p, folded assms(2), unfolded Let_def])

text \<open>Copying out the regions of a range (\<^verbatim>\<open>dump_vmas\<close>) is exact and ends, for every filter: either an array
  cannot be allocated, and the result is \<^verbatim>\<open>-ENOMEM\<close> with every reference as before, or the result is the list of
  copies of exactly the regions that meet the range and pass the filter, in the order of their addresses, with one
  more reference on the file of each. Two rounds are enough, the second only for more than 64 regions, and freeing the
  array (\<^verbatim>\<open>free_vma_info_array\<close>) gives the references back.\<close>

theorem dump_vmas_exact:
  assumes "vma_inv st" "sel = filter (\<lambda>v. overlaps b e v \<and> p v) (vma_tree st)"
  shows "if \<not> calloc 0 \<or> DEFAULT_VMA_COUNT < length sel \<and> \<not> calloc 1
    then dump_vmas calloc b e (\<lambda>v. Some (p v)) st = Some (- ENOMEM, [], st)
    else \<exists>st'. dump_vmas calloc b e (\<lambda>v. Some (p v)) st = Some (0, map vma_info sel, st') \<and>
      (\<forall>i. hdl_refs st' i = hdl_refs st i + handle_count i sel) \<and> free_vma_info_array (map vma_info sel) st' = st"
proof -
  have "vmas_ok (vma_tree st)" using assms(1) by (simp add: vma_inv_def mem_ok_def)
  then show ?thesis using dump_vmas_total [OF _ assms(2), of calloc] free_get_files by (auto simp: get_files_def)
qed

theorem dump_vmas_exact_witness:
  "\<exists>st'. dump_vmas (\<lambda>k. True) 0x12000 0x30000 (\<lambda>v. Some (\<not> has_flag (vma_flags v) VMA_INTERNAL)) demo_state =
     Some (0, [vma_info demo_vma], st') \<and> hdl_refs st' 7 = 3 \<and> free_vma_info_array [vma_info demo_vma] st' = demo_state"
proof -
  have sel: "[demo_vma] = filter (\<lambda>v. overlaps 0x12000 0x30000 v \<and> \<not> has_flag (vma_flags v) VMA_INTERNAL) (vma_tree demo_state)"
    by (simp add: demo_defs overlaps_def vma_consts)
  obtain st' where "dump_vmas (\<lambda>k. True) 0x12000 0x30000 (\<lambda>v. Some (\<not> has_flag (vma_flags v) VMA_INTERNAL)) demo_state =
      Some (0, [vma_info demo_vma], st')" "\<And>i. hdl_refs st' i = hdl_refs demo_state i + handle_count i [demo_vma]"
      "free_vma_info_array [vma_info demo_vma] st' = demo_state"
    using dump_vmas_exact [OF demo_inv sel, of "\<lambda>k. True"] by (auto simp: DEFAULT_VMA_COUNT_def)
  then show ?thesis by (auto simp: demo_defs maps_handle_def)
qed

section \<open>Writing back\<close>

definition msync_of :: "addr \<Rightarrow> addr \<Rightarrow> libos_vma \<Rightarrow> msync_call" where
  "msync_of b e v = \<lparr>mc_file = the (vma_file v), mc_begin = max b (vma_begin v),
     mc_len = min e (vma_end v) - max b (vma_begin v), mc_prot = vma_prot v, mc_flags = vma_flags v, mc_offset = vma_offset v\<rparr>"

definition needs_msync :: "libos_handle option \<Rightarrow> libos_vma \<Rightarrow> bool" where
  "needs_msync hdl v \<longleftrightarrow> \<not> has_flag (vma_flags v) not_shared_file \<and> (\<exists>f. vma_file v = Some f \<and>
     (\<forall>h. hdl = Some h \<longrightarrow> hdl_id f = hdl_id h) \<and> hdl_has_msync f \<and> hdl_may_write f)"

definition shared_have_files :: "libos_vma list \<Rightarrow> bool" where
  "shared_have_files ts \<longleftrightarrow> (\<forall>v\<in>set ts. has_flag (vma_flags v) not_shared_file \<or> vma_file v \<noteq> None)"

lemma msync_loop_calls:
  assumes "\<And>v. v \<in> set vs \<Longrightarrow> vma_ok v \<and> (\<exists>f. vma_file v = Some f \<and> hdl_has_msync f)"
    "IS_ALLOC_ALIGNED b" "e = UINTPTR_MAX \<or> IS_ALLOC_ALIGNED e"
  shows "\<exists>ret n. msync_loop msync b e (map vma_info vs) calls = Some (ret, calls @ take n (map (msync_of b e) vs)) \<and>
    n \<le> length vs \<and> (if ret < 0 then 0 < n \<and> ret = msync (length calls + n - 1) else ret = 0 \<and> n = length vs)"
  using assms(1)
proof (induction vs arbitrary: calls)
  case (Cons v vs)
  obtain f where f: "vma_file v = Some f" "hdl_has_msync f" and v: "vma_ok v" using Cons.prems [of v] by auto
  have e: "u64 (vma_begin v + (vma_end v - vma_begin v)) = vma_end v" using v by (simp add: vma_ok_def u64_def)
  have "min e (vma_end v) = vma_end v" if "e = UINTPTR_MAX" using v that by (simp add: vma_ok_def UINTPTR_MAX_def)
  then have al: "IS_ALLOC_ALIGNED (max b (vma_begin v))" "IS_ALLOC_ALIGNED (min e (vma_end v))"
    using v assms(2,3) by (auto simp: vma_ok_def max_def min_def)
  have step: "msync_loop msync b e (map vma_info (v # vs)) calls =
    (let ret = msync (length calls); calls = calls @ [msync_of b e v]
     in if ret < 0 then Some (ret, calls) else msync_loop msync b e (map vma_info vs) calls)"
    using f al by (simp add: vma_info_def msync_of_def e Let_def)
  show ?case
  proof (cases "msync (length calls) < 0")
    case True
    then show ?thesis using step by (intro exI [of _ "msync (length calls)"] exI [of _ 1]) (simp add: Let_def)
  next
    case False
    obtain ret n where "msync_loop msync b e (map vma_info vs) (calls @ [msync_of b e v]) =
        Some (ret, (calls @ [msync_of b e v]) @ take n (map (msync_of b e) vs))"
      "n \<le> length vs" "if ret < 0 then 0 < n \<and> ret = msync (length (calls @ [msync_of b e v]) + n - 1) else ret = 0 \<and> n = length vs"
      using Cons.IH [of "calls @ [msync_of b e v]"] Cons.prems by auto
    then show ?thesis using step False
      by (intro exI [of _ ret] exI [of _ "Suc n"]) (auto simp: Let_def split: if_splits)
  qed
qed simp

lemma dump_loop_cong:
  "(\<And>v. v \<in> set vs \<Longrightarrow> f v = g v) \<Longrightarrow> dump_loop f m e vs n infos st = dump_loop g m e vs n infos st"
proof (induction vs arbitrary: n infos st)
  case (Cons v vs)
  have eq: "f v = g v" using Cons.prems by simp
  have rest: "dump_loop f m e vs n infos st = dump_loop g m e vs n infos st" for n infos st
    using Cons.IH Cons.prems by simp
  show ?case by (simp add: dump_vma_def eq rest split: option.split bool.split)
qed simp

lemma free_infos_tree [simp]: "vma_tree (free_vma_info_array is st) = vma_tree st"
  by (induction "is" arbitrary: st) (simp_all add: put_file_def split: option.splits)

lemma dump_loop_tree: "dump_loop f m e vs n infos st = Some (k, is, st') \<Longrightarrow> vma_tree st' = vma_tree st"
  by (induction f m e vs n infos st rule: dump_loop.induct)
    (auto simp: dump_vma_def get_file_def split: if_splits option.splits bool.splits)

lemma dump_vmas_cong:
  assumes "\<And>v. v \<in> set (vma_tree st) \<Longrightarrow> f v = g v"
  shows "dump_vmas calloc b e f st = dump_vmas calloc b e g st"
proof -
  have buf: "dump_vmas_with_buf m b e f s = dump_vmas_with_buf m b e g s" if "vma_tree s = vma_tree st" for m s
    unfolding dump_vmas_with_buf_def that lookup_suffix_def
    by (rule dump_loop_cong) (rule assms, rule set_dropWhileD)
  have "dump_rounds n calloc k m b e f s = dump_rounds n calloc k m b e g s" if "vma_tree s = vma_tree st" for n k m s
    using that
  proof (induction n arbitrary: k m s)
    case (Suc n)
    have eq: "dump_vmas_with_buf m b e f s = dump_vmas_with_buf m b e g s" using buf [OF Suc.prems] .
    show ?case
    proof (cases "dump_vmas_with_buf m b e g s")
      case (Some r)
      then obtain j infos s' where r: "dump_vmas_with_buf m b e g s = Some (j, infos, s')" by (cases r) auto
      then have "vma_tree s' = vma_tree st" using dump_loop_tree Suc.prems by (simp add: dump_vmas_with_buf_def)
      then show ?thesis using Suc.IH [of "free_vma_info_array infos s'"] eq r by simp
    qed (simp add: eq)
  qed simp
  then show ?thesis by (simp add: dump_vmas_def)
qed

lemma u64_offset:
  assumes "p < 2 ^ 64" "d < 2 ^ 64"
  shows "p = u64 (p + d) \<longleftrightarrow> d = 0"
proof (cases "p + d < 2 ^ 64")
  case True
  then show ?thesis by (simp add: u64_def)
next
  case False
  then have "(p + d) mod 2 ^ 64 = (p + d - 2 ^ 64) mod 2 ^ 64" by (simp add: le_mod_geq)
  then have "(p + d) mod 2 ^ 64 = p + d - 2 ^ 64" using assms by simp
  then show ?thesis using assms False by (simp add: u64_def)
qed

lemma msync_of_page:
  assumes "vmas_ok ts" "v \<in> set ts" "overlaps b e v" "vma_file v = Some f" "vma_offset v < 2 ^ 64"
  shows "\<exists>off. page_map ts (mc_begin (msync_of b e v)) =
      Some (vma_prot v, vma_flags v, Some (mc_file (msync_of b e v), off), vma_comment v) \<and>
    (mc_offset (msync_of b e v) = off \<longleftrightarrow> b \<le> vma_begin v)"
proof -
  have v: "vma_begin v < vma_end v" "vma_end v < 2 ^ 64" using vmas_okD [OF assms(1,2)] by auto
  then have "is_addr_in_vma (max b (vma_begin v)) v" using assms(3) by (auto simp: overlaps_def is_addr_in_vma_def)
  note page = page_map_in [OF assms(1,2) this]
  have "max b (vma_begin v) - vma_begin v < 2 ^ 64" using v assms(3) by (auto simp: overlaps_def max_def)
  from u64_offset [OF assms(5) this] show ?thesis
    by (auto simp: page msync_of_def vma_page_def assms(4))
qed

text \<open>C19: Writing back (\<^verbatim>\<open>msync_all\<close>, for a page-aligned range or the whole address space, with memory for the copy) calls \<^verbatim>\<open>msync\<close> of the file
  systems on exactly the shared file mappings that meet the range (of the given handle, if there is one) and are
  writable, in order, each on the part inside the range, stops at the first failure and returns its error, and leaves the
  address space and the references as they were. But the file offset it passes is the one of the start of the region:
  it is the offset that the first address of the part shows exactly if the region does not start in front of the
  range.\<close>

theorem msync_all_calls:
  assumes "vma_inv st" "shared_have_files (vma_tree st)" "IS_ALLOC_ALIGNED b" "e = UINTPTR_MAX \<or> IS_ALLOC_ALIGNED e"
    and "\<And>k. calloc k" "sel = filter (\<lambda>v. overlaps b e v \<and> needs_msync hdl v) (vma_tree st)"
    and "\<And>v. v \<in> set sel \<Longrightarrow> vma_offset v < 2 ^ 64"
  shows "(\<exists>ret n. msync_all calloc msync b e hdl st = Some (ret, take n (map (msync_of b e) sel), st) \<and>
      n \<le> length sel \<and> (if ret < 0 then 0 < n \<and> ret = msync (n - 1) else ret = 0 \<and> n = length sel)) \<and>
    (\<forall>v\<in>set sel. \<exists>off. page_map (vma_tree st) (mc_begin (msync_of b e v)) =
        Some (vma_prot v, vma_flags v, Some (mc_file (msync_of b e v), off), vma_comment v) \<and>
      (mc_offset (msync_of b e v) = off \<longleftrightarrow> b \<le> vma_begin v))"
proof -
  have ok: "vmas_ok (vma_tree st)" using assms(1) by (simp add: vma_inv_def mem_ok_def)
  have sel: "vma_ok v \<and> (\<exists>f. vma_file v = Some f \<and> hdl_has_msync f)" if "v \<in> set sel" for v
    using that vmas_okD(1) [OF ok] unfolding assms(6) needs_msync_def by auto
  have flt: "vma_filter_needs_msync hdl v = Some (needs_msync hdl v)" if "v \<in> set (vma_tree st)" for v
    using assms(2) that unfolding shared_have_files_def
    by (auto simp: vma_filter_needs_msync_def needs_msync_def split: option.splits)
  have dumped: "dump_vmas calloc b e (vma_filter_needs_msync hdl) st = Some (0, map vma_info sel, get_files sel st)"
    using dump_vmas_total [OF ok assms(6), of calloc] assms(5)
      dump_vmas_cong [of st, OF flt, where calloc = calloc and b = b and e = e] by simp
  obtain ret n where "msync_loop msync b e (map vma_info sel) [] = Some (ret, [] @ take n (map (msync_of b e) sel))"
    "n \<le> length sel" "if ret < 0 then 0 < n \<and> ret = msync (length ([] :: msync_call list) + n - 1) else ret = 0 \<and> n = length sel"
    using msync_loop_calls [OF sel assms(3,4), where msync = msync and calls = "[]"] by blast
  then have "\<exists>ret n. msync_all calloc msync b e hdl st = Some (ret, take n (map (msync_of b e) sel), st) \<and>
      n \<le> length sel \<and> (if ret < 0 then 0 < n \<and> ret = msync (n - 1) else ret = 0 \<and> n = length sel)"
    using dumped assms(3,4) by (intro exI [of _ ret] exI [of _ n]) (auto simp: msync_all_def)
  moreover have "\<exists>off. page_map (vma_tree st) (mc_begin (msync_of b e v)) =
        Some (vma_prot v, vma_flags v, Some (mc_file (msync_of b e v), off), vma_comment v) \<and>
      (mc_offset (msync_of b e v) = off \<longleftrightarrow> b \<le> vma_begin v)" if v: "v \<in> set sel" for v
    using msync_of_page [OF ok, of v b e] sel [OF v] assms(7) [OF v] v unfolding assms(6) by auto
  ultimately show ?thesis by blast
qed

theorem msync_all_calls_witness:
  "\<exists>ret. msync_all (\<lambda>k. True) (\<lambda>n. 0) 0x11000 0x13000 None demo_state = Some (ret,
     [\<lparr>mc_file = demo_file, mc_begin = 0x11000, mc_len = 0x2000, mc_prot = 3, mc_flags = MAP_SHARED, mc_offset = 0x2000\<rparr>],
     demo_state) \<and>
   page_map (vma_tree demo_state) 0x11000 = Some (3, MAP_SHARED, Some (demo_file, 0x3000), ''data'')"
proof -
  have sel: "[demo_vma] = filter (\<lambda>v. overlaps 0x11000 0x13000 v \<and> needs_msync None v) (vma_tree demo_state)"
    "shared_have_files (vma_tree demo_state)" "IS_ALLOC_ALIGNED 0x11000" "(0x13000 :: nat) = UINTPTR_MAX \<or> IS_ALLOC_ALIGNED 0x13000"
    by (simp_all add: demo_defs overlaps_def needs_msync_def not_shared_file_def shared_have_files_def vma_consts
        IS_ALLOC_ALIGNED_def ALLOC_ALIGNMENT_def)
  have off: "vma_offset v < 2 ^ 64" if "v \<in> set [demo_vma]" for v using that by (simp add: demo_defs)
  have call: "msync_of 0x11000 0x13000 demo_vma = \<lparr>mc_file = demo_file, mc_begin = 0x11000, mc_len = 0x2000, mc_prot = 3,
      mc_flags = MAP_SHARED, mc_offset = 0x2000\<rparr>"
    by (simp add: msync_of_def demo_vma_def)
  show ?thesis
    using msync_all_calls [OF demo_inv sel(2,3,4) _ sel(1) off, where calloc = "\<lambda>k. True" and msync = "\<lambda>n. 0"]
    by (auto simp: call split: if_splits)
      (simp_all add: demo_defs vma_pages_def vma_page_def is_addr_in_vma_def map_add_def u64_def)
qed

end
