(* ===== verification/Mem_File.thy ===== *)
theory Mem_File
  imports Prelude
begin

text \<open>
  Files kept in memory (\<^verbatim>\<open>libos/src/fs/libos_fs_mem.c\<close>, \<^verbatim>\<open>libos_fs_mem.h\<close>), the storage of tmpfs: a buffer, its
  capacity and the size of the file. The buffer is the list of its bytes, \<^verbatim>\<open>file_off_t\<close> is an integer whose overflow
  at \<open>2 ^ 63\<close> is written out, and the success of \<^verbatim>\<open>malloc\<close> is an argument. \<open>None\<close> is a failed assertion, an access
  outside the buffer or a loop that does not end.
\<close>

section \<open>Operations\<close>

type_synonym byte = "8 word"

definition EFBIG :: int where "EFBIG = 27"

definition FILE_OFF_MAX :: int where "FILE_OFF_MAX = 2 ^ 63 - 1"

definition MIN_RESIZE :: nat where "MIN_RESIZE = 16"

definition POLLIN :: flags where "POLLIN = 1"
definition POLLOUT :: flags where "POLLOUT = 4"
definition POLLRDNORM :: flags where "POLLRDNORM = 0x40"
definition POLLWRNORM :: flags where "POLLWRNORM = 0x100"

record libos_mem_file =
  mf_buf :: "byte list"
  mf_size :: int
  mf_buf_size :: nat

definition mem_file_resize :: "bool \<Rightarrow> libos_mem_file \<Rightarrow> nat \<Rightarrow> (int \<times> libos_mem_file) option" where
  "mem_file_resize malloc mem buf_size =
     (if \<not> 0 < buf_size then None
      else if \<not> malloc then Some (- ENOMEM, mem)
      else let min_size = min buf_size (nat (mf_size mem mod 2 ^ 64))
           in if length (mf_buf mem) < min_size then None
              else Some (0, mem\<lparr>mf_buf := take min_size (mf_buf mem) @ replicate (buf_size - min_size) 0,
                mf_buf_size := buf_size\<rparr>))"

definition mem_file_init :: "byte list \<Rightarrow> nat \<Rightarrow> libos_mem_file option" where
  "mem_file_init data len =
     (if FILE_OFF_MAX < int len then None
      else Some \<lparr>mf_buf = data, mf_size = int len, mf_buf_size = len\<rparr>)"

definition mem_file_read :: "libos_mem_file \<Rightarrow> int \<Rightarrow> nat \<Rightarrow> (int \<times> byte list) option" where
  "mem_file_read mem pos_start len =
     (if \<not> 0 \<le> pos_start then None
      else let pos_end = (if FILE_OFF_MAX < pos_start + int len \<or> mf_size mem < pos_start + int len
                          then mf_size mem else pos_start + int len);
               len = (if pos_start \<le> pos_end then nat (pos_end - pos_start) else 0)
           in if 0 < len
              then if length (mf_buf mem) < nat pos_start + len then None
                   else Some (int len, take len (drop (nat pos_start) (mf_buf mem)))
              else Some (0, []))"

text \<open>The loop that doubles the capacity; \<open>Some None\<close> is its overflow.\<close>

partial_function (option) grow_buf :: "nat \<Rightarrow> nat \<Rightarrow> nat option option" where
  "grow_buf need buf_size =
     (if buf_size < need
      then if 2 ^ 64 \<le> buf_size * 2 then Some None else grow_buf need (buf_size * 2)
      else Some (Some buf_size))"

text \<open>The loop that halves it.\<close>

partial_function (option) shrink_buf :: "nat \<Rightarrow> nat \<Rightarrow> nat option" where
  "shrink_buf len buf_size =
     (if len \<le> buf_size div 2 then shrink_buf len (buf_size div 2) else Some buf_size)"

definition mem_file_write :: "bool \<Rightarrow> libos_mem_file \<Rightarrow> int \<Rightarrow> byte list \<Rightarrow> (int \<times> libos_mem_file) option" where
  "mem_file_write malloc mem pos_start buf =
     (if \<not> 0 \<le> pos_start then None
      else let len = length buf; pos_end = pos_start + int len
      in if FILE_OFF_MAX < pos_end then Some (- EFBIG, mem)
         else if \<not> (0 \<le> pos_end \<and> pos_end < 2 ^ 64) then Some (- EFBIG, mem)
         else if \<not> 0 < len then Some (int len, mem)
         else let resized =
                (if mf_buf_size mem < nat pos_end
                 then case grow_buf (nat pos_end) (max (mf_buf_size mem) MIN_RESIZE) of
                        None \<Rightarrow> None
                      | Some None \<Rightarrow> Some (- EFBIG, mem)
                      | Some (Some buf_size) \<Rightarrow> mem_file_resize malloc mem buf_size
                 else Some (0, mem))
         in case resized of
              None \<Rightarrow> None
            | Some (ret, mem) \<Rightarrow>
                if ret < 0 then Some (ret, mem)
                else if \<not> nat pos_end \<le> mf_buf_size mem \<or> length (mf_buf mem) < nat pos_end then None
                else Some (int len, mem\<lparr>mf_size := if mf_size mem < pos_end then pos_end else mf_size mem,
                       mf_buf := take (nat pos_start) (mf_buf mem) @ buf @ drop (nat pos_end) (mf_buf mem)\<rparr>))"

definition mem_file_truncate :: "bool \<Rightarrow> libos_mem_file \<Rightarrow> int \<Rightarrow> (int \<times> libos_mem_file) option" where
  "mem_file_truncate malloc mem len =
     (if \<not> 0 \<le> len then None
      else if \<not> len < 2 ^ 64 then Some (- EFBIG, mem)
      else let new_size =
             (if mf_buf_size mem < nat len then grow_buf (nat len) (max (mf_buf_size mem) MIN_RESIZE)
              else if 0 < len then map_option (\<lambda>bs. Some (max bs MIN_RESIZE)) (shrink_buf (nat len) (mf_buf_size mem))
              else Some (Some MIN_RESIZE))
      in case new_size of
           None \<Rightarrow> None
         | Some None \<Rightarrow> Some (- EFBIG, mem)
         | Some (Some buf_size) \<Rightarrow>
             if \<not> nat len \<le> buf_size then None
             else case (if buf_size \<noteq> mf_buf_size mem then mem_file_resize malloc mem buf_size else Some (0, mem)) of
                    None \<Rightarrow> None
                  | Some (ret, mem) \<Rightarrow> if ret < 0 then Some (ret, mem) else Some (0, mem\<lparr>mf_size := len\<rparr>))"

definition mem_file_poll :: "libos_mem_file \<Rightarrow> int \<Rightarrow> flags \<Rightarrow> int \<times> flags" where
  "mem_file_poll mem pos events =
     (let out_events = events AND (POLLOUT OR POLLWRNORM)
      in (0, if pos < mf_size mem then out_events OR (events AND (POLLIN OR POLLRDNORM)) else out_events))"

section \<open>Capacity\<close>

text \<open>
  The loops end, the doubling without overflow for every size a \<^verbatim>\<open>file_off_t\<close> can hold.
\<close>

declare grow_buf.simps [simp del] shrink_buf.simps [simp del]

lemma grow_buf_result:
  assumes "0 < bs" "need < 2 ^ 63" "bs < 2 ^ 64"
  shows "\<exists>n. grow_buf need bs = Some (Some n) \<and> need \<le> n \<and> bs \<le> n \<and> n < 2 ^ 64"
  using assms
proof (induction "need - bs" arbitrary: bs rule: less_induct)
  case less
  show ?case
  proof (cases "bs < need")
    case True
    then have "\<exists>n. grow_buf need (bs * 2) = Some (Some n) \<and> need \<le> n \<and> bs * 2 \<le> n \<and> n < 2 ^ 64"
      using less.prems by (intro less.hyps) auto
    then show ?thesis using True less.prems by (subst grow_buf.simps) auto
  next
    case False
    then show ?thesis using less.prems by (subst grow_buf.simps) auto
  qed
qed

lemma grow_from:
  assumes "bs < 2 ^ 64" "need < 2 ^ 63"
  obtains n where "grow_buf need (max bs MIN_RESIZE) = Some (Some n)" "need \<le> n" "bs \<le> n" "0 < n" "n < 2 ^ 64"
proof -
  have "0 < max bs MIN_RESIZE" "max bs MIN_RESIZE < 2 ^ 64" using assms(1) by (auto simp: MIN_RESIZE_def)
  then show thesis using that grow_buf_result [of "max bs MIN_RESIZE" need] assms(2) by fastforce
qed

lemma shrink_buf_result:
  assumes "0 < len" "len \<le> bs"
  shows "\<exists>n. shrink_buf len bs = Some n \<and> len \<le> n \<and> n \<le> bs"
  using assms
proof (induction bs rule: less_induct)
  case (less bs)
  show ?case
  proof (cases "len \<le> bs div 2")
    case True
    then have "\<exists>n. shrink_buf len (bs div 2) = Some n \<and> len \<le> n \<and> n \<le> bs div 2"
      using less.prems by (intro less.IH) auto
    then show ?thesis using True by (subst shrink_buf.simps) auto
  next
    case False
    then show ?thesis using less.prems by (subst shrink_buf.simps) auto
  qed
qed

section \<open>Files as byte sequences\<close>

definition mem_file_ok :: "libos_mem_file \<Rightarrow> bool" where
  "mem_file_ok m \<longleftrightarrow> 0 \<le> mf_size m \<and> mf_size m \<le> FILE_OFF_MAX \<and> nat (mf_size m) \<le> mf_buf_size m \<and>
     length (mf_buf m) = mf_buf_size m \<and> mf_buf_size m < 2 ^ 64"

definition content :: "libos_mem_file \<Rightarrow> byte list" where
  "content m = take (nat (mf_size m)) (mf_buf m)"

text \<open>The bytes of the buffer behind the end of the file.\<close>

definition slack :: "libos_mem_file \<Rightarrow> byte list" where
  "slack m = drop (nat (mf_size m)) (mf_buf m)"

definition clean :: "libos_mem_file \<Rightarrow> bool" where
  "clean m \<longleftrightarrow> slack m = replicate (length (slack m)) 0"

text \<open>The bytes the file shows up to a length: its own and then those that were in the buffer.\<close>

definition padded :: "byte list \<Rightarrow> byte list \<Rightarrow> nat \<Rightarrow> byte list" where
  "padded c s n = take n (c @ s @ replicate n 0)"

lemma length_content [simp]: "mem_file_ok m \<Longrightarrow> length (content m) = nat (mf_size m)"
  by (simp add: mem_file_ok_def content_def)

lemma buf_split: "mf_buf m = content m @ slack m"
  by (simp add: content_def slack_def)

lemma read_content:
  assumes "mem_file_ok m" "0 \<le> pos"
  shows "mem_file_read m pos n = Some (int (length (take n (drop (nat pos) (content m)))), take n (drop (nat pos) (content m)))"
proof -
  define k where "k = min n (nat (mf_size m) - nat pos)"
  define pos_end where "pos_end = (if FILE_OFF_MAX < pos + int n \<or> mf_size m < pos + int n then mf_size m else pos + int n)"
  have k: "(if pos \<le> pos_end then nat (pos_end - pos) else 0) = k"
    using assms by (auto simp: k_def pos_end_def mem_file_ok_def)
  have len: "\<not> length (mf_buf m) < nat pos + k" if "0 < k" using assms that by (auto simp: k_def mem_file_ok_def)
  have data: "take n (drop (nat pos) (content m)) = take k (drop (nat pos) (mf_buf m))"
    by (simp add: content_def k_def drop_take min.commute)
  have "length (take n (drop (nat pos) (content m))) = k" using assms(1) by (simp add: k_def min.commute)
  then show ?thesis using len assms(2) unfolding mem_file_read_def Let_def pos_end_def [symmetric] k data by auto
qed

lemma padded_zeros: "padded c (replicate k 0) n = padded c [] n"
  by (auto simp: padded_def min_def replicate_add [symmetric])

lemma padded_slack: "n \<le> length c + length s \<Longrightarrow> padded c s n = take n (c @ s)"
  by (simp add: padded_def)

lemma clean_padded: "clean m \<Longrightarrow> padded (content m) (slack m) n = padded (content m) [] n"
  unfolding clean_def by (metis padded_zeros)

text \<open>Enlarging the buffer keeps the file, and what is behind it is zero.\<close>

lemma resize_ok:
  assumes "mem_file_ok m" "0 < bs" "bs < 2 ^ 64"
  shows "mem_file_resize True m bs = Some (0, m\<lparr>mf_buf := take bs (content m) @ replicate (bs - nat (mf_size m)) 0, mf_buf_size := bs\<rparr>)"
proof -
  have "mf_size m mod 2 ^ 64 = mf_size m" using assms(1) by (simp add: mem_file_ok_def FILE_OFF_MAX_def)
  then show ?thesis using assms(1,2)
    by (auto simp: mem_file_resize_def Let_def content_def mem_file_ok_def min_def)
qed

lemma enlarge:
  assumes "mem_file_ok m" "nat (mf_size m) \<le> bs" "0 < bs" "bs < 2 ^ 64"
  shows "\<exists>m'. mem_file_resize True m bs = Some (0, m') \<and> mem_file_ok m' \<and> content m' = content m \<and>
    slack m' = replicate (bs - nat (mf_size m)) 0 \<and> mf_size m' = mf_size m \<and> mf_buf_size m' = bs"
  using resize_ok [OF assms(1,3,4)] assms
  by (auto simp: mem_file_ok_def content_def slack_def min_def)

lemma put_content:
  assumes "mem_file_ok m" "p + length data \<le> mf_buf_size m" "int (p + length data) \<le> FILE_OFF_MAX"
    and "m' = m\<lparr>mf_size := if mf_size m < int (p + length data) then int (p + length data) else mf_size m,
      mf_buf := take p (mf_buf m) @ data @ drop (p + length data) (mf_buf m)\<rparr>"
  shows "mem_file_ok m'" "content m' = padded (content m) (slack m) p @ data @ drop (p + length data) (content m)"
    "clean m \<Longrightarrow> clean m'"
proof -
  have ok: "length (mf_buf m) = mf_buf_size m" "nat (mf_size m) \<le> mf_buf_size m" "0 \<le> mf_size m"
    using assms(1) by (auto simp: mem_file_ok_def)
  show "mem_file_ok m'" using assms ok by (auto simp: mem_file_ok_def)
  have pad: "padded (content m) (slack m) p = take p (mf_buf m)"
    using ok assms(2) by (subst padded_slack) (auto simp: content_def slack_def)
  show "content m' = padded (content m) (slack m) p @ data @ drop (p + length data) (content m)"
  proof (cases "nat (mf_size m) < p + length data")
    case True
    then show ?thesis using assms(2,4) ok unfolding pad by (auto simp: content_def)
  next
    case False
    then show ?thesis using assms(2,4) ok unfolding pad by (auto simp: content_def drop_take)
  qed
  have "slack m' = drop (p + length data - nat (mf_size m)) (slack m)"
    using assms(2,4) ok by (auto simp: slack_def)
  then show "clean m \<Longrightarrow> clean m'" unfolding clean_def by (metis drop_replicate length_replicate)
qed

lemma write_at:
  assumes "mem_file_ok m" "0 \<le> pos" "data \<noteq> []" "pos + int (length data) \<le> FILE_OFF_MAX"
    and "mf_buf_size m < nat pos + length data \<Longrightarrow> malloc"
  shows "\<exists>m'. mem_file_write malloc m pos data = Some (int (length data), m') \<and> mem_file_ok m' \<and> (clean m \<longrightarrow> clean m') \<and>
    content m' = padded (content m) (if mf_buf_size m < nat pos + length data then [] else slack m) (nat pos) @ data @
      drop (nat pos + length data) (content m)"
proof -
  define p where "p = nat pos"
  have pos: "pos = int p" "nat (int p + int (length data)) = p + length data" using assms(2) by (auto simp: p_def)
  have lim: "\<not> FILE_OFF_MAX < int p + int (length data)" "int (p + length data) \<le> FILE_OFF_MAX" using assms(4) pos(1) by auto
  then have "0 \<le> int p + int (length data) \<and> int p + int (length data) < 2 ^ 64" by (simp add: FILE_OFF_MAX_def)
  note start = this lim(1) pos assms(3)
  show ?thesis
  proof (cases "mf_buf_size m < p + length data")
    case True
    obtain bs where bs: "grow_buf (p + length data) (max (mf_buf_size m) MIN_RESIZE) = Some (Some bs)"
      "p + length data \<le> bs" "mf_buf_size m \<le> bs" "0 < bs" "bs < 2 ^ 64"
    proof (rule grow_from [of "mf_buf_size m" "p + length data"])
      show "mf_buf_size m < 2 ^ 64" "p + length data < 2 ^ 63"
        using lim(2) assms(1) by (auto simp: FILE_OFF_MAX_def mem_file_ok_def)
    qed
    then obtain m1 where m1: "mem_file_resize True m bs = Some (0, m1)" "mem_file_ok m1" "content m1 = content m"
      "slack m1 = replicate (bs - nat (mf_size m)) 0" "mf_size m1 = mf_size m" "mf_buf_size m1 = bs"
      using enlarge [OF assms(1), of bs] assms(1) by (auto simp: mem_file_ok_def)
    note put = put_content [OF m1(2) _ lim(2) refl]
    have "clean m1" using m1(4) by (simp add: clean_def)
    then show ?thesis using True put bs m1 start assms(5) lim(2)
      by (auto simp: mem_file_write_def Let_def padded_zeros mem_file_ok_def)
  next
    case False
    then have "p + length data \<le> mf_buf_size m" by simp
    note put = put_content [OF assms(1) this lim(2) refl]
    show ?thesis using False put start assms(1) by (auto simp: mem_file_write_def Let_def mem_file_ok_def)
  qed
qed

lemma truncate_at:
  assumes "mem_file_ok m" "0 \<le> n" "n \<le> FILE_OFF_MAX"
  shows "\<exists>cap. mem_file_truncate malloc m n =
    (if cap \<noteq> mf_buf_size m \<and> \<not> malloc then Some (- ENOMEM, m)
     else Some (0, m\<lparr>mf_buf := if cap = mf_buf_size m then mf_buf m else take cap (content m) @ replicate (cap - nat (mf_size m)) 0,
       mf_buf_size := cap, mf_size := n\<rparr>)) \<and> nat n \<le> cap \<and> cap < 2 ^ 64"
proof -
  have nn: "n < 2 ^ 64" "nat n < 2 ^ 63" using assms(3) by (auto simp: FILE_OFF_MAX_def)
  have mb: "mf_buf_size m < 2 ^ 64" using assms(1) by (simp add: mem_file_ok_def)
  obtain cap where cap: "(if mf_buf_size m < nat n then grow_buf (nat n) (max (mf_buf_size m) MIN_RESIZE)
      else if 0 < n then map_option (\<lambda>bs. Some (max bs MIN_RESIZE)) (shrink_buf (nat n) (mf_buf_size m))
      else Some (Some MIN_RESIZE)) = Some (Some cap)" "nat n \<le> cap" "0 < cap" "cap < 2 ^ 64"
  proof (cases "mf_buf_size m < nat n")
    case True
    show ?thesis by (rule grow_from [OF mb nn(2)]) (rule that, use True in auto)
  next
    case False
    then show ?thesis using that shrink_buf_result [of "nat n" "mf_buf_size m"] mb
      by (cases "0 < n") (auto simp: MIN_RESIZE_def)
  qed
  have same: "m\<lparr>mf_buf := mf_buf m, mf_buf_size := mf_buf_size m, mf_size := n\<rparr> = m\<lparr>mf_size := n\<rparr>" by simp
  show ?thesis
  proof (cases "cap = mf_buf_size m")
    case True
    then show ?thesis using cap nn assms(2) same unfolding mem_file_truncate_def Let_def
      by (intro exI [of _ cap]) auto
  next
    case False
    then show ?thesis using cap nn assms(2) resize_ok [OF assms(1) cap(3,4)] unfolding mem_file_truncate_def Let_def
      by (intro exI [of _ cap]) (cases malloc, auto simp: mem_file_resize_def)
  qed
qed

lemma take_pad:
  assumes "n \<le> cap"
  shows "take n (take cap c @ replicate (cap - length c) x) = take n (c @ replicate n x)"
proof -
  have "n - length c \<le> cap - length c" using assms by (rule diff_le_mono)
  then show ?thesis using assms by (cases "cap \<le> length c") (simp_all add: min_def)
qed

lemma truncate_content:
  assumes "mem_file_ok m" "nat n \<le> cap" "cap < 2 ^ 64" "0 \<le> n" "n \<le> FILE_OFF_MAX"
    and "m' = m\<lparr>mf_buf := if cap = mf_buf_size m then mf_buf m else take cap (content m) @ replicate (cap - nat (mf_size m)) 0,
      mf_buf_size := cap, mf_size := n\<rparr>"
  shows "mem_file_ok m'" "content m' = padded (content m) (if cap = mf_buf_size m then slack m else []) (nat n)"
    "mf_size m \<le> n \<Longrightarrow> clean m \<Longrightarrow> clean m'"
proof -
  have len: "length (content m) = nat (mf_size m)" "length (mf_buf m) = mf_buf_size m" "nat (mf_size m) \<le> mf_buf_size m"
    using assms(1) by (auto simp: mem_file_ok_def content_def)
  show "mem_file_ok m'" using assms len by (auto simp: mem_file_ok_def)
  show "content m' = padded (content m) (if cap = mf_buf_size m then slack m else []) (nat n)"
  proof (cases "cap = mf_buf_size m")
    case True
    then have "padded (content m) (slack m) (nat n) = take (nat n) (content m @ slack m)"
      using assms(2) len by (intro padded_slack) (auto simp: slack_def)
    then show ?thesis using True assms(6) by (simp add: content_def slack_def)
  next
    case False
    then have "content m' = take (nat n) (take cap (content m) @ replicate (cap - length (content m)) 0)"
      unfolding assms(6) len(1) by (simp add: content_def)
    then show ?thesis using False take_pad [OF assms(2)] by (simp add: padded_def)
  qed
  show "clean m'" if n: "mf_size m \<le> n" and c: "clean m"
  proof (cases "cap = mf_buf_size m")
    case True
    then have "slack m' = drop (nat n - nat (mf_size m)) (slack m)" using assms(6) n by (simp add: slack_def)
    then show ?thesis using c unfolding clean_def by (metis drop_replicate length_replicate)
  next
    case False
    then show ?thesis using assms(2,6) n len by (auto simp: slack_def clean_def)
  qed
qed

text \<open>
  Setting the size: it fails only for lack of memory, changing nothing, and otherwise the file is cut or extended, with
  zeros if the bytes of the buffer behind it were zero. Extending keeps them so; cutting does not.
\<close>

theorem mem_file_truncate_correct:
  assumes "mem_file_ok m" "0 \<le> n" "n \<le> FILE_OFF_MAX"
  shows "\<exists>ret m'. mem_file_truncate malloc m n = Some (ret, m') \<and>
    (if ret < 0 then ret = - ENOMEM \<and> \<not> malloc \<and> m' = m
     else ret = 0 \<and> mem_file_ok m' \<and> mf_size m' = n \<and> (mf_size m \<le> n \<and> clean m \<longrightarrow> clean m') \<and>
       (clean m \<longrightarrow> content m' = take (nat n) (content m @ replicate (nat n) 0)))"
proof -
  obtain cap where cap: "mem_file_truncate malloc m n =
    (if cap \<noteq> mf_buf_size m \<and> \<not> malloc then Some (- ENOMEM, m)
     else Some (0, m\<lparr>mf_buf := if cap = mf_buf_size m then mf_buf m else take cap (content m) @ replicate (cap - nat (mf_size m)) 0,
       mf_buf_size := cap, mf_size := n\<rparr>))" "nat n \<le> cap" "cap < 2 ^ 64"
    using truncate_at [OF assms, of malloc] by blast
  define m' where "m' = m\<lparr>mf_buf := if cap = mf_buf_size m then mf_buf m else take cap (content m) @ replicate (cap - nat (mf_size m)) 0,
       mf_buf_size := cap, mf_size := n\<rparr>"
  note tc = truncate_content [OF assms(1) cap(2,3) assms(2,3) m'_def]
  have "padded (content m) (if b then slack m else []) k = take k (content m @ replicate k 0)" if "clean m" for b k
    using clean_padded [OF that] by (simp add: padded_def)
  then have "mem_file_ok m' \<and> mf_size m' = n \<and> (mf_size m \<le> n \<and> clean m \<longrightarrow> clean m') \<and>
      (clean m \<longrightarrow> content m' = take (nat n) (content m @ replicate (nat n) 0))"
    using tc by (simp add: m'_def)
  then show ?thesis using cap(1) unfolding m'_def [symmetric] by (cases "cap \<noteq> mf_buf_size m \<and> \<not> malloc") auto
qed

lemma padded_zero_gap: "padded c [] n = take n c @ replicate (n - length c) 0"
  by (simp add: padded_def min_def)

lemma padded_old_gap: "n \<le> length c + length s \<Longrightarrow> padded c s n = take n c @ take (n - length c) s"
  by (simp add: padded_slack)

text \<open>C17: A write to any well-formed file in memory: it fails with \<^verbatim>\<open>-EFBIG\<close> exactly if its end does not fit
  \<^verbatim>\<open>file_off_t\<close>, does nothing if it has no bytes, and fails with \<^verbatim>\<open>-ENOMEM\<close> exactly if the buffer has to grow and
  cannot, changing nothing; otherwise it succeeds with all bytes, and the file is the old one with the bytes in their
  place. A gap in front of them is filled with zeros if the buffer grows or if all bytes of the buffer behind the file
  were zero; otherwise it shows the bytes the buffer had there, which after a truncation are old bytes of the file
  (C35). A buffer that is zero behind the file stays so. A read at any position and of any length returns exactly the
  bytes the file has there. No access leaves the buffer, and the search for a capacity ends.\<close>

theorem mem_file_write_correct:
  assumes "mem_file_ok m" "0 \<le> pos"
  shows "if FILE_OFF_MAX < pos + int (length data) then mem_file_write malloc m pos data = Some (- EFBIG, m)
    else if data = [] then mem_file_write malloc m pos data = Some (0, m)
    else if mf_buf_size m < nat pos + length data \<and> \<not> malloc then mem_file_write malloc m pos data = Some (- ENOMEM, m)
    else \<exists>m'. mem_file_write malloc m pos data = Some (int (length data), m') \<and> mem_file_ok m' \<and> (clean m \<longrightarrow> clean m') \<and>
      content m' = take (nat pos) (content m) @
        (if mf_buf_size m < nat pos + length data \<or> clean m then replicate (nat pos - nat (mf_size m)) 0
         else take (nat pos - nat (mf_size m)) (slack m)) @
        data @ drop (nat pos + length data) (content m) \<and>
      (\<forall>q n. 0 \<le> q \<longrightarrow> (\<exists>d. d = take n (drop (nat q) (content m')) \<and> mem_file_read m' q n = Some (int (length d), d)))"
proof -
  consider (big) "FILE_OFF_MAX < pos + int (length data)"
    | (empty) "pos + int (length data) \<le> FILE_OFF_MAX" "data = []"
    | (full) "pos + int (length data) \<le> FILE_OFF_MAX" "data \<noteq> []" "mf_buf_size m < nat pos + length data" "\<not> malloc"
    | (fits) "pos + int (length data) \<le> FILE_OFF_MAX" "data \<noteq> []" "mf_buf_size m < nat pos + length data \<Longrightarrow> malloc"
    by fastforce
  then show ?thesis
  proof cases
    case big
    then show ?thesis using assms(2) by (simp add: mem_file_write_def Let_def)
  next
    case empty
    then show ?thesis using assms(2) by (simp add: mem_file_write_def Let_def FILE_OFF_MAX_def)
  next
    case full
    have pos: "nat (pos + int (length data)) = nat pos + length data" "0 \<le> pos + int (length data)"
      "pos + int (length data) < 2 ^ 64" "nat pos + length data < 2 ^ 63"
      using full(1) assms(2) by (auto simp: FILE_OFF_MAX_def)
    have "mf_buf_size m < 2 ^ 64" using assms(1) by (simp add: mem_file_ok_def)
    then obtain n where "grow_buf (nat pos + length data) (max (mf_buf_size m) MIN_RESIZE) = Some (Some n)" "0 < n"
      by (rule grow_from [OF _ pos(4)])
    then show ?thesis using full pos assms(2)
      by (simp add: mem_file_write_def mem_file_resize_def Let_def)
  next
    case fits
    obtain m' where m': "mem_file_write malloc m pos data = Some (int (length data), m')" "mem_file_ok m'" "clean m \<longrightarrow> clean m'"
      "content m' = padded (content m) (if mf_buf_size m < nat pos + length data then [] else slack m) (nat pos) @ data @
        drop (nat pos + length data) (content m)"
      using write_at [OF assms(1,2) fits(2,1,3)] by blast
    have room: "nat pos \<le> length (content m) + length (slack m)" if "\<not> mf_buf_size m < nat pos + length data"
      using that assms(1) by (simp add: slack_def mem_file_ok_def content_def)
    have gap: "padded (content m) (if mf_buf_size m < nat pos + length data then [] else slack m) (nat pos) =
        take (nat pos) (content m) @
        (if mf_buf_size m < nat pos + length data \<or> clean m then replicate (nat pos - nat (mf_size m)) 0
         else take (nat pos - nat (mf_size m)) (slack m))"
      using clean_padded [of m "nat pos"] padded_zero_gap [of "content m" "nat pos"] padded_old_gap [OF room] assms(1)
      by simp
    have "\<forall>q n. 0 \<le> q \<longrightarrow> (\<exists>d. d = take n (drop (nat q) (content m')) \<and> mem_file_read m' q n = Some (int (length d), d))"
      using read_content [OF m'(2)] by blast
    moreover have no: "\<not> FILE_OFF_MAX < pos + int (length data)" "\<not> (mf_buf_size m < nat pos + length data \<and> \<not> malloc)"
      using fits by auto
    ultimately show ?thesis
      unfolding if_not_P [OF no(1)] if_not_P [OF fits(2)] if_not_P [OF no(2)]
      using m' [unfolded gap append_assoc] by blast
  qed
qed

lemma truncate_in_place:
  assumes "0 < n" "nat n \<le> mf_buf_size m" "n < 2 ^ 64"
    and "mf_buf_size m = MIN_RESIZE \<or> MIN_RESIZE \<le> mf_buf_size m \<and> mf_buf_size m < 2 * nat n"
  shows "mem_file_truncate malloc m n = Some (0, m\<lparr>mf_size := n\<rparr>)"
proof -
  obtain c where "shrink_buf (nat n) (mf_buf_size m) = Some c" "c \<le> mf_buf_size m"
    using shrink_buf_result [of "nat n" "mf_buf_size m"] assms(1,2) by auto
  moreover have "c = mf_buf_size m" if "mf_buf_size m < 2 * nat n"
    using calculation that by (subst (asm) shrink_buf.simps) (auto split: if_splits)
  ultimately have "map_option (\<lambda>bs. Some (max bs MIN_RESIZE)) (shrink_buf (nat n) (mf_buf_size m)) = Some (Some (mf_buf_size m))"
    using assms(4) by (auto simp: max_def)
  then show ?thesis using assms(1,2,3) by (auto simp: mem_file_truncate_def)
qed

text \<open>C35: A file in memory that is cut and then extended shows its old bytes again, where zeros are required: whenever
  the capacity is the smallest one, or the shorter size is more than half of it, cutting the file to \<open>n\<close> bytes and
  extending it to \<open>k\<close>, at most its old size, gives back the first \<open>k\<close> bytes the file had.\<close>

theorem mem_file_truncate_shows_old_bytes:
  assumes "mem_file_ok m" "0 < n" "n \<le> k" "k \<le> mf_size m"
    and "mf_buf_size m = MIN_RESIZE \<or> MIN_RESIZE \<le> mf_buf_size m \<and> mf_buf_size m < 2 * nat n"
  shows "\<exists>m1 m2. mem_file_truncate malloc m n = Some (0, m1) \<and> mem_file_truncate malloc m1 k = Some (0, m2) \<and>
    content m1 = take (nat n) (content m) \<and> content m2 = take (nat k) (content m)"
proof -
  have lim: "nat k \<le> mf_buf_size m" "k < 2 ^ 64" "0 < k" "n < 2 ^ 64" "nat n \<le> mf_buf_size m"
    using assms(1-4) by (auto simp: mem_file_ok_def FILE_OFF_MAX_def)
  have "mem_file_truncate malloc m n = Some (0, m\<lparr>mf_size := n\<rparr>)"
    using truncate_in_place [of n m] assms(2,5) lim by simp
  moreover have "mem_file_truncate malloc (m\<lparr>mf_size := n\<rparr>) k = Some (0, m\<lparr>mf_size := k\<rparr>)"
  proof -
    have "2 * nat n \<le> 2 * nat k" using assms(3) by simp
    then have "mf_buf_size m = MIN_RESIZE \<or> MIN_RESIZE \<le> mf_buf_size m \<and> mf_buf_size m < 2 * nat k" using assms(5) by linarith
    then show ?thesis using truncate_in_place [of k "m\<lparr>mf_size := n\<rparr>"] lim by simp
  qed
  ultimately show ?thesis using assms(2-4) by (auto simp: content_def min_def)
qed

definition demo_mem_file :: libos_mem_file where
  "demo_mem_file = \<lparr>mf_buf = [1, 2, 3, 4, 5, 6, 7, 8, 9, 10, 0, 0, 0, 0, 0, 0], mf_size = 10, mf_buf_size = 16\<rparr>"

lemma demo_mem_file_ok: "mem_file_ok demo_mem_file" "clean demo_mem_file" "content demo_mem_file = [1, 2, 3, 4, 5, 6, 7, 8, 9, 10]"
  by (simp_all add: demo_mem_file_def mem_file_ok_def clean_def slack_def content_def FILE_OFF_MAX_def)

definition demo_cut_file :: libos_mem_file where
  "demo_cut_file = demo_mem_file\<lparr>mf_size := 6\<rparr>"

lemma demo_cut_file_ok: "mem_file_ok demo_cut_file" "\<not> clean demo_cut_file" "content demo_cut_file = [1, 2, 3, 4, 5, 6]"
    "slack demo_cut_file = [7, 8, 9, 10, 0, 0, 0, 0, 0, 0]"
  by (simp_all add: demo_cut_file_def demo_mem_file_def mem_file_ok_def clean_def slack_def content_def FILE_OFF_MAX_def)

text \<open>A file cut from ten bytes to six: a write behind its end shows two of the old bytes.\<close>

theorem mem_file_write_correct_witness:
  "(\<exists>m'. mem_file_write False demo_mem_file 12 [42, 43] = Some (2, m') \<and>
     content m' = [1, 2, 3, 4, 5, 6, 7, 8, 9, 10, 0, 0, 42, 43] \<and> mem_file_read m' 9 4 = Some (4, [10, 0, 0, 42])) \<and>
   (\<exists>m'. mem_file_write False demo_cut_file 8 [42, 43] = Some (2, m') \<and> content m' = [1, 2, 3, 4, 5, 6, 7, 8, 42, 43])"
proof
  have no: "\<not> FILE_OFF_MAX < 12 + int (length [42 :: byte, 43])" "[42 :: byte, 43] \<noteq> []"
    "\<not> (mf_buf_size demo_mem_file < nat 12 + length [42 :: byte, 43] \<and> \<not> False)" "(0 :: int) \<le> 12"
    by (simp_all add: FILE_OFF_MAX_def demo_mem_file_def)
  obtain m' where m': "mem_file_write False demo_mem_file 12 [42, 43] = Some (int (length [42 :: byte, 43]), m')"
    "content m' = take (nat 12) (content demo_mem_file) @
        (if mf_buf_size demo_mem_file < nat 12 + length [42 :: byte, 43] \<or> clean demo_mem_file
         then replicate (nat 12 - nat (mf_size demo_mem_file)) 0
         else take (nat 12 - nat (mf_size demo_mem_file)) (slack demo_mem_file)) @
        [42, 43] @ drop (nat 12 + length [42 :: byte, 43]) (content demo_mem_file)"
    "\<And>q n. 0 \<le> q \<Longrightarrow> \<exists>d. d = take n (drop (nat q) (content m')) \<and> mem_file_read m' q n = Some (int (length d), d)"
    using mem_file_write_correct [OF demo_mem_file_ok(1) no(4), where malloc = False and data = "[42, 43]"]
    unfolding if_not_P [OF no(1)] if_not_P [OF no(2)] if_not_P [OF no(3)] by blast
  then have "content m' = [1, 2, 3, 4, 5, 6, 7, 8, 9, 10, 0, 0, 42, 43]"
    by (simp add: demo_mem_file_ok numeral_eq_Suc) (simp add: demo_mem_file_def numeral_eq_Suc)
  then show "\<exists>m'. mem_file_write False demo_mem_file 12 [42, 43] = Some (2, m') \<and>
     content m' = [1, 2, 3, 4, 5, 6, 7, 8, 9, 10, 0, 0, 42, 43] \<and> mem_file_read m' 9 4 = Some (4, [10, 0, 0, 42])"
    using m'(1) m'(3) [of 9 4] by simp
next
  have no: "\<not> FILE_OFF_MAX < 8 + int (length [42 :: byte, 43])" "[42 :: byte, 43] \<noteq> []"
    "\<not> (mf_buf_size demo_cut_file < nat 8 + length [42 :: byte, 43] \<and> \<not> False)"
    "\<not> (mf_buf_size demo_cut_file < nat 8 + length [42 :: byte, 43] \<or> clean demo_cut_file)" "(0 :: int) \<le> 8"
    using demo_cut_file_ok(2) by (simp_all add: FILE_OFF_MAX_def demo_cut_file_def demo_mem_file_def)
  obtain m' where m': "mem_file_write False demo_cut_file 8 [42, 43] = Some (int (length [42 :: byte, 43]), m')"
    "content m' = take (nat 8) (content demo_cut_file) @ take (nat 8 - nat (mf_size demo_cut_file)) (slack demo_cut_file) @
        [42, 43] @ drop (nat 8 + length [42 :: byte, 43]) (content demo_cut_file)"
    using mem_file_write_correct [OF demo_cut_file_ok(1) no(5), where malloc = False and data = "[42, 43]"]
    unfolding if_not_P [OF no(1)] if_not_P [OF no(2)] if_not_P [OF no(3)] if_not_P [OF no(4)] by blast
  moreover have "nat (mf_size demo_cut_file) = 6" by (simp add: demo_cut_file_def)
  ultimately have "content m' = [1, 2, 3, 4, 5, 6, 7, 8, 42, 43]"
    by (simp add: demo_cut_file_ok numeral_eq_Suc)
  then show "\<exists>m'. mem_file_write False demo_cut_file 8 [42, 43] = Some (2, m') \<and> content m' = [1, 2, 3, 4, 5, 6, 7, 8, 42, 43]"
    using m'(1) by simp
qed

theorem mem_file_truncate_shows_old_bytes_witness:
  "\<exists>m1 m2. mem_file_truncate True demo_mem_file 3 = Some (0, m1) \<and> mem_file_truncate True m1 6 = Some (0, m2) \<and>
     content m1 = [1, 2, 3] \<and> content m2 = [1, 2, 3, 4, 5, 6]"
proof -
  have size: "(6 :: int) \<le> mf_size demo_mem_file" "mf_buf_size demo_mem_file = MIN_RESIZE"
    by (simp_all add: demo_mem_file_def MIN_RESIZE_def)
  have "take (nat 3) (content demo_mem_file) = [1, 2, 3]" "take (nat 6) (content demo_mem_file) = [1, 2, 3, 4, 5, 6]"
    by (simp_all add: demo_mem_file_ok(3) numeral_eq_Suc)
  then show ?thesis
    using mem_file_truncate_shows_old_bytes [OF demo_mem_file_ok(1) _ _ size(1), of 3 True] size(2) by simp
qed

end
