(* ===== verification/Mapped_File.thy ===== *)
theory Mapped_File
  imports Vma_Query Mem_File
begin

text \<open>
  Memory behind the regions, and files mapped into it: \<^verbatim>\<open>madvise_dontneed_range\<close> and the reloading of mappings of
  \<^verbatim>\<open>libos/src/bookkeep/libos_vma.c\<close>, the emulated \<^verbatim>\<open>mmap\<close> and \<^verbatim>\<open>msync\<close> of \<^verbatim>\<open>libos/src/fs/libos_fs_util.c\<close>, and reading and
  writing of tmpfs (\<^verbatim>\<open>libos/src/fs/tmpfs/fs.c\<close>) over \<open>Mem_File\<close>. A state has the bytes of memory, the protection the PAL
  gives each of them, the number of calls of the PAL, the bookkeeping of the regions and the state of the file system.
  The result of the \<open>n\<close>-th call of the PAL, as a Unix error number, is \<open>pal n\<close>. \<open>None\<close> is a failed assertion, a call of
  \<^verbatim>\<open>BUG\<close>, an access to memory against its protection or a loop that does not end.
\<close>

section \<open>Memory\<close>

definition EIO :: int where "EIO = 5"

definition PAL_PROT_READ :: flags where "PAL_PROT_READ = 1"
definition PAL_PROT_WRITE :: flags where "PAL_PROT_WRITE = 2"
definition PAL_PROT_EXEC :: flags where "PAL_PROT_EXEC = 4"
definition PAL_PROT_WRITECOPY :: flags where "PAL_PROT_WRITECOPY = 8"

lemmas pal_prot_defs = PAL_PROT_READ_def PAL_PROT_WRITE_def PAL_PROT_EXEC_def PAL_PROT_WRITECOPY_def

record 'f addr_space =
  as_bytes :: "addr \<Rightarrow> byte"
  as_prot :: "addr \<Rightarrow> flags option"
  pal_calls :: nat
  as_vmas :: vma_state
  fs_state :: 'f

definition WITHIN_MASK :: "flags \<Rightarrow> flags \<Rightarrow> bool" where
  "WITHIN_MASK val msk \<longleftrightarrow> val OR msk = msk"

definition LINUX_PROT_TO_PAL :: "flags \<Rightarrow> flags \<Rightarrow> flags option" where
  "LINUX_PROT_TO_PAL prot map_flags =
     (if \<not> WITHIN_MASK prot (PROT_NONE OR PROT_READ OR PROT_WRITE OR PROT_EXEC OR PROT_GROWSDOWN OR PROT_GROWSUP) then None
      else Some ((if has_flag prot PROT_READ then PAL_PROT_READ else 0) OR (if has_flag prot PROT_WRITE then PAL_PROT_WRITE else 0) OR
        (if has_flag prot PROT_EXEC then PAL_PROT_EXEC else 0) OR (if has_flag map_flags MAP_PRIVATE then PAL_PROT_WRITECOPY else 0)))"

definition span :: "addr \<Rightarrow> nat \<Rightarrow> addr \<Rightarrow> bool" where
  "span a n x \<longleftrightarrow> a \<le> x \<and> x < a + n"

type_synonym pal_results = "nat \<Rightarrow> int"

definition PalVirtualMemoryAlloc :: "pal_results \<Rightarrow> addr \<Rightarrow> nat \<Rightarrow> flags \<Rightarrow> 'f addr_space \<Rightarrow> int \<times> 'f addr_space" where
  "PalVirtualMemoryAlloc pal a n prot s =
     (let ret = pal (pal_calls s); s = s\<lparr>pal_calls := Suc (pal_calls s)\<rparr>
      in if ret < 0 then (ret, s)
         else (0, s\<lparr>as_prot := \<lambda>x. if span a n x then Some prot else as_prot s x,
           as_bytes := \<lambda>x. if span a n x then 0 else as_bytes s x\<rparr>))"

definition PalVirtualMemoryProtect :: "pal_results \<Rightarrow> addr \<Rightarrow> nat \<Rightarrow> flags \<Rightarrow> 'f addr_space \<Rightarrow> int \<times> 'f addr_space" where
  "PalVirtualMemoryProtect pal a n prot s =
     (let ret = pal (pal_calls s); s = s\<lparr>pal_calls := Suc (pal_calls s)\<rparr>
      in if ret < 0 then (ret, s)
         else (0, s\<lparr>as_prot := \<lambda>x. if span a n x then Some prot else as_prot s x\<rparr>))"

definition PalVirtualMemoryFree :: "pal_results \<Rightarrow> addr \<Rightarrow> nat \<Rightarrow> 'f addr_space \<Rightarrow> int \<times> 'f addr_space" where
  "PalVirtualMemoryFree pal a n s =
     (let ret = pal (pal_calls s); s = s\<lparr>pal_calls := Suc (pal_calls s)\<rparr>
      in if ret < 0 then (ret, s)
         else (0, s\<lparr>as_prot := \<lambda>x. if span a n x then None else as_prot s x\<rparr>))"

definition allows :: "flags \<Rightarrow> 'f addr_space \<Rightarrow> addr \<Rightarrow> bool" where
  "allows acc s x \<longleftrightarrow> (case as_prot s x of None \<Rightarrow> False | Some p \<Rightarrow> has_flag p acc)"

text \<open>Accesses of the process itself.\<close>

definition store :: "addr \<Rightarrow> byte list \<Rightarrow> 'f addr_space \<Rightarrow> 'f addr_space option" where
  "store a bs s =
     (if list_all (allows PAL_PROT_WRITE s) [a..<a + length bs]
      then Some (s\<lparr>as_bytes := \<lambda>x. if span a (length bs) x then bs ! (x - a) else as_bytes s x\<rparr>) else None)"

definition load :: "addr \<Rightarrow> nat \<Rightarrow> 'f addr_space \<Rightarrow> byte list option" where
  "load a n s =
     (if list_all (allows PAL_PROT_READ s) [a..<a + n] then Some (map (as_bytes s) [a..<a + n]) else None)"

section \<open>madvise(MADV_DONTNEED)\<close>

text \<open>The visitor; its context is the error and the state.\<close>

definition madvise_dontneed_visitor :: "pal_results \<Rightarrow> addr \<Rightarrow> addr \<Rightarrow> (int \<times> 'f addr_space) visitor" where
  "madvise_dontneed_visitor pal b e v ctx =
     (let (err, s) = ctx
      in if has_flag (vma_flags v) (VMA_UNMAPPED OR VMA_INTERNAL) then Some (False, - EINVAL, s)
         else if vma_file v \<noteq> None
         then if has_flag (vma_flags v) VMA_TAINTED then Some (False, - ENOSYS, s) else Some (True, err, s)
         else let zero_start = max b (vma_begin v); zero_end = min e (vma_end v)
         in case LINUX_PROT_TO_PAL (vma_prot v) (vma_flags v) of
              None \<Rightarrow> None
            | Some pal_prot \<Rightarrow>
                let pal_prot_writable = pal_prot OR PAL_PROT_WRITE;
                    (ret, s) = (if pal_prot \<noteq> pal_prot_writable
                                then PalVirtualMemoryProtect pal zero_start (zero_end - zero_start) pal_prot_writable s
                                else (0, s))
                in if ret < 0 then Some (False, ret, s)
                   else case store zero_start (replicate (zero_end - zero_start) 0) s of
                          None \<Rightarrow> None
                        | Some s \<Rightarrow>
                            let (ret, s) = (if pal_prot \<noteq> pal_prot_writable
                                            then PalVirtualMemoryProtect pal zero_start (zero_end - zero_start) pal_prot s
                                            else (0, s))
                            in if ret < 0 then None else Some (True, err, s))"

definition madvise_dontneed_range :: "pal_results \<Rightarrow> addr \<Rightarrow> addr \<Rightarrow> 'f addr_space \<Rightarrow> (int \<times> 'f addr_space) option" where
  "madvise_dontneed_range pal b e s =
     (case u_traverse_vmas_in_range b e (madvise_dontneed_visitor pal b e) (0, s) (vma_tree (as_vmas s)) of
        None \<Rightarrow> None
      | Some (is_continuous, err, s) \<Rightarrow> Some (if \<not> is_continuous then - ENOMEM else err, s))"

section \<open>Reading files into memory\<close>

text \<open>
  The callbacks of a file system: an access at an address, of a length, at a position of the file, gives the count or
  an error and the new position.
\<close>

type_synonym 'f file_op = "addr \<Rightarrow> nat \<Rightarrow> int \<Rightarrow> 'f addr_space \<Rightarrow> (int \<times> int \<times> 'f addr_space) option"

definition to_off :: "nat \<Rightarrow> int" where
  "to_off n = (if n < 2 ^ 63 then int n else int n - 2 ^ 64)"

text \<open>The reading loops of \<^verbatim>\<open>generic_emulated_mmap\<close> and \<^verbatim>\<open>reload_vma\<close>, which repeat the call on different errors.\<close>

partial_function (option) read_loop ::
  "(int \<Rightarrow> bool) \<Rightarrow> 'f file_op \<Rightarrow> addr \<Rightarrow> nat \<Rightarrow> int \<Rightarrow> 'f addr_space \<Rightarrow> (int \<times> 'f addr_space) option" where
  "read_loop retry rd a n pos s =
     (if n = 0 then Some (0, s)
      else case rd a n pos s of
             None \<Rightarrow> None
           | Some (count, pos, s) \<Rightarrow>
               if count < 0 then (if retry count then read_loop retry rd a n pos s else Some (count, s))
               else if count = 0 then Some (0, s)
               else if \<not> nat count \<le> n then None
               else read_loop retry rd (a + nat count) (n - nat count) pos s)"

definition mmap_failed :: "pal_results \<Rightarrow> addr \<Rightarrow> nat \<Rightarrow> int \<Rightarrow> 'f addr_space \<Rightarrow> (int \<times> 'f addr_space) option" where
  "mmap_failed pal a n ret s =
     (let (free_ret, s) = PalVirtualMemoryFree pal a n s in if free_ret < 0 then None else Some (ret, s))"

definition generic_emulated_mmap :: "pal_results \<Rightarrow> 'f file_op \<Rightarrow> addr \<Rightarrow> nat \<Rightarrow> flags \<Rightarrow> flags \<Rightarrow> nat \<Rightarrow> 'f addr_space \<Rightarrow>
    (int \<times> 'f addr_space) option" where
  "generic_emulated_mmap pal rd a n prot fl offset s =
     (if a = 0 then None
      else case LINUX_PROT_TO_PAL prot fl of
        None \<Rightarrow> None
      | Some pal_prot \<Rightarrow>
          let pal_prot_writable = pal_prot OR PAL_PROT_WRITE;
              (ret, s) = PalVirtualMemoryAlloc pal a n pal_prot_writable s
          in if ret < 0 then Some (ret, s)
             else case read_loop (\<lambda>c. c = - EINTR) rd a n (to_off offset) s of
                    None \<Rightarrow> None
                  | Some (ret, s) \<Rightarrow>
                      if ret < 0 then mmap_failed pal a n ret s
                      else let (ret, s) = (if pal_prot \<noteq> pal_prot_writable then PalVirtualMemoryProtect pal a n pal_prot s else (0, s))
                           in if ret < 0 then mmap_failed pal a n ret s else Some (0, s))"

definition vma_filter_needs_reload :: "libos_handle \<Rightarrow> vma_filter" where
  "vma_filter_needs_reload hdl v =
     (if hdl_inode hdl = None then None
      else if has_flag (vma_flags v) not_shared_file then Some False
      else case vma_file v of
             None \<Rightarrow> None
           | Some f \<Rightarrow> Some (hdl_inode f = hdl_inode hdl \<and> hdl_has_read f \<and> hdl_may_read f))"

definition reload_vma :: "pal_results \<Rightarrow> (libos_handle \<Rightarrow> 'f file_op) \<Rightarrow> libos_vma_info \<Rightarrow> 'f addr_space \<Rightarrow>
    (int \<times> 'f addr_space) option" where
  "reload_vma pal rd info s =
     (case info_file info of
        None \<Rightarrow> None
      | Some f \<Rightarrow>
          if \<not> hdl_has_read f then None
          else let read_begin = info_addr info; read_end = u64 (info_addr info + info_length info)
          in if \<not> IS_ALLOC_ALIGNED read_begin \<or> \<not> IS_ALLOC_ALIGNED read_end then None
          else case LINUX_PROT_TO_PAL (info_prot info) (info_flags info) of
            None \<Rightarrow> None
          | Some pal_prot \<Rightarrow>
              let n = read_end - read_begin; pal_prot_writable = pal_prot OR PAL_PROT_WRITE;
                  (ret, s) = (if pal_prot \<noteq> pal_prot_writable then PalVirtualMemoryProtect pal read_begin n pal_prot_writable s
                              else (0, s))
              in if ret < 0 then Some (ret, s)
                 else case read_loop (\<lambda>c. c = - EINTR \<or> c = - EAGAIN) (rd f) read_begin n (to_off (info_offset info)) s of
                        None \<Rightarrow> None
                      | Some (ret, s) \<Rightarrow>
                          let (protect_ret, s) = (if pal_prot \<noteq> pal_prot_writable
                                                  then PalVirtualMemoryProtect pal read_begin n pal_prot s else (0, s))
                          in if protect_ret < 0 then None else Some (ret, s))"

fun reload_infos :: "pal_results \<Rightarrow> (libos_handle \<Rightarrow> 'f file_op) \<Rightarrow> libos_vma_info list \<Rightarrow> 'f addr_space \<Rightarrow>
    (int \<times> 'f addr_space) option" where
  "reload_infos pal rd [] s = Some (0, s)"
| "reload_infos pal rd (i # is) s =
     (case reload_vma pal rd i s of
        None \<Rightarrow> None
      | Some (ret, s) \<Rightarrow> if ret < 0 then Some (ret, s) else reload_infos pal rd is s)"

definition reload_mmaped_from_file_handle :: "(nat \<Rightarrow> bool) \<Rightarrow> pal_results \<Rightarrow> (libos_handle \<Rightarrow> 'f file_op) \<Rightarrow> libos_handle \<Rightarrow>
    'f addr_space \<Rightarrow> (int \<times> 'f addr_space) option" where
  "reload_mmaped_from_file_handle calloc pal rd hdl s =
     (case dump_vmas calloc 0 UINTPTR_MAX (vma_filter_needs_reload hdl) (as_vmas s) of
        None \<Rightarrow> None
      | Some (ret, infos, st) \<Rightarrow>
          let s = s\<lparr>as_vmas := st\<rparr>
          in if ret < 0 then Some (ret, s)
             else case reload_infos pal rd infos s of
                    None \<Rightarrow> None
                  | Some (ret, s) \<Rightarrow> Some (ret, s\<lparr>as_vmas := free_vma_info_array infos (as_vmas s)\<rparr>))"

section \<open>Writing memory to files\<close>

partial_function (option) write_loop :: "'f file_op \<Rightarrow> addr \<Rightarrow> nat \<Rightarrow> int \<Rightarrow> 'f addr_space \<Rightarrow> (int \<times> 'f addr_space) option" where
  "write_loop wr a n pos s =
     (if n = 0 then Some (0, s)
      else case wr a n pos s of
             None \<Rightarrow> None
           | Some (count, pos, s) \<Rightarrow>
               if count < 0 then (if count = - EINTR then write_loop wr a n pos s else Some (count, s))
               else if count = 0 then Some (- EIO, s)
               else if \<not> nat count \<le> n then None
               else write_loop wr (a + nat count) (n - nat count) pos s)"

definition generic_emulated_msync :: "pal_results \<Rightarrow> ('f \<Rightarrow> int) \<Rightarrow> 'f file_op \<Rightarrow> addr \<Rightarrow> nat \<Rightarrow> flags \<Rightarrow> flags \<Rightarrow> nat \<Rightarrow>
    'f addr_space \<Rightarrow> (int \<times> 'f addr_space) option" where
  "generic_emulated_msync pal inode_size wr a n prot fl offset s =
     (if has_flag fl MAP_PRIVATE then None
      else let file_size = nat (inode_size (fs_state s) mod 2 ^ 64)
      in case LINUX_PROT_TO_PAL prot fl of
           None \<Rightarrow> None
         | Some pal_prot \<Rightarrow>
             let pal_prot_readable = pal_prot OR PAL_PROT_READ;
                 (ret, s) = (if pal_prot \<noteq> pal_prot_readable then PalVirtualMemoryProtect pal a n pal_prot_readable s else (0, s))
             in if ret < 0 then Some (ret, s)
                else let write_size = (if file_size < offset then 0 else min n (file_size - offset))
                in case write_loop wr a write_size (to_off offset) s of
                     None \<Rightarrow> None
                   | Some (ret, s) \<Rightarrow>
                       let (protect_ret, s) = (if pal_prot \<noteq> pal_prot_readable then PalVirtualMemoryProtect pal a n pal_prot s else (0, s))
                       in if protect_ret < 0 then None else Some (ret, s))"

section \<open>tmpfs\<close>

record tmpfs_inode =
  ti_mem :: libos_mem_file
  ti_size :: int

type_synonym tmpfs = "nat \<Rightarrow> tmpfs_inode"

definition tmpfs_read :: "libos_handle \<Rightarrow> tmpfs file_op" where
  "tmpfs_read hdl a n pos s =
     (case hdl_inode hdl of
        None \<Rightarrow> None
      | Some i \<Rightarrow>
          (case mem_file_read (ti_mem (fs_state s i)) pos n of
             None \<Rightarrow> None
           | Some (ret, bs) \<Rightarrow> if ret < 0 then Some (ret, pos, s) else map_option (\<lambda>s. (ret, pos + ret, s)) (store a bs s)))"

text \<open>
  \<open>time_ok\<close>: \<^verbatim>\<open>PalSystemTimeQuery\<close> succeeds; \<open>malloc\<close>: the file can grow. The bytes to write are taken from memory when
  the call starts; the time of the last change is left out.
\<close>

definition tmpfs_write :: "bool \<Rightarrow> bool \<Rightarrow> (nat \<Rightarrow> bool) \<Rightarrow> pal_results \<Rightarrow> libos_handle \<Rightarrow> tmpfs file_op" where
  "tmpfs_write time_ok malloc calloc pal hdl a n pos s =
     (if \<not> time_ok then Some (- EPERM, pos, s)
      else case hdl_inode hdl of
        None \<Rightarrow> None
      | Some i \<Rightarrow>
          (case load a n s of
             None \<Rightarrow> None
           | Some bs \<Rightarrow>
               (case mem_file_write malloc (ti_mem (fs_state s i)) pos bs of
                  None \<Rightarrow> None
                | Some (ret, mem) \<Rightarrow>
                    if ret < 0 then Some (ret, pos, s)
                    else let s = s\<lparr>fs_state := (fs_state s)(i := (fs_state s i)\<lparr>ti_mem := mem, ti_size := mf_size mem\<rparr>)\<rparr>
                    in if num_mmapped (as_vmas s) i \<noteq> 0
                       then (case reload_mmaped_from_file_handle calloc pal tmpfs_read hdl s of
                               None \<Rightarrow> None
                             | Some (reload_ret, s) \<Rightarrow> if reload_ret < 0 then None else Some (ret, pos + ret, s))
                       else Some (ret, pos + ret, s))))"

definition tmpfs_truncate :: "bool \<Rightarrow> bool \<Rightarrow> libos_handle \<Rightarrow> int \<Rightarrow> tmpfs addr_space \<Rightarrow> (int \<times> tmpfs addr_space) option" where
  "tmpfs_truncate time_ok malloc hdl len s =
     (if \<not> time_ok then Some (- EPERM, s)
      else case hdl_inode hdl of
        None \<Rightarrow> None
      | Some i \<Rightarrow>
          (case mem_file_truncate malloc (ti_mem (fs_state s i)) len of
             None \<Rightarrow> None
           | Some (ret, mem) \<Rightarrow>
               if ret < 0 then Some (ret, s)
               else Some (0, s\<lparr>fs_state := (fs_state s)(i := (fs_state s i)\<lparr>ti_mem := mem, ti_size := len\<rparr>)\<rparr>)))"

definition tmpfs_mmap :: "pal_results \<Rightarrow> libos_handle \<Rightarrow> addr \<Rightarrow> nat \<Rightarrow> flags \<Rightarrow> flags \<Rightarrow> nat \<Rightarrow> tmpfs addr_space \<Rightarrow>
    (int \<times> tmpfs addr_space) option" where
  "tmpfs_mmap pal hdl = generic_emulated_mmap pal (tmpfs_read hdl)"

definition tmpfs_msync :: "bool \<Rightarrow> bool \<Rightarrow> (nat \<Rightarrow> bool) \<Rightarrow> pal_results \<Rightarrow> libos_handle \<Rightarrow> addr \<Rightarrow> nat \<Rightarrow> flags \<Rightarrow> flags \<Rightarrow> nat \<Rightarrow>
    tmpfs addr_space \<Rightarrow> (int \<times> tmpfs addr_space) option" where
  "tmpfs_msync time_ok malloc calloc pal hdl =
     generic_emulated_msync pal (\<lambda>fs. case hdl_inode hdl of None \<Rightarrow> 0 | Some i \<Rightarrow> ti_size (fs i)) (tmpfs_write time_ok malloc calloc pal hdl)"

section \<open>Accesses and protection\<close>

lemma store_allowed:
  assumes "\<And>x. span a (length bs) x \<Longrightarrow> allows PAL_PROT_WRITE s x"
  shows "store a bs s = Some (s\<lparr>as_bytes := \<lambda>x. if span a (length bs) x then bs ! (x - a) else as_bytes s x\<rparr>)"
  using assms by (auto simp: store_def list_all_iff span_def)

lemma load_allowed:
  assumes "\<And>x. span a n x \<Longrightarrow> allows PAL_PROT_READ s x"
  shows "load a n s = Some (map (as_bytes s) [a..<a + n])"
  using assms by (auto simp: load_def list_all_iff span_def)

lemma protect_granted:
  assumes "\<And>k. 0 \<le> pal k"
  shows "PalVirtualMemoryProtect pal a n p s =
    (0, s\<lparr>pal_calls := Suc (pal_calls s), as_prot := \<lambda>x. if span a n x then Some p else as_prot s x\<rparr>)"
  using assms [of "pal_calls s"] by (simp add: PalVirtualMemoryProtect_def Let_def cong: if_cong)

lemma alloc_granted:
  assumes "\<And>k. 0 \<le> pal k"
  shows "PalVirtualMemoryAlloc pal a n p s =
    (0, s\<lparr>pal_calls := Suc (pal_calls s), as_prot := \<lambda>x. if span a n x then Some p else as_prot s x,
      as_bytes := \<lambda>x. if span a n x then 0 else as_bytes s x\<rparr>)"
  using assms [of "pal_calls s"] by (simp add: PalVirtualMemoryAlloc_def Let_def cong: if_cong)

lemma has_flag_or [simp]: "has_flag (p OR m) m \<longleftrightarrow> m \<noteq> 0" for p m :: flags
proof -
  have "(p OR m) AND m = m" by (rule bit_eqI) (auto simp: bit_simps)
  then show ?thesis by simp
qed

text \<open>The protection of the memory of user regions is the one the bookkeeping has for them.\<close>

definition backed :: "'f addr_space \<Rightarrow> bool" where
  "backed s \<longleftrightarrow> (\<forall>v\<in>set (vma_tree (as_vmas s)). \<not> has_flag (vma_flags v) (VMA_UNMAPPED OR VMA_INTERNAL) \<longrightarrow>
     (\<exists>p. LINUX_PROT_TO_PAL (vma_prot v) (vma_flags v) = Some p \<and> (\<forall>x. is_addr_in_vma x v \<longrightarrow> as_prot s x = Some p)))"

section \<open>madvise(MADV_DONTNEED) zeroes memory\<close>

definition discardable :: "libos_vma \<Rightarrow> bool" where
  "discardable v \<longleftrightarrow> \<not> has_flag (vma_flags v) (VMA_UNMAPPED OR VMA_INTERNAL) \<and> (vma_file v = None \<or> \<not> has_flag (vma_flags v) VMA_TAINTED)"

definition zeroed :: "addr \<Rightarrow> addr \<Rightarrow> libos_vma \<Rightarrow> 'f addr_space \<Rightarrow> 'f addr_space" where
  "zeroed b e v s = (let p = the (LINUX_PROT_TO_PAL (vma_prot v) (vma_flags v))
     in s\<lparr>pal_calls := if p = p OR PAL_PROT_WRITE then pal_calls s else Suc (Suc (pal_calls s)),
          as_bytes := \<lambda>x. if is_addr_in_vma x v \<and> b \<le> x \<and> x < e then 0 else as_bytes s x\<rparr>)"

definition discard :: "addr \<Rightarrow> addr \<Rightarrow> libos_vma \<Rightarrow> int \<times> 'f addr_space \<Rightarrow> int \<times> 'f addr_space" where
  "discard b e v c =
     (if has_flag (vma_flags v) (VMA_UNMAPPED OR VMA_INTERNAL) then (- EINVAL, snd c)
      else if vma_file v \<noteq> None then (if has_flag (vma_flags v) VMA_TAINTED then - ENOSYS else fst c, snd c)
      else (fst c, zeroed b e v (snd c)))"

lemma zeroed_simps [simp]:
  "as_prot (zeroed b e v s) = as_prot s" "as_vmas (zeroed b e v s) = as_vmas s" "fs_state (zeroed b e v s) = fs_state s"
  "as_bytes (zeroed b e v s) = (\<lambda>x. if is_addr_in_vma x v \<and> b \<le> x \<and> x < e then 0 else as_bytes s x)"
  by (simp_all add: zeroed_def Let_def)

lemma visitor_discards:
  assumes "\<And>k. 0 \<le> pal k" "backed (snd c)" "v \<in> set (vma_tree (as_vmas (snd c)))"
  shows "madvise_dontneed_visitor pal b e v c = Some (discardable v, discard b e v c)"
proof (cases "has_flag (vma_flags v) (VMA_UNMAPPED OR VMA_INTERNAL) \<or> vma_file v \<noteq> None")
  case True
  then show ?thesis by (auto simp: madvise_dontneed_visitor_def discard_def discardable_def split: prod.splits)
next
  case False
  obtain err s where c: "c = (err, s)" by (cases c)
  obtain p where p: "LINUX_PROT_TO_PAL (vma_prot v) (vma_flags v) = Some p" "\<And>x. is_addr_in_vma x v \<Longrightarrow> as_prot s x = Some p"
    using assms(2,3) False unfolding backed_def c by auto
  define pw where "pw = p OR PAL_PROT_WRITE"
  define a where "a = max b (vma_begin v)"
  define n where "n = min e (vma_end v) - a"
  have span: "span a n x \<longleftrightarrow> is_addr_in_vma x v \<and> b \<le> x \<and> x < e" for x by (auto simp: span_def a_def n_def is_addr_in_vma_def)
  have prot: "(\<lambda>x. if span a n x then Some p else as_prot s x) = as_prot s" using p(2) span by auto
  define s1 where "s1 = (if p \<noteq> pw then snd (PalVirtualMemoryProtect pal a n pw s) else s)"
  have pwf: "has_flag pw PAL_PROT_WRITE" unfolding pw_def has_flag_or by (simp add: PAL_PROT_WRITE_def)
  have "as_prot s1 x = Some pw" if "span a n x" for x
    using that p(2) by (auto simp: s1_def protect_granted [of pal, OF assms(1)] span)
  then have "store a (replicate n 0) s1 = Some (s1\<lparr>as_bytes := \<lambda>x. if span a (length (replicate n (0 :: byte))) x then replicate n 0 ! (x - a) else as_bytes s1 x\<rparr>)"
    using pwf by (intro store_allowed) (simp add: allows_def)
  also have "(\<lambda>x. if span a (length (replicate n (0 :: byte))) x then replicate n 0 ! (x - a) else as_bytes s1 x) = as_bytes (zeroed b e v s)"
    by (auto simp: span [symmetric] s1_def protect_granted [of pal, OF assms(1)] fun_eq_iff) (auto simp: span_def)
  finally have store: "store a (replicate n 0) s1 = Some (s1\<lparr>as_bytes := as_bytes (zeroed b e v s)\<rparr>)" .
  have run: "madvise_dontneed_visitor pal b e v c = Some (True, err, if p \<noteq> pw then
      snd (PalVirtualMemoryProtect pal a n p (s1\<lparr>as_bytes := as_bytes (zeroed b e v s)\<rparr>)) else s1\<lparr>as_bytes := as_bytes (zeroed b e v s)\<rparr>)"
    using False store p(1) unfolding c
    by (simp add: madvise_dontneed_visitor_def Let_def a_def [symmetric] n_def [symmetric] pw_def [symmetric] s1_def
        protect_granted [of pal, OF assms(1)] split: if_splits)
  have "\<dots> = Some (True, err, zeroed b e v s)"
    using p(1) prot by (simp add: s1_def protect_granted [of pal, OF assms(1)] zeroed_def pw_def Let_def cong: if_cong)
  then show ?thesis using run False by (simp add: discard_def discardable_def c)
qed

lemma discard_fold:
  "\<exists>err' c. fold (discard b e) L (err, s) = (err', s\<lparr>pal_calls := c, as_bytes := \<lambda>x.
      if (\<exists>v\<in>set L. discardable v \<and> vma_file v = None \<and> is_addr_in_vma x v) \<and> b \<le> x \<and> x < e then 0 else as_bytes s x\<rparr>) \<and>
    (if list_all discardable L then err' = err else err \<le> 0 \<longrightarrow> err' < 0)"
proof (induction L arbitrary: err s)
  case Nil
  show ?case by (intro exI [of _ err] exI [of _ "pal_calls s"]) simp
next
  case (Cons v L)
  define err1 where "err1 = fst (discard b e v (err, s))"
  define s1 where "s1 = snd (discard b e v (err, s))"
  have v: "if discardable v then err1 = err else err1 < 0" by (auto simp: err1_def discard_def discardable_def)
  have s1: "\<exists>c. s1 = s\<lparr>pal_calls := c, as_bytes := \<lambda>x. if (discardable v \<and> vma_file v = None \<and> is_addr_in_vma x v) \<and> b \<le> x \<and> x < e then 0 else as_bytes s x\<rparr>"
  proof (cases "discardable v \<and> vma_file v = None")
    case True
    then have "s1 = zeroed b e v s" by (auto simp: s1_def discard_def discardable_def)
    then show ?thesis using True by (intro exI [of _ "pal_calls s1"]) (auto intro!: addr_space.equality)
  next
    case False
    then have "s1 = s" by (auto simp: s1_def discard_def discardable_def)
    then show ?thesis using False by (intro exI [of _ "pal_calls s"]) auto
  qed
  obtain err' c where ih: "fold (discard b e) L (err1, s1) = (err', s1\<lparr>pal_calls := c, as_bytes := \<lambda>x.
      if (\<exists>v\<in>set L. discardable v \<and> vma_file v = None \<and> is_addr_in_vma x v) \<and> b \<le> x \<and> x < e then 0 else as_bytes s1 x\<rparr>)"
    "if list_all discardable L then err' = err1 else err1 \<le> 0 \<longrightarrow> err' < 0"
    using Cons.IH [of err1 s1] by blast
  have step: "fold (discard b e) (v # L) (err, s) = fold (discard b e) L (err1, s1)" by (simp add: err1_def s1_def)
  have eq: "s1\<lparr>pal_calls := c, as_bytes := \<lambda>x.
      if (\<exists>v\<in>set L. discardable v \<and> vma_file v = None \<and> is_addr_in_vma x v) \<and> b \<le> x \<and> x < e then 0 else as_bytes s1 x\<rparr> =
    s\<lparr>pal_calls := c, as_bytes := \<lambda>x. if (\<exists>v\<in>set (v # L). discardable v \<and> vma_file v = None \<and> is_addr_in_vma x v) \<and> b \<le> x \<and> x < e then 0 else as_bytes s x\<rparr>"
  proof -
    obtain c1 where c1: "s1 = s\<lparr>pal_calls := c1, as_bytes := \<lambda>x. if (discardable v \<and> vma_file v = None \<and> is_addr_in_vma x v) \<and> b \<le> x \<and> x < e
        then 0 else as_bytes s x\<rparr>" using s1 by blast
    have "as_bytes s1 x = (if (discardable v \<and> vma_file v = None \<and> is_addr_in_vma x v) \<and> b \<le> x \<and> x < e then 0 else as_bytes s x)" for x
      unfolding c1 by simp
    then have "(\<lambda>x. if (\<exists>v\<in>set L. discardable v \<and> vma_file v = None \<and> is_addr_in_vma x v) \<and> b \<le> x \<and> x < e then 0 else as_bytes s1 x) =
      (\<lambda>x. if (\<exists>v\<in>set (v # L). discardable v \<and> vma_file v = None \<and> is_addr_in_vma x v) \<and> b \<le> x \<and> x < e then 0 else as_bytes s x)"
    proof (intro ext)
      fix x
      define A where "A \<longleftrightarrow> (\<exists>v\<in>set L. discardable v \<and> vma_file v = None \<and> is_addr_in_vma x v)"
      define P where "P \<longleftrightarrow> discardable v \<and> vma_file v = None \<and> is_addr_in_vma x v"
      assume bytes: "\<And>x. as_bytes s1 x = (if (discardable v \<and> vma_file v = None \<and> is_addr_in_vma x v) \<and> b \<le> x \<and> x < e then 0 else as_bytes s x)"
      have eq: "(\<exists>v\<in>set (v # L). discardable v \<and> vma_file v = None \<and> is_addr_in_vma x v) \<longleftrightarrow> P \<or> A" by (auto simp: A_def P_def)
      show "(if (\<exists>v\<in>set L. discardable v \<and> vma_file v = None \<and> is_addr_in_vma x v) \<and> b \<le> x \<and> x < e then 0 else as_bytes s1 x) =
        (if (\<exists>v\<in>set (v # L). discardable v \<and> vma_file v = None \<and> is_addr_in_vma x v) \<and> b \<le> x \<and> x < e then 0 else as_bytes s x)"
        unfolding eq bytes [of x] A_def [symmetric] P_def [symmetric] by auto
    qed
    then show ?thesis unfolding c1 by simp
  qed
  have "if list_all discardable (v # L) then err' = err else err \<le> 0 \<longrightarrow> err' < 0"
    using v ih(2) by (auto split: if_splits)
  then show ?case unfolding step ih(1) eq by blast
qed

lemma visited_all:
  assumes "list_all Q (visited Q e vs)"
  shows "visited Q e vs = takeWhile (\<lambda>v. vma_begin v < e) vs"
  using assms by (induction vs) (auto split: if_splits)

text \<open>C18: \<^verbatim>\<open>madvise(MADV_DONTNEED)\<close> on a range, when the PAL grants its calls: if every address of it is in a user region that is anonymous or a mapping
  of a file never made writable, the call returns 0, every byte of the range in an anonymous region is zero, and every other byte and
  the protection of all memory are as before, whatever the protection of the regions is. Otherwise the call fails, and the
  only change is that bytes of anonymous user regions in the range may be zero. Zeroing never meets memory it may not
  write.\<close>

theorem madvise_dontneed_correct:
  assumes "vma_inv (as_vmas s)" "backed s" "\<And>k. 0 \<le> pal k" "b < e"
  shows "if \<forall>x. b \<le> x \<and> x < e \<longrightarrow> (\<exists>v\<in>set (vma_tree (as_vmas s)). is_addr_in_vma x v \<and> discardable v)
    then \<exists>c. madvise_dontneed_range pal b e s = Some (0, s\<lparr>pal_calls := c, as_bytes := \<lambda>x.
        if b \<le> x \<and> x < e \<and> (\<exists>v\<in>set (vma_tree (as_vmas s)). is_addr_in_vma x v \<and> vma_file v = None) then 0 else as_bytes s x\<rparr>)
    else \<exists>ret c bytes. madvise_dontneed_range pal b e s = Some (ret, s\<lparr>pal_calls := c, as_bytes := bytes\<rparr>) \<and> ret < 0 \<and>
        (\<forall>x. bytes x \<noteq> as_bytes s x \<longrightarrow> bytes x = 0 \<and> b \<le> x \<and> x < e \<and>
          (\<exists>v\<in>set (vma_tree (as_vmas s)). is_addr_in_vma x v \<and> discardable v \<and> vma_file v = None))"
proof -
  let ?ts = "vma_tree (as_vmas s)"
  have ok: "vmas_ok ?ts" using assms(1) by (simp add: vma_inv_def mem_ok_def)
  define L where "L = visited discardable e (lookup_suffix b ?ts)"
  have sub: "set L \<subseteq> set ?ts"
    using visited_subset [of discardable e "lookup_suffix b ?ts"] lookup_split [of b ?ts] unfolding L_def by (metis order_trans set_append Un_upper2)
  define I where "I c \<longleftrightarrow> as_prot (snd c) = as_prot s \<and> as_vmas (snd c) = as_vmas s" for c :: "int \<times> 'a addr_space"
  have "madvise_dontneed_visitor pal b e v c = Some (discardable v, discard b e v c) \<and> I (discard b e v c)" if "v \<in> set ?ts" "I c" for v c
    using visitor_discards [of pal, OF assms(3), of c v b e] assms(2) that by (auto simp: I_def backed_def discard_def)
  then obtain r where r: "u_traverse_vmas_in_range b e (madvise_dontneed_visitor pal b e) (0, s) ?ts = Some (r, fold (discard b e) L (0, s))"
    "r \<and> list_all discardable L \<longleftrightarrow> all_at discardable b e ?ts"
    using traverse_visits [where I = I, OF ok assms(4), of "(0, s)"] unfolding L_def I_def by (metis snd_conv)
  obtain err c where f: "fold (discard b e) L (0, s) = (err, s\<lparr>pal_calls := c, as_bytes := \<lambda>x.
      if (\<exists>v\<in>set L. discardable v \<and> vma_file v = None \<and> is_addr_in_vma x v) \<and> b \<le> x \<and> x < e then 0 else as_bytes s x\<rparr>)"
    "if list_all discardable L then err = 0 else (0 :: int) \<le> 0 \<longrightarrow> err < 0"
    using discard_fold [of b e L 0 s] by blast
  have run: "madvise_dontneed_range pal b e s = Some (if \<not> r then - ENOMEM else err, snd (fold (discard b e) L (0, s)))"
    using r(1) f(1) by (simp add: madvise_dontneed_range_def)
  show ?thesis
  proof (cases "all_at discardable b e ?ts")
    case True
    then have all: "r" "list_all discardable L" using r(2) by auto
    have "L = filter (overlaps b e) ?ts" using visited_all all(2) overlaps_takeWhile [OF ok] unfolding L_def by metis
    then have "(\<exists>v\<in>set L. discardable v \<and> vma_file v = None \<and> is_addr_in_vma x v) \<and> b \<le> x \<and> x < e \<longleftrightarrow>
        b \<le> x \<and> x < e \<and> (\<exists>v\<in>set ?ts. is_addr_in_vma x v \<and> vma_file v = None)" for x
      using all(2) by (fastforce simp: list_all_iff overlaps_def is_addr_in_vma_def)
    then show ?thesis using run f all True unfolding all_at_def by auto
  next
    case False
    then have "(if \<not> r then - ENOMEM else err) < 0" using r(2) f(2) by auto
    moreover define B where "B = (\<lambda>x. if (\<exists>v\<in>set L. discardable v \<and> vma_file v = None \<and> is_addr_in_vma x v) \<and> b \<le> x \<and> x < e
      then 0 else as_bytes s x)"
    moreover have "\<forall>x. B x \<noteq> as_bytes s x \<longrightarrow> B x = 0 \<and> b \<le> x \<and> x < e \<and>
        (\<exists>v\<in>set ?ts. is_addr_in_vma x v \<and> discardable v \<and> vma_file v = None)"
      using sub unfolding B_def by (auto split: if_splits)
    moreover have "madvise_dontneed_range pal b e s = Some (if \<not> r then - ENOMEM else err, s\<lparr>pal_calls := c, as_bytes := B\<rparr>)"
      unfolding run f(1) B_def by simp
    ultimately show ?thesis unfolding if_not_P [OF False [unfolded all_at_def]] by blast
  qed
qed

definition demo_anon_vma :: libos_vma where
  "demo_anon_vma = \<lparr>vma_begin = 0x10000, vma_end = 0x12000, vma_prot = PROT_READ, vma_flags = MAP_PRIVATE OR MAP_ANONYMOUS,
     vma_file = None, vma_offset = 0, vma_comment = ''heap''\<rparr>"

definition demo_anon_space :: "unit addr_space" where
  "demo_anon_space = \<lparr>as_bytes = \<lambda>x. 7, as_prot = \<lambda>x. Some (PAL_PROT_READ OR PAL_PROT_WRITECOPY), pal_calls = 0,
     as_vmas = demo_state\<lparr>vma_tree := [demo_anon_vma], g_total_memory_size := 0x2000, num_mmapped := \<lambda>i. 0\<rparr>, fs_state = ()\<rparr>"

theorem madvise_dontneed_correct_witness:
  "\<exists>s'. madvise_dontneed_range (\<lambda>k. 0) 0x11000 0x12000 demo_anon_space = Some (0, s') \<and>
     as_bytes s' 0x11000 = 0 \<and> as_bytes s' 0x10fff = 7 \<and> as_prot s' 0x11000 = Some (PAL_PROT_READ OR PAL_PROT_WRITECOPY)"
proof -
  have tree: "vma_tree (as_vmas demo_anon_space) = [demo_anon_vma]" by (simp add: demo_anon_space_def)
  have "LINUX_PROT_TO_PAL PROT_READ (MAP_PRIVATE OR MAP_ANONYMOUS) = Some (PAL_PROT_READ OR PAL_PROT_WRITECOPY)"
    by (simp add: LINUX_PROT_TO_PAL_def WITHIN_MASK_def pal_prot_defs vma_consts PROT_NONE_def PROT_GROWSDOWN_def PROT_GROWSUP_def PROT_EXEC_def)
  then have backed: "backed demo_anon_space" unfolding backed_def tree by (simp add: demo_anon_space_def demo_anon_vma_def)
  have inv: "vma_inv (as_vmas demo_anon_space)"
    by (simp add: vma_inv_def mem_ok_def files_ok_def demo_anon_space_def demo_state_def)
      (simp add: demo_anon_vma_def vma_ok_def IS_ALLOC_ALIGNED_def ALLOC_ALIGNMENT_def copy_comment_def VMA_COMMENT_LEN_def maps_inode_def maps_handle_def)
  have "is_addr_in_vma x demo_anon_vma \<and> discardable demo_anon_vma" if "0x11000 \<le> x \<and> x < 0x12000" for x
    using that by (simp add: is_addr_in_vma_def discardable_def demo_anon_vma_def vma_consts)
  then have all: "\<forall>x. 0x11000 \<le> x \<and> x < 0x12000 \<longrightarrow> (\<exists>v\<in>set (vma_tree (as_vmas demo_anon_space)). is_addr_in_vma x v \<and> discardable v)"
    unfolding tree by simp
  obtain c where "madvise_dontneed_range (\<lambda>k. 0) 0x11000 0x12000 demo_anon_space = Some (0, demo_anon_space\<lparr>pal_calls := c, as_bytes := \<lambda>x.
      if 0x11000 \<le> x \<and> x < 0x12000 \<and> (\<exists>v\<in>set (vma_tree (as_vmas demo_anon_space)). is_addr_in_vma x v \<and> vma_file v = None)
      then 0 else as_bytes demo_anon_space x\<rparr>)"
    using madvise_dontneed_correct [where pal = "\<lambda>k. 0" and b = "0x11000" and e = "0x12000", OF inv backed] all by auto
  then show ?thesis unfolding tree by (auto simp: is_addr_in_vma_def demo_anon_vma_def) (simp_all add: demo_anon_space_def)
qed

section \<open>Reading through a callback\<close>

text \<open>
  What the loops rely on: a read stores a non-empty piece of the file as long as the position is inside it, and changes
  nothing else.
\<close>

definition fill :: "addr \<Rightarrow> nat \<Rightarrow> nat \<Rightarrow> byte list \<Rightarrow> (addr \<Rightarrow> byte) \<Rightarrow> addr \<Rightarrow> byte" where
  "fill a n pos f m x = (if span a (min n (length f - pos)) x then f ! (pos + (x - a)) else m x)"

text \<open>The offset a region shows at an address, and memory after the regions of a list have been read in again.\<close>

definition shown :: "libos_vma \<Rightarrow> addr \<Rightarrow> nat" where
  "shown v x = vma_offset v + (x - vma_begin v)"

definition refresh :: "byte list \<Rightarrow> libos_vma list \<Rightarrow> (addr \<Rightarrow> byte) \<Rightarrow> addr \<Rightarrow> byte" where
  "refresh f vs m x =
     (case List.find (is_addr_in_vma x) vs of
        None \<Rightarrow> m x
      | Some v \<Rightarrow> if shown v x < length f then f ! shown v x else m x)"

lemma refresh_Nil [simp]: "refresh f [] m = m"
  by (simp add: refresh_def fun_eq_iff)

lemma refresh_Cons:
  assumes "vmas_ok (v # vs)"
  shows "refresh f vs (refresh f [v] m) = refresh f (v # vs) m"
proof
  fix x
  have "List.find (is_addr_in_vma x) vs = None" if "is_addr_in_vma x v"
    using assms that by (auto simp: find_None_iff is_addr_in_vma_def)
  then show "refresh f vs (refresh f [v] m) x = refresh f (v # vs) m x"
    by (auto simp: refresh_def split: option.splits)
qed

lemma fill_refresh:
  assumes "vma_ok v"
  shows "fill (vma_begin v) (vma_end v - vma_begin v) (vma_offset v) f m = refresh f [v] m"
  using assms by (auto simp: fill_def refresh_def shown_def span_def is_addr_in_vma_def vma_ok_def fun_eq_iff)

locale byte_reader =
  fixes rd :: "'f file_op" and bytes_of :: "'f \<Rightarrow> byte list" and fs_ok :: "'f \<Rightarrow> bool"
  assumes read_law: "fs_ok (fs_state s) \<Longrightarrow> 0 \<le> pos \<Longrightarrow> (\<And>x. span a n x \<Longrightarrow> allows PAL_PROT_WRITE s x) \<Longrightarrow>
    \<exists>k. rd a n pos s = Some (int k, pos + int k, s\<lparr>as_bytes := fill a k (nat pos) (bytes_of (fs_state s)) (as_bytes s)\<rparr>) \<and>
      k \<le> n \<and> k \<le> length (bytes_of (fs_state s)) - nat pos \<and> (k = 0 \<longrightarrow> n = 0 \<or> length (bytes_of (fs_state s)) \<le> nat pos)"
begin

lemma fill_fill:
  assumes "k \<le> n" "k \<le> length f - pos"
  shows "fill (a + k) (n - k) (pos + k) f (fill a k pos f m) = fill a n pos f m"
  using assms by (auto simp: fill_def span_def fun_eq_iff min_def)

lemma read_loop_fills:
  assumes "fs_ok (fs_state s)" "0 \<le> pos" "\<And>x. span a n x \<Longrightarrow> allows PAL_PROT_WRITE s x"
  shows "read_loop retry rd a n pos s = Some (0, s\<lparr>as_bytes := fill a n (nat pos) (bytes_of (fs_state s)) (as_bytes s)\<rparr>)"
  using assms
proof (induction n arbitrary: a pos s rule: less_induct)
  case (less n)
  obtain k where k: "rd a n pos s = Some (int k, pos + int k, s\<lparr>as_bytes := fill a k (nat pos) (bytes_of (fs_state s)) (as_bytes s)\<rparr>)"
    "k \<le> n" "k \<le> length (bytes_of (fs_state s)) - nat pos" "k = 0 \<longrightarrow> n = 0 \<or> length (bytes_of (fs_state s)) \<le> nat pos"
    using read_law [OF less.prems] by blast
  define s1 where "s1 = s\<lparr>as_bytes := fill a k (nat pos) (bytes_of (fs_state s)) (as_bytes s)\<rparr>"
  show ?case
  proof (cases "k = 0")
    case True
    then have "fill a n (nat pos) (bytes_of (fs_state s)) (as_bytes s) = as_bytes s" "fill a k (nat pos) (bytes_of (fs_state s)) (as_bytes s) = as_bytes s"
      using k(4) by (auto simp: fill_def span_def fun_eq_iff)
    then show ?thesis using True k(1) by (subst read_loop.simps) simp
  next
    case False
    have "read_loop retry rd (a + k) (n - k) (pos + int k) s1 =
        Some (0, s1\<lparr>as_bytes := fill (a + k) (n - k) (nat (pos + int k)) (bytes_of (fs_state s1)) (as_bytes s1)\<rparr>)"
      using False less.prems k(2)
      by (intro less.IH) (auto simp: s1_def span_def allows_def)
    also have "\<dots> = Some (0, s\<lparr>as_bytes := fill a n (nat pos) (bytes_of (fs_state s)) (as_bytes s)\<rparr>)"
      using less.prems(2) fill_fill [OF k(2,3)] by (simp add: s1_def nat_add_distrib)
    finally show ?thesis using False k(1,2) unfolding s1_def [symmetric] by (subst read_loop.simps) auto
  qed
qed

lemma mmap_shows_file:
  assumes "fs_ok (fs_state s)" "\<And>k. 0 \<le> pal k" "a \<noteq> 0" "LINUX_PROT_TO_PAL prot fl = Some p" "offset < 2 ^ 63"
  shows "\<exists>c. generic_emulated_mmap pal rd a n prot fl offset s = Some (0, s\<lparr>pal_calls := c,
    as_prot := \<lambda>x. if span a n x then Some p else as_prot s x,
    as_bytes := \<lambda>x. if span a n x then if offset + (x - a) < length (bytes_of (fs_state s)) then bytes_of (fs_state s) ! (offset + (x - a)) else 0
      else as_bytes s x\<rparr>)"
proof -
  define s1 where "s1 = s\<lparr>pal_calls := Suc (pal_calls s), as_prot := \<lambda>x. if span a n x then Some (p OR PAL_PROT_WRITE) else as_prot s x,
    as_bytes := \<lambda>x. if span a n x then 0 else as_bytes s x\<rparr>"
  have off: "to_off offset = int offset" using assms(5) by (simp add: to_off_def)
  have rd: "read_loop (\<lambda>c. c = - EINTR) rd a n (to_off offset) s1 =
      Some (0, s1\<lparr>as_bytes := fill a n offset (bytes_of (fs_state s1)) (as_bytes s1)\<rparr>)"
    using read_loop_fills [of s1 "to_off offset" a n] assms(1) off by (simp add: s1_def allows_def PAL_PROT_WRITE_def)
  have bytes: "fill a n offset (bytes_of (fs_state s1)) (as_bytes s1) =
    (\<lambda>x. if span a n x then if offset + (x - a) < length (bytes_of (fs_state s)) then bytes_of (fs_state s) ! (offset + (x - a)) else 0 else as_bytes s x)"
    by (auto simp: fill_def s1_def span_def fun_eq_iff min_def)
  define s2 where "s2 = s1\<lparr>as_bytes := fill a n offset (bytes_of (fs_state s1)) (as_bytes s1)\<rparr>"
  have run: "generic_emulated_mmap pal rd a n prot fl offset s =
    Some (0, if p \<noteq> p OR PAL_PROT_WRITE then snd (PalVirtualMemoryProtect pal a n p s2) else s2)"
    using rd assms(3,4)
    by (simp add: generic_emulated_mmap_def Let_def alloc_granted [of pal, OF assms(2)] protect_granted [of pal, OF assms(2)]
        s1_def [symmetric] s2_def [symmetric])
  show ?thesis
  proof (cases "p = p OR PAL_PROT_WRITE")
    case True
    then show ?thesis using True [symmetric] unfolding run s2_def bytes unfolding s1_def
      by (intro exI [of _ "Suc (pal_calls s)"]) (simp cong: if_cong)
  next
    case False
    then show ?thesis unfolding run s2_def bytes protect_granted [of pal, OF assms(2)] unfolding s1_def
      by (intro exI [of _ "Suc (Suc (pal_calls s))"]) (simp cong: if_cong)
  qed
qed

lemma reload_vma_shows:
  assumes "fs_ok (fs_state s)" "\<And>k. 0 \<le> pal k" "vma_ok v" "vma_file v = Some h" "hdl_has_read h" "rdh h = rd"
    "LINUX_PROT_TO_PAL (vma_prot v) (vma_flags v) = Some p" "\<And>x. is_addr_in_vma x v \<Longrightarrow> as_prot s x = Some p" "vma_offset v < 2 ^ 63"
  shows "\<exists>c. reload_vma pal rdh (vma_info v) s =
    Some (0, s\<lparr>pal_calls := c, as_bytes := refresh (bytes_of (fs_state s)) [v] (as_bytes s)\<rparr>)"
proof -
  define n where "n = vma_end v - vma_begin v"
  define pw where "pw = p OR PAL_PROT_WRITE"
  define s1 where "s1 = (if p \<noteq> pw then snd (PalVirtualMemoryProtect pal (vma_begin v) n pw s) else s)"
  define s2 where "s2 = s1\<lparr>as_bytes := refresh (bytes_of (fs_state s)) [v] (as_bytes s)\<rparr>"
  have v: "u64 (vma_begin v + n) = vma_end v" "IS_ALLOC_ALIGNED (vma_begin v)" "IS_ALLOC_ALIGNED (vma_end v)"
    "\<And>x. span (vma_begin v) n x \<longleftrightarrow> is_addr_in_vma x v" "to_off (vma_offset v) = int (vma_offset v)"
    using assms(3,9) by (auto simp: vma_ok_def n_def span_def is_addr_in_vma_def to_off_def)
  have s1: "fs_state s1 = fs_state s" "as_bytes s1 = as_bytes s" by (simp_all add: s1_def protect_granted [of pal, OF assms(2)])
  have "has_flag pw PAL_PROT_WRITE" unfolding pw_def has_flag_or by (simp add: PAL_PROT_WRITE_def)
  moreover have "as_prot s1 x = Some pw" if "span (vma_begin v) n x" for x
    using that assms(8) by (auto simp: s1_def protect_granted [of pal, OF assms(2)] v(4))
  ultimately have "allows PAL_PROT_WRITE s1 x" if "span (vma_begin v) n x" for x
    using that by (simp add: allows_def)
  then have rd: "read_loop (\<lambda>c. c = - EINTR \<or> c = - EAGAIN) rd (vma_begin v) n (to_off (vma_offset v)) s1 = Some (0, s2)"
    using read_loop_fills [of s1 "to_off (vma_offset v)" "vma_begin v" n] assms(1) fill_refresh [OF assms(3)]
    by (simp add: s1 s2_def v(5) n_def)
  have run: "reload_vma pal rdh (vma_info v) s =
    Some (0, if p \<noteq> pw then snd (PalVirtualMemoryProtect pal (vma_begin v) n p s2) else s2)"
    using rd v(1-3) assms(4-7)
    by (simp add: reload_vma_def vma_info_def n_def [symmetric] pw_def [symmetric] Let_def s1_def protect_granted [of pal, OF assms(2)]
        split: if_splits)
  have prot: "(\<lambda>x. if span (vma_begin v) n x then Some p else as_prot s x) = as_prot s"
    using assms(8) v(4) by auto
  show ?thesis
  proof (cases "p = pw")
    case True
    then show ?thesis unfolding run s2_def s1_def by (intro exI [of _ "pal_calls s"]) simp
  next
    case False
    then show ?thesis unfolding run s2_def s1_def protect_granted [of pal, OF assms(2)]
      by (intro exI [of _ "Suc (Suc (pal_calls s))"]) (simp add: prot cong: if_cong)
  qed
qed

lemma reload_infos_shows:
  assumes "fs_ok (fs_state s)" "\<And>k. 0 \<le> pal k" "vmas_ok vs"
    and "\<And>v. v \<in> set vs \<Longrightarrow> vma_offset v < 2 ^ 63 \<and> (\<exists>h. vma_file v = Some h \<and> hdl_has_read h \<and> rdh h = rd) \<and>
      (\<exists>p. LINUX_PROT_TO_PAL (vma_prot v) (vma_flags v) = Some p \<and> (\<forall>x. is_addr_in_vma x v \<longrightarrow> as_prot s x = Some p))"
  shows "\<exists>c. reload_infos pal rdh (map vma_info vs) s =
    Some (0, s\<lparr>pal_calls := c, as_bytes := refresh (bytes_of (fs_state s)) vs (as_bytes s)\<rparr>)"
  using assms
proof (induction vs arbitrary: s)
  case Nil
  then show ?case by (intro exI [of _ "pal_calls s"]) simp
next
  case (Cons v vs)
  obtain h p where v: "vma_file v = Some h" "hdl_has_read h" "rdh h = rd" "vma_offset v < 2 ^ 63"
    "LINUX_PROT_TO_PAL (vma_prot v) (vma_flags v) = Some p" "\<And>x. is_addr_in_vma x v \<Longrightarrow> as_prot s x = Some p"
    using Cons.prems(4) [of v] by auto
  have "vma_ok v" using Cons.prems(3) by simp
  then obtain c where c: "reload_vma pal rdh (vma_info v) s =
      Some (0, s\<lparr>pal_calls := c, as_bytes := refresh (bytes_of (fs_state s)) [v] (as_bytes s)\<rparr>)"
    using reload_vma_shows [where pal = pal and rdh = rdh, OF Cons.prems(1,2) _ v(1-3,5,6,4)] by blast
  define s1 where "s1 = s\<lparr>pal_calls := c, as_bytes := refresh (bytes_of (fs_state s)) [v] (as_bytes s)\<rparr>"
  have "fs_ok (fs_state s1)" "vmas_ok vs" using Cons.prems by (simp_all add: s1_def)
  moreover have "vma_offset w < 2 ^ 63 \<and> (\<exists>h. vma_file w = Some h \<and> hdl_has_read h \<and> rdh h = rd) \<and>
      (\<exists>p. LINUX_PROT_TO_PAL (vma_prot w) (vma_flags w) = Some p \<and> (\<forall>x. is_addr_in_vma x w \<longrightarrow> as_prot s1 x = Some p))"
    if "w \<in> set vs" for w using Cons.prems(4) [of w] that by (simp add: s1_def)
  ultimately obtain d where "reload_infos pal rdh (map vma_info vs) s1 =
      Some (0, s1\<lparr>pal_calls := d, as_bytes := refresh (bytes_of (fs_state s1)) vs (as_bytes s1)\<rparr>)"
    using Cons.IH [OF _ Cons.prems(2)] by blast
  then show ?case using c refresh_Cons [OF Cons.prems(3)]
    by (intro exI [of _ d]) (simp add: s1_def)
qed

end

section \<open>tmpfs as such a file system\<close>

interpretation tmpfs_file: byte_reader "tmpfs_read hdl" "\<lambda>fs. content (ti_mem (fs (the (hdl_inode hdl))))"
    "\<lambda>fs. hdl_inode hdl \<noteq> None \<and> mem_file_ok (ti_mem (fs (the (hdl_inode hdl))))" for hdl
proof unfold_locales
  fix s :: "tmpfs addr_space" and pos :: int and a n
  assume ok: "hdl_inode hdl \<noteq> None \<and> mem_file_ok (ti_mem (fs_state s (the (hdl_inode hdl))))" "0 \<le> pos"
    and w: "\<And>x. span a n x \<Longrightarrow> allows PAL_PROT_WRITE s x"
  let ?c = "content (ti_mem (fs_state s (the (hdl_inode hdl))))"
  define d where "d = take n (drop (nat pos) ?c)"
  have "store a d s = Some (s\<lparr>as_bytes := \<lambda>x. if span a (length d) x then d ! (x - a) else as_bytes s x\<rparr>)"
    by (rule store_allowed) (use w in \<open>auto simp: d_def span_def\<close>)
  moreover have "(\<lambda>x. if span a (length d) x then d ! (x - a) else as_bytes s x) = fill a (length d) (nat pos) ?c (as_bytes s)"
    by (auto simp: d_def fill_def span_def fun_eq_iff)
  moreover have "mem_file_read (ti_mem (fs_state s (the (hdl_inode hdl)))) pos n = Some (int (length d), d)"
    unfolding d_def using ok by (intro read_content) auto
  ultimately have "tmpfs_read hdl a n pos s = Some (int (length d), pos + int (length d), s\<lparr>as_bytes := fill a (length d) (nat pos) ?c (as_bytes s)\<rparr>)"
    using ok by (auto simp: tmpfs_read_def)
  then show "\<exists>k. tmpfs_read hdl a n pos s = Some (int k, pos + int k, s\<lparr>as_bytes := fill a k (nat pos) ?c (as_bytes s)\<rparr>) \<and>
      k \<le> n \<and> k \<le> length ?c - nat pos \<and> (k = 0 \<longrightarrow> n = 0 \<or> length ?c \<le> nat pos)"
    by (intro exI [of _ "length d"]) (auto simp: d_def)
qed

text \<open>The shared mappings of an inode.\<close>

definition needs_reload :: "nat \<Rightarrow> libos_vma \<Rightarrow> bool" where
  "needs_reload i v \<longleftrightarrow> \<not> has_flag (vma_flags v) not_shared_file \<and>
     (\<exists>f. vma_file v = Some f \<and> hdl_inode f = Some i \<and> hdl_has_read f \<and> hdl_may_read f)"

definition mappings_ok :: "nat \<Rightarrow> 'f addr_space \<Rightarrow> bool" where
  "mappings_ok i s \<longleftrightarrow> vma_inv (as_vmas s) \<and> shared_have_files (vma_tree (as_vmas s)) \<and> backed s \<and>
     (\<forall>v\<in>set (vma_tree (as_vmas s)). needs_reload i v \<longrightarrow> vma_offset v < 2 ^ 63)"

lemma shared_user: "\<not> has_flag fl not_shared_file \<Longrightarrow> \<not> has_flag fl (VMA_UNMAPPED OR VMA_INTERNAL)"
proof -
  have "not_shared_file AND (VMA_UNMAPPED OR VMA_INTERNAL) = VMA_UNMAPPED OR VMA_INTERNAL"
    by (simp add: not_shared_file_def vma_consts)
  then have "fl AND (VMA_UNMAPPED OR VMA_INTERNAL) = (fl AND not_shared_file) AND (VMA_UNMAPPED OR VMA_INTERNAL)"
    by (simp only: and.assoc)
  then show "\<not> has_flag fl not_shared_file \<Longrightarrow> \<not> has_flag fl (VMA_UNMAPPED OR VMA_INTERNAL)" by simp
qed

lemma tmpfs_reload:
  assumes "hdl_inode hdl = Some i" "mem_file_ok (ti_mem (fs_state s i))" "mappings_ok i s" "\<And>k. 0 \<le> pal k" "\<And>k. calloc k"
  shows "\<exists>c. reload_mmaped_from_file_handle calloc pal tmpfs_read hdl s =
    Some (0, s\<lparr>pal_calls := c, as_bytes := refresh (content (ti_mem (fs_state s i))) (filter (needs_reload i) (vma_tree (as_vmas s))) (as_bytes s)\<rparr>)"
proof -
  let ?ts = "vma_tree (as_vmas s)"
  define sel where "sel = filter (\<lambda>v. overlaps 0 UINTPTR_MAX v \<and> needs_reload i v) ?ts"
  have ok: "vmas_ok ?ts" using assms(3) by (simp add: mappings_ok_def vma_inv_def mem_ok_def)
  have "overlaps 0 UINTPTR_MAX v" if "v \<in> set ?ts" for v
    using vmas_okD [OF ok that] by (simp add: overlaps_def UINTPTR_MAX_def)
  then have sel: "sel = filter (needs_reload i) ?ts" unfolding sel_def by (intro filter_cong) auto
  have flt: "vma_filter_needs_reload hdl v = Some (needs_reload i v)" if "v \<in> set ?ts" for v
    using assms(1,3) that unfolding mappings_ok_def shared_have_files_def
    by (auto simp: vma_filter_needs_reload_def needs_reload_def split: option.splits)
  have dump: "dump_vmas calloc 0 UINTPTR_MAX (vma_filter_needs_reload hdl) (as_vmas s) =
      Some (0, map vma_info sel, get_files sel (as_vmas s))"
    using dump_vmas_total [OF ok sel_def, of calloc] assms(5)
      dump_vmas_cong [of "as_vmas s", OF flt, where calloc = calloc and b = 0 and e = UINTPTR_MAX] by simp
  define s1 where "s1 = s\<lparr>as_vmas := get_files sel (as_vmas s)\<rparr>"
  have "vmas_ok sel" using ok by (simp add: sel vmas_ok_def sorted_wrt_filter)
  moreover have "vma_offset v < 2 ^ 63 \<and> (\<exists>h. vma_file v = Some h \<and> hdl_has_read h \<and> tmpfs_read h = tmpfs_read hdl) \<and>
      (\<exists>p. LINUX_PROT_TO_PAL (vma_prot v) (vma_flags v) = Some p \<and> (\<forall>x. is_addr_in_vma x v \<longrightarrow> as_prot s1 x = Some p))"
    if v: "v \<in> set sel" for v
  proof -
    have n: "v \<in> set ?ts" "needs_reload i v" using v by (auto simp: sel)
    have "tmpfs_read h = tmpfs_read hdl" if "hdl_inode h = Some i" for h
      using that assms(1) by (simp add: tmpfs_read_def fun_eq_iff)
    moreover have "\<not> has_flag (vma_flags v) (VMA_UNMAPPED OR VMA_INTERNAL)"
      using n(2) shared_user by (simp add: needs_reload_def)
    ultimately show ?thesis using n assms(3) unfolding mappings_ok_def backed_def needs_reload_def s1_def by fastforce
  qed
  ultimately obtain c where "reload_infos pal tmpfs_read (map vma_info sel) s1 =
      Some (0, s1\<lparr>pal_calls := c, as_bytes := refresh (content (ti_mem (fs_state s1 (the (hdl_inode hdl))))) sel (as_bytes s1)\<rparr>)"
    using tmpfs_file.reload_infos_shows [of hdl s1 pal sel tmpfs_read] assms(1,2,4) by (auto simp: s1_def)
  then show ?thesis using dump assms(1)
    by (intro exI [of _ c]) (simp add: reload_mmaped_from_file_handle_def s1_def sel)
qed

lemma mappings_ok_update [simp]:
  "mappings_ok i (s\<lparr>fs_state := f\<rparr>) = mappings_ok i s" "mappings_ok i (s\<lparr>as_bytes := m\<rparr>) = mappings_ok i s"
  "mappings_ok i (s\<lparr>pal_calls := c\<rparr>) = mappings_ok i s"
  by (simp_all add: mappings_ok_def backed_def)

lemma mappings_vmas_ok: "mappings_ok i s \<Longrightarrow> vmas_ok (vma_tree (as_vmas s))"
  by (simp add: mappings_ok_def vma_inv_def mem_ok_def)

lemma no_mappings:
  assumes "vma_inv st" "num_mmapped st i = 0"
  shows "filter (needs_reload i) (vma_tree st) = []"
proof -
  have "inode_count i (vma_tree st) = 0" using assms by (simp add: vma_inv_def files_ok_def)
  then have "\<not> maps_inode i v" if "v \<in> set (vma_tree st)" for v
    using that by (auto simp: inode_count_def filter_empty_conv)
  then show ?thesis by (auto simp: filter_empty_conv needs_reload_def maps_inode_def)
qed

lemma refresh_at:
  assumes "vmas_ok vs" "v \<in> set vs" "is_addr_in_vma x v"
  shows "refresh f vs m x = (if shown v x < length f then f ! shown v x else m x)"
proof -
  obtain w where w: "List.find (is_addr_in_vma x) vs = Some w" using assms(2,3) by (metis find_None_iff not_None_eq)
  then have "w \<in> set vs" "is_addr_in_vma x w" by (auto simp: find_Some_iff)
  then have "w = v" using vmas_ok_unique assms by metis
  then show ?thesis using w by (simp add: refresh_def)
qed

lemma refresh_out: "(\<And>v. v \<in> set vs \<Longrightarrow> \<not> is_addr_in_vma x v) \<Longrightarrow> refresh f vs m x = m x"
  by (simp add: refresh_def find_None_iff [THEN iffD2] split: option.splits)

lemma tmpfs_write_refreshes:
  assumes "hdl_inode hdl = Some i" "mem_file_ok (ti_mem (fs_state s i))" "mappings_ok i s" "\<And>k. 0 \<le> pal k" "\<And>k. calloc k"
    and "0 < n" "0 \<le> pos" "pos + int n \<le> FILE_OFF_MAX" "mf_buf_size (ti_mem (fs_state s i)) < nat pos + n \<Longrightarrow> malloc"
    and "\<And>x. span a n x \<Longrightarrow> allows PAL_PROT_READ s x"
  shows "\<exists>m' c. tmpfs_write True malloc calloc pal hdl a n pos s = Some (int n, pos + int n,
      s\<lparr>fs_state := (fs_state s)(i := (fs_state s i)\<lparr>ti_mem := m', ti_size := mf_size m'\<rparr>), pal_calls := c,
        as_bytes := refresh (content m') (filter (needs_reload i) (vma_tree (as_vmas s))) (as_bytes s)\<rparr>) \<and> mem_file_ok m' \<and>
    (clean (ti_mem (fs_state s i)) \<longrightarrow> clean m') \<and>
    content m' = padded (content (ti_mem (fs_state s i))) (if mf_buf_size (ti_mem (fs_state s i)) < nat pos + n then [] else
      slack (ti_mem (fs_state s i))) (nat pos) @ map (as_bytes s) [a..<a + n] @ drop (nat pos + n) (content (ti_mem (fs_state s i)))"
proof -
  let ?m = "ti_mem (fs_state s i)"
  define bs where "bs = map (as_bytes s) [a..<a + n]"
  have bs: "load a n s = Some bs" "length bs = n" "bs \<noteq> []" using load_allowed [OF assms(10)] assms(6) by (auto simp: bs_def)
  obtain m' where m': "mem_file_write malloc ?m pos bs = Some (int n, m')" "mem_file_ok m'" "clean ?m \<longrightarrow> clean m'"
    "content m' = padded (content ?m) (if mf_buf_size ?m < nat pos + n then [] else slack ?m) (nat pos) @ bs @ drop (nat pos + n) (content ?m)"
    using write_at [OF assms(2,7) bs(3), of malloc] assms(8,9) unfolding bs(2) by blast
  define s1 where "s1 = s\<lparr>fs_state := (fs_state s)(i := (fs_state s i)\<lparr>ti_mem := m', ti_size := mf_size m'\<rparr>)\<rparr>"
  let ?sel = "filter (needs_reload i) (vma_tree (as_vmas s))"
  have "\<exists>c. tmpfs_write True malloc calloc pal hdl a n pos s =
      Some (int n, pos + int n, s1\<lparr>pal_calls := c, as_bytes := refresh (content m') ?sel (as_bytes s)\<rparr>)"
  proof (cases "num_mmapped (as_vmas s) i = 0")
    case True
    then have "?sel = []" using no_mappings assms(3) by (simp add: mappings_ok_def)
    then show ?thesis using True assms(1) bs(1) m'(1)
      by (intro exI [of _ "pal_calls s"]) (simp add: tmpfs_write_def s1_def)
  next
    case False
    have "mem_file_ok (ti_mem (fs_state s1 i))" "mappings_ok i s1" using m'(2) assms(3) by (simp_all add: s1_def)
    then obtain c where "reload_mmaped_from_file_handle calloc pal tmpfs_read hdl s1 =
        Some (0, s1\<lparr>pal_calls := c, as_bytes := refresh (content (ti_mem (fs_state s1 i))) (filter (needs_reload i) (vma_tree (as_vmas s1))) (as_bytes s1)\<rparr>)"
      using tmpfs_reload [where pal = pal and calloc = calloc, OF assms(1) _ _ assms(4,5)] by blast
    then show ?thesis using False assms(1) bs(1) m'(1)
      by (intro exI [of _ c]) (simp add: tmpfs_write_def s1_def)
  qed
  then show ?thesis using m'(2-4) unfolding s1_def bs_def by blast
qed

lemma tmpfs_msync_writes:
  assumes "hdl_inode hdl = Some i" "mem_file_ok (ti_mem (fs_state s i))" "mappings_ok i s" "\<And>k. 0 \<le> pal k" "\<And>k. calloc k"
    and "ti_size (fs_state s i) = mf_size (ti_mem (fs_state s i))" "\<not> has_flag fl MAP_PRIVATE"
    and "LINUX_PROT_TO_PAL prot fl = Some p" "p OR PAL_PROT_READ = p" "\<And>x. span a n x \<Longrightarrow> allows PAL_PROT_READ s x"
    and "k = min n (length (content (ti_mem (fs_state s i))) - offset)" "0 < k" "offset < 2 ^ 63"
  shows "\<exists>m' c. tmpfs_msync True malloc calloc pal hdl a n prot fl offset s = Some (0,
      s\<lparr>fs_state := (fs_state s)(i := (fs_state s i)\<lparr>ti_mem := m', ti_size := mf_size m'\<rparr>), pal_calls := c,
        as_bytes := refresh (content m') (filter (needs_reload i) (vma_tree (as_vmas s))) (as_bytes s)\<rparr>) \<and> mem_file_ok m' \<and>
    content m' = take offset (content (ti_mem (fs_state s i))) @ map (as_bytes s) [a..<a + k] @ drop (offset + k) (content (ti_mem (fs_state s i)))"
proof -
  let ?m = "ti_mem (fs_state s i)"
  have size: "length (content ?m) = nat (mf_size ?m)" "0 \<le> mf_size ?m" "mf_size ?m \<le> FILE_OFF_MAX" "nat (mf_size ?m) \<le> mf_buf_size ?m"
    "length (content ?m) + length (slack ?m) = mf_buf_size ?m"
    using assms(2) by (auto simp: mem_file_ok_def slack_def)
  have k: "k \<le> n" "offset + k \<le> nat (mf_size ?m)" using assms(11,12) size(1) by auto
  have ws: "nat (ti_size (fs_state s i) mod 2 ^ 64) = nat (mf_size ?m)" "\<not> nat (mf_size ?m) < offset" "min n (nat (mf_size ?m) - offset) = k"
    using assms(11,12) size(1-3) by (auto simp: assms(6) FILE_OFF_MAX_def)
  have off: "to_off offset = int offset" using assms(13) by (simp add: to_off_def)
  have pad: "padded (content ?m) (if mf_buf_size ?m < offset + k then [] else slack ?m) offset = take offset (content ?m)"
    using k size by (subst padded_slack) auto
  obtain m' c where w: "tmpfs_write True malloc calloc pal hdl a k (int offset) s = Some (int k, int offset + int k,
      s\<lparr>fs_state := (fs_state s)(i := (fs_state s i)\<lparr>ti_mem := m', ti_size := mf_size m'\<rparr>), pal_calls := c,
        as_bytes := refresh (content m') (filter (needs_reload i) (vma_tree (as_vmas s))) (as_bytes s)\<rparr>)" "mem_file_ok m'"
    "content m' = take offset (content ?m) @ map (as_bytes s) [a..<a + k] @ drop (offset + k) (content ?m)"
  proof -
    have "int offset + int k \<le> FILE_OFF_MAX" "0 \<le> int offset" "mf_buf_size ?m < nat (int offset) + k \<Longrightarrow> malloc"
      "\<And>x. span a k x \<Longrightarrow> allows PAL_PROT_READ s x" using k size(2,3,4) assms(10) by (auto simp: span_def)
    note tmpfs_write_refreshes [where pal = pal and calloc = calloc and malloc = malloc and a = a, OF assms(1-5,12) this(2,1,3,4),
      unfolded nat_int pad]
    then show thesis using that by blast
  qed
  have "write_loop (tmpfs_write True malloc calloc pal hdl) a k (int offset) s = Some (0,
      s\<lparr>fs_state := (fs_state s)(i := (fs_state s i)\<lparr>ti_mem := m', ti_size := mf_size m'\<rparr>), pal_calls := c,
        as_bytes := refresh (content m') (filter (needs_reload i) (vma_tree (as_vmas s))) (as_bytes s)\<rparr>)"
    using w(1) assms(12) by (subst write_loop.simps) (simp, subst write_loop.simps, simp)
  then have "tmpfs_msync True malloc calloc pal hdl a n prot fl offset s = Some (0,
      s\<lparr>fs_state := (fs_state s)(i := (fs_state s i)\<lparr>ti_mem := m', ti_size := mf_size m'\<rparr>), pal_calls := c,
        as_bytes := refresh (content m') (filter (needs_reload i) (vma_tree (as_vmas s))) (as_bytes s)\<rparr>)"
    using assms(1,7,8,9) ws off by (simp add: tmpfs_msync_def generic_emulated_msync_def Let_def)
  then show ?thesis using w(2,3) by blast
qed

section \<open>Mappings and the file\<close>

lemma prot_read:
  assumes "LINUX_PROT_TO_PAL prot fl = Some p" "has_flag prot PROT_READ"
  shows "p OR PAL_PROT_READ = p" "has_flag p PAL_PROT_READ"
proof -
  define q where "q = (if has_flag prot PROT_WRITE then PAL_PROT_WRITE else 0) OR (if has_flag prot PROT_EXEC then PAL_PROT_EXEC else 0) OR
    (if has_flag fl MAP_PRIVATE then PAL_PROT_WRITECOPY else 0)"
  have q: "p = PAL_PROT_READ OR q" using assms unfolding q_def LINUX_PROT_TO_PAL_def by (auto split: if_split_asm)
  show "p OR PAL_PROT_READ = p" unfolding q by (rule bit_eqI) (auto simp: bit_simps)
  then show "has_flag p PAL_PROT_READ" by (metis PAL_PROT_READ_def has_flag_or one_neq_zero)
qed

text \<open>The call that writing back makes for a region.\<close>

definition msync_region :: "(nat \<Rightarrow> bool) \<Rightarrow> pal_results \<Rightarrow> addr \<Rightarrow> addr \<Rightarrow> libos_vma \<Rightarrow> tmpfs addr_space \<Rightarrow> (int \<times> tmpfs addr_space) option" where
  "msync_region calloc pal b e v s =
     (let call = msync_of b e v
      in tmpfs_msync True True calloc pal (mc_file call) (mc_begin call) (mc_len call) (mc_prot call) (mc_flags call) (mc_offset call) s)"

lemma msync_region_writes:
  assumes "mappings_ok i s" "mem_file_ok (ti_mem (fs_state s i))" "ti_size (fs_state s i) = mf_size (ti_mem (fs_state s i))"
    and "\<And>k. 0 \<le> pal k" "\<And>k. calloc k" "v \<in> set (vma_tree (as_vmas s))" "needs_reload i v" "has_flag (vma_prot v) PROT_READ"
    and "k = min (min e (vma_end v) - max b (vma_begin v)) (length (content (ti_mem (fs_state s i))) - vma_offset v)" "0 < k"
  shows "\<exists>m' c. msync_region calloc pal b e v s = Some (0,
      s\<lparr>fs_state := (fs_state s)(i := (fs_state s i)\<lparr>ti_mem := m', ti_size := mf_size m'\<rparr>), pal_calls := c,
        as_bytes := refresh (content m') (filter (needs_reload i) (vma_tree (as_vmas s))) (as_bytes s)\<rparr>) \<and> mem_file_ok m' \<and>
    content m' = take (vma_offset v) (content (ti_mem (fs_state s i))) @ map (as_bytes s) [max b (vma_begin v)..<max b (vma_begin v) + k] @
      drop (vma_offset v + k) (content (ti_mem (fs_state s i)))"
proof -
  obtain h where h: "vma_file v = Some h" "hdl_inode h = Some i" "\<not> has_flag (vma_flags v) not_shared_file"
    using assms(7) by (auto simp: needs_reload_def)
  obtain p where p: "LINUX_PROT_TO_PAL (vma_prot v) (vma_flags v) = Some p" "\<And>x. is_addr_in_vma x v \<Longrightarrow> as_prot s x = Some p"
    using assms(1,6) shared_user [OF h(3)] unfolding mappings_ok_def backed_def by blast
  have "not_shared_file AND MAP_PRIVATE = MAP_PRIVATE" by (simp add: not_shared_file_def vma_consts)
  then have "vma_flags v AND MAP_PRIVATE = (vma_flags v AND not_shared_file) AND MAP_PRIVATE" by (simp only: and.assoc)
  then have priv: "\<not> has_flag (vma_flags v) MAP_PRIVATE" using h(3) by simp
  have "allows PAL_PROT_READ s x" if "span (max b (vma_begin v)) (min e (vma_end v) - max b (vma_begin v)) x" for x
  proof -
    have "is_addr_in_vma x v" using that by (auto simp: span_def is_addr_in_vma_def)
    then show ?thesis using p(2) prot_read(2) [OF p(1) assms(8)] by (simp add: allows_def)
  qed
  moreover have "vma_offset v < 2 ^ 63" using assms(1,6,7) by (simp add: mappings_ok_def)
  ultimately show ?thesis
    using tmpfs_msync_writes [where pal = pal and calloc = calloc and malloc = True, OF h(2) assms(2,1,4,5,3) priv p(1) prot_read(1) [OF p(1) assms(8)]
      _ assms(9,10)] h(1) by (simp add: msync_region_def msync_of_def)
qed

abbreviation file_bytes :: "nat \<Rightarrow> tmpfs addr_space \<Rightarrow> byte list" where
  "file_bytes i s \<equiv> content (ti_mem (fs_state s i))"

definition tmpfs_ok :: "nat \<Rightarrow> tmpfs addr_space \<Rightarrow> bool" where
  "tmpfs_ok i s \<longleftrightarrow> mappings_ok i s \<and> mem_file_ok (ti_mem (fs_state s i)) \<and> clean (ti_mem (fs_state s i)) \<and>
     ti_size (fs_state s i) = mf_size (ti_mem (fs_state s i))"

lemma refresh_shows:
  assumes "vmas_ok ts"
  shows "v \<in> set ts \<Longrightarrow> needs_reload i v \<Longrightarrow> is_addr_in_vma x v \<Longrightarrow> shown v x < length f \<Longrightarrow>
      refresh f (filter (needs_reload i) ts) m x = f ! shown v x"
    and "\<forall>v\<in>set ts. needs_reload i v \<longrightarrow> \<not> is_addr_in_vma x v \<Longrightarrow> refresh f (filter (needs_reload i) ts) m x = m x"
proof -
  have "vmas_ok (filter (needs_reload i) ts)" using assms by (simp add: vmas_ok_def sorted_wrt_filter)
  then show "v \<in> set ts \<Longrightarrow> needs_reload i v \<Longrightarrow> is_addr_in_vma x v \<Longrightarrow> shown v x < length f \<Longrightarrow>
      refresh f (filter (needs_reload i) ts) m x = f ! shown v x"
    by (subst refresh_at) auto
  show "\<forall>v\<in>set ts. needs_reload i v \<longrightarrow> \<not> is_addr_in_vma x v \<Longrightarrow> refresh f (filter (needs_reload i) ts) m x = m x"
    by (rule refresh_out) auto
qed


text \<open>C20: Writing back a shared mapping of tmpfs, one that may be read, from its first page on, as \<^verbatim>\<open>msync_all\<close> asks for it
  (the PAL granting its calls, with memory for the copies): the bytes of
  the file that the part of the region shows are those of memory, the others and the length are unchanged, and every
  shared mapping of the file shows the result.\<close>

theorem tmpfs_msync_writes_back:
  assumes "tmpfs_ok i s" "\<And>k. 0 \<le> pal k" "\<And>k. calloc k" "v \<in> set (vma_tree (as_vmas s))" "needs_reload i v" "has_flag (vma_prot v) PROT_READ"
    and "b \<le> vma_begin v" "vma_begin v < e" "vma_offset v < length (file_bytes i s)"
  shows "\<exists>s'. msync_region calloc pal b e v s = Some (0, s') \<and> length (file_bytes i s') = length (file_bytes i s) \<and>
    (\<forall>x. is_addr_in_vma x v \<and> x < e \<and> shown v x < length (file_bytes i s) \<longrightarrow> file_bytes i s' ! shown v x = as_bytes s x) \<and>
    (\<forall>j<length (file_bytes i s). (\<forall>x. is_addr_in_vma x v \<and> x < e \<longrightarrow> shown v x \<noteq> j) \<longrightarrow> file_bytes i s' ! j = file_bytes i s ! j) \<and>
    (\<forall>w x. w \<in> set (vma_tree (as_vmas s)) \<and> needs_reload i w \<and> is_addr_in_vma x w \<and> shown w x < length (file_bytes i s) \<longrightarrow>
       as_bytes s' x = file_bytes i s' ! shown w x)"
proof -
  have ok: "mappings_ok i s" "mem_file_ok (ti_mem (fs_state s i))" "ti_size (fs_state s i) = mf_size (ti_mem (fs_state s i))"
    using assms(1) by (auto simp: tmpfs_ok_def)
  have v: "vma_begin v < vma_end v" "max b (vma_begin v) = vma_begin v" using vmas_okD [OF mappings_vmas_ok [OF ok(1)] assms(4)] assms(7) by auto
  define k where "k = min (min e (vma_end v) - vma_begin v) (length (file_bytes i s) - vma_offset v)"
  have k: "0 < k" "vma_offset v + k \<le> length (file_bytes i s)" using v assms(8,9) by (auto simp: k_def)
  obtain m' c where w: "msync_region calloc pal b e v s = Some (0,
      s\<lparr>fs_state := (fs_state s)(i := (fs_state s i)\<lparr>ti_mem := m', ti_size := mf_size m'\<rparr>), pal_calls := c,
        as_bytes := refresh (content m') (filter (needs_reload i) (vma_tree (as_vmas s))) (as_bytes s)\<rparr>)"
    "content m' = take (vma_offset v) (file_bytes i s) @ map (as_bytes s) [vma_begin v..<vma_begin v + k] @ drop (vma_offset v + k) (file_bytes i s)"
    using msync_region_writes [where pal = pal and calloc = calloc and k = k and b = b and e = e, OF ok assms(2-6) _ k(1)] unfolding v(2) k_def by blast
  define s' where "s' = s\<lparr>fs_state := (fs_state s)(i := (fs_state s i)\<lparr>ti_mem := m', ti_size := mf_size m'\<rparr>), pal_calls := c,
    as_bytes := refresh (content m') (filter (needs_reload i) (vma_tree (as_vmas s))) (as_bytes s)\<rparr>"
  have s': "file_bytes i s' = content m'" "as_bytes s' = refresh (content m') (filter (needs_reload i) (vma_tree (as_vmas s))) (as_bytes s)"
    by (simp_all add: s'_def)
  have len: "length (content m') = length (file_bytes i s)" using k(2) by (simp add: w(2))
  have "file_bytes i s' ! shown v x = as_bytes s x" if "is_addr_in_vma x v" "x < e" "shown v x < length (file_bytes i s)" for x
  proof -
    define d where "d = x - vma_begin v"
    have "x = vma_begin v + d" "d < k" "shown v x = vma_offset v + d"
      using that by (auto simp: d_def k_def is_addr_in_vma_def shown_def)
    then show ?thesis using k(2) unfolding s'(1) w(2) by (simp add: nth_append)
  qed
  moreover have "file_bytes i s' ! j = file_bytes i s ! j"
    if j: "j < length (file_bytes i s)" "\<forall>x. is_addr_in_vma x v \<and> x < e \<longrightarrow> shown v x \<noteq> j" for j
  proof -
    have "\<not> (vma_offset v \<le> j \<and> j < vma_offset v + k)"
    proof
      assume "vma_offset v \<le> j \<and> j < vma_offset v + k"
      then have "is_addr_in_vma (vma_begin v + (j - vma_offset v)) v" "vma_begin v + (j - vma_offset v) < e"
        "shown v (vma_begin v + (j - vma_offset v)) = j" by (auto simp: k_def is_addr_in_vma_def shown_def)
      then show False using j(2) by blast
    qed
    then show ?thesis using k(2) j(1) unfolding s'(1) w(2) by (auto simp: nth_append)
  qed
  moreover have "as_bytes s' x = file_bytes i s' ! shown u x"
    if "u \<in> set (vma_tree (as_vmas s))" "needs_reload i u" "is_addr_in_vma x u" "shown u x < length (file_bytes i s)" for u x
    unfolding s' using refresh_shows(1) [OF mappings_vmas_ok [OF ok(1)] that(1-3)] that(4) len by simp
  ultimately show ?thesis using w(1) [folded s'_def] len [folded s'(1)] by blast
qed

text \<open>C34: Writing back only the end of a shared mapping, which every \<^verbatim>\<open>munmap\<close> of it does, damages the file even if
  nothing was changed: for a mapping that shows its file, an \<^verbatim>\<open>msync\<close> of the region from an address inside it on puts
  the contents of that address at the offset of the start of the region, and the mapping then shows them at its
  start.\<close>

theorem tmpfs_partial_msync_corrupts:
  assumes "tmpfs_ok i s" "\<And>k. 0 \<le> pal k" "\<And>k. calloc k" "v \<in> set (vma_tree (as_vmas s))" "needs_reload i v" "has_flag (vma_prot v) PROT_READ"
    and "\<And>x. is_addr_in_vma x v \<Longrightarrow> as_bytes s x = file_bytes i s ! shown v x" "vma_offset v + (vma_end v - vma_begin v) \<le> length (file_bytes i s)"
    and "vma_begin v < b" "b < vma_end v" "vma_end v \<le> e" "d = b - vma_begin v" "k = vma_end v - b"
  shows "\<exists>s'. msync_region calloc pal b e v s = Some (0, s') \<and>
    file_bytes i s' = take (vma_offset v) (file_bytes i s) @ take k (drop (vma_offset v + d) (file_bytes i s)) @ drop (vma_offset v + k) (file_bytes i s) \<and>
    (\<forall>j<k. file_bytes i s' ! (vma_offset v + j) = file_bytes i s ! (vma_offset v + d + j) \<and>
       as_bytes s' (vma_begin v + j) = file_bytes i s ! (vma_offset v + d + j))"
proof -
  have ok: "mappings_ok i s" "mem_file_ok (ti_mem (fs_state s i))" "ti_size (fs_state s i) = mf_size (ti_mem (fs_state s i))"
    using assms(1) by (auto simp: tmpfs_ok_def)
  have mx: "max b (vma_begin v) = b" "min e (vma_end v) = vma_end v" using assms(9,11) by auto
  have k: "k = min (min e (vma_end v) - max b (vma_begin v)) (length (file_bytes i s) - vma_offset v)" "0 < k"
    "vma_offset v + d + k \<le> length (file_bytes i s)"
    using assms(8-13) unfolding mx by auto
  obtain m' c where w: "msync_region calloc pal b e v s = Some (0,
      s\<lparr>fs_state := (fs_state s)(i := (fs_state s i)\<lparr>ti_mem := m', ti_size := mf_size m'\<rparr>), pal_calls := c,
        as_bytes := refresh (content m') (filter (needs_reload i) (vma_tree (as_vmas s))) (as_bytes s)\<rparr>)"
    "content m' = take (vma_offset v) (file_bytes i s) @ map (as_bytes s) [b..<b + k] @ drop (vma_offset v + k) (file_bytes i s)"
    using msync_region_writes [where pal = pal and calloc = calloc, OF ok assms(2-6) k(1,2)] unfolding mx(1) by blast
  define s' where "s' = s\<lparr>fs_state := (fs_state s)(i := (fs_state s i)\<lparr>ti_mem := m', ti_size := mf_size m'\<rparr>), pal_calls := c,
    as_bytes := refresh (content m') (filter (needs_reload i) (vma_tree (as_vmas s))) (as_bytes s)\<rparr>"
  have s': "file_bytes i s' = content m'" "as_bytes s' = refresh (content m') (filter (needs_reload i) (vma_tree (as_vmas s))) (as_bytes s)"
    by (simp_all add: s'_def)
  have "as_bytes s (b + j) = file_bytes i s ! (vma_offset v + d + j)" if "j < k" for j
  proof -
    have "is_addr_in_vma (b + j) v" "shown v (b + j) = vma_offset v + d + j"
      using that assms(9,12,13) by (auto simp: is_addr_in_vma_def shown_def)
    then show ?thesis using assms(7) by metis
  qed
  then have mem: "map (as_bytes s) [b..<b + k] = take k (drop (vma_offset v + d) (file_bytes i s))"
    using k(3) by (intro nth_equalityI) (auto simp: add.assoc)
  have "file_bytes i s' ! (vma_offset v + j) = file_bytes i s ! (vma_offset v + d + j)" if "j < k" for j
    using that k(3) unfolding s'(1) w(2) mem by (simp add: nth_append)
  moreover have "as_bytes s' (vma_begin v + j) = file_bytes i s' ! (vma_offset v + j)" if "j < k" for j
  proof -
    have "is_addr_in_vma (vma_begin v + j) v" "shown v (vma_begin v + j) = vma_offset v + j" "vma_offset v + j < length (content m')"
      using that assms(9,13) k(3) by (auto simp: is_addr_in_vma_def shown_def w(2))
    then show ?thesis unfolding s' using refresh_shows(1) [OF mappings_vmas_ok [OF ok(1)] assms(4,5)] by metis
  qed
  ultimately show ?thesis using w(1) [folded s'_def] w(2) [unfolded mem, folded s'(1)] by metis
qed

text \<open>A fresh mapping of a file of tmpfs shows the file, and zeros behind its end.\<close>

theorem tmpfs_mmap_shows_file:
  assumes "hdl_inode hdl = Some i" "mem_file_ok (ti_mem (fs_state s i))" "\<And>k. 0 \<le> pal k" "a \<noteq> 0"
    "LINUX_PROT_TO_PAL prot fl = Some p" "offset < 2 ^ 63"
  shows "\<exists>c. tmpfs_mmap pal hdl a n prot fl offset s = Some (0, s\<lparr>pal_calls := c,
    as_prot := \<lambda>x. if span a n x then Some p else as_prot s x,
    as_bytes := \<lambda>x. if span a n x then if offset + (x - a) < length (file_bytes i s) then file_bytes i s ! (offset + (x - a)) else 0
      else as_bytes s x\<rparr>)"
  using tmpfs_file.mmap_shows_file [of hdl s pal a prot fl p offset n] assms by (simp add: tmpfs_mmap_def cong: if_cong)

subsection \<open>Example\<close>

text \<open>A file of six pages, each filled with its number, of which the region of the small address space shows the last four.\<close>

definition demo_file_page :: "nat \<Rightarrow> byte" where
  "demo_file_page j = of_nat (j div 0x1000)"

definition demo_space :: "tmpfs addr_space" where
  "demo_space = \<lparr>as_bytes = \<lambda>x. demo_file_page (0x2000 + (x - 0x10000)), as_prot = \<lambda>x. Some 3, pal_calls = 0, as_vmas = demo_state,
     fs_state = \<lambda>i. \<lparr>ti_mem = \<lparr>mf_buf = map demo_file_page [0..<0x6000], mf_size = 0x6000, mf_buf_size = 0x6000\<rparr>, ti_size = 0x6000\<rparr>\<rparr>"

lemma demo_vma_mapped:
  "demo_vma \<in> set (vma_tree (as_vmas demo_space))" "needs_reload 3 demo_vma" "has_flag (vma_prot demo_vma) PROT_READ"
  by (simp_all add: demo_space_def demo_defs needs_reload_def not_shared_file_def vma_consts)

lemma demo_content: "file_bytes 3 demo_space = map demo_file_page [0..<0x6000]"
  by (simp add: demo_space_def content_def)


lemma demo_tmpfs_ok: "tmpfs_ok 3 demo_space"
proof -
  have prot: "LINUX_PROT_TO_PAL 3 MAP_SHARED = Some 3"
    by (simp add: LINUX_PROT_TO_PAL_def WITHIN_MASK_def pal_prot_defs vma_consts PROT_NONE_def PROT_GROWSDOWN_def PROT_GROWSUP_def PROT_EXEC_def)
  have tree: "vma_tree (as_vmas demo_space) = [demo_vma, demo_libos_vma]" "as_vmas demo_space = demo_state"
    by (simp_all add: demo_space_def demo_state_def)
  have "backed demo_space"
    unfolding backed_def tree(1) using prot by (simp add: demo_space_def demo_vma_def demo_libos_vma_def vma_consts)
  moreover have "shared_have_files [demo_vma, demo_libos_vma]"
    by (simp add: shared_have_files_def demo_defs not_shared_file_def vma_consts)
  ultimately have "mappings_ok 3 demo_space" using demo_inv tree by (simp add: mappings_ok_def) (simp add: demo_defs)
  then show ?thesis
    by (simp add: tmpfs_ok_def) (simp add: demo_space_def mem_file_ok_def clean_def slack_def FILE_OFF_MAX_def)
qed


theorem tmpfs_msync_writes_back_witness:
  "\<exists>s'. msync_region (\<lambda>k. True) (\<lambda>k. 0) 0 0x12000 demo_vma (demo_space\<lparr>as_bytes := \<lambda>x. 9\<rparr>) = Some (0, s') \<and>
     file_bytes 3 s' ! 0x1fff = 1 \<and> file_bytes 3 s' ! 0x2000 = 9 \<and> file_bytes 3 s' ! 0x3fff = 9 \<and> file_bytes 3 s' ! 0x4000 = 4"
proof -
  let ?s = "demo_space\<lparr>as_bytes := \<lambda>x. 9\<rparr>"
  have vma: "vma_begin demo_vma = 0x10000" "vma_end demo_vma = 0x14000" "vma_offset demo_vma = 0x2000" by (simp_all add: demo_vma_def)
  have s: "tmpfs_ok 3 ?s" "demo_vma \<in> set (vma_tree (as_vmas ?s))" "file_bytes 3 ?s = map demo_file_page [0..<0x6000]"
    using demo_tmpfs_ok demo_vma_mapped(1) demo_content by (simp_all add: tmpfs_ok_def)
  have "(0::nat) \<le> vma_begin demo_vma" "vma_begin demo_vma < 0x12000" "vma_offset demo_vma < length (file_bytes 3 ?s)" unfolding s(3) by (simp_all add: vma)
  then obtain s' where s': "msync_region (\<lambda>k. True) (\<lambda>k. 0) 0 0x12000 demo_vma ?s = Some (0, s')"
    "\<And>x. is_addr_in_vma x demo_vma \<and> x < 0x12000 \<and> shown demo_vma x < length (file_bytes 3 ?s) \<Longrightarrow> file_bytes 3 s' ! shown demo_vma x = as_bytes ?s x"
    "\<And>j. j < length (file_bytes 3 ?s) \<Longrightarrow> (\<forall>x. is_addr_in_vma x demo_vma \<and> x < 0x12000 \<longrightarrow> shown demo_vma x \<noteq> j) \<Longrightarrow> file_bytes 3 s' ! j = file_bytes 3 ?s ! j"
    using tmpfs_msync_writes_back [where b = 0 and e = "0x12000" and calloc = "\<lambda>k. True" and pal = "\<lambda>k. 0", OF s(1) _ _ s(2) demo_vma_mapped(2,3)] by blast
  have "file_bytes 3 s' ! 0x2000 = 9" "file_bytes 3 s' ! 0x3fff = 9"
    using s'(2) [of "0x10000"] s'(2) [of "0x11fff"] unfolding s(3) by (simp_all add: is_addr_in_vma_def shown_def vma)
  moreover have "0x2000 \<le> shown demo_vma x" "shown demo_vma x < 0x4000" if "is_addr_in_vma x demo_vma \<and> x < 0x12000" for x
    using that by (auto simp: is_addr_in_vma_def shown_def vma)
  then have "\<forall>x. is_addr_in_vma x demo_vma \<and> x < 0x12000 \<longrightarrow> shown demo_vma x \<noteq> 0x1fff"
    "\<forall>x. is_addr_in_vma x demo_vma \<and> x < 0x12000 \<longrightarrow> shown demo_vma x \<noteq> 0x4000" by fastforce+
  with s'(3) have "file_bytes 3 s' ! 0x1fff = 1" "file_bytes 3 s' ! 0x4000 = 4" unfolding s(3) by (simp_all add: demo_file_page_def)
  ultimately show ?thesis using s'(1) by blast
qed

theorem tmpfs_partial_msync_corrupts_witness:
  "file_bytes 3 demo_space ! 0x2000 = 2 \<and> as_bytes demo_space 0x10000 = 2 \<and>
   (\<exists>s'. msync_region (\<lambda>k. True) (\<lambda>k. 0) 0x12000 0x14000 demo_vma demo_space = Some (0, s') \<and>
      file_bytes 3 s' ! 0x2000 = 4 \<and> as_bytes s' 0x10000 = 4)"
proof -
  have vma: "vma_begin demo_vma = 0x10000" "vma_end demo_vma = 0x14000" "vma_offset demo_vma = 0x2000" by (simp_all add: demo_vma_def)
  have same: "as_bytes demo_space x = file_bytes 3 demo_space ! shown demo_vma x" if "is_addr_in_vma x demo_vma" for x
  proof -
    have "0x2000 + (x - 0x10000) < 0x6000" using that by (auto simp: is_addr_in_vma_def vma)
    then have "map demo_file_page [0..<0x6000] ! (0x2000 + (x - 0x10000)) = demo_file_page (0x2000 + (x - 0x10000))" by (subst nth_map_upt) simp_all
    then show ?thesis unfolding demo_content shown_def vma by (simp add: demo_space_def)
  qed
  have lim: "vma_offset demo_vma + (vma_end demo_vma - vma_begin demo_vma) \<le> length (file_bytes 3 demo_space)"
    "vma_begin demo_vma < 0x12000" "0x12000 < vma_end demo_vma" "vma_end demo_vma \<le> 0x14000"
    "0x2000 = 0x12000 - vma_begin demo_vma" "0x2000 = vma_end demo_vma - 0x12000" unfolding demo_content by (simp_all add: vma)
  obtain s' where s': "msync_region (\<lambda>k. True) (\<lambda>k. 0) 0x12000 0x14000 demo_vma demo_space = Some (0, s')"
    "\<forall>j<0x2000. file_bytes 3 s' ! (0x2000 + j) = file_bytes 3 demo_space ! (0x2000 + 0x2000 + j) \<and>
       as_bytes s' (0x10000 + j) = file_bytes 3 demo_space ! (0x2000 + 0x2000 + j)"
    using tmpfs_partial_msync_corrupts [where calloc = "\<lambda>k. True" and pal = "\<lambda>k. 0",
      OF demo_tmpfs_ok order_refl TrueI demo_vma_mapped same lim] unfolding vma(1,3) by blast
  then have "file_bytes 3 s' ! (0x2000 + 0) = file_bytes 3 demo_space ! (0x2000 + 0x2000 + 0)"
    "as_bytes s' (0x10000 + 0) = file_bytes 3 demo_space ! (0x2000 + 0x2000 + 0)" by (metis zero_less_numeral)+
  then show ?thesis using \<open>msync_region _ _ _ _ _ _ = _\<close> unfolding demo_content
    by (simp add: demo_file_page_def) (simp add: demo_space_def demo_file_page_def)
qed

end
