(* ===== verification/Spec2Isabelle.thy ===== *)
theory Spec2Isabelle
  imports Memmgr Vma_Protect Sg_Setup Input_Race File_Lock_Spec Path_Norm Sysv_Sem Fcntl_Calls Rw_Lock Mapped_File
begin

text \<open>
  A verification development for Tirith. Unmodified GPU applications run under a modified Gramine LibOS inside a
  confidential virtual machine. The LibOS (\<^verbatim>\<open>src/gramine-tdx\<close>) keeps the process's memory, descriptors, locks and
  semaphores itself and redirects GPU-related system calls over a page of shared memory to a listener thread in QEMU
  (\<^verbatim>\<open>src/qemu/util/sg-listener.c\<close>), which performs them on the host. Libraries preloaded into the application
  (\<^verbatim>\<open>src/egl-redirect\<close>) set the page up and read input events from its tail. Paths below are relative to \<^verbatim>\<open>src/\<close>, and
  those that start with \<^verbatim>\<open>common\<close>, \<^verbatim>\<open>libos\<close> or \<^verbatim>\<open>pal\<close> to \<^verbatim>\<open>src/gramine-tdx/\<close>.

  \<^bold>\<open>Conventions.\<close> Addresses, lengths and offsets are naturals, and where the source can wrap around the reduction is
  written out (\<open>u64\<close>); flags are 32-bit words; the listener keeps all C integers at their width. An error number is a
  negative integer. \<open>None\<close> is a failed assertion, \<^verbatim>\<open>BUG()\<close>, the use of a null or uninitialised pointer, an access
  out of bounds or against a protection, or a loop that does not end; a theorem about a result of such a function
  shows that it is \<open>Some\<close>, or says in which states it is not. Allocation, answers of the host, results of the PAL and operations of file systems outside the
  model are arguments, arbitrary unless a hypothesis says otherwise. Where a lock makes a call atomic it is one
  function on the state; where threads interleave, each access the others can see is a step of an inductive
  relation, and where a thread stands is a program counter in the state. Functions of the source whose name starts with
  an underscore have the prefix \<open>u_\<close>.

  \<^bold>\<open>Memory of the LibOS.\<close>
  \<^item> \<open>Avl_Tree\<close> is \<^verbatim>\<open>common/src/avl_tree.c\<close>: insertion, deletion, node swap, search and iteration on trees with balance
    factors, the parent chain as a list of frames. Insertion and deletion keep balance and order and change the
    in-order sequence as intended. Locale \<open>ordered_store\<close> is the interface, interpreted as \<open>avl_store\<close>.
  \<^item> \<open>Memmgr\<close> is \<^verbatim>\<open>common/include/memmgr.h\<close>: objects handed out are distinct from those in use, and given back ones
    are reused. Locale \<open>object_pool\<close>, interpretation \<open>mgr_pool\<close>.
  \<^item> \<open>Vma\<close>, \<open>Vma_Any\<close>, \<open>Vma_Map\<close>, \<open>Vma_Protect\<close> and \<open>Vma_Query\<close> are \<^verbatim>\<open>libos/src/bookkeep/libos_vma.c\<close>: the ordered sequence of
    regions (\<open>vma_tree_refinement\<close>: what the AVL operations do to it), the invariant \<open>vma_inv\<close> (ordered, disjoint,
    aligned regions; counters and file references that agree with them) and the view \<open>page_map\<close> of what each address
    shows. Removal, unmapping, fixed and free placement, and protection changes keep the first and change the second
    exactly as asked, except that a protection change fails an assertion on the end of the last region; the search for free space returns the highest fit; the check of user ranges is exact; copies
    list exactly the regions of a range; \<^verbatim>\<open>msync_all\<close> calls the file systems on the right parts but with the
    offset of the start of the region. Region objects come from a thread cache or from \<open>Memmgr\<close> (locale
    \<open>vma_allocator\<close>, interpretations \<open>cache_alloc\<close> and \<open>full_alloc\<close>).
  \<^item> \<open>Mem_File\<close> is \<^verbatim>\<open>libos/src/fs/libos_fs_mem.c\<close>, files as byte sequences in a buffer that grows and shrinks: reads and
    writes are those of a byte sequence, both capacity loops end, and a file that was cut and is extended again, or written
    behind its end, shows its old bytes.
  \<^item> \<open>Mapped_File\<close> puts memory with protections behind the regions: \<^verbatim>\<open>madvise(MADV_DONTNEED)\<close>, the reloading of mappings,
    the emulated \<^verbatim>\<open>mmap\<close> and \<^verbatim>\<open>msync\<close> of \<^verbatim>\<open>libos/src/fs/libos_fs_util.c\<close> and \<^verbatim>\<open>libos/src/fs/tmpfs/fs.c\<close>. The loops
    rely on a reading callback (locale \<open>byte_reader\<close>), which \<^verbatim>\<open>tmpfs_read\<close> is (\<open>tmpfs_file\<close>). After a write all shared mappings
    show the file; writing back a whole mapping is right; writing back its end damages the file.

  \<^bold>\<open>Descriptors, files and synchronisation.\<close>
  \<^item> \<open>Path_Norm\<close> is \<^verbatim>\<open>common/src/path_utils.c\<close>: the in-place algorithm equals resolving the components on a stack.
  \<^item> \<open>Handle_Map\<close> and \<open>Fd_Calls\<close> are \<^verbatim>\<open>libos/src/bookkeep/libos_handle.c\<close>, \<^verbatim>\<open>libos/src/sys/libos_dup.c\<close> and the descriptor calls
    of \<^verbatim>\<open>libos/src/sys/libos_open.c\<close>: over any sequence of calls the table is well formed and every descriptor has a live handle
    with enough references. Walks over the table share the locale \<open>table_walk\<close> (\<open>walk_detach\<close>, \<open>walk_cloexec\<close>,
    \<open>walk_range\<close>).
  \<^item> \<open>File_Lock\<close>, \<open>File_Lock_Requests\<close>, \<open>File_Lock_Ops\<close> and \<open>File_Lock_Spec\<close> are \<^verbatim>\<open>libos/src/fs/libos_fs_lock.c\<close>: POSIX
    ranges that split and merge, BSD locks, blocked requests and their processing, and the operations of system calls and
    IPC. \<open>lock_step\<close> interleaves them, the handler of an IPC request in its two halves and a waiting call in its two
    parts, with any failures of allocations, event creations and waits; one invariant over all files holds throughout.
    A request without a waiter is \<open>notify = None\<close>, and \<open>file_lock_request_without_waiter\<close> has the three paths to it.
    Requests are named by the number of the allocation that made them. Locale \<open>lock_mode\<close> has the laws of a kind of lock (\<open>posix\<close>, \<open>flock\<close>,
    \<open>cleared\<close>).
  \<^item> \<open>Fcntl_Calls\<close> is \<^verbatim>\<open>libos/src/sys/libos_fcntl.c\<close> on top of both: \<^verbatim>\<open>fcntl\<close> with every command, \<^verbatim>\<open>flock\<close>, and what
    closing does to locks; the invariants of table, references and locks are kept together. A byte range is described by the bytes
    that \<^verbatim>\<open>struct flock\<close> denotes, locks by the bytes each process holds (\<open>lock_view\<close>).
  \<^item> \<open>Rw_Lock\<close> is \<^verbatim>\<open>libos/src/libos_rwlock.c\<close>: mutual exclusion and progress under any interleaving.
  \<^item> \<open>Sysv_Sem\<close> is \<^verbatim>\<open>libos/src/sys/libos_sem.c\<close> with the PAL events it waits on: values and waiter counts, progress for
    unit decrements, and the lost wake-up for larger ones.

  \<^bold>\<open>Redirection.\<close>
  \<^item> \<open>Sg_Listener\<close> is the dispatch of \<^verbatim>\<open>sg-listener.c\<close> over an abstract host, \<open>Gem_Arena\<close> its allocator of GPU buffers
    (locale \<open>range_allocator\<close>, interpretation \<open>gem\<close>): buffers lie in the arenas and are disjoint.
  \<^item> \<open>Sg_Protocol\<close> interleaves guest threads (\<^verbatim>\<open>libos/include/libos_sg.h\<close>, \<^verbatim>\<open>libos/src/sys/libos_sg_lock.c\<close>) and the listener on
    the page: calls are linear, and once a call is published the steps of its thread and the listener alone end it
    (\<open>own_step\<close>). The lock object exists from the start (its lazy creation belongs to the set-up), and the listener
    serves a request in one step, since nobody writes the page meanwhile. \<open>Sg_Setup\<close> is the handshake of
    \<^verbatim>\<open>egl-redirect/gramine.c\<close> with the listener: it ends in an initial state of the protocol.
  \<^item> \<open>Input_Ring\<close> and \<open>Input_Race\<close> are \<^verbatim>\<open>egl-redirect/input_ring.h\<close> with its users in \<^verbatim>\<open>xcb.c\<close> and \<^verbatim>\<open>glx.c\<close>: the ring is a bounded
    queue (locale \<open>bounded_fifo\<close>, interpretation \<open>input_ring\<close>), also under interleaving, while the motion slot, a
    sequence lock for one writer, can be read as a mixture of any two events when its two writers overlap.

  \<open>Prelude\<close> has the types, alignment macros, error numbers and list and thread-counting lemmas they share.

  \<^bold>\<open>How the parts meet.\<close> \<open>Vma\<close> uses \<open>Avl_Tree\<close>, \<open>Vma_Any\<close> uses \<open>Memmgr\<close>, \<open>Mapped_File\<close> joins the regions with the files,
  \<open>Fcntl_Calls\<close> joins descriptors and locks, \<open>Sg_Setup\<close> joins the handshake, the protocol and the arenas.

  \<^bold>\<open>Bounds.\<close> The table walks take \<^verbatim>\<open>fd_size\<close> rounds, one per slot; table sizes and the limit of descriptors are at most
  \<open>2 ^ 31\<close>, as \<^verbatim>\<open>int\<close> results require. \<^verbatim>\<open>dump_vmas\<close> has two rounds, enough while no other thread changes the tree
  between them (\<open>dump_vmas_exact\<close>). Waiting in a semaphore call forwarded to the host has a number of rounds as an
  argument. The loops of \<open>Mem_File\<close> and \<open>Mapped_File\<close> have no bound; that they end is part of the theorems.

  \<^bold>\<open>Hypotheses.\<close> Theorems on the effect of \<^verbatim>\<open>fcntl\<close> and \<^verbatim>\<open>close\<close> on locks are about the process that leads the lock table, and
  about files whose pending requests have their waiters. Theorems on \<open>Mapped_File\<close> assume that the PAL grants its calls and that memory has the protection the
  bookkeeping says; that a failed restoring of a protection ends the process is in the model. \<open>Rw_Lock\<close> and the
  protocols assume sequentially consistent accesses and threads that follow the calls of the source.

  \<^bold>\<open>Not modelled.\<close> Two first calls that create the lock of the page at the same time (\<^verbatim>\<open>ensure_lock_ready\<close>). Initialisation and checkpointing of regions and handles, which copy state to a child process; the file
  systems other than the parts of tmpfs above; the rest of the system calls of the LibOS; the PAL, host back ends in
  assembly and system calls; QEMU's device models, Mesa and sharedgl, which are third-party or generated; the
  interposers of EGL, GLX and XCB, which forward to libraries; weak memory; example programs and scripts.
\<close>

end
